(* ===== verification/Dfly_Prelude.thy ===== *)
theory Dfly_Prelude
  imports Main "HOL-Library.Word" "HOL-Library.AList"
begin

text \<open>
  Shared vocabulary of the development: the widths of the machine integers the C++ code uses,
  the types of keys and database indices, the lemma collections the components add to, and the
  generic facts on words, lists and association lists that several components rely on.
\<close>

unbundle bit_operations_syntax

type_synonym u8 = "8 word"
type_synonym u16 = "16 word"
type_synonym u32 = "32 word"
type_synonym u64 = "64 word"

text \<open>Keys and command names are byte strings; a \<^verbatim>\<open>DbIndex\<close> is only compared and used as an index.\<close>

type_synonym key = string
type_synonym db_index = nat

named_theorems stamp_simps \<open>bit-level facts about version stamps\<close>
named_theorems table_simps \<open>sizes and lookups of association-list tables\<close>

subsection \<open>Words\<close>

lemma unat_lt_u32: "unat (x :: u32) < 4294967296"
  using unsigned_less [of x] by simp

lemma unat_lt_u64: "unat (x :: u64) < 18446744073709551616"
  using unsigned_less [of x] by simp

lemma word_le_max_u64: "(x :: u64) \<le> 18446744073709551615"
  using unat_lt_u64 [of x] by (simp add: word_le_nat_alt)

lemma unat_max_u64 [simp]: "unat (- 1 :: u64) = 18446744073709551615"
  by (simp add: unsigned_minus_1_eq_mask mask_eq_exp_minus_1)

lemma not_max_less [simp]: "\<not> - 1 < (x :: 'a::len word)"
  by (simp add: linorder_not_less word_n1_ge)

lemma unat_Suc_word:
  fixes x :: "'a::len word"
  assumes "x \<noteq> - 1"
  shows "unat (x + 1) = Suc (unat x)"
proof -
  have "1 + x \<noteq> 0" using assms by (metis add.commute add_eq_0_iff)
  then show ?thesis using unatSuc [of x] by (simp add: add.commute)
qed

lemma word_Suc_less:
  fixes x :: "'a::len word"
  assumes "x \<noteq> - 1"
  shows "x < x + 1"
  using unat_Suc_word [OF assms] by (simp add: word_less_nat_alt)

lemma word_less_Suc_iff:
  fixes x y :: "'a::len word"
  assumes "x \<noteq> - 1"
  shows "y < x + 1 \<longleftrightarrow> y \<le> x"
  using unat_Suc_word [OF assms] by (simp add: word_less_nat_alt word_le_nat_alt less_Suc_eq_le)

lemma word_Suc_le_iff:
  fixes x y :: "'a::len word"
  assumes "x \<noteq> - 1"
  shows "x + 1 \<le> y \<longleftrightarrow> x < y"
  using unat_Suc_word [OF assms] by (simp add: word_less_nat_alt word_le_nat_alt Suc_le_eq)

lemma word_less_Suc_cases:
  fixes x y :: "'a::len word"
  assumes "x \<noteq> - 1"
  shows "x < y \<longleftrightarrow> x + 1 < y \<or> y = x + 1"
  using word_Suc_le_iff [OF assms, of y] by (auto simp: order.order_iff_strict)

lemma unat_pred_word:
  fixes x :: "'a::len word"
  assumes "x \<noteq> 0"
  shows "unat (x - 1) = unat x - 1"
  using assms unat_minus_one by blast

lemma word_pred_less:
  fixes x :: "'a::len word"
  assumes "x \<noteq> 0"
  shows "x - 1 < x"
proof -
  have "0 < unat x" using assms by (simp add: unat_gt_0)
  then show ?thesis using unat_pred_word [OF assms] by (simp add: word_less_nat_alt)
qed

lemma word_le_pred_iff:
  fixes x y :: "'a::len word"
  assumes "x \<noteq> 0"
  shows "y \<le> x - 1 \<longleftrightarrow> y < x"
proof -
  have "0 < unat x" using assms by (simp add: unat_gt_0)
  then show ?thesis
    using unat_pred_word [OF assms] by (auto simp: word_less_nat_alt word_le_nat_alt)
qed

lemma word_pred_less_iff:
  fixes x y :: "'a::len word"
  assumes "x \<noteq> 0"
  shows "x - 1 < y \<longleftrightarrow> x \<le> y"
proof -
  have "0 < unat x" using assms by (simp add: unat_gt_0)
  then show ?thesis
    using unat_pred_word [OF assms] by (auto simp: word_less_nat_alt word_le_nat_alt)
qed

subsection \<open>Lists\<close>

lemma filter_nth_split:
  assumes "i < length xs" "\<not> P (xs ! i)" "\<And>j. j < length xs \<Longrightarrow> j \<noteq> i \<Longrightarrow> P (xs ! j)"
  shows "filter P xs = take i xs @ drop (Suc i) xs"
proof -
  have "filter P (take i xs) = take i xs"
    using assms by (auto simp: filter_id_conv in_set_conv_nth)
  moreover have "filter P (drop (Suc i) xs) = drop (Suc i) xs"
    using assms by (auto simp: filter_id_conv in_set_conv_nth)
  moreover have "xs = take i xs @ xs ! i # drop (Suc i) xs"
    using assms(1) by (simp add: id_take_nth_drop)
  ultimately show ?thesis
    using assms(2) by (metis filter.simps(2) filter_append)
qed

lemma fold_invariant:
  assumes "P s" "\<And>x s. x \<in> set xs \<Longrightarrow> P s \<Longrightarrow> P (f x s)"
  shows "P (fold f xs s)"
  using assms by (induction xs arbitrary: s) auto

lemma unat_of_nat_u32: "n < 2 ^ 32 \<Longrightarrow> unat (of_nat n :: u32) = n"
  by (simp add: unat_of_nat take_bit_nat_eq_self)

lemma unat_plus_no_wrap:
  fixes a b :: u64
  assumes "unat a + unat b < 2 ^ 64"
  shows "unat (a + b) = unat a + unat b"
  using assms by (simp add: unat_word_ariths)

end
