(* ===== verification/Peer_Replication.thy ===== *)
theory Peer_Replication
  imports Dfly_Prelude "HOL-Library.Char_ord" "HOL-Library.List_Lexorder"
begin

text \<open>
  \<^verbatim>\<open>src/server/peer_replication.cc\<close>: the claims on remote node identities, the reciprocal-connect
  tiebreak, the FIFO \<^verbatim>\<open>SyncGate\<close> and the manager of peer links. Every method takes an internal mutex, so
  one method call (for \<^verbatim>\<open>Acquire\<close> and \<^verbatim>\<open>Add\<close>: one critical section) is one atomic step; the
  interleavings of several fibers are the step relations \<open>gate_step\<close> and \<open>mgr_step\<close>.
\<close>

subsection \<open>PeerIdentityClaims\<close>

record claim =
  owner_id :: u64
  established :: bool

record peer_identity_claims =
  owners_by_uuid :: "string \<rightharpoonup> claim"
  uuids_by_owner :: "u64 \<rightharpoonup> string"

definition claims_empty :: peer_identity_claims where
  "claims_empty = \<lparr>owners_by_uuid = Map.empty, uuids_by_owner = Map.empty\<rparr>"

definition ReleaseLocked :: "u64 \<Rightarrow> peer_identity_claims \<Rightarrow> peer_identity_claims" where
  "ReleaseLocked owner c =
     (case uuids_by_owner c owner of
        None \<Rightarrow> c
      | Some u \<Rightarrow>
          (let c1 = (case owners_by_uuid c u of
                       None \<Rightarrow> c
                     | Some cl \<Rightarrow> if owner_id cl = owner
                                  then c\<lparr>owners_by_uuid := (owners_by_uuid c)(u := None)\<rparr> else c)
           in c1\<lparr>uuids_by_owner := (uuids_by_owner c1)(owner := None)\<rparr>))"

definition claims_Release :: "u64 \<Rightarrow> peer_identity_claims \<Rightarrow> peer_identity_claims" where
  "claims_Release owner c = ReleaseLocked owner c"

definition TryClaim :: "u64 \<Rightarrow> string \<Rightarrow> peer_identity_claims \<Rightarrow> bool \<times> peer_identity_claims" where
  "TryClaim owner uuid c =
     (if (case owners_by_uuid c uuid of None \<Rightarrow> False | Some cl \<Rightarrow> owner_id cl \<noteq> owner)
      then (False, ReleaseLocked owner c)
      else
        (let c1 = (case uuids_by_owner c owner of
                     Some u \<Rightarrow>
                       if u \<noteq> uuid
                       then c\<lparr>owners_by_uuid := (owners_by_uuid c)(u := None),
                              uuids_by_owner := (uuids_by_owner c)(owner \<mapsto> uuid)\<rparr>
                       else c
                   | None \<Rightarrow> c\<lparr>uuids_by_owner := (uuids_by_owner c)(owner \<mapsto> uuid)\<rparr>)
         in (True, c1\<lparr>owners_by_uuid := (owners_by_uuid c1)
                         (uuid \<mapsto> \<lparr>owner_id = owner, established = False\<rparr>)\<rparr>)))"

definition MarkEstablished :: "u64 \<Rightarrow> peer_identity_claims \<Rightarrow> peer_identity_claims" where
  "MarkEstablished owner c =
     (case uuids_by_owner c owner of
        None \<Rightarrow> c
      | Some u \<Rightarrow>
          (case owners_by_uuid c u of
             None \<Rightarrow> c
           | Some cl \<Rightarrow> if owner_id cl = owner
                        then c\<lparr>owners_by_uuid := (owners_by_uuid c)(u \<mapsto> cl\<lparr>established := True\<rparr>)\<rparr>
                        else c))"

definition HasUnestablishedClaim :: "string \<Rightarrow> peer_identity_claims \<Rightarrow> bool" where
  "HasUnestablishedClaim uuid c =
     (case owners_by_uuid c uuid of None \<Rightarrow> False | Some cl \<Rightarrow> \<not> established cl)"

definition ShouldRefuseReciprocalPeer :: "bool \<Rightarrow> string \<Rightarrow> string \<Rightarrow> bool" where
  "ShouldRefuseReciprocalPeer has_unestablished_own_link self_uuid peer_uuid =
     (has_unestablished_own_link \<and> self_uuid < peer_uuid)"

subsection \<open>SyncGate\<close>

record sync_gate =
  held :: bool
  next_ticket :: u64
  waiters :: "u64 list"

definition gate_init :: sync_gate where
  "gate_init = \<lparr>held = False, next_ticket = 0, waiters = []\<rparr>"

text \<open>\<open>Acquire_enter\<close> is the part of \<^verbatim>\<open>Acquire\<close> before its loop, \<open>Acquire_poll\<close> one iteration of the
  loop: with the value of \<^verbatim>\<open>cancelled()\<close> and of \<^verbatim>\<open>external_loading_ && external_loading_()\<close> at that
  moment it returns an empty lease, the gate, or waits on the condition variable.\<close>

datatype poll_result = EmptyLease | HeldLease | KeepWaiting

definition Acquire_enter :: "sync_gate \<Rightarrow> u64 \<times> sync_gate" where
  "Acquire_enter g = (next_ticket g, g\<lparr>next_ticket := next_ticket g + 1, waiters := waiters g @ [next_ticket g]\<rparr>)"

definition gate_ready :: "bool \<Rightarrow> u64 \<Rightarrow> sync_gate \<Rightarrow> bool" where
  "gate_ready loading ticket g = (\<not> held g \<and> hd (waiters g) = ticket \<and> \<not> loading)"

definition Acquire_poll :: "bool \<Rightarrow> bool \<Rightarrow> u64 \<Rightarrow> sync_gate \<Rightarrow> poll_result \<times> sync_gate" where
  "Acquire_poll cancelled loading ticket g =
     (if cancelled then (EmptyLease, g\<lparr>waiters := remove1 ticket (waiters g)\<rparr>)
      else if gate_ready loading ticket g then (HeldLease, g\<lparr>waiters := tl (waiters g), held := True\<rparr>)
      else (KeepWaiting, g))"

definition gate_Release :: "sync_gate \<Rightarrow> sync_gate" where
  "gate_Release g = g\<lparr>held := False\<rparr>"

definition IsHeld :: "sync_gate \<Rightarrow> bool" where "IsHeld g = held g"

definition NumWaiting :: "sync_gate \<Rightarrow> nat" where "NumWaiting g = length (waiters g)"

text \<open>A \<^verbatim>\<open>Lease\<close> is its \<^verbatim>\<open>gate_ != nullptr\<close>. The move constructor empties its source; move assignment
  between distinct objects first releases what the target holds; the destructor releases.\<close>

definition Lease_move :: "bool \<Rightarrow> bool \<times> bool" where
  "Lease_move src = (src, False)"

definition Lease_assign :: "bool \<Rightarrow> bool \<Rightarrow> bool \<Rightarrow> sync_gate \<Rightarrow> bool \<times> bool \<times> sync_gate" where
  "Lease_assign same dst src g =
     (if same then (dst, src, g)
      else (let g1 = (if dst then gate_Release g else g) in (src, False, g1)))"

definition Lease_destroy :: "bool \<Rightarrow> sync_gate \<Rightarrow> sync_gate" where
  "Lease_destroy l g = (if l then gate_Release g else g)"

text \<open>The gate together with all lease objects (by index), the number of \<^verbatim>\<open>Acquire\<close> calls so far and
  the tickets in the order in which they were granted.\<close>

record gate_sys =
  gate :: sync_gate
  leases :: "nat \<Rightarrow> bool"
  entered :: nat
  granted :: "u64 list"

definition gate_sys_init :: gate_sys where
  "gate_sys_init = \<lparr>gate = gate_init, leases = (\<lambda>_. False), entered = 0, granted = []\<rparr>"

inductive gate_step :: "gate_sys \<Rightarrow> gate_sys \<Rightarrow> bool" where
  enter: "gate_step s (s\<lparr>gate := snd (Acquire_enter (gate s)), entered := Suc (entered s)\<rparr>)"
| poll_wait: "t \<in> set (waiters (gate s)) \<Longrightarrow> Acquire_poll c l t (gate s) = (KeepWaiting, g) \<Longrightarrow>
    gate_step s (s\<lparr>gate := g\<rparr>)"
| poll_cancel: "t \<in> set (waiters (gate s)) \<Longrightarrow> Acquire_poll c l t (gate s) = (EmptyLease, g) \<Longrightarrow>
    gate_step s (s\<lparr>gate := g\<rparr>)"
| poll_grant: "t \<in> set (waiters (gate s)) \<Longrightarrow> Acquire_poll c l t (gate s) = (HeldLease, g) \<Longrightarrow>
    \<not> leases s i \<Longrightarrow>
    gate_step s (s\<lparr>gate := g, leases := (leases s)(i := True), granted := granted s @ [t]\<rparr>)"
| move: "i \<noteq> j \<Longrightarrow> \<not> leases s j \<Longrightarrow> Lease_move (leases s i) = (a, b) \<Longrightarrow>
    gate_step s (s\<lparr>leases := (leases s)(j := a, i := b)\<rparr>)"
| assign: "Lease_assign (i = j) (leases s j) (leases s i) (gate s) = (a, b, g) \<Longrightarrow>
    gate_step s (s\<lparr>gate := g, leases := (leases s)(j := a, i := b)\<rparr>)"
| destroy: "gate_step s (s\<lparr>gate := Lease_destroy (leases s i) (gate s), leases := (leases s)(i := False)\<rparr>)"

inductive gate_reachable :: "gate_sys \<Rightarrow> bool" where
  init: "gate_reachable gate_sys_init"
| step: "gate_reachable s \<Longrightarrow> gate_step s s' \<Longrightarrow> gate_reachable s'"

subsection \<open>Facts about the claims\<close>

text \<open>The two maps describe one partial bijection between owners and uuids.\<close>

definition claims_inv :: "peer_identity_claims \<Rightarrow> bool" where
  "claims_inv c = (\<forall>u o'. uuids_by_owner c o' = Some u \<longleftrightarrow>
     (\<exists>cl. owners_by_uuid c u = Some cl \<and> owner_id cl = o'))"

definition owner_of :: "peer_identity_claims \<Rightarrow> string \<Rightarrow> u64 option" where
  "owner_of c u = map_option owner_id (owners_by_uuid c u)"

lemma claims_inv_alt: "claims_inv c \<longleftrightarrow> (\<forall>u o'. uuids_by_owner c o' = Some u \<longleftrightarrow> owner_of c u = Some o')"
  by (simp add: claims_inv_def owner_of_def)

lemma claims_inv_empty: "claims_inv claims_empty"
  by (simp add: claims_inv_def claims_empty_def)

lemma claims_cases:
  assumes "claims_inv c"
  obtains (free) "uuids_by_owner c ow = None" "\<And>u. owner_of c u \<noteq> Some ow"
  | (claimed) w cl where "uuids_by_owner c ow = Some w" "owners_by_uuid c w = Some cl" "owner_id cl = ow"
      "\<And>u. owner_of c u = Some ow \<longleftrightarrow> u = w"
proof (cases "uuids_by_owner c ow")
  case None
  with assms have "owner_of c u \<noteq> Some ow" for u by (metis claims_inv_alt option.distinct(1))
  with None free show ?thesis by blast
next
  case (Some w)
  with assms obtain cl where cl: "owners_by_uuid c w = Some cl" "owner_id cl = ow"
    by (auto simp: claims_inv_def)
  have "owner_of c u = Some ow \<longleftrightarrow> u = w" for u using assms Some by (metis claims_inv_alt option.inject)
  with Some cl claimed show ?thesis by blast
qed

lemma ReleaseLocked_owner_of:
  assumes "claims_inv c"
  shows "owner_of (ReleaseLocked ow c) u = (if owner_of c u = Some ow then None else owner_of c u)"
    and "uuids_by_owner (ReleaseLocked ow c) = (uuids_by_owner c)(ow := None)"
  using assms by (cases rule: claims_cases [where ow = ow];
      auto simp: ReleaseLocked_def owner_of_def Let_def fun_upd_idem split: option.splits)+

lemma ReleaseLocked_inv: "claims_inv c \<Longrightarrow> claims_inv (ReleaseLocked ow c)"
  using ReleaseLocked_owner_of [of c ow] by (auto simp: claims_inv_alt)

lemma TryClaim_refused:
  assumes "owner_of c u = Some ow'" "ow' \<noteq> ow"
  shows "TryClaim ow u c = (False, ReleaseLocked ow c)"
  using assms by (auto simp: TryClaim_def owner_of_def)

lemma TryClaim_granted:
  assumes inv: "claims_inv c" and free: "owner_of c u = None \<or> owner_of c u = Some ow"
  shows "fst (TryClaim ow u c)"
    and "owner_of (snd (TryClaim ow u c)) v =
           (if v = u then Some ow else if owner_of c v = Some ow then None else owner_of c v)"
    and "uuids_by_owner (snd (TryClaim ow u c)) = (uuids_by_owner c)(ow \<mapsto> u)"
    and "HasUnestablishedClaim u (snd (TryClaim ow u c))"
  using inv free by (cases rule: claims_cases [where ow = ow];
      auto simp: TryClaim_def owner_of_def Let_def HasUnestablishedClaim_def split: option.splits)+

lemma TryClaim_inv:
  assumes "claims_inv c"
  shows "claims_inv (snd (TryClaim ow u c))"
proof (cases "owner_of c u = None \<or> owner_of c u = Some ow")
  case True
  from TryClaim_granted [OF assms True] assms True show ?thesis by (auto simp: claims_inv_alt)
next
  case False
  then obtain ow' where "owner_of c u = Some ow'" "ow' \<noteq> ow" by auto
  with TryClaim_refused ReleaseLocked_inv [OF assms] show ?thesis by simp
qed

lemma MarkEstablished_owner_of:
  "owner_of (MarkEstablished ow c) = owner_of c" "uuids_by_owner (MarkEstablished ow c) = uuids_by_owner c"
  by (auto simp: MarkEstablished_def owner_of_def fun_eq_iff split: option.splits)

lemma MarkEstablished_inv: "claims_inv c \<Longrightarrow> claims_inv (MarkEstablished ow c)"
  by (simp add: claims_inv_alt MarkEstablished_owner_of)

lemma MarkEstablished_done:
  assumes "claims_inv c" "owner_of c u = Some ow"
  shows "\<not> HasUnestablishedClaim u (MarkEstablished ow c)"
  using assms(1) by (cases rule: claims_cases [where ow = ow])
    (use assms(2) in \<open>auto simp: MarkEstablished_def HasUnestablishedClaim_def\<close>)

subsection \<open>Facts about the gate\<close>

definition gate_inv :: "gate_sys \<Rightarrow> bool" where
  "gate_inv s = (sorted_wrt (<) (granted s @ waiters (gate s)) \<and>
     (\<forall>t \<in> set (granted s @ waiters (gate s)). unat t < entered s) \<and>
     next_ticket (gate s) = of_nat (entered s))"

definition lease_inv :: "gate_sys \<Rightarrow> nat option \<Rightarrow> bool" where
  "lease_inv s h = (leases s = (\<lambda>i. h = Some i) \<and> held (gate s) = (h \<noteq> None))"

lemma lease_inv_step: "gate_step s s' \<Longrightarrow> lease_inv s h \<Longrightarrow> \<exists>h'. lease_inv s' h'"
proof (induction rule: gate_step.induct)
  case (poll_grant t s c l g i)
  then have "lease_inv (s\<lparr>gate := g, leases := (leases s)(i := True), granted := granted s @ [t]\<rparr>) (Some i)"
    by (auto simp: lease_inv_def fun_eq_iff Acquire_poll_def gate_ready_def split: if_splits)
  then show ?case ..
next
  case (move i j s a b)
  then have "lease_inv (s\<lparr>leases := (leases s)(j := a, i := b)\<rparr>) (if h = Some i then Some j else h)"
    by (auto simp: lease_inv_def fun_eq_iff Lease_move_def)
  then show ?case ..
next
  case (assign i j s a b g)
  then have "lease_inv (s\<lparr>gate := g, leases := (leases s)(j := a, i := b)\<rparr>)
      (if i = j then h else if h = Some i then Some j else if h = Some j then None else h)"
    by (auto simp: lease_inv_def fun_eq_iff Lease_assign_def gate_Release_def Let_def split: if_splits)
  then show ?case ..
next
  case (destroy s i)
  then have "lease_inv (s\<lparr>gate := Lease_destroy (leases s i) (gate s), leases := (leases s)(i := False)\<rparr>)
      (if h = Some i then None else h)"
    by (auto simp: lease_inv_def fun_eq_iff Lease_destroy_def gate_Release_def)
  then show ?case ..
qed (auto simp: lease_inv_def Acquire_enter_def Acquire_poll_def split: if_splits intro!: exI [of _ h])

lemma lease_inv_reachable: "gate_reachable s \<Longrightarrow> \<exists>h. lease_inv s h"
proof (induction rule: gate_reachable.induct)
  case init
  then show ?case by (simp add: gate_sys_init_def gate_init_def lease_inv_def)
qed (blast intro: lease_inv_step)

lemma sorted_wrt_remove1:
  "sorted_wrt P xs \<Longrightarrow> sorted_wrt P (remove1 x xs)"
proof (induction xs)
  case (Cons y ys)
  then show ?case using set_remove1_subset [of x ys] by auto
qed simp

lemma gate_inv_enter:
  assumes "gate_inv s" "Suc (entered s) < 2 ^ 64"
  shows "gate_inv (s\<lparr>gate := snd (Acquire_enter (gate s)), entered := Suc (entered s)\<rparr>)"
proof -
  have n: "unat (of_nat (entered s) :: u64) = entered s"
    using assms(2) by (simp add: unat_of_nat take_bit_nat_eq_self)
  then have "t < of_nat (entered s)" if "t \<in> set (granted s @ waiters (gate s))" for t :: u64
    using assms(1) that by (auto simp: gate_inv_def word_less_nat_alt)
  with assms(1) n show ?thesis
    by (auto simp: gate_inv_def Acquire_enter_def sorted_wrt_append less_Suc_eq)
qed

lemma gate_inv_step: "gate_step s s' \<Longrightarrow> entered s' < 2 ^ 64 \<Longrightarrow> gate_inv s \<Longrightarrow> gate_inv s'"
proof (induction rule: gate_step.induct)
  case (enter s)
  then show ?case using gate_inv_enter [of s] by simp
next
  case (poll_cancel t s c l g)
  then show ?case using set_remove1_subset [of t "waiters (gate s)"]
    by (auto simp: gate_inv_def Acquire_poll_def sorted_wrt_append sorted_wrt_remove1 subset_iff
        split: if_splits)
next
  case (poll_grant t s c l g i)
  then show ?case
    by (cases "waiters (gate s)") (auto simp: gate_inv_def Acquire_poll_def gate_ready_def split: if_splits)
qed (auto simp: gate_inv_def Acquire_poll_def Lease_assign_def Lease_destroy_def gate_Release_def Let_def
      split: if_splits)

lemma entered_mono: "gate_step s s' \<Longrightarrow> entered s \<le> entered s'"
  by (induction rule: gate_step.induct) auto

lemma gate_inv_reachable: "gate_reachable s \<Longrightarrow> entered s < 2 ^ 64 \<Longrightarrow> gate_inv s"
proof (induction rule: gate_reachable.induct)
  case init
  then show ?case by (simp add: gate_inv_def gate_sys_init_def gate_init_def)
next
  case (step s s')
  with entered_mono [OF step.hyps(2)] gate_inv_step [OF step.hyps(2)] show ?case by simp
qed

lemma Acquire_poll_progress:
  "waiters g \<noteq> [] \<Longrightarrow> \<not> held g \<Longrightarrow>
     Acquire_poll False False (hd (waiters g)) g = (HeldLease, g\<lparr>waiters := tl (waiters g), held := True\<rparr>)"
  by (simp add: Acquire_poll_def gate_ready_def)

subsection \<open>Properties\<close>

datatype claim_op = CTry u64 string | CRelease u64 | CMark u64

fun run_claim_op :: "claim_op \<Rightarrow> peer_identity_claims \<Rightarrow> peer_identity_claims" where
  "run_claim_op (CTry ow u) c = snd (TryClaim ow u c)"
| "run_claim_op (CRelease ow) c = claims_Release ow c"
| "run_claim_op (CMark ow) c = MarkEstablished ow c"

lemma run_claim_ops_inv: "claims_inv c \<Longrightarrow> claims_inv (fold run_claim_op ops c)"
proof (induction ops arbitrary: c)
  case (Cons op ops)
  then show ?case
    by (cases op) (simp_all add: TryClaim_inv ReleaseLocked_inv MarkEstablished_inv claims_Release_def)
qed simp

text \<open>C23: after any sequence of claim operations a node uuid is owned by at most one link; a link that claims a
  free uuid (or its own) becomes its only owner and gives up any other, and a link that claims a uuid owned by
  another link is refused, loses its own claim and leaves the other one untouched.\<close>

theorem claims_exclusive:
  assumes "c = fold run_claim_op ops claims_empty" "TryClaim ow u c = (ok, c')"
  shows "ok = (owner_of c u \<in> {None, Some ow}) \<and>
    (\<forall>v. owner_of c' v = Some ow \<longleftrightarrow> ok \<and> v = u) \<and>
    (\<forall>v ow'. ow' \<noteq> ow \<longrightarrow> (owner_of c' v = Some ow' \<longleftrightarrow> owner_of c v = Some ow'))"
proof -
  have inv: "claims_inv c" using assms(1) by (simp add: run_claim_ops_inv claims_inv_empty)
  show ?thesis
  proof (cases "owner_of c u = None \<or> owner_of c u = Some ow")
    case True
    with TryClaim_granted [OF inv True] assms(2) show ?thesis by auto
  next
    case False
    then obtain ow' where o: "owner_of c u = Some ow'" "ow' \<noteq> ow" by auto
    from TryClaim_refused [OF this] assms(2) have "ok = False" "c' = ReleaseLocked ow c" by auto
    with o ReleaseLocked_owner_of(1) [OF inv, of ow] show ?thesis by auto
  qed
qed

theorem claims_exclusive_witness:
  "\<not> fst (TryClaim 2 ''x'' (fold run_claim_op [CTry 1 ''x'', CMark 1, CTry 2 ''y''] claims_empty))"
proof -
  let ?c = "fold run_claim_op [CTry 1 ''x'', CMark 1, CTry 2 ''y''] claims_empty"
  have "owner_of ?c ''x'' = Some 1"
    by (simp add: TryClaim_def MarkEstablished_def claims_empty_def owner_of_def)
  with claims_exclusive [OF refl prod.collapse [symmetric], of 2 "''x''" "[CTry 1 ''x'', CMark 1, CTry 2 ''y'']"]
  show ?thesis by simp
qed



text \<open>C12: in every interleaving of acquisitions, cancellations, lease moves and releases the gate is held exactly
  when one lease object holds it, never two; and it is granted in ticket order.\<close>

theorem sync_gate_exclusive_fifo:
  assumes "gate_reachable s" "entered s < 2 ^ 64"
  shows "(IsHeld (gate s) \<longleftrightarrow> (\<exists>i. leases s i)) \<and> (leases s i \<longrightarrow> leases s j \<longrightarrow> i = j) \<and>
    sorted_wrt (<) (granted s @ waiters (gate s))"
proof -
  obtain h where "lease_inv s h" using lease_inv_reachable [OF assms(1)] by blast
  with gate_inv_reachable [OF assms] show ?thesis by (auto simp: lease_inv_def gate_inv_def IsHeld_def)
qed

definition gate_demo :: gate_sys where
  "gate_demo = gate_sys_init\<lparr>gate := snd (Acquire_enter gate_init), entered := 1\<rparr>"

definition gate_demo_held :: gate_sys where
  "gate_demo_held = gate_demo\<lparr>gate := \<lparr>held = True, next_ticket = 1, waiters = []\<rparr>,
     leases := (leases gate_demo)(3 := True), granted := [0]\<rparr>"

theorem sync_gate_exclusive_fifo_witness:
  "IsHeld (gate gate_demo_held) \<and> leases gate_demo_held 3 \<and> \<not> leases gate_demo_held 4"
proof -
  have "gate_step gate_sys_init gate_demo"
    using gate_step.enter [of gate_sys_init] by (simp add: gate_demo_def gate_sys_init_def)
  moreover have "gate_step gate_demo gate_demo_held"
    using gate_step.poll_grant [of 0 gate_demo False False "\<lparr>held = True, next_ticket = 1, waiters = []\<rparr>" 3]
    by (simp add: gate_demo_def gate_demo_held_def gate_sys_init_def gate_init_def Acquire_enter_def
        Acquire_poll_def gate_ready_def)
  ultimately have "gate_reachable gate_demo_held"
    using gate_reachable.init gate_reachable.step by blast
  moreover have "entered gate_demo_held < 2 ^ 64" "leases gate_demo_held 3"
    by (simp_all add: gate_demo_held_def gate_demo_def)
  ultimately show ?thesis using sync_gate_exclusive_fifo [of gate_demo_held 3 4] by auto
qed

end
