(* ===== verification/Peer_Manager.thy ===== *)
theory Peer_Manager
  imports Peer_Replication
begin

text \<open>
  \<^verbatim>\<open>PeerReplicationManager\<close> of \<^verbatim>\<open>src/server/peer_replication.cc\<close>. A \<^verbatim>\<open>Replica\<close> object is a number; the
  calls the manager makes into it are recorded as events in call order. The outcome of the network
  handshake \<^verbatim>\<open>Replica::Start\<close> is an argument. \<open>mgr_step\<close> interleaves the critical sections of concurrent
  \<^verbatim>\<open>Add\<close> calls with the other methods.
\<close>

type_synonym endpoint = "string \<times> u16"

datatype start_mode = kBlockingHandshake | kBackground

datatype greet_errc = device_or_resource_busy | resource_unavailable_try_again | other_errc

record start_outcome =
  start_error :: "string option"
  context_cancelled :: bool
  last_greet_ec :: "greet_errc option"

datatype replica_event = EvStart nat | EvEnableReplication nat | EvStartMainFiber nat | EvStop nat | EvPause nat bool

record manager =
  peers :: "(endpoint \<times> nat) list"
  closed :: bool
  identity_claims :: peer_identity_claims
  next_replica :: nat
  events :: "replica_event list"

definition manager_init :: manager where
  "manager_init = \<lparr>peers = [], closed = False, identity_claims = claims_empty, next_replica = 0, events = []\<rparr>"

definition kClosedMsg :: string where
  "kClosedMsg = ''peer replication manager is shut down''"

definition SameEndpoint :: "endpoint \<Rightarrow> endpoint \<Rightarrow> bool" where
  "SameEndpoint a b = (fst a = fst b \<and> snd a = snd b)"

definition has_endpoint :: "endpoint \<Rightarrow> manager \<Rightarrow> bool" where
  "has_endpoint ep m = list_ex (\<lambda>pl. SameEndpoint (fst pl) ep) (peers m)"

definition emit :: "replica_event list \<Rightarrow> manager \<Rightarrow> manager" where
  "emit es m = m\<lparr>events := events m @ es\<rparr>"

text \<open>The result of \<^verbatim>\<open>Add\<close>: its error message, or success with \<^verbatim>\<open>*already_attached\<close>.\<close>

datatype add_result = AddError string | AddOk bool

definition Add_check :: "endpoint \<Rightarrow> manager \<Rightarrow> add_result option" where
  "Add_check ep m =
     (if closed m then Some (AddError kClosedMsg)
      else if has_endpoint ep m then Some (AddOk True)
      else None)"

definition make_replica :: "manager \<Rightarrow> nat \<times> manager" where
  "make_replica m = (next_replica m, m\<lparr>next_replica := Suc (next_replica m)\<rparr>)"

definition Add_handshake :: "start_mode \<Rightarrow> start_outcome \<Rightarrow> nat \<Rightarrow> manager \<Rightarrow> (add_result + start_mode) \<times> manager" where
  "Add_handshake mode oc r m =
     (case mode of
        kBlockingHandshake \<Rightarrow>
          (let m1 = emit [EvStart r] m in
           if start_error oc \<noteq> None \<or> context_cancelled oc then
             (if last_greet_ec oc = Some device_or_resource_busy \<or>
                 last_greet_ec oc = Some resource_unavailable_try_again
              then (Inr kBackground, emit [EvEnableReplication r] m1)
              else (Inl (AddError (case start_error oc of Some e \<Rightarrow> e | None \<Rightarrow> ''replication cancelled'')), m1))
           else (Inr kBlockingHandshake, m1))
      | kBackground \<Rightarrow> (Inr kBackground, emit [EvEnableReplication r] m))"

definition Add_publish :: "bool \<Rightarrow> endpoint \<Rightarrow> start_mode \<Rightarrow> nat \<Rightarrow> manager \<Rightarrow> add_result \<times> manager" where
  "Add_publish multi_master ep mode r m =
     (if closed m then (AddError kClosedMsg, emit [EvStop r] m)
      else if has_endpoint ep m then (AddOk True, emit [EvStop r] m)
      else
        (let replaced = (if \<not> multi_master then peers m else []);
             kept = (if \<not> multi_master then [] else peers m);
             m1 = m\<lparr>peers := kept @ [(ep, r)]\<rparr>;
             m2 = emit (map (\<lambda>pl. EvStop (snd pl)) replaced) m1;
             m3 = (if mode = kBlockingHandshake then emit [EvStartMainFiber r] m2 else m2)
         in (AddOk False, m3)))"

definition Add :: "bool \<Rightarrow> endpoint \<Rightarrow> start_mode \<Rightarrow> start_outcome \<Rightarrow> manager \<Rightarrow> add_result \<times> manager" where
  "Add multi_master ep mode oc m =
     (case Add_check ep m of
        Some res \<Rightarrow> (res, m)
      | None \<Rightarrow>
          (let (r, m1) = make_replica m in
           case Add_handshake mode oc r m1 of
             (Inl res, m2) \<Rightarrow> (res, m2)
           | (Inr mode', m2) \<Rightarrow> Add_publish multi_master ep mode' r m2))"

definition Remove :: "endpoint \<Rightarrow> manager \<Rightarrow> bool \<times> manager" where
  "Remove ep m =
     (case List.extract (\<lambda>pl. SameEndpoint (fst pl) ep) (peers m) of
        None \<Rightarrow> (False, m)
      | Some (before, pl, after) \<Rightarrow> (True, emit [EvStop (snd pl)] (m\<lparr>peers := before @ after\<rparr>)))"

definition RemoveAll :: "manager \<Rightarrow> manager" where
  "RemoveAll m = emit (map (\<lambda>pl. EvStop (snd pl)) (peers m)) (m\<lparr>peers := []\<rparr>)"

definition Shutdown :: "manager \<Rightarrow> manager" where
  "Shutdown m = emit (map (\<lambda>pl. EvStop (snd pl)) (peers m)) (m\<lparr>closed := True, peers := []\<rparr>)"

definition PauseAll :: "bool \<Rightarrow> manager \<Rightarrow> manager" where
  "PauseAll pause m = emit (map (\<lambda>pl. EvPause (snd pl) pause) (peers m)) m"

definition Endpoints :: "manager \<Rightarrow> endpoint list" where
  "Endpoints m = map fst (peers m)"

definition Summaries :: "(nat \<Rightarrow> 'summary) \<Rightarrow> manager \<Rightarrow> 'summary list" where
  "Summaries GetSummary m = map (\<lambda>pl. GetSummary (snd pl)) (peers m)"

definition HasUnestablishedPeerWithUuid :: "string \<Rightarrow> manager \<Rightarrow> bool" where
  "HasUnestablishedPeerWithUuid uuid m =
     (if closed m then False else HasUnestablishedClaim uuid (identity_claims m))"

definition manager_Size :: "manager \<Rightarrow> nat" where
  "manager_Size m = length (peers m)"

subsection \<open>Interleavings\<close>

text \<open>\<open>starting\<close> holds the \<^verbatim>\<open>Add\<close> calls between their first check and the end of the handshake,
  \<open>publishing\<close> those between the handshake and the last critical section.\<close>

record mgr_sys =
  mgr :: manager
  starting :: "(endpoint \<times> start_mode \<times> nat) list"
  publishing :: "(endpoint \<times> start_mode \<times> nat) list"

definition mgr_sys_init :: mgr_sys where
  "mgr_sys_init = \<lparr>mgr = manager_init, starting = [], publishing = []\<rparr>"

inductive mgr_step :: "bool \<Rightarrow> mgr_sys \<Rightarrow> mgr_sys \<Rightarrow> bool" for multi_master where
  add_begin: "Add_check ep (mgr s) = None \<Longrightarrow> make_replica (mgr s) = (r, m') \<Longrightarrow>
    mgr_step multi_master s (s\<lparr>mgr := m', starting := (ep, mode, r) # starting s\<rparr>)"
| add_fail: "starting s = xs @ (ep, mode, r) # ys \<Longrightarrow> Add_handshake mode oc r (mgr s) = (Inl e, m') \<Longrightarrow>
    mgr_step multi_master s (s\<lparr>mgr := m', starting := xs @ ys\<rparr>)"
| add_started: "starting s = xs @ (ep, mode, r) # ys \<Longrightarrow> Add_handshake mode oc r (mgr s) = (Inr mode', m') \<Longrightarrow>
    mgr_step multi_master s (s\<lparr>mgr := m', starting := xs @ ys, publishing := (ep, mode', r) # publishing s\<rparr>)"
| add_publish: "publishing s = xs @ (ep, mode, r) # ys \<Longrightarrow> Add_publish multi_master ep mode r (mgr s) = (res, m') \<Longrightarrow>
    mgr_step multi_master s (s\<lparr>mgr := m', publishing := xs @ ys\<rparr>)"
| remove: "mgr_step multi_master s (s\<lparr>mgr := snd (Remove ep (mgr s))\<rparr>)"
| remove_all: "mgr_step multi_master s (s\<lparr>mgr := RemoveAll (mgr s)\<rparr>)"
| shutdown: "mgr_step multi_master s (s\<lparr>mgr := Shutdown (mgr s)\<rparr>)"
| pause_all: "mgr_step multi_master s (s\<lparr>mgr := PauseAll p (mgr s)\<rparr>)"

inductive mgr_reachable :: "bool \<Rightarrow> mgr_sys \<Rightarrow> bool" for multi_master where
  init: "mgr_reachable multi_master mgr_sys_init"
| step: "mgr_reachable multi_master s \<Longrightarrow> mgr_step multi_master s s' \<Longrightarrow> mgr_reachable multi_master s'"

text \<open>The replicas whose replication fiber runs after a sequence of events.\<close>

fun event_effect :: "replica_event \<Rightarrow> nat set \<Rightarrow> nat set" where
  "event_effect (EvStart r) S = S"
| "event_effect (EvEnableReplication r) S = insert r S"
| "event_effect (EvStartMainFiber r) S = insert r S"
| "event_effect (EvStop r) S = S - {r}"
| "event_effect (EvPause r p) S = S"

definition running :: "manager \<Rightarrow> nat set" where
  "running m = fold event_effect (events m) {}"

abbreviation ids :: "(endpoint \<times> start_mode \<times> nat) list \<Rightarrow> nat list" where
  "ids ps \<equiv> map (\<lambda>p. snd (snd p)) ps"

definition bg_ids :: "(endpoint \<times> start_mode \<times> nat) list \<Rightarrow> nat set" where
  "bg_ids ps = set (ids (filter (\<lambda>p. fst (snd p) = kBackground) ps))"

definition mgr_inv :: "bool \<Rightarrow> mgr_sys \<Rightarrow> bool" where
  "mgr_inv multi_master s =
     (distinct (Endpoints (mgr s)) \<and>
      (closed (mgr s) \<longrightarrow> peers (mgr s) = []) \<and>
      (\<not> multi_master \<longrightarrow> manager_Size (mgr s) \<le> 1) \<and>
      distinct (map snd (peers (mgr s)) @ ids (starting s) @ ids (publishing s)) \<and>
      (\<forall>r \<in> set (map snd (peers (mgr s)) @ ids (starting s) @ ids (publishing s)). r < next_replica (mgr s)) \<and>
      running (mgr s) = set (map snd (peers (mgr s))) \<union> bg_ids (publishing s))"

subsection \<open>The invariant holds in every interleaving\<close>

lemma emit_simps [simp]:
  "peers (emit es m) = peers m" "closed (emit es m) = closed m" "next_replica (emit es m) = next_replica m"
  "identity_claims (emit es m) = identity_claims m"
  by (simp_all add: emit_def)

lemma emit_Nil [simp]: "emit [] m = m"
  by (simp add: emit_def)

lemma running_emit: "running (emit es m) = fold event_effect es (running m)"
  by (simp add: running_def emit_def)

lemma running_upd [simp]:
  "running (m\<lparr>peers := ps\<rparr>) = running m" "running (m\<lparr>next_replica := n\<rparr>) = running m"
  "running (m\<lparr>closed := c\<rparr>) = running m"
  by (simp_all add: running_def)

lemma fold_stop: "fold event_effect (map (\<lambda>pl. EvStop (snd pl)) ps) S = S - set (map snd ps)"
  by (induction ps arbitrary: S) auto

lemma fold_pause: "fold event_effect (map (\<lambda>pl. EvPause (snd pl) p) ps) S = S"
  by (induction ps) auto

lemma bg_ids_simps [simp]:
  "bg_ids [] = {}" "bg_ids (xs @ ys) = bg_ids xs \<union> bg_ids ys"
  "bg_ids ((ep, mode, r) # ps) = (if mode = kBackground then insert r (bg_ids ps) else bg_ids ps)"
  by (auto simp: bg_ids_def)

lemma bg_ids_subset: "bg_ids ps \<subseteq> set (ids ps)"
  by (auto simp: bg_ids_def)

lemma SameEndpoint_iff: "SameEndpoint a b \<longleftrightarrow> a = b"
  by (auto simp: SameEndpoint_def prod_eq_iff)

lemma has_endpoint_iff: "has_endpoint ep m \<longleftrightarrow> ep \<in> set (Endpoints m)"
  by (force simp: has_endpoint_def SameEndpoint_iff Endpoints_def list_ex_iff)

lemma Add_handshake_cases:
  assumes "Add_handshake mode oc r m = (res, m')"
  obtains (failed) e where "res = Inl (AddError e)" "m' = emit [EvStart r] m"
  | (connected) "res = Inr kBlockingHandshake" "m' = emit [EvStart r] m"
  | (background) es where "res = Inr kBackground" "m' = emit es m" "\<And>S. fold event_effect es S = insert r S"
proof (cases mode)
  case kBackground
  with assms have "res = Inr kBackground" "m' = emit [EvEnableReplication r] m"
    by (auto simp: Add_handshake_def)
  then show ?thesis by (rule background) simp
next
  case kBlockingHandshake
  show ?thesis
  proof (cases "start_error oc \<noteq> None \<or> context_cancelled oc")
    case False
    with assms kBlockingHandshake show ?thesis by (intro connected) (auto simp: Add_handshake_def)
  next
    case bad: True
    show ?thesis
    proof (cases "last_greet_ec oc = Some device_or_resource_busy \<or>
        last_greet_ec oc = Some resource_unavailable_try_again")
      case True
      with assms kBlockingHandshake bad
      have "res = Inr kBackground" "m' = emit [EvStart r, EvEnableReplication r] m"
        by (auto simp: Add_handshake_def emit_def)
      then show ?thesis by (rule background) simp
    next
      case False
      with assms kBlockingHandshake bad show ?thesis by (intro failed) (auto simp: Add_handshake_def)
    qed
  qed
qed

text \<open>The invariant in the form in which the steps establish it.\<close>

lemma mgr_invD:
  assumes "mgr_inv mm s"
  shows "set (map snd (peers (mgr s))) \<inter> set (ids (publishing s)) = {}"
    and "running (mgr s) = set (map snd (peers (mgr s))) \<union> bg_ids (publishing s)"
    and "set (map snd (peers (mgr s))) \<inter> bg_ids (publishing s) = {}"
    and "distinct (map snd (peers (mgr s)))"
    and "distinct (map snd (peers (mgr s)) @ ids (starting s) @ ids (publishing s))"
    and "\<And>q. q \<in> set (map snd (peers (mgr s)) @ ids (starting s) @ ids (publishing s)) \<Longrightarrow> q < next_replica (mgr s)"
    and "distinct (Endpoints (mgr s))" "closed (mgr s) \<longrightarrow> peers (mgr s) = []"
      "\<not> mm \<longrightarrow> manager_Size (mgr s) \<le> 1"
  using assms bg_ids_subset [of "publishing s"] by (auto simp: mgr_inv_def)

lemma mgr_inv_fewer_peers:
  assumes inv: "mgr_inv mm s" and ps: "peers (mgr s) = xs @ gone @ ys"
    and m': "peers m' = xs @ ys" "next_replica m' = next_replica (mgr s)" "closed m' \<longrightarrow> xs @ ys = []"
      "running m' = running (mgr s) - set (map snd gone)"
  shows "mgr_inv mm (s\<lparr>mgr := m'\<rparr>)"
proof -
  have "distinct (map snd (xs @ gone @ ys))" using mgr_invD(4) [OF inv] ps by simp
  then have "set (map snd gone) \<inter> set (map snd (xs @ ys)) = {}" by auto
  then have "running m' = set (map snd (xs @ ys)) \<union> bg_ids (publishing s)"
    using mgr_invD(2,3) [OF inv] ps unfolding m' by auto
  moreover have "distinct (map fst (xs @ ys))" "\<not> mm \<longrightarrow> length (xs @ ys) \<le> 1"
    using inv ps by (auto simp: mgr_inv_def Endpoints_def manager_Size_def)
  moreover have "distinct (map snd (xs @ ys) @ ids (starting s) @ ids (publishing s))"
    using mgr_invD(5) [OF inv] unfolding ps by auto
  moreover have "\<forall>q \<in> set (map snd (xs @ ys) @ ids (starting s) @ ids (publishing s)). q < next_replica m'"
    using mgr_invD(6) [OF inv] unfolding ps m' set_append map_append by blast
  ultimately show ?thesis
    using m' unfolding mgr_inv_def Endpoints_def manager_Size_def by simp
qed

lemma mgr_inv_remove:
  assumes inv: "mgr_inv mm s"
  shows "mgr_inv mm (s\<lparr>mgr := snd (Remove ep (mgr s))\<rparr>)"
proof (cases "List.extract (\<lambda>pl. SameEndpoint (fst pl) ep) (peers (mgr s))")
  case None
  with inv show ?thesis by (simp add: Remove_def)
next
  case (Some t)
  obtain xs q ys where t: "t = (xs, q, ys)" by (cases t)
  with Some have "peers (mgr s) = xs @ [q] @ ys" by (simp add: extract_Some_iff)
  moreover have "closed (mgr s) \<longrightarrow> peers (mgr s) = []" using inv by (simp add: mgr_inv_def)
  ultimately show ?thesis using Some t
    by (intro mgr_inv_fewer_peers [OF inv]) (auto simp: Remove_def running_emit)
qed

lemma mgr_inv_drop_all:
  assumes inv: "mgr_inv mm s"
  shows "mgr_inv mm (s\<lparr>mgr := RemoveAll (mgr s)\<rparr>)" "mgr_inv mm (s\<lparr>mgr := Shutdown (mgr s)\<rparr>)"
  by (intro mgr_inv_fewer_peers [OF inv, of "[]" "peers (mgr s)" "[]"];
      simp add: RemoveAll_def Shutdown_def running_emit fold_stop)+

lemma mgr_inv_publish:
  assumes inv: "mgr_inv mm s" and pub: "publishing s = xs @ (ep, mode, r) # ys"
    and res: "Add_publish mm ep mode r (mgr s) = (res, m')"
  shows "mgr_inv mm (s\<lparr>mgr := m', publishing := xs @ ys\<rparr>)"
proof (cases "closed (mgr s) \<or> has_endpoint ep (mgr s)")
  case True
  then have m': "m' = emit [EvStop r] (mgr s)" using res by (auto simp: Add_publish_def split: if_splits)
  have "r \<notin> set (map snd (peers (mgr s)))" "r \<notin> bg_ids xs" "r \<notin> bg_ids ys"
    using inv pub bg_ids_subset [of xs] bg_ids_subset [of ys] by (auto simp: mgr_inv_def)
  with inv pub m' show ?thesis
    by (auto simp: mgr_inv_def running_emit Endpoints_def manager_Size_def)
next
  case False
  let ?P = "set (map snd (peers (mgr s)))" and ?B = "bg_ids xs \<union> bg_ids ys"
  have disj: "?P \<inter> ?B = {}" "r \<notin> ?P"
    using inv pub bg_ids_subset [of xs] bg_ids_subset [of ys] by (auto simp: mgr_inv_def)
  have upd: "peers m' = (if mm then peers (mgr s) else []) @ [(ep, r)]" "closed m' = closed (mgr s)"
    "next_replica m' = next_replica (mgr s)"
    using False res by (auto simp: Add_publish_def Let_def split: if_splits)
  have m': "running m' = (let S = running (mgr s) - (if mm then {} else ?P)
      in if mode = kBlockingHandshake then insert r S else S)"
    using False res by (cases mm; cases mode; clarsimp simp: Add_publish_def running_emit fold_stop)
  have "running (mgr s) = ?P \<union> (if mode = kBackground then insert r ?B else ?B)"
    using inv pub by (auto simp: mgr_inv_def)
  then have run: "running m' = set (map snd (peers m')) \<union> bg_ids (xs @ ys)"
    using disj unfolding m' upd by (cases mm; cases mode) auto
  have "distinct (Endpoints m')" "\<not> mm \<longrightarrow> manager_Size m' \<le> 1" "closed m' \<longrightarrow> peers m' = []"
    using inv False upd by (auto simp: mgr_inv_def Endpoints_def manager_Size_def has_endpoint_iff)
  moreover have "distinct (map snd (peers m') @ ids (starting s) @ ids (xs @ ys))"
    using inv pub unfolding upd mgr_inv_def by (cases mm) auto
  moreover have "\<forall>q \<in> set (map snd (peers m') @ ids (starting s) @ ids (xs @ ys)). q < next_replica m'"
    using inv pub unfolding upd mgr_inv_def by (cases mm) simp_all
  ultimately show ?thesis using run unfolding mgr_inv_def by simp
qed

lemma mgr_inv_started:
  assumes inv: "mgr_inv mm s" and st: "starting s = xs @ (ep, mode, r) # ys"
    and hs: "Add_handshake mode oc r (mgr s) = (Inr mode', m')"
  shows "mgr_inv mm (s\<lparr>mgr := m', starting := xs @ ys, publishing := (ep, mode', r) # publishing s\<rparr>)"
proof -
  from hs have upd: "peers m' = peers (mgr s)" "closed m' = closed (mgr s)" "next_replica m' = next_replica (mgr s)"
    and run: "running m' = (if mode' = kBackground then insert r (running (mgr s)) else running (mgr s))"
    by (auto simp: running_emit elim!: Add_handshake_cases)
  have "distinct (map snd (peers (mgr s)) @ ids (xs @ ys) @ ids ((ep, mode', r) # publishing s))"
    using inv st unfolding mgr_inv_def by auto
  moreover have "\<forall>q \<in> set (map snd (peers (mgr s)) @ ids (xs @ ys) @ ids ((ep, mode', r) # publishing s)).
      q < next_replica (mgr s)"
    using inv st unfolding mgr_inv_def by simp
  ultimately show ?thesis
    using mgr_invD(2,7-9) [OF inv] unfolding mgr_inv_def Endpoints_def manager_Size_def by (simp add: upd run)
qed

lemma mgr_inv_failed:
  assumes inv: "mgr_inv mm s" and st: "starting s = xs @ (ep, mode, r) # ys"
    and hs: "Add_handshake mode oc r (mgr s) = (Inl e, m')"
  shows "mgr_inv mm (s\<lparr>mgr := m', starting := xs @ ys\<rparr>)"
proof -
  from hs have m': "m' = emit [EvStart r] (mgr s)" by (auto elim!: Add_handshake_cases)
  have "distinct (map snd (peers (mgr s)) @ ids (xs @ ys) @ ids (publishing s))"
    using inv st unfolding mgr_inv_def by auto
  with inv st show ?thesis
    unfolding mgr_inv_def Endpoints_def manager_Size_def m' by (simp add: running_emit)
qed

lemma mgr_inv_begin:
  assumes inv: "mgr_inv mm s" and mk: "make_replica (mgr s) = (r, m')"
  shows "mgr_inv mm (s\<lparr>mgr := m', starting := (ep, mode, r) # starting s\<rparr>)"
proof -
  from mk have r: "r = next_replica (mgr s)" and m': "m' = (mgr s)\<lparr>next_replica := Suc r\<rparr>"
    by (auto simp: make_replica_def)
  have "\<forall>q \<in> set (map snd (peers (mgr s)) @ ids (starting s) @ ids (publishing s)). q < r"
    using inv unfolding mgr_inv_def r by simp
  then have "r \<notin> set (map snd (peers (mgr s)) @ ids (starting s) @ ids (publishing s))"
    and "\<forall>q \<in> set (map snd (peers (mgr s)) @ ids (starting s) @ ids (publishing s)). q < Suc r"
    by (blast, simp add: less_SucI)
  with inv show ?thesis
    unfolding mgr_inv_def Endpoints_def manager_Size_def m' by simp
qed

lemma mgr_inv_pause: "mgr_inv mm s \<Longrightarrow> mgr_inv mm (s\<lparr>mgr := PauseAll p (mgr s)\<rparr>)"
  unfolding mgr_inv_def Endpoints_def manager_Size_def PauseAll_def by (simp add: running_emit fold_pause)

lemma mgr_inv_step: "mgr_step mm s s' \<Longrightarrow> mgr_inv mm s \<Longrightarrow> mgr_inv mm s'"
  by (induction rule: mgr_step.induct)
    (simp_all add: mgr_inv_begin mgr_inv_failed mgr_inv_started mgr_inv_publish mgr_inv_remove
      mgr_inv_drop_all mgr_inv_pause)

lemma mgr_inv_reachable: "mgr_reachable mm s \<Longrightarrow> mgr_inv mm s"
proof (induction rule: mgr_reachable.induct)
  case init
  then show ?case
    by (simp add: mgr_inv_def mgr_sys_init_def manager_init_def Endpoints_def manager_Size_def running_def)
qed (rule mgr_inv_step)

subsection \<open>Properties\<close>

text \<open>C15: in every interleaving of concurrent \<open>Add\<close> calls with removals, pauses and shutdown: no endpoint is
  attached twice; without multi-master at most one peer is attached; after shutdown none is; every attached peer's
  replication runs, and a replication that runs belongs to an attached peer or to an \<open>Add\<close> that has not reached
  its last step.\<close>

theorem manager_no_leak:
  assumes "mgr_reachable mm s"
  shows "distinct (Endpoints (mgr s)) \<and> (closed (mgr s) \<longrightarrow> manager_Size (mgr s) = 0) \<and>
    (\<not> mm \<longrightarrow> manager_Size (mgr s) \<le> 1) \<and> set (map snd (peers (mgr s))) \<subseteq> running (mgr s) \<and>
    (publishing s = [] \<longrightarrow> running (mgr s) = set (map snd (peers (mgr s))))"
  using mgr_invD [OF mgr_inv_reachable [OF assms]] by (auto simp: manager_Size_def)

definition attached_mgr :: manager where
  "attached_mgr = \<lparr>peers = [((''a'', 1), 0)], closed = False, identity_claims = claims_empty, next_replica = 1, events = [EvEnableReplication 0]\<rparr>"

theorem manager_no_leak_witness:
  "mgr_reachable False \<lparr>mgr = attached_mgr, starting = [], publishing = []\<rparr> \<and> running attached_mgr = {0} \<and> manager_Size attached_mgr \<le> 1"
proof -
  let ?m = "\<lambda>n es. \<lparr>peers = [], closed = False, identity_claims = claims_empty, next_replica = n, events = es\<rparr>"
  let ?s1 = "\<lparr>mgr = ?m 1 [], starting = [((''a'', 1), kBackground, 0)], publishing = []\<rparr>"
  let ?s2 = "\<lparr>mgr = ?m 1 [EvEnableReplication 0], starting = [], publishing = [((''a'', 1), kBackground, 0)]\<rparr>"
  let ?s3 = "\<lparr>mgr = attached_mgr, starting = [], publishing = []\<rparr>"
  have 1: "mgr_step False mgr_sys_init ?s1"
    using mgr_step.add_begin [of "(''a'', 1)" mgr_sys_init 0 "?m 1 []" False kBackground]
    by (simp add: mgr_sys_init_def manager_init_def Add_check_def has_endpoint_def make_replica_def)
  have 2: "mgr_step False ?s1 ?s2"
    using mgr_step.add_started [of ?s1 "[]" "(''a'', 1)" kBackground 0 "[]" oc kBackground "?m 1 [EvEnableReplication 0]" False for oc]
    by (simp add: Add_handshake_def emit_def)
  have 3: "mgr_step False ?s2 ?s3"
    using mgr_step.add_publish [of ?s2 "[]" "(''a'', 1)" kBackground 0 "[]" False "AddOk False" attached_mgr]
    by (simp add: Add_publish_def has_endpoint_def emit_def attached_mgr_def)
  have r: "mgr_reachable False ?s3" using mgr_reachable.init mgr_reachable.step 1 2 3 by blast
  from manager_no_leak [OF r] r show ?thesis by (simp add: attached_mgr_def)
qed

end
