(* ===== verification/Kv_Table.thy ===== *)
theory Kv_Table
  imports Dfly_Prelude
begin

text \<open>
  The contract of the hash tables \<^verbatim>\<open>DbSlice\<close> keeps (prime, mvcc, mcflag): \<^verbatim>\<open>Find\<close>, \<^verbatim>\<open>Insert\<close> (which
  leaves an existing entry untouched and reports whether it inserted), assignment through an
  iterator, \<^verbatim>\<open>Erase\<close> and \<^verbatim>\<open>size\<close>. The provider is an association list with distinct keys; what the
  clients use of it is the locale \<open>kv_store\<close>.
\<close>

type_synonym ('k, 'v) tbl = "('k \<times> 'v) list"

definition tbl_find :: "('k, 'v) tbl \<Rightarrow> 'k \<Rightarrow> 'v option" where
  "tbl_find t k = map_of t k"

definition tbl_insert :: "'k \<Rightarrow> 'v \<Rightarrow> ('k, 'v) tbl \<Rightarrow> ('k, 'v) tbl \<times> bool" where
  "tbl_insert k v t = (case map_of t k of None \<Rightarrow> (t @ [(k, v)], True) | Some _ \<Rightarrow> (t, False))"

definition tbl_set :: "'k \<Rightarrow> 'v \<Rightarrow> ('k, 'v) tbl \<Rightarrow> ('k, 'v) tbl" where
  "tbl_set k v t = map (\<lambda>(k', v'). if k' = k then (k', v) else (k', v')) t"

definition tbl_erase :: "'k \<Rightarrow> ('k, 'v) tbl \<Rightarrow> ('k, 'v) tbl" where
  "tbl_erase k t = filter (\<lambda>(k', _). k' \<noteq> k) t"

definition tbl_size :: "('k, 'v) tbl \<Rightarrow> nat" where
  "tbl_size t = length t"

definition tbl_ok :: "('k, 'v) tbl \<Rightarrow> bool" where
  "tbl_ok t = distinct (map fst t)"

definition tbl_count :: "('v \<Rightarrow> bool) \<Rightarrow> ('k, 'v) tbl \<Rightarrow> nat" where
  "tbl_count P t = length (filter (\<lambda>(_, v). P v) t)"

locale kv_store =
  fixes find :: "'t \<Rightarrow> 'k \<Rightarrow> 'v option"
    and insert :: "'k \<Rightarrow> 'v \<Rightarrow> 't \<Rightarrow> 't \<times> bool"
    and set_at :: "'k \<Rightarrow> 'v \<Rightarrow> 't \<Rightarrow> 't"
    and erase :: "'k \<Rightarrow> 't \<Rightarrow> 't"
    and count :: "('v \<Rightarrow> bool) \<Rightarrow> 't \<Rightarrow> nat"
    and ok :: "'t \<Rightarrow> bool"
  assumes find_insert_new: "ok t \<Longrightarrow> find t k = None \<Longrightarrow> find (fst (insert k v t)) = (find t)(k \<mapsto> v)"
    and insert_new: "find t k = None \<Longrightarrow> snd (insert k v t)"
    and insert_old: "find t k = Some u \<Longrightarrow> insert k v t = (t, False)"
    and find_set: "ok t \<Longrightarrow> find t k = Some u \<Longrightarrow> find (set_at k v t) = (find t)(k \<mapsto> v)"
    and find_erase: "ok t \<Longrightarrow> find (erase k t) = (find t)(k := None)"
    and count_insert_new: "ok t \<Longrightarrow> find t k = None \<Longrightarrow>
          count P (fst (insert k v t)) = count P t + of_bool (P v)"
    and count_set: "ok t \<Longrightarrow> find t k = Some u \<Longrightarrow>
          count P (set_at k v t) + of_bool (P u) = count P t + of_bool (P v)"
    and count_erase: "ok t \<Longrightarrow> find t k = Some u \<Longrightarrow> count P (erase k t) + of_bool (P u) = count P t"
    and ok_insert: "ok t \<Longrightarrow> ok (fst (insert k v t))"
    and ok_set: "ok t \<Longrightarrow> ok (set_at k v t)"
    and ok_erase: "ok t \<Longrightarrow> ok (erase k t)"
begin

text \<open>Insert-or-overwrite, the shape of every setter of the side table.\<close>

definition put :: "'k \<Rightarrow> 'v \<Rightarrow> 't \<Rightarrow> 't" where
  "put k v t = set_at k v (fst (insert k v t))"

lemma find_put: "ok t \<Longrightarrow> find (put k v t) = (find t)(k \<mapsto> v)"
  by (cases "find t k")
     (auto simp: put_def find_insert_new insert_old find_set ok_insert)

lemma ok_put: "ok t \<Longrightarrow> ok (put k v t)"
  by (simp add: put_def ok_insert ok_set)

lemma count_put:
  assumes "ok t"
  shows "count P (put k v t) + (case find t k of None \<Rightarrow> 0 | Some u \<Rightarrow> of_bool (P u)) =
         count P t + of_bool (P v)"
proof (cases "find t k")
  case None
  have "count P (set_at k v (fst (insert k v t))) + of_bool (P v) =
        count P (fst (insert k v t)) + of_bool (P v)"
    by (rule count_set) (simp_all add: assms None ok_insert find_insert_new)
  then show ?thesis using None assms by (simp add: put_def count_insert_new)
next
  case (Some u)
  then show ?thesis using assms count_set by (simp add: put_def insert_old)
qed

text \<open>Overwriting twice is overwriting once, and erasing forgets an overwrite.\<close>

lemma find_put_put: "ok t \<Longrightarrow> find (put k v (put k u t)) = find (put k v t)"
  by (simp add: find_put ok_put)

lemma find_erase_put: "ok t \<Longrightarrow> find (erase k (put k v t)) = find (erase k t)"
  by (simp add: find_put ok_put find_erase)

end

lemma map_of_tbl_set: "map_of (tbl_set k v t) = (\<lambda>x. if x = k \<and> map_of t k \<noteq> None then Some v else map_of t x)"
  by (induction t) (auto simp: tbl_set_def fun_eq_iff split: if_splits)

lemma map_of_tbl_erase: "map_of (tbl_erase k t) = (map_of t)(k := None)"
  by (induction t) (auto simp: tbl_erase_def fun_eq_iff)

lemma fst_tbl_set [simp]: "map fst (tbl_set k v t) = map fst t"
  by (induction t) (auto simp: tbl_set_def)

lemma tbl_set_notin: "k \<notin> fst ` set t \<Longrightarrow> tbl_set k v t = t"
  by (induction t) (auto simp: tbl_set_def)

lemma tbl_erase_notin: "k \<notin> fst ` set t \<Longrightarrow> tbl_erase k t = t"
  by (induction t) (auto simp: tbl_erase_def)

lemma tbl_count_append [simp]: "tbl_count P (xs @ ys) = tbl_count P xs + tbl_count P ys"
  by (simp add: tbl_count_def)

lemma tbl_count_Cons [simp]: "tbl_count P ((k, v) # t) = of_bool (P v) + tbl_count P t"
  by (simp add: tbl_count_def)

lemma tbl_count_Nil [simp]: "tbl_count P [] = 0"
  by (simp add: tbl_count_def)

lemma tbl_set_Cons: "tbl_set k v ((k', u) # t) = (k', if k' = k then v else u) # tbl_set k v t"
  by (simp add: tbl_set_def)

lemma tbl_erase_Cons: "tbl_erase k ((k', u) # t) = (if k' = k then tbl_erase k t else (k', u) # tbl_erase k t)"
  by (simp add: tbl_erase_def)

lemma tbl_count_set:
  "tbl_ok t \<Longrightarrow> tbl_find t k = Some u \<Longrightarrow>
     tbl_count P (tbl_set k v t) + of_bool (P u) = tbl_count P t + of_bool (P v)"
proof (induction t)
  case (Cons a t)
  obtain k' v' where a: "a = (k', v')" by force
  show ?case
  proof (cases "k' = k")
    case True
    with Cons.prems a have "k \<notin> fst ` set t" by (auto simp: tbl_ok_def)
    with True Cons.prems a show ?thesis by (simp add: tbl_set_Cons tbl_set_notin tbl_find_def)
  next
    case False
    with Cons.prems a have "tbl_ok t" "tbl_find t k = Some u" by (auto simp: tbl_ok_def tbl_find_def)
    from Cons.IH [OF this] False a show ?thesis by (simp add: tbl_set_Cons)
  qed
qed (simp add: tbl_find_def)

lemma tbl_count_erase:
  "tbl_ok t \<Longrightarrow> tbl_find t k = Some u \<Longrightarrow>
     tbl_count P (tbl_erase k t) + of_bool (P u) = tbl_count P t"
proof (induction t)
  case (Cons a t)
  obtain k' v' where a: "a = (k', v')" by force
  show ?case
  proof (cases "k' = k")
    case True
    with Cons.prems a have "k \<notin> fst ` set t" by (auto simp: tbl_ok_def)
    with True Cons.prems a show ?thesis by (simp add: tbl_erase_Cons tbl_erase_notin tbl_find_def)
  next
    case False
    with Cons.prems a have "tbl_ok t" "tbl_find t k = Some u" by (auto simp: tbl_ok_def tbl_find_def)
    from Cons.IH [OF this] False a show ?thesis by (simp add: tbl_erase_Cons)
  qed
qed (simp add: tbl_find_def)

lemma map_of_None_notin: "map_of t k = None \<longleftrightarrow> k \<notin> fst ` set t"
  by (simp add: map_of_eq_None_iff)

interpretation kv: kv_store tbl_find tbl_insert tbl_set tbl_erase tbl_count tbl_ok
proof unfold_locales
  fix t :: "('k, 'v) tbl" and k :: 'k and u v :: 'v and P :: "'v \<Rightarrow> bool"
  show "tbl_find t k = None \<Longrightarrow> tbl_find (fst (tbl_insert k v t)) = (tbl_find t)(k \<mapsto> v)"
    by (auto simp: tbl_find_def tbl_insert_def fun_eq_iff map_add_def split: option.splits)
  show "tbl_find t k = None \<Longrightarrow> snd (tbl_insert k v t)"
    by (simp add: tbl_find_def tbl_insert_def)
  show "tbl_find t k = Some u \<Longrightarrow> tbl_insert k v t = (t, False)"
    by (simp add: tbl_find_def tbl_insert_def)
  show "tbl_find t k = Some u \<Longrightarrow> tbl_find (tbl_set k v t) = (tbl_find t)(k \<mapsto> v)"
    by (auto simp: tbl_find_def map_of_tbl_set fun_eq_iff)
  show "tbl_find (tbl_erase k t) = (tbl_find t)(k := None)"
    by (simp add: tbl_find_def [abs_def] map_of_tbl_erase)
  show "tbl_find t k = None \<Longrightarrow>
          tbl_count P (fst (tbl_insert k v t)) = tbl_count P t + of_bool (P v)"
    by (simp add: tbl_insert_def tbl_find_def)
  show "tbl_ok t \<Longrightarrow> tbl_ok (fst (tbl_insert k v t))"
    by (auto simp: tbl_ok_def tbl_insert_def map_of_None_notin split: option.splits)
  show "tbl_ok t \<Longrightarrow> tbl_ok (tbl_set k v t)"
    by (simp add: tbl_ok_def)
  show "tbl_ok t \<Longrightarrow> tbl_ok (tbl_erase k t)"
    by (induction t) (auto simp: tbl_ok_def tbl_erase_def)
qed (simp_all add: tbl_count_set tbl_count_erase)

lemma tbl_size_count: "tbl_size t = tbl_count (\<lambda>_. True) t"
  by (simp add: tbl_size_def tbl_count_def split_def)

end
