(* ===== verification/Lww_Register.thy ===== *)
theory Lww_Register
  imports Dfly_Prelude
begin

text \<open>
  The interface between the version order of \<^verbatim>\<open>src/server/mvcc.h\<close> and everything that merges by
  it. The locale \<open>version_order\<close> fixes the comparison and states what the merge code relies on (a
  strict weak order); its lemmas are about the abstract last-write-wins register, the
  specification that guarded replication implements: one slot, overwritten exactly by a strictly
  newer write, so that ties stay with the stored side.
\<close>

subsection \<open>The register\<close>

text \<open>\<open>accepts\<close> is the merge decision for an arbitrary comparison; the register stores the version with
  the payload it came with.\<close>

definition accepts :: "('s \<Rightarrow> 's \<Rightarrow> bool) \<Rightarrow> 's option \<Rightarrow> 's \<Rightarrow> bool" where
  "accepts lt stored incoming = (case stored of None \<Rightarrow> True | Some s \<Rightarrow> lt s incoming)"

definition reg_put :: "('s \<Rightarrow> 's \<Rightarrow> bool) \<Rightarrow> 's \<times> 'v \<Rightarrow> ('s \<times> 'v) option \<Rightarrow> ('s \<times> 'v) option" where
  "reg_put lt w r = (if accepts lt (map_option fst r) (fst w) then Some w else r)"

definition reg_run :: "('s \<Rightarrow> 's \<Rightarrow> bool) \<Rightarrow> ('s \<times> 'v) list \<Rightarrow> ('s \<times> 'v) option \<Rightarrow> ('s \<times> 'v) option" where
  "reg_run lt ws r = fold (reg_put lt) ws r"

text \<open>No two different writes of \<open>W\<close> are tied in the order.\<close>

definition tie_free :: "('s \<Rightarrow> 's \<Rightarrow> bool) \<Rightarrow> ('s \<times> 'v) set \<Rightarrow> bool" where
  "tie_free lt W = (\<forall>a\<in>W. \<forall>b\<in>W. lt (fst a) (fst b) \<or> lt (fst b) (fst a) \<or> a = b)"

lemma reg_run_simps [simp]:
  "reg_run lt [] r = r"
  "reg_run lt (w # ws) r = reg_run lt ws (reg_put lt w r)"
  "reg_run lt (ws @ us) r = reg_run lt us (reg_run lt ws r)"
  by (simp_all add: reg_run_def)

lemma tie_free_subset: "tie_free lt W \<Longrightarrow> V \<subseteq> W \<Longrightarrow> tie_free lt V"
  by (auto simp: tie_free_def)

subsection \<open>The contract of the comparison\<close>

locale version_order =
  fixes lt :: "'s \<Rightarrow> 's \<Rightarrow> bool"
  assumes lt_irrefl: "\<not> lt a a"
    and lt_trans: "lt a b \<Longrightarrow> lt b c \<Longrightarrow> lt a c"
    and lt_negtrans: "\<not> lt a b \<Longrightarrow> \<not> lt b c \<Longrightarrow> \<not> lt a c"
begin

lemma lt_asym: "lt a b \<Longrightarrow> \<not> lt b a"
  using lt_irrefl lt_trans by blast

lemma not_lt_left: "\<not> lt a b \<Longrightarrow> lt c b \<Longrightarrow> \<not> lt a c"
  using lt_trans by blast

text \<open>A redelivered write never changes the register, whatever else arrived in between.\<close>

lemma accepts_after_put: "\<not> accepts lt (map_option fst (reg_put lt w r)) (fst w)"
  by (auto simp: reg_put_def accepts_def lt_irrefl split: option.splits)

lemma reg_put_idem: "reg_put lt w (reg_put lt w r) = reg_put lt w r"
  using accepts_after_put by (auto simp: reg_put_def)

text \<open>The register never moves backwards.\<close>

lemma reg_put_mono:
  assumes "r = Some (s, v)"
  shows "\<exists>s' v'. reg_put lt w r = Some (s', v') \<and> \<not> lt s' s"
  using assms lt_irrefl lt_asym by (cases w) (auto simp: reg_put_def accepts_def)

lemma reg_run_mono:
  assumes "r = Some (s, v)"
  shows "\<exists>s' v'. reg_run lt ws r = Some (s', v') \<and> \<not> lt s' s"
  using assms
proof (induction ws arbitrary: r s v)
  case Nil
  then show ?case by (simp add: lt_irrefl)
next
  case (Cons w ws)
  from reg_put_mono [OF Cons.prems] obtain s1 v1
    where s1: "reg_put lt w r = Some (s1, v1)" "\<not> lt s1 s" by blast
  from Cons.IH [OF s1(1)] obtain s2 v2
    where "reg_run lt ws (reg_put lt w r) = Some (s2, v2)" "\<not> lt s2 s1" by blast
  with s1(2) show ?case using lt_negtrans by auto
qed

lemma reg_run_in:
  "reg_run lt ws None = Some w \<Longrightarrow> w \<in> set ws"
proof (induction ws rule: rev_induct)
  case (snoc x xs)
  then show ?case by (auto simp: reg_put_def split: if_splits)
qed simp

lemma reg_run_None_iff: "reg_run lt ws None = None \<longleftrightarrow> ws = []"
  by (induction ws rule: rev_induct) (auto simp: reg_put_def accepts_def split: option.splits)

text \<open>The survivor is at least as new as every write delivered.\<close>

lemma reg_run_max:
  assumes "reg_run lt ws None = Some (s, v)" "w \<in> set ws"
  shows "\<not> lt s (fst w)"
  using assms
proof (induction ws arbitrary: s v rule: rev_induct)
  case Nil
  then show ?case by simp
next
  case (snoc x xs)
  show ?case
  proof (cases "reg_run lt xs None")
    case None
    with snoc.prems show ?thesis
      by (auto simp: reg_run_None_iff reg_put_def accepts_def lt_irrefl)
  next
    case (Some r)
    obtain s0 v0 where r: "r = (s0, v0)" by force
    have *: "\<not> lt s s0" "\<not> lt s (fst x)"
      using snoc.prems(1) Some r lt_irrefl lt_asym
      by (auto simp: reg_put_def accepts_def split: if_splits)
    then show ?thesis
      using snoc.IH [of s0 v0] snoc.prems(2) Some r lt_negtrans by auto
  qed
qed

text \<open>Convergence: without ties the register depends on the set of delivered writes only, not on their
  order or on how often each one is delivered.\<close>

lemma reg_run_convergent:
  assumes "set ws = set us" "tie_free lt (set ws)"
  shows "reg_run lt ws None = reg_run lt us None"
proof (cases "reg_run lt ws None")
  case None
  then show ?thesis using assms(1) by (simp add: reg_run_None_iff)
next
  case (Some a)
  then have "us \<noteq> []" using assms(1) reg_run_in by fastforce
  then obtain b where b: "reg_run lt us None = Some b"
    using reg_run_None_iff by blast
  have "a \<in> set ws" "b \<in> set ws"
    using reg_run_in [OF Some] reg_run_in [OF b] assms(1) by auto
  moreover have "\<not> lt (fst a) (fst b)"
    using reg_run_max [of ws "fst a" "snd a" b] Some \<open>b \<in> set ws\<close> by simp
  moreover have "\<not> lt (fst b) (fst a)"
    using reg_run_max [of us "fst b" "snd b" a] b \<open>a \<in> set ws\<close> assms(1) by simp
  ultimately have "a = b" using assms(2) unfolding tie_free_def by blast
  with Some b show ?thesis by simp
qed

end

end
