(* ===== verification/Mvcc_Stamp.thy ===== *)
theory Mvcc_Stamp
  imports Lww_Register
begin

text \<open>
  \<^verbatim>\<open>MvccClock\<close>, \<^verbatim>\<open>MvccStamp\<close> and the pure stamp functions of \<^verbatim>\<open>src/server/mvcc.h\<close> and \<^verbatim>\<open>mvcc.cc\<close>:
  the logical clock in KeyDB's layout, the order on stamps, the merge decision, the just-above
  tombstone of an expiry and the just-below floor of an applied write. All values are 64-bit
  words, so the carries and caps of the source are those of the model.
\<close>

subsection \<open>The clock\<close>

definition kCounterBits :: nat where "kCounterBits = 20"

definition kTombstoneBit :: u64 where "kTombstoneBit = push_bit 63 1"

definition kStampMask :: u64 where "kStampMask = NOT kTombstoneBit"

record mvcc_clock =
  last :: u64

definition clock_init :: mvcc_clock where "clock_init = \<lparr>last = 0\<rparr>"

definition Next :: "mvcc_clock \<Rightarrow> u64 \<Rightarrow> u64 \<times> mvcc_clock" where
  "Next c now_ms =
     (let cand = push_bit kCounterBits now_ms;
          l = (if cand > last c then cand else last c + 1)
      in (l, c\<lparr>last := l\<rparr>))"

definition AheadMs :: "mvcc_clock \<Rightarrow> u64 \<Rightarrow> u64" where
  "AheadMs c now_ms =
     (let ms = drop_bit kCounterBits (last c) in if ms > now_ms then ms - now_ms else 0)"

subsection \<open>Stamps\<close>

record mvcc_stamp =
  packed :: u64
  origin_hash :: u64

definition Mvcc :: "mvcc_stamp \<Rightarrow> u64" where
  "Mvcc s = packed s AND kStampMask"

definition IsTombstone :: "mvcc_stamp \<Rightarrow> bool" where
  "IsTombstone s = (packed s AND kTombstoneBit \<noteq> 0)"

definition MsPart :: "mvcc_stamp \<Rightarrow> u64" where
  "MsPart s = drop_bit kCounterBits (Mvcc s)"

definition stamp_empty :: mvcc_stamp where
  "stamp_empty = \<lparr>packed = 0, origin_hash = 0\<rparr>"

definition AsTombstone :: "mvcc_stamp \<Rightarrow> mvcc_stamp" where
  "AsTombstone s = \<lparr>packed = packed s OR kTombstoneBit, origin_hash = origin_hash s\<rparr>"

definition DeadlineMs :: "mvcc_stamp \<Rightarrow> u64 \<Rightarrow> u64" where
  "DeadlineMs s ttl_ms = MsPart s + ttl_ms"

definition stamp_less :: "mvcc_stamp \<Rightarrow> mvcc_stamp \<Rightarrow> bool" where
  "stamp_less a b =
     (Mvcc a < Mvcc b \<or> Mvcc a = Mvcc b \<and> origin_hash a < origin_hash b)"

definition MergeAccepts :: "mvcc_stamp option \<Rightarrow> mvcc_stamp \<Rightarrow> bool" where
  "MergeAccepts stored incoming =
     (case stored of None \<Rightarrow> True | Some s \<Rightarrow> stamp_less s incoming)"

definition ExpiryTombstoneFor :: "mvcc_stamp \<Rightarrow> mvcc_stamp" where
  "ExpiryTombstoneFor v =
     (if origin_hash v = - 1
      then \<lparr>packed = min (Mvcc v + 1) kStampMask OR kTombstoneBit, origin_hash = 0\<rparr>
      else \<lparr>packed = Mvcc v OR kTombstoneBit, origin_hash = origin_hash v + 1\<rparr>)"

definition FloorAppliedStamp :: "mvcc_stamp \<Rightarrow> mvcc_stamp \<Rightarrow> mvcc_stamp" where
  "FloorAppliedStamp stored incoming =
     (if Mvcc stored = 0 \<or> \<not> stamp_less incoming stored then incoming
      else let tomb_bit = (if IsTombstone incoming then kTombstoneBit else 0)
           in if origin_hash stored = 0
              then \<lparr>packed = (Mvcc stored - 1) OR tomb_bit, origin_hash = - 1\<rparr>
              else \<lparr>packed = Mvcc stored OR tomb_bit, origin_hash = origin_hash stored - 1\<rparr>)"

subsection \<open>Bit-level facts\<close>

lemma kStampMask_mask: "kStampMask = mask 63"
  by (simp add: kStampMask_def kTombstoneBit_def mask_eq_exp_minus_1)

lemma kTombstoneBit_num: "kTombstoneBit = 9223372036854775808"
  by (simp add: kTombstoneBit_def)

lemma kStampMask_num: "kStampMask = 9223372036854775807"
  by (simp add: kStampMask_mask mask_eq_exp_minus_1)

lemma bit_kTombstoneBit [stamp_simps]: "bit kTombstoneBit n \<longleftrightarrow> n = 63"
  by (simp only: kTombstoneBit_def bit_push_bit_iff bit_1_iff possible_bit_word) auto

lemma bit_kStampMask [stamp_simps]: "bit kStampMask n \<longleftrightarrow> n < 63"
  by (auto simp: kStampMask_mask bit_simps)

lemma and_kStampMask_eq_iff: "x AND kStampMask = x \<longleftrightarrow> \<not> bit x 63"
proof
  assume "x AND kStampMask = x"
  then have "bit x 63 = bit (x AND kStampMask) 63" by simp
  then show "\<not> bit x 63" by (simp add: bit_and_iff bit_kStampMask)
next
  assume *: "\<not> bit x 63"
  show "x AND kStampMask = x"
  proof (rule bit_word_eqI)
    fix n assume "n < LENGTH(64)"
    then have "n < 63 \<or> n = 63" by auto
    then show "bit (x AND kStampMask) n = bit x n"
      using * by (auto simp: bit_and_iff bit_kStampMask)
  qed
qed

lemma or_tomb_and_mask [stamp_simps]: "(x OR kTombstoneBit) AND kStampMask = x AND kStampMask"
  by (rule bit_word_eqI) (auto simp: bit_simps stamp_simps)

lemma and_mask_idem [stamp_simps]: "(x AND kStampMask) AND kStampMask = x AND kStampMask"
  by (rule bit_word_eqI) (auto simp: bit_simps stamp_simps)

lemma or_tomb_and_tomb [stamp_simps]: "(x OR kTombstoneBit) AND kTombstoneBit = kTombstoneBit"
  by (rule bit_word_eqI) (auto simp: bit_simps stamp_simps)

lemma and_mask_and_tomb [stamp_simps]: "(x AND kStampMask) AND kTombstoneBit = 0"
  by (rule bit_word_eqI) (auto simp: bit_simps stamp_simps)

lemma kTombstoneBit_neq_0 [stamp_simps, simp]: "kTombstoneBit \<noteq> 0"
  by (simp add: kTombstoneBit_num)

lemma and_kStampMask_le: "x AND kStampMask \<le> kStampMask"
  by (rule word_and_le1)

lemma le_kStampMask_and:
  assumes "x \<le> kStampMask"
  shows "x AND kStampMask = x"
proof -
  have "unat x < 2 ^ 63" using assms by (simp add: kStampMask_num word_le_nat_alt)
  then have "unat (take_bit 63 x) = unat x"
    by (simp add: unsigned_take_bit_eq take_bit_nat_eq_self)
  then show ?thesis by (simp add: kStampMask_mask take_bit_eq_mask [symmetric] word_unat_eq_iff)
qed

lemma IsTombstone_bit: "IsTombstone s \<longleftrightarrow> bit (packed s) 63"
proof -
  have "packed s AND kTombstoneBit = 0 \<longleftrightarrow> \<not> bit (packed s) 63"
    by (auto simp: bit_eq_iff [of "packed s AND kTombstoneBit"] bit_and_iff bit_kTombstoneBit
        dest: spec [of _ 63])
  then show ?thesis by (simp add: IsTombstone_def)
qed

lemma Mvcc_le [simp]: "Mvcc s \<le> kStampMask"
  by (simp add: Mvcc_def and_kStampMask_le)

lemma Mvcc_pred_le: "Mvcc s - 1 \<le> kStampMask" if "Mvcc s \<noteq> 0"
  using word_pred_less [OF that] Mvcc_le [of s] by (meson less_imp_le order_trans)

lemma Mvcc_mask [stamp_simps]: "Mvcc \<lparr>packed = x AND kStampMask, origin_hash = h\<rparr> = x AND kStampMask"
  by (simp add: Mvcc_def stamp_simps)

lemma Mvcc_tomb [stamp_simps]: "Mvcc \<lparr>packed = x OR kTombstoneBit, origin_hash = h\<rparr> = x AND kStampMask"
  by (simp add: Mvcc_def stamp_simps)

lemma IsTombstone_tomb [stamp_simps, simp]: "IsTombstone \<lparr>packed = x OR kTombstoneBit, origin_hash = h\<rparr>"
  by (simp add: IsTombstone_def stamp_simps)

lemma not_IsTombstone_mask [stamp_simps, simp]:
  "\<not> IsTombstone \<lparr>packed = x AND kStampMask, origin_hash = h\<rparr>"
  by (simp add: IsTombstone_def stamp_simps)

lemma Mvcc_small:
  assumes "x \<le> kStampMask" "b = 0 \<or> b = kTombstoneBit"
  shows "Mvcc \<lparr>packed = x OR b, origin_hash = h\<rparr> = x"
    and "IsTombstone \<lparr>packed = x OR b, origin_hash = h\<rparr> \<longleftrightarrow> b = kTombstoneBit"
proof -
  show "Mvcc \<lparr>packed = x OR b, origin_hash = h\<rparr> = x"
    using assms le_kStampMask_and [OF assms(1)] by (auto simp: Mvcc_def stamp_simps)
  have "\<not> bit x 63" using le_kStampMask_and [OF assms(1)] and_kStampMask_eq_iff by blast
  then show "IsTombstone \<lparr>packed = x OR b, origin_hash = h\<rparr> \<longleftrightarrow> b = kTombstoneBit"
    using assms(2) by (auto simp: IsTombstone_bit bit_or_iff bit_kTombstoneBit)
qed

lemma Mvcc_AsTombstone [simp]: "Mvcc (AsTombstone s) = Mvcc s"
  by (simp add: AsTombstone_def Mvcc_def stamp_simps)

lemma Mvcc_empty [simp]: "Mvcc stamp_empty = 0" "\<not> IsTombstone stamp_empty"
  by (simp_all add: stamp_empty_def Mvcc_def IsTombstone_def)

subsection \<open>The order is a strict weak order\<close>

interpretation stamp_ord: version_order stamp_less
  by unfold_locales (auto simp: stamp_less_def)

lemma MergeAccepts_accepts: "MergeAccepts = accepts stamp_less"
  by (auto simp: fun_eq_iff MergeAccepts_def accepts_def)

text \<open>Order-equivalence is equality up to the tombstone bit.\<close>

lemma stamp_tie_iff:
  "\<not> stamp_less a b \<and> \<not> stamp_less b a \<longleftrightarrow> Mvcc a = Mvcc b \<and> origin_hash a = origin_hash b"
  by (auto simp: stamp_less_def)

text \<open>Masking or setting bit 63 is invisible to the order.\<close>

lemma stamp_less_cong:
  "Mvcc a = Mvcc a' \<Longrightarrow> origin_hash a = origin_hash a' \<Longrightarrow> stamp_less a b = stamp_less a' b"
  "Mvcc b = Mvcc b' \<Longrightarrow> origin_hash b = origin_hash b' \<Longrightarrow> stamp_less a b = stamp_less a b'"
  by (simp_all add: stamp_less_def)

subsection \<open>Clock\<close>

fun mint_all :: "mvcc_clock \<Rightarrow> u64 list \<Rightarrow> u64 list" where
  "mint_all c [] = []"
| "mint_all c (n # ns) = (let (l, c') = Next c n in l # mint_all c' ns)"

lemma Next_greater:
  assumes "last c \<noteq> - 1"
  shows "last c < fst (Next c n)" "last (snd (Next c n)) = fst (Next c n)"
  using word_Suc_less [OF assms] by (auto simp: Next_def Let_def)

lemma Next_at_least: "push_bit kCounterBits n \<le> fst (Next c n)" if "last c \<noteq> - 1"
  using word_Suc_less [OF that] by (auto simp: Next_def Let_def)

lemma unat_Next_le:
  assumes "last c \<noteq> - 1"
  shows "unat (fst (Next c n)) \<le> Suc (max (unat (last c)) (unat (push_bit kCounterBits n)))"
  using unat_Suc_word [OF assms] by (auto simp: Next_def Let_def)

subsection \<open>Just above, just below\<close>

lemma ExpiryTombstoneFor_tomb [simp]: "IsTombstone (ExpiryTombstoneFor v)"
  by (simp add: ExpiryTombstoneFor_def)

lemma Mvcc_ExpiryTombstoneFor:
  "Mvcc (ExpiryTombstoneFor v) =
     (if origin_hash v = - 1 then min (Mvcc v + 1) kStampMask else Mvcc v)"
  by (simp add: ExpiryTombstoneFor_def Mvcc_small)

lemma Mvcc_not_max: "Mvcc v \<noteq> - 1"
  using Mvcc_le [of v] by (auto simp: kStampMask_num word_le_nat_alt)

lemma Mvcc_Suc_le: "Mvcc v \<noteq> kStampMask \<Longrightarrow> Mvcc v + 1 \<le> kStampMask"
  using Mvcc_le [of v] by (simp add: word_Suc_le_iff [OF Mvcc_not_max] order.not_eq_order_implies_strict)

lemma ExpiryTombstoneFor_least:
  assumes "\<not> (Mvcc v = kStampMask \<and> origin_hash v = - 1)"
  shows "stamp_less (ExpiryTombstoneFor v) x \<longleftrightarrow>
         stamp_less v x \<and> \<not> (Mvcc x = Mvcc (ExpiryTombstoneFor v) \<and> origin_hash x = origin_hash (ExpiryTombstoneFor v))"
    and "stamp_less v (ExpiryTombstoneFor v)"
proof (atomize (full), goal_cases)
  case 1
  show ?case
  proof (cases "origin_hash v = - 1")
    case True
    with assms have ne: "Mvcc v \<noteq> kStampMask" by simp
    have m: "Mvcc (ExpiryTombstoneFor v) = Mvcc v + 1" "origin_hash (ExpiryTombstoneFor v) = 0"
      using True Mvcc_Suc_le [OF ne] by (simp_all add: Mvcc_ExpiryTombstoneFor min_absorb1)
         (simp add: ExpiryTombstoneFor_def)
    have b: "\<not> origin_hash v < h" for h using True by simp
    have z: "0 < h \<longleftrightarrow> h \<noteq> 0" for h :: u64 by (simp add: word_neq_0_conv)
    show ?thesis
      by (simp add: stamp_less_def m b z word_less_Suc_cases [OF Mvcc_not_max, of v]) auto
  next
    case False
    have m: "Mvcc (ExpiryTombstoneFor v) = Mvcc v" "origin_hash (ExpiryTombstoneFor v) = origin_hash v + 1"
      using False by (simp_all add: Mvcc_ExpiryTombstoneFor) (simp add: ExpiryTombstoneFor_def)
    show ?thesis
      by (simp add: stamp_less_def m word_less_Suc_cases [OF False]) auto
  qed
qed

lemma FloorAppliedStamp_floor:
  assumes "Mvcc stored \<noteq> 0" "stamp_less incoming stored"
  shows "stamp_less (FloorAppliedStamp stored incoming) x \<longleftrightarrow> \<not> stamp_less x stored"
    and "stamp_less x (FloorAppliedStamp stored incoming) \<longrightarrow> stamp_less x stored"
    and "IsTombstone (FloorAppliedStamp stored incoming) = IsTombstone incoming"
proof -
  let ?b = "if IsTombstone incoming then kTombstoneBit else 0"
  let ?f = "FloorAppliedStamp stored incoming"
  have b: "?b = 0 \<or> ?b = kTombstoneBit" by simp
  have t: "?b = kTombstoneBit \<longleftrightarrow> IsTombstone incoming" by auto
  have f: "?f = (if origin_hash stored = 0
              then \<lparr>packed = (Mvcc stored - 1) OR ?b, origin_hash = - 1\<rparr>
              else \<lparr>packed = Mvcc stored OR ?b, origin_hash = origin_hash stored - 1\<rparr>)"
    using assms by (simp add: FloorAppliedStamp_def Let_def)
  have ms: "Mvcc ?f = (if origin_hash stored = 0 then Mvcc stored - 1 else Mvcc stored)"
    "origin_hash ?f = origin_hash stored - 1"
    using f Mvcc_small(1) [OF Mvcc_pred_le [OF assms(1)] b] Mvcc_small(1) [OF Mvcc_le b] by auto
  show "IsTombstone ?f = IsTombstone incoming"
    using f t Mvcc_small(2) [OF Mvcc_pred_le [OF assms(1)] b] Mvcc_small(2) [OF Mvcc_le b] by auto
  have key: "stamp_less ?f x \<longleftrightarrow> \<not> stamp_less x stored" for x
  proof (cases "origin_hash stored = 0")
    case True
    then show ?thesis
      by (simp add: stamp_less_def ms word_pred_less_iff [OF assms(1)] linorder_not_less)
  next
    case False
    then show ?thesis
      by (simp add: stamp_less_def ms word_pred_less_iff [OF False] linorder_not_less) auto
  qed
  show "stamp_less ?f x \<longleftrightarrow> \<not> stamp_less x stored" by (rule key)
  show "stamp_less x ?f \<longrightarrow> stamp_less x stored"
    using key [of x] stamp_ord.lt_asym by blast
qed

subsection \<open>Properties\<close>

text \<open>C24: a sequence of mints from one clock, at any wall-clock readings (also ones that step back), is
  strictly increasing and stays above the last stamp minted before, as long as neither the clock nor a shifted
  reading is within the length of the sequence of \<open>2 ^ 64\<close>.\<close>

theorem clock_strictly_increasing:
  assumes "unat (last c) + length ns < 2 ^ 64"
    and "\<forall>n\<in>set ns. unat (push_bit kCounterBits n :: u64) + length ns < 2 ^ 64"
  shows "sorted_wrt (<) (last c # mint_all c ns)"
  using assms
proof (induction ns arbitrary: c)
  case Nil
  then show ?case by simp
next
  case (Cons n ns)
  obtain l c' where n: "Next c n = (l, c')" by force
  have ne: "last c \<noteq> - 1"
    using Cons.prems(1) by auto
  have l: "last c < l" "last c' = l" using Next_greater [OF ne, of n] n by auto
  have "unat l \<le> Suc (max (unat (last c)) (unat (push_bit kCounterBits n :: u64)))"
    using unat_Next_le [OF ne, of n] n by simp
  then have "unat (last c') + length ns < 2 ^ 64"
    using Cons.prems l(2) by (auto simp: max_def split: if_splits)
  then have "sorted_wrt (<) (l # mint_all c' ns)"
    using Cons.IH [of c'] Cons.prems(2) l(2) by fastforce
  with l(1) n show ?case by (auto intro: less_trans)
qed

theorem clock_strictly_increasing_witness:
  "sorted_wrt (<) (last \<lparr>last = 7\<rparr> # mint_all \<lparr>last = 7\<rparr> [1, 1, 0, 2])"
  by (rule clock_strictly_increasing) (simp_all add: kCounterBits_def push_bit_eq_mult)

text \<open>C21: the tombstone of an expired value is strictly newer than the value and is the least such stamp: any
  stamp newer than the value is newer than the tombstone or ties with it. The one exception is the value
  stamped with the maximal time and the maximal origin hash.\<close>

theorem expiry_tombstone_least:
  assumes "\<not> (Mvcc v = kStampMask \<and> origin_hash v = - 1)"
  shows "IsTombstone (ExpiryTombstoneFor v) \<and> stamp_less v (ExpiryTombstoneFor v) \<and>
    (stamp_less v x \<longrightarrow> stamp_less (ExpiryTombstoneFor v) x \<or>
       Mvcc x = Mvcc (ExpiryTombstoneFor v) \<and> origin_hash x = origin_hash (ExpiryTombstoneFor v))"
  using ExpiryTombstoneFor_least(1) [OF assms, of x] ExpiryTombstoneFor_least(2) [OF assms] by auto

theorem expiry_tombstone_least_witness:
  "IsTombstone (ExpiryTombstoneFor \<lparr>packed = 5, origin_hash = - 1\<rparr>) \<and>
   stamp_less (ExpiryTombstoneFor \<lparr>packed = 5, origin_hash = - 1\<rparr>) \<lparr>packed = 6, origin_hash = 1\<rparr>"
  using expiry_tombstone_least [of "\<lparr>packed = 5, origin_hash = - 1\<rparr>" "\<lparr>packed = 6, origin_hash = 1\<rparr>"]
  by (simp add: Mvcc_def kStampMask_num stamp_less_def ExpiryTombstoneFor_def kTombstoneBit_num)

text \<open>C20: when an applied write is older than the stored stamp, the floored stamp it commits with sits directly
  below the stored one: it accepts exactly the writes that are not older than the stored stamp, and it keeps the
  applied write's tombstone bit.\<close>

theorem floor_applied_stamp_exact:
  assumes "Mvcc stored \<noteq> 0" "stamp_less incoming stored"
  shows "MergeAccepts (Some (FloorAppliedStamp stored incoming)) x = (\<not> stamp_less x stored) \<and>
         IsTombstone (FloorAppliedStamp stored incoming) = IsTombstone incoming"
  using FloorAppliedStamp_floor(1) [OF assms, of x] FloorAppliedStamp_floor(3) [OF assms] by (simp add: MergeAccepts_def)

theorem floor_applied_stamp_exact_witness:
  "MergeAccepts (Some (FloorAppliedStamp \<lparr>packed = 9, origin_hash = 0\<rparr> \<lparr>packed = 4, origin_hash = 3\<rparr>))
     \<lparr>packed = 9, origin_hash = 0\<rparr>"
  using floor_applied_stamp_exact
    [of "\<lparr>packed = 9, origin_hash = 0\<rparr>" "\<lparr>packed = 4, origin_hash = 3\<rparr>" "\<lparr>packed = 9, origin_hash = 0\<rparr>"]
  by (simp add: Mvcc_def kStampMask_num stamp_less_def)

end
