(* ===== verification/Mvcc_Stamper.thy ===== *)
theory Mvcc_Stamper
  imports Mvcc_Stamp
begin

text \<open>
  The thread-local \<^verbatim>\<open>MvccStamper\<close> of \<^verbatim>\<open>src/server/mvcc.h\<close> and \<^verbatim>\<open>mvcc.cc\<close>: minting, and the
  arm/commit bookkeeping. Armed keys live in one byte arena and are addressed by 32-bit offset and
  length, as in the source. A callback (\<^verbatim>\<open>CommitFn\<close>, \<^verbatim>\<open>EraseFn\<close>) is a function on an external state
  \<open>'s\<close>, threaded through the calls in the order the source makes them. \<^verbatim>\<open>commit_depth_\<close> is a debug
  guard against re-entrant callbacks; a callback of the model cannot reach the stamper, so the
  guard is always 0 here and is left out.
\<close>

record armed =
  a_db_index :: db_index
  a_off :: u32
  a_len :: u32
  a_tombstone :: bool
  a_prev_stamp :: mvcc_stamp

record stamper_stats =
  unstamped_writes :: u64
  stale_epoch :: u64

record mvcc_stamper =
  clock :: mvcc_clock
  hop_stamp :: u64
  hop_started_ms :: u64
  arena :: string
  armed_list :: "armed list"
  origin_hash_cache :: "u64 list"
  stats :: stamper_stats

type_synonym 's commit_fn = "db_index \<Rightarrow> key \<Rightarrow> mvcc_stamp \<Rightarrow> bool \<Rightarrow> mvcc_stamp \<Rightarrow> 's \<Rightarrow> 's"
type_synonym 's erase_fn = "db_index \<Rightarrow> key \<Rightarrow> 's \<Rightarrow> 's"

definition kMaxEpochMs :: u64 where "kMaxEpochMs = 50"

definition stamper_init :: mvcc_stamper where
  "stamper_init =
     \<lparr>clock = clock_init, hop_stamp = 0, hop_started_ms = 0, arena = [], armed_list = [],
      origin_hash_cache = [], stats = \<lparr>unstamped_writes = 0, stale_epoch = 0\<rparr>\<rparr>"

definition ArmedKey :: "mvcc_stamper \<Rightarrow> armed \<Rightarrow> key" where
  "ArmedKey st a = take (unat (a_len a)) (drop (unat (a_off a)) (arena st))"

subsection \<open>Origins\<close>

definition RegisterOriginHash :: "nat \<Rightarrow> u64 \<Rightarrow> mvcc_stamper \<Rightarrow> mvcc_stamper" where
  "RegisterOriginHash origin_idx hash st =
     (let c = origin_hash_cache st;
          c' = (if length c \<le> origin_idx then c @ replicate (origin_idx + 1 - length c) 0 else c)
      in st\<lparr>origin_hash_cache := c'[origin_idx := hash]\<rparr>)"

text \<open>\<^verbatim>\<open>NodeUuidHash\<close> is xxHash, which is not part of the repository: a parameter.\<close>

definition SetSelfUuid :: "(string \<Rightarrow> u64) \<Rightarrow> string \<Rightarrow> mvcc_stamper \<Rightarrow> mvcc_stamper" where
  "SetSelfUuid NodeUuidHash uuid st = RegisterOriginHash 0 (NodeUuidHash uuid) st"

definition OriginHash :: "mvcc_stamper \<Rightarrow> nat \<Rightarrow> u64" where
  "OriginHash st origin_idx =
     (if origin_idx < length (origin_hash_cache st) then origin_hash_cache st ! origin_idx else 0)"

subsection \<open>Minting\<close>

definition HopStamp :: "u64 \<Rightarrow> mvcc_stamper \<Rightarrow> u64 \<times> mvcc_stamper" where
  "HopStamp now_ms st =
     (let clock_stepped_back = (hop_stamp st \<noteq> 0 \<and> now_ms < hop_started_ms st);
          expired = (hop_stamp st \<noteq> 0 \<and> \<not> clock_stepped_back \<and>
                     now_ms - hop_started_ms st > kMaxEpochMs)
      in if hop_stamp st = 0 \<or> clock_stepped_back \<or> expired then
           let stats' = (if hop_stamp st \<noteq> 0
                         then (stats st)\<lparr>stale_epoch := stale_epoch (stats st) + 1\<rparr> else stats st);
               (l, c') = Next (clock st) now_ms
           in (l, st\<lparr>stats := stats', clock := c', hop_stamp := l, hop_started_ms := now_ms\<rparr>)
         else (hop_stamp st, st))"

definition LocalMintFloor :: "mvcc_stamper \<Rightarrow> u64" where
  "LocalMintFloor st =
     fold (\<lambda>a floor. let prev_mvcc = Mvcc (a_prev_stamp a)
                     in if prev_mvcc = 0 then floor else max floor (min (prev_mvcc + 1) kStampMask))
       (armed_list st) 0"

subsection \<open>Arming\<close>

definition push_arm :: "db_index \<Rightarrow> key \<Rightarrow> bool \<Rightarrow> mvcc_stamp \<Rightarrow> mvcc_stamper \<Rightarrow> mvcc_stamper" where
  "push_arm db key tomb prev st =
     st\<lparr>arena := arena st @ key,
        armed_list := armed_list st @
          [\<lparr>a_db_index = db, a_off = of_nat (length (arena st)), a_len = of_nat (length key),
            a_tombstone = tomb, a_prev_stamp = prev\<rparr>]\<rparr>"

definition Arm :: "db_index \<Rightarrow> key \<Rightarrow> mvcc_stamp \<Rightarrow> mvcc_stamper \<Rightarrow> mvcc_stamper" where
  "Arm db key prev_stamp st =
     (let effective_prev =
            (if IsTombstone prev_stamp \<and> Mvcc prev_stamp = 0
             then case find (\<lambda>a. a_tombstone a \<and> a_db_index a = db \<and> ArmedKey st a = key) (armed_list st) of
                    Some a \<Rightarrow> a_prev_stamp a | None \<Rightarrow> prev_stamp
             else prev_stamp)
      in push_arm db key False effective_prev st)"

definition ArmTombstone :: "db_index \<Rightarrow> key \<Rightarrow> mvcc_stamp \<Rightarrow> mvcc_stamper \<Rightarrow> mvcc_stamper" where
  "ArmTombstone db key prev_stamp st = push_arm db key True prev_stamp st"

definition Disarm :: "db_index \<Rightarrow> key \<Rightarrow> mvcc_stamper \<Rightarrow> mvcc_stamper" where
  "Disarm db key st =
     st\<lparr>armed_list := filter (\<lambda>a. \<not> (a_db_index a = db \<and> ArmedKey st a = key)) (armed_list st)\<rparr>"

subsection \<open>Committing\<close>

definition Commit :: "u64 \<Rightarrow> nat \<Rightarrow> 's commit_fn \<Rightarrow> mvcc_stamper \<Rightarrow> 's \<Rightarrow> mvcc_stamper \<times> 's" where
  "Commit mvcc origin_idx fn st s =
     (if armed_list st = [] then (st, s)
      else let stamp = \<lparr>packed = mvcc, origin_hash = OriginHash st origin_idx\<rparr>;
               tomb_stamp = \<lparr>packed = mvcc OR kTombstoneBit, origin_hash = origin_hash stamp\<rparr>;
               s' = fold (\<lambda>a. fn (a_db_index a) (ArmedKey st a)
                                (if a_tombstone a then tomb_stamp else stamp)
                                (a_tombstone a) (a_prev_stamp a)) (armed_list st) s
           in (st\<lparr>armed_list := [], arena := []\<rparr>, s'))"

text \<open>The first tombstone arm of the key, with what precedes and what follows it.\<close>

fun split_first :: "('a \<Rightarrow> bool) \<Rightarrow> 'a list \<Rightarrow> ('a list \<times> 'a \<times> 'a list) option" where
  "split_first P [] = None"
| "split_first P (x # xs) =
     (if P x then Some ([], x, xs)
      else map_option (\<lambda>(as, y, bs). (x # as, y, bs)) (split_first P xs))"

definition CommitOwnTombstone ::
  "db_index \<Rightarrow> key \<Rightarrow> 's commit_fn \<Rightarrow> mvcc_stamper \<Rightarrow> 's \<Rightarrow> bool \<times> mvcc_stamper \<times> 's" where
  "CommitOwnTombstone db key fn st s =
     (case split_first (\<lambda>a. a_db_index a = db \<and> a_tombstone a \<and> ArmedKey st a = key) (armed_list st) of
        None \<Rightarrow> (False, st, s)
      | Some (before, it, after) \<Rightarrow>
          let prev_mvcc = Mvcc (a_prev_stamp it);
              has_prior_stamp = (prev_mvcc \<noteq> 0);
              stamp = (if has_prior_stamp then ExpiryTombstoneFor (a_prev_stamp it) else stamp_empty);
              s' = fn db (ArmedKey st it) stamp has_prior_stamp (a_prev_stamp it) s
          in (True, st\<lparr>armed_list := before @ after\<rparr>, s'))"

definition EndOfWriteEpoch :: "'s erase_fn \<Rightarrow> mvcc_stamper \<Rightarrow> 's \<Rightarrow> mvcc_stamper \<times> 's" where
  "EndOfWriteEpoch erase_fn st s =
     (let s' = fold (\<lambda>a. if a_tombstone a then erase_fn (a_db_index a) (ArmedKey st a) else id)
                 (armed_list st) s
      in (st\<lparr>stats := (stats st)\<lparr>unstamped_writes :=
                         unstamped_writes (stats st) + of_nat (length (armed_list st))\<rparr>,
             armed_list := [], arena := [], hop_stamp := 0, hop_started_ms := 0\<rparr>, s'))"

definition ArmedCount :: "mvcc_stamper \<Rightarrow> nat" where
  "ArmedCount st = length (armed_list st)"

subsection \<open>The abstract arm list\<close>

text \<open>What the stamper promises: a list of pending arms, each a key by value. Offsets and lengths into the
  arena are an implementation of it, correct while the arena is addressable with 32 bits.\<close>

record parm =
  p_db :: db_index
  p_key :: key
  p_tomb :: bool
  p_prev :: mvcc_stamp

definition arm_view :: "mvcc_stamper \<Rightarrow> armed \<Rightarrow> parm" where
  "arm_view st a = \<lparr>p_db = a_db_index a, p_key = ArmedKey st a, p_tomb = a_tombstone a,
                    p_prev = a_prev_stamp a\<rparr>"

definition pending :: "mvcc_stamper \<Rightarrow> parm list" where
  "pending st = map (arm_view st) (armed_list st)"

definition arms_wf :: "mvcc_stamper \<Rightarrow> bool" where
  "arms_wf st = (length (arena st) < 2 ^ 32 \<and>
     (\<forall>a\<in>set (armed_list st). unat (a_off a) + unat (a_len a) \<le> length (arena st)))"

definition spec_find_prev :: "db_index \<Rightarrow> key \<Rightarrow> mvcc_stamp \<Rightarrow> parm list \<Rightarrow> mvcc_stamp" where
  "spec_find_prev db key prev ps =
     (if IsTombstone prev \<and> Mvcc prev = 0
      then case find (\<lambda>p. p_tomb p \<and> p_db p = db \<and> p_key p = key) ps of
             Some p \<Rightarrow> p_prev p | None \<Rightarrow> prev
      else prev)"

definition spec_arm :: "db_index \<Rightarrow> key \<Rightarrow> mvcc_stamp \<Rightarrow> parm list \<Rightarrow> parm list" where
  "spec_arm db key prev ps =
     ps @ [\<lparr>p_db = db, p_key = key, p_tomb = False, p_prev = spec_find_prev db key prev ps\<rparr>]"

definition spec_arm_tombstone :: "db_index \<Rightarrow> key \<Rightarrow> mvcc_stamp \<Rightarrow> parm list \<Rightarrow> parm list" where
  "spec_arm_tombstone db key prev ps =
     ps @ [\<lparr>p_db = db, p_key = key, p_tomb = True, p_prev = prev\<rparr>]"

definition spec_disarm :: "db_index \<Rightarrow> key \<Rightarrow> parm list \<Rightarrow> parm list" where
  "spec_disarm db key ps = filter (\<lambda>p. \<not> (p_db p = db \<and> p_key p = key)) ps"

definition spec_commit :: "mvcc_stamp \<Rightarrow> 's commit_fn \<Rightarrow> parm list \<Rightarrow> 's \<Rightarrow> 's" where
  "spec_commit stamp fn ps s =
     fold (\<lambda>p. fn (p_db p) (p_key p) (if p_tomb p then AsTombstone stamp else stamp)
                  (p_tomb p) (p_prev p)) ps s"

subsection \<open>The arena implements the arm list\<close>

lemma find_map_eq: "find P (map f xs) = map_option f (find (P \<circ> f) xs)"
  by (induction xs) auto

lemma arm_view_simps [simp]:
  "p_db (arm_view st a) = a_db_index a" "p_key (arm_view st a) = ArmedKey st a"
  "p_tomb (arm_view st a) = a_tombstone a" "p_prev (arm_view st a) = a_prev_stamp a"
  by (simp_all add: arm_view_def)

lemma ArmedKey_armed_list [simp]: "ArmedKey (st\<lparr>armed_list := l\<rparr>) = ArmedKey st"
  by (simp add: ArmedKey_def fun_eq_iff)

lemma arm_view_armed_list [simp]: "arm_view (st\<lparr>armed_list := l\<rparr>) = arm_view st"
  by (simp add: arm_view_def fun_eq_iff)

lemma push_arm_refines:
  assumes "arms_wf st" "length (arena st) + length k < 2 ^ 32"
  shows "arms_wf (push_arm db k t prev st)"
    and "pending (push_arm db k t prev st) =
         pending st @ [\<lparr>p_db = db, p_key = k, p_tomb = t, p_prev = prev\<rparr>]"
proof -
  have u: "unat (of_nat (length (arena st)) :: u32) = length (arena st)"
    "unat (of_nat (length k) :: u32) = length k"
    using assms(2) by (simp_all add: unat_of_nat_u32)
  show "arms_wf (push_arm db k t prev st)"
    using assms u by (auto simp: arms_wf_def push_arm_def)
  show "pending (push_arm db k t prev st) =
         pending st @ [\<lparr>p_db = db, p_key = k, p_tomb = t, p_prev = prev\<rparr>]"
    using assms(1) u by (auto simp: pending_def push_arm_def arms_wf_def arm_view_def ArmedKey_def)
qed

lemma Arm_refines:
  assumes "arms_wf st" "length (arena st) + length k < 2 ^ 32"
  shows "arms_wf (Arm db k prev st)" "pending (Arm db k prev st) = spec_arm db k prev (pending st)"
proof -
  have "(\<lambda>p. p_tomb p \<and> p_db p = db \<and> p_key p = k) \<circ> arm_view st
        = (\<lambda>a. a_tombstone a \<and> a_db_index a = db \<and> ArmedKey st a = k)"
    by (auto simp: fun_eq_iff)
  then have "Arm db k prev st = push_arm db k False (spec_find_prev db k prev (pending st)) st"
    by (simp add: Arm_def Let_def spec_find_prev_def pending_def find_map_eq split: option.splits)
  then show "pending (Arm db k prev st) = spec_arm db k prev (pending st)"
    by (simp add: push_arm_refines [OF assms] spec_arm_def)
  show "arms_wf (Arm db k prev st)"
    by (simp add: Arm_def Let_def push_arm_refines [OF assms])
qed

lemma ArmTombstone_refines:
  assumes "arms_wf st" "length (arena st) + length k < 2 ^ 32"
  shows "arms_wf (ArmTombstone db k prev st)"
    "pending (ArmTombstone db k prev st) = spec_arm_tombstone db k prev (pending st)"
  using push_arm_refines [OF assms] by (simp_all add: ArmTombstone_def spec_arm_tombstone_def)

lemma Disarm_refines:
  "arms_wf st \<Longrightarrow> arms_wf (Disarm db k st)" "pending (Disarm db k st) = spec_disarm db k (pending st)"
  by (auto simp: arms_wf_def Disarm_def)
     (simp add: Disarm_def spec_disarm_def pending_def filter_map o_def)

lemma Commit_refines:
  "snd (Commit mvcc o_idx fn st s) =
     spec_commit \<lparr>packed = mvcc, origin_hash = OriginHash st o_idx\<rparr> fn (pending st) s"
  by (simp add: Commit_def spec_commit_def pending_def fold_map o_def AsTombstone_def Let_def
      cong: if_cong)

lemma Commit_clears:
  assumes "arms_wf st"
  shows "pending (fst (Commit mvcc o_idx fn st s)) = []" "arms_wf (fst (Commit mvcc o_idx fn st s))"
  using assms by (auto simp: Commit_def pending_def arms_wf_def Let_def)

lemma split_first_None: "split_first P xs = None \<longleftrightarrow> (\<forall>x\<in>set xs. \<not> P x)"
  by (induction xs) auto

lemma split_first_Some:
  "split_first P xs = Some (as, x, bs) \<Longrightarrow> xs = as @ x # bs \<and> P x \<and> (\<forall>y\<in>set as. \<not> P y)"
  by (induction xs arbitrary: as) (auto split: if_splits)

lemma split_first_map:
  "split_first P (map f xs) =
     map_option (\<lambda>(as, x, bs). (map f as, f x, map f bs)) (split_first (P \<circ> f) xs)"
  by (induction xs) (auto simp: option.map_comp o_def split_def)

lemma EndOfWriteEpoch_clears:
  "pending (fst (EndOfWriteEpoch fn st s)) = []" "arms_wf (fst (EndOfWriteEpoch fn st s))"
  by (auto simp: EndOfWriteEpoch_def pending_def arms_wf_def Let_def)

lemma EndOfWriteEpoch_erases:
  "snd (EndOfWriteEpoch fn st s) = fold (\<lambda>p. if p_tomb p then fn (p_db p) (p_key p) else id) (pending st) s"
  by (simp add: EndOfWriteEpoch_def pending_def fold_map o_def Let_def cong: if_cong)

definition spec_commit_own ::
  "db_index \<Rightarrow> key \<Rightarrow> 's commit_fn \<Rightarrow> parm list \<Rightarrow> 's \<Rightarrow> bool \<times> parm list \<times> 's" where
  "spec_commit_own db k fn ps s =
     (case split_first (\<lambda>p. p_db p = db \<and> p_tomb p \<and> p_key p = k) ps of
        None \<Rightarrow> (False, ps, s)
      | Some (before, p, after) \<Rightarrow>
          (True, before @ after,
           if Mvcc (p_prev p) = 0 then fn db k stamp_empty False (p_prev p) s
           else fn db k (ExpiryTombstoneFor (p_prev p)) True (p_prev p) s))"

lemma CommitOwnTombstone_refines:
  "map_prod id (map_prod pending id) (CommitOwnTombstone db k fn st s) =
     spec_commit_own db k fn (pending st) s"
proof -
  let ?P = "\<lambda>p. p_db p = db \<and> p_tomb p \<and> p_key p = k"
  have eq: "?P \<circ> arm_view st = (\<lambda>a. a_db_index a = db \<and> a_tombstone a \<and> ArmedKey st a = k)"
    by (auto simp: fun_eq_iff)
  show ?thesis
  proof (cases "split_first (?P \<circ> arm_view st) (armed_list st)")
    case None
    then show ?thesis
      by (simp add: CommitOwnTombstone_def spec_commit_own_def pending_def split_first_map eq)
  next
    case (Some r)
    obtain as a bs where r: "r = (as, a, bs)" by (cases r) auto
    have "ArmedKey st a = k" using split_first_Some [OF Some [unfolded r]] by simp
    with Some r show ?thesis
      by (simp add: CommitOwnTombstone_def spec_commit_own_def pending_def split_first_map eq)
  qed
qed

lemma CommitOwnTombstone_wf:
  assumes "arms_wf st"
  shows "arms_wf (fst (snd (CommitOwnTombstone db k fn st s)))"
proof (cases "split_first (\<lambda>a. a_db_index a = db \<and> a_tombstone a \<and> ArmedKey st a = k) (armed_list st)")
  case None
  then show ?thesis using assms by (simp add: CommitOwnTombstone_def)
next
  case (Some r)
  obtain as a bs where r: "r = (as, a, bs)" by (cases r) auto
  have "armed_list st = as @ a # bs" using split_first_Some [OF Some [unfolded r]] by simp
  with Some r assms show ?thesis
    by (auto simp: CommitOwnTombstone_def arms_wf_def Let_def)
qed

subsection \<open>Minting\<close>

lemma LocalMintFloor_fold:
  "fold (\<lambda>a floor. let m = Mvcc (a_prev_stamp a)
                   in if m = 0 then floor else max floor (min (m + 1) kStampMask)) as f \<ge> f"
proof (induction as arbitrary: f)
  case (Cons a as)
  let ?g = "\<lambda>a floor. let m = Mvcc (a_prev_stamp a)
                   in if m = 0 then floor else max floor (min (m + 1) kStampMask)"
  have "f \<le> ?g a f" by (simp add: Let_def)
  also have "\<dots> \<le> fold ?g as (?g a f)" by (rule Cons.IH)
  finally show ?case by simp
qed simp

lemma LocalMintFloor_above:
  assumes "a \<in> set (armed_list st)" "Mvcc (a_prev_stamp a) \<noteq> 0" "Mvcc (a_prev_stamp a) \<noteq> kStampMask"
  shows "Mvcc (a_prev_stamp a) < LocalMintFloor st"
proof -
  obtain as bs where "armed_list st = as @ a # bs" using assms(1) by (meson split_list)
  moreover have "min (Mvcc (a_prev_stamp a) + 1) kStampMask = Mvcc (a_prev_stamp a) + 1"
    using Mvcc_Suc_le [OF assms(3)] by (simp add: min_absorb1)
  ultimately have "max f (Mvcc (a_prev_stamp a) + 1) \<le> LocalMintFloor st"
    if "f = fold (\<lambda>a floor. let m = Mvcc (a_prev_stamp a)
                   in if m = 0 then floor else max floor (min (m + 1) kStampMask)) as 0" for f
    using assms(2) LocalMintFloor_fold [of "max f (Mvcc (a_prev_stamp a) + 1)" bs] that
    by (simp add: LocalMintFloor_def Let_def)
  then have "Mvcc (a_prev_stamp a) + 1 \<le> LocalMintFloor st" by simp
  then show ?thesis by (simp add: word_Suc_le_iff [OF Mvcc_not_max])
qed

lemma LocalMintFloor_le: "LocalMintFloor st \<le> kStampMask"
  unfolding LocalMintFloor_def
  by (rule fold_invariant) (auto simp: Let_def)

text \<open>The memo is reused exactly while it is at most \<^const>\<open>kMaxEpochMs\<close> old and the wall clock has not stepped
  back; otherwise a fresh tick is minted.\<close>

definition hop_valid :: "u64 \<Rightarrow> mvcc_stamper \<Rightarrow> bool" where
  "hop_valid now_ms st = (hop_stamp st \<noteq> 0 \<and> hop_started_ms st \<le> now_ms \<and>
                         now_ms - hop_started_ms st \<le> kMaxEpochMs)"

lemma HopStamp_cases:
  "HopStamp now_ms st =
     (if hop_valid now_ms st then (hop_stamp st, st)
      else (fst (Next (clock st) now_ms),
            st\<lparr>stats := (if hop_stamp st = 0 then stats st
                        else (stats st)\<lparr>stale_epoch := stale_epoch (stats st) + 1\<rparr>),
               clock := snd (Next (clock st) now_ms), hop_stamp := fst (Next (clock st) now_ms),
               hop_started_ms := now_ms\<rparr>))"
proof (cases "hop_stamp st = 0")
  case True
  then show ?thesis by (simp add: HopStamp_def hop_valid_def Let_def split_def)
next
  case False
  have "hop_valid now_ms st \<longleftrightarrow>
        \<not> now_ms < hop_started_ms st \<and> \<not> kMaxEpochMs < now_ms - hop_started_ms st"
    using False by (simp only: hop_valid_def linorder_not_less simp_thms)
  with False show ?thesis by (simp add: HopStamp_def Let_def split_def)
qed

lemma HopStamp_stable:
  assumes "HopStamp now st = (l, st')" "hop_valid now' st'"
  shows "HopStamp now' st' = (l, st')"
  using assms by (auto simp: HopStamp_cases split: if_splits)

lemma HopStamp_frame [simp]:
  "armed_list (snd (HopStamp now st)) = armed_list st"
  "arena (snd (HopStamp now st)) = arena st"
  "origin_hash_cache (snd (HopStamp now st)) = origin_hash_cache st"
  by (simp_all add: HopStamp_cases)

lemma HopStamp_pending [simp]:
  "pending (snd (HopStamp now st)) = pending st" "arms_wf (snd (HopStamp now st)) = arms_wf st"
  "OriginHash (snd (HopStamp now st)) = OriginHash st"
  by (simp_all add: pending_def arm_view_def [abs_def] ArmedKey_def [abs_def] arms_wf_def
      OriginHash_def [abs_def] cong: if_cong)

lemma HopStamp_nonzero:
  assumes "last (clock st) \<noteq> - 1"
  shows "fst (HopStamp now st) \<noteq> 0"
proof -
  have "last (clock st) < fst (Next (clock st) now)" using Next_greater [OF assms] by simp
  then have "fst (Next (clock st) now) \<noteq> 0" by auto
  then show ?thesis by (simp add: HopStamp_cases hop_valid_def)
qed

lemma RegisterOriginHash_lookup:
  "OriginHash (RegisterOriginHash i h st) j = (if j = i then h else OriginHash st j)"
  by (auto simp: OriginHash_def RegisterOriginHash_def Let_def nth_append)

lemma RegisterOriginHash_frame [simp]:
  "pending (RegisterOriginHash i h st) = pending st"
  by (simp add: RegisterOriginHash_def Let_def pending_def arm_view_def [abs_def] ArmedKey_def [abs_def])

subsection \<open>Properties\<close>

datatype arm_op = OpArm db_index key mvcc_stamp | OpArmTombstone db_index key mvcc_stamp
  | OpDisarm db_index key

fun run_arm_op :: "arm_op \<Rightarrow> mvcc_stamper \<Rightarrow> mvcc_stamper" where
  "run_arm_op (OpArm db k prev) st = Arm db k prev st"
| "run_arm_op (OpArmTombstone db k prev) st = ArmTombstone db k prev st"
| "run_arm_op (OpDisarm db k) st = Disarm db k st"

fun spec_arm_op :: "arm_op \<Rightarrow> parm list \<Rightarrow> parm list" where
  "spec_arm_op (OpArm db k prev) ps = spec_arm db k prev ps"
| "spec_arm_op (OpArmTombstone db k prev) ps = spec_arm_tombstone db k prev ps"
| "spec_arm_op (OpDisarm db k) ps = spec_disarm db k ps"

fun op_bytes :: "arm_op \<Rightarrow> nat" where
  "op_bytes (OpArm db k prev) = length k"
| "op_bytes (OpArmTombstone db k prev) = length k"
| "op_bytes (OpDisarm db k) = 0"

lemma arena_run_arm_op: "length (arena (run_arm_op op st)) = length (arena st) + op_bytes op"
  by (cases op) (auto simp: Arm_def push_arm_def ArmTombstone_def Disarm_def Let_def)

lemma OriginHash_run_arm_op [simp]: "OriginHash (run_arm_op op st) = OriginHash st"
  by (cases op) (auto simp: Arm_def push_arm_def ArmTombstone_def Disarm_def Let_def OriginHash_def fun_eq_iff)

lemma run_arm_op_refines:
  assumes "arms_wf st" "length (arena st) + op_bytes op < 2 ^ 32"
  shows "arms_wf (run_arm_op op st)" "pending (run_arm_op op st) = spec_arm_op op (pending st)"
  using assms by (cases op; simp add: Arm_refines ArmTombstone_refines Disarm_refines)+

lemma run_arm_ops_refines:
  assumes "arms_wf st" "length (arena st) + sum_list (map op_bytes ops) < 2 ^ 32"
  shows "arms_wf (fold run_arm_op ops st) \<and>
         pending (fold run_arm_op ops st) = fold spec_arm_op ops (pending st) \<and>
         OriginHash (fold run_arm_op ops st) = OriginHash st"
  using assms
proof (induction ops arbitrary: st)
  case (Cons op ops)
  then have "arms_wf (run_arm_op op st)" "pending (run_arm_op op st) = spec_arm_op op (pending st)"
    using run_arm_op_refines [of st op] by auto
  then show ?case
    using Cons.IH [of "run_arm_op op st"] Cons.prems by (simp add: arena_run_arm_op)
qed simp

text \<open>C3: arming and disarming in any order and then committing calls the commit function exactly on the
  pending list of the abstract specification, oldest arm first, with the tombstone form of the stamp for deletion
  arms, and leaves no arm behind; offsets into the key arena never make two keys overlap while the arena is
  addressable with 32 bits.\<close>

theorem stamper_run_then_commit:
  assumes "arms_wf st" "length (arena st) + sum_list (map op_bytes ops) < 2 ^ 32"
  shows "snd (Commit mvcc o_idx fn (fold run_arm_op ops st) s) =
           spec_commit \<lparr>packed = mvcc, origin_hash = OriginHash st o_idx\<rparr> fn (fold spec_arm_op ops (pending st)) s \<and>
         pending (fst (Commit mvcc o_idx fn (fold run_arm_op ops st) s)) = []"
  using run_arm_ops_refines [OF assms] by (simp add: Commit_refines Commit_clears)

definition log_commit :: "(key \<times> mvcc_stamp) list commit_fn" where
  "log_commit db k stamp tomb prev s = s @ [(k, stamp)]"

theorem stamper_run_then_commit_witness:
  "snd (Commit 5 0 log_commit (fold run_arm_op
      [OpArm 0 ''ab'' stamp_empty, OpArmTombstone 0 ''c'' stamp_empty, OpDisarm 0 ''ab''] stamper_init) []) =
    [(''c'', \<lparr>packed = 9223372036854775813, origin_hash = 0\<rparr>)]"
  using stamper_run_then_commit [of stamper_init
      "[OpArm 0 ''ab'' stamp_empty, OpArmTombstone 0 ''c'' stamp_empty, OpDisarm 0 ''ab'']" 5 0 log_commit "[]"]
  by (simp add: arms_wf_def stamper_init_def spec_commit_def spec_arm_def spec_arm_tombstone_def spec_disarm_def
      log_commit_def pending_def AsTombstone_def kTombstoneBit_num OriginHash_def)

text \<open>C26: the floor for a locally minted stamp is above the previous stamp of every armed key (except a key
  already at the greatest time) and never reaches the tombstone bit.\<close>

theorem local_mint_floor_bounds:
  assumes "p \<in> set (pending st)" "Mvcc (p_prev p) \<noteq> 0" "Mvcc (p_prev p) \<noteq> kStampMask"
  shows "Mvcc (p_prev p) < LocalMintFloor st \<and> LocalMintFloor st \<le> kStampMask"
proof -
  from assms(1) obtain a where "a \<in> set (armed_list st)" "p = arm_view st a" by (auto simp: pending_def)
  with assms LocalMintFloor_above [of a st] LocalMintFloor_le [of st] show ?thesis by simp
qed

definition armed_demo :: mvcc_stamper where
  "armed_demo = Arm 0 ''k'' \<lparr>packed = 8, origin_hash = 2\<rparr> stamper_init"

theorem local_mint_floor_bounds_witness:
  "Mvcc \<lparr>packed = 8, origin_hash = 2\<rparr> < LocalMintFloor armed_demo"
  using local_mint_floor_bounds
    [of "\<lparr>p_db = 0, p_key = ''k'', p_tomb = False, p_prev = \<lparr>packed = 8, origin_hash = 2\<rparr>\<rparr>" armed_demo]
  by (simp add: armed_demo_def Arm_def push_arm_def stamper_init_def pending_def arm_view_def ArmedKey_def
      Mvcc_def kStampMask_num IsTombstone_def kTombstoneBit_num)



end
