(* ===== verification/Db_Table.thy ===== *)
theory Db_Table
  imports Kv_Table Mvcc_Stamper
begin

text \<open>
  \<^verbatim>\<open>DbTable\<close> of \<^verbatim>\<open>src/server/table.h\<close>, \<^verbatim>\<open>table.cc\<close> and the side-table operations of
  \<^verbatim>\<open>src/server/db_slice.cc\<close> on one database: the MVCC stamp table that mirrors the prime table, its
  statistics, the memcache flags and the per-type and per-slot memory accounting. The prime table
  keeps, next to an opaque value, the attributes of key and value the operations read. A
  \<^verbatim>\<open>CHECK\<close> that fails aborts the process: those operations return \<^term>\<open>None\<close>.
\<close>

text \<open>Two functions of other components that the accounting calls: the heap size of a stored copy of a key
  (\<^verbatim>\<open>CompactKey::MallocUsed\<close>) and the cluster slot of a key (\<^verbatim>\<open>KeySlot\<close>).\<close>

record slice_env =
  key_malloc :: "key \<Rightarrow> u64"
  KeySlot :: "key \<Rightarrow> nat"

record slot_stats =
  key_count :: u64
  total_reads :: u64
  total_writes :: u64
  memory_bytes :: u64
  tiered_bytes :: u64

record table_stats =
  inline_keys :: u64
  expire_count :: u64
  member_expire_count :: u64
  mvcc_entries :: u64
  mvcc_tombstones :: u64
  mvcc_tombstones_dropped :: u64
  mvcc_key_dup_bytes :: u64
  obj_memory_usage :: u64
  tiered_entries :: u64
  tiered_used_bytes :: u64
  ev_hits :: u64
  ev_misses :: u64
  ev_expired_keys :: u64
  ev_evicted_keys :: u64
  memory_usage_by_type :: "u64 list"

record 'v prime_entry =
  pk_expire :: "u64 option"
  pk_inline :: bool
  pk_malloc :: nat
  pk_sticky :: bool
  pv_value :: 'v
  pv_type :: nat
  pv_malloc :: nat
  pv_flag :: bool
  pv_member_exp :: bool
  pv_stash_pending :: bool
  pv_external :: bool
  pv_cool :: bool
  pv_strmap2 :: bool

record 'v db_table =
  prime :: "(key, 'v prime_entry) tbl"
  mcflag :: "(key, u32) tbl"
  mvcc :: "(key, mvcc_stamp) tbl option"
  watched_keys :: "(key, nat list) tbl"
  tstats :: table_stats
  slots_stats :: "(nat \<Rightarrow> slot_stats) option"
  mvcc_gc_cursor :: nat

definition OBJ_KEY :: nat where "OBJ_KEY = 5"
definition OBJ_TYPE_MAX :: nat where "OBJ_TYPE_MAX = 20"

definition stats_init :: table_stats where
  "stats_init = \<lparr>inline_keys = 0, expire_count = 0, member_expire_count = 0, mvcc_entries = 0,
     mvcc_tombstones = 0, mvcc_tombstones_dropped = 0, mvcc_key_dup_bytes = 0,
     obj_memory_usage = 0, tiered_entries = 0, tiered_used_bytes = 0, ev_hits = 0, ev_misses = 0,
     ev_expired_keys = 0, ev_evicted_keys = 0, memory_usage_by_type = replicate OBJ_TYPE_MAX 0\<rparr>"

definition slot_init :: slot_stats where
  "slot_init = \<lparr>key_count = 0, total_reads = 0, total_writes = 0, memory_bytes = 0, tiered_bytes = 0\<rparr>"

definition DbTable_new :: "bool \<Rightarrow> bool \<Rightarrow> 'v db_table" where
  "DbTable_new is_active_replica is_cluster_enabled =
     \<lparr>prime = [], mcflag = [], mvcc = (if is_active_replica then Some [] else None),
      watched_keys = [], tstats = stats_init,
      slots_stats = (if is_cluster_enabled then Some (\<lambda>_. slot_init) else None),
      mvcc_gc_cursor = 0\<rparr>"

definition DbTable_Clear :: "'v db_table \<Rightarrow> 'v db_table" where
  "DbTable_Clear t =
     t\<lparr>prime := [], mcflag := [], mvcc := map_option (\<lambda>_. []) (mvcc t), tstats := stats_init,
       mvcc_gc_cursor := 0\<rparr>"

subsection \<open>Accounting\<close>

definition AddTypeMemoryUsage :: "nat \<Rightarrow> int \<Rightarrow> table_stats \<Rightarrow> table_stats" where
  "AddTypeMemoryUsage type delta st =
     (if type \<ge> length (memory_usage_by_type st) then st
      else let cur = memory_usage_by_type st ! type;
               delta' = (if delta < 0 \<and> cur < word_of_int (- delta) then - uint cur else delta)
           in st\<lparr>obj_memory_usage := obj_memory_usage st + word_of_int delta',
                 memory_usage_by_type := (memory_usage_by_type st)[type := cur + word_of_int delta']\<rparr>)"

definition stats_add :: "table_stats \<Rightarrow> table_stats \<Rightarrow> table_stats" where
  "stats_add a o' =
     \<lparr>inline_keys = inline_keys a + inline_keys o', expire_count = expire_count a + expire_count o',
      member_expire_count = member_expire_count a + member_expire_count o',
      mvcc_entries = mvcc_entries a + mvcc_entries o', mvcc_tombstones = mvcc_tombstones a + mvcc_tombstones o',
      mvcc_tombstones_dropped = mvcc_tombstones_dropped a + mvcc_tombstones_dropped o',
      mvcc_key_dup_bytes = mvcc_key_dup_bytes a + mvcc_key_dup_bytes o',
      obj_memory_usage = obj_memory_usage a + obj_memory_usage o',
      tiered_entries = tiered_entries a + tiered_entries o',
      tiered_used_bytes = tiered_used_bytes a + tiered_used_bytes o',
      ev_hits = ev_hits a + ev_hits o', ev_misses = ev_misses a + ev_misses o',
      ev_expired_keys = ev_expired_keys a + ev_expired_keys o',
      ev_evicted_keys = ev_evicted_keys a + ev_evicted_keys o',
      memory_usage_by_type = map2 (+) (memory_usage_by_type a) (memory_usage_by_type o')\<rparr>"

definition slot_stats_add :: "slot_stats \<Rightarrow> slot_stats \<Rightarrow> slot_stats" where
  "slot_stats_add a o' =
     \<lparr>key_count = key_count a + key_count o', total_reads = total_reads a + total_reads o',
      total_writes = total_writes a + total_writes o', memory_bytes = memory_bytes a + memory_bytes o',
      tiered_bytes = tiered_bytes a + tiered_bytes o'\<rparr>"

text \<open>\<^verbatim>\<open>UpdateSlotStat\<close> takes the counter by a pointer to member; here by its reader and its updater.\<close>

definition UpdateSlotStat ::
  "slice_env \<Rightarrow> (slot_stats \<Rightarrow> u64) \<Rightarrow> ((u64 \<Rightarrow> u64) \<Rightarrow> slot_stats \<Rightarrow> slot_stats) \<Rightarrow>
   key \<Rightarrow> int \<Rightarrow> 'v db_table \<Rightarrow> 'v db_table" where
  "UpdateSlotStat E get upd key delta t =
     (case slots_stats t of
        None \<Rightarrow> t
      | Some ss \<Rightarrow>
          if delta = 0 then t
          else let sid = KeySlot E key;
                   value = get (ss sid);
                   delta' = (if delta < 0 \<and> value < word_of_int (- delta) then - uint value else delta)
               in t\<lparr>slots_stats := Some (ss(sid := upd (\<lambda>v. v + word_of_int delta') (ss sid)))\<rparr>)"

definition AccountObjectMemory :: "slice_env \<Rightarrow> key \<Rightarrow> nat \<Rightarrow> int \<Rightarrow> 'v db_table \<Rightarrow> 'v db_table" where
  "AccountObjectMemory E key type delta t =
     (if delta = 0 then t
      else UpdateSlotStat E memory_bytes memory_bytes_update key delta
             (t\<lparr>tstats := AddTypeMemoryUsage type delta (tstats t)\<rparr>))"

subsection \<open>Memcache flags\<close>

definition SetMCFlag :: "key \<Rightarrow> u32 \<Rightarrow> 'v db_table \<Rightarrow> bool \<times> 'v db_table" where
  "SetMCFlag key flag t =
     (if flag = 0 \<and> mcflag t \<noteq> [] then
        (case tbl_find (mcflag t) key of
           Some _ \<Rightarrow> (True, t\<lparr>mcflag := tbl_erase key (mcflag t)\<rparr>)
         | None \<Rightarrow> (False, t))
      else if flag \<noteq> 0 then
        (True, t\<lparr>mcflag := tbl_set key flag (fst (tbl_insert key flag (mcflag t)))\<rparr>)
      else (False, t))"

definition GetMCFlag :: "key \<Rightarrow> 'v db_table \<Rightarrow> u32" where
  "GetMCFlag key t = (case tbl_find (mcflag t) key of None \<Rightarrow> 0 | Some f \<Rightarrow> f)"

subsection \<open>The stamp side table\<close>

definition GetMvcc :: "'v db_table \<Rightarrow> key \<Rightarrow> mvcc_stamp option" where
  "GetMvcc t key = (case mvcc t of None \<Rightarrow> None | Some m \<Rightarrow> tbl_find m key)"

definition SetMvcc :: "slice_env \<Rightarrow> key \<Rightarrow> mvcc_stamp \<Rightarrow> 'v db_table \<Rightarrow> 'v db_table" where
  "SetMvcc E key stamp t =
     (case mvcc t of
        None \<Rightarrow> t
      | Some m \<Rightarrow>
          let live_stamp = \<lparr>packed = packed stamp AND kStampMask, origin_hash = origin_hash stamp\<rparr>;
              (m1, inserted) = tbl_insert key live_stamp m;
              was_tombstone = (\<not> inserted \<and> (case tbl_find m1 key of Some s \<Rightarrow> IsTombstone s | None \<Rightarrow> False));
              m2 = tbl_set key live_stamp m1;
              s0 = tstats t;
              s1 = (if inserted
                    then s0\<lparr>mvcc_entries := mvcc_entries s0 + 1,
                            mvcc_key_dup_bytes := mvcc_key_dup_bytes s0 + key_malloc E key\<rparr>
                    else s0);
              s2 = (if was_tombstone \<and> \<not> IsTombstone live_stamp
                    then s1\<lparr>mvcc_tombstones := mvcc_tombstones s1 - 1\<rparr> else s1)
          in t\<lparr>mvcc := Some m2, tstats := s2\<rparr>)"

definition EnsureMvcc :: "slice_env \<Rightarrow> key \<Rightarrow> 'v db_table \<Rightarrow> mvcc_stamp \<times> 'v db_table" where
  "EnsureMvcc E key t =
     (case mvcc t of
        None \<Rightarrow> (stamp_empty, t)
      | Some m \<Rightarrow>
          let (m1, inserted) = tbl_insert key stamp_empty m; s0 = tstats t
          in if inserted then
               (stamp_empty,
                t\<lparr>mvcc := Some m1,
                  tstats := s0\<lparr>mvcc_entries := mvcc_entries s0 + 1,
                               mvcc_key_dup_bytes := mvcc_key_dup_bytes s0 + key_malloc E key\<rparr>\<rparr>)
             else (case tbl_find m1 key of
                     Some cur \<Rightarrow>
                       if IsTombstone cur
                       then (cur, t\<lparr>mvcc := Some (tbl_set key stamp_empty m1),
                                    tstats := s0\<lparr>mvcc_tombstones := mvcc_tombstones s0 - 1\<rparr>\<rparr>)
                       else (cur, t)
                   | None \<Rightarrow> (stamp_empty, t)))"

definition SetExistingMvcc :: "key \<Rightarrow> mvcc_stamp \<Rightarrow> 'v db_table \<Rightarrow> 'v db_table option" where
  "SetExistingMvcc key stamp t =
     (case mvcc t of
        None \<Rightarrow> None
      | Some m \<Rightarrow>
          (case tbl_find m key of
             None \<Rightarrow> None
           | Some cur \<Rightarrow>
               let was_tombstone = IsTombstone cur; s0 = tstats t;
                   s1 = (if was_tombstone \<and> \<not> IsTombstone stamp
                         then s0\<lparr>mvcc_tombstones := mvcc_tombstones s0 - 1\<rparr>
                         else if \<not> was_tombstone \<and> IsTombstone stamp
                         then s0\<lparr>mvcc_tombstones := mvcc_tombstones s0 + 1\<rparr>
                         else s0)
               in Some (t\<lparr>mvcc := Some (tbl_set key stamp m), tstats := s1\<rparr>)))"

definition SetTombstone :: "slice_env \<Rightarrow> key \<Rightarrow> mvcc_stamp \<Rightarrow> 'v db_table \<Rightarrow> 'v db_table" where
  "SetTombstone E key stamp t =
     (case mvcc t of
        None \<Rightarrow> t
      | Some m \<Rightarrow>
          let (m1, inserted) = tbl_insert key stamp m;
              was_tombstone = (\<not> inserted \<and> (case tbl_find m1 key of Some s \<Rightarrow> IsTombstone s | None \<Rightarrow> False));
              m2 = tbl_set key stamp m1;
              s0 = tstats t;
              s1 = (if inserted
                    then s0\<lparr>mvcc_entries := mvcc_entries s0 + 1,
                            mvcc_key_dup_bytes := mvcc_key_dup_bytes s0 + key_malloc E key\<rparr>
                    else s0);
              s2 = (if \<not> was_tombstone then s1\<lparr>mvcc_tombstones := mvcc_tombstones s1 + 1\<rparr> else s1)
          in t\<lparr>mvcc := Some m2, tstats := s2\<rparr>)"

definition EraseMvcc :: "slice_env \<Rightarrow> key \<Rightarrow> 'v db_table \<Rightarrow> 'v db_table" where
  "EraseMvcc E key t =
     (case mvcc t of
        None \<Rightarrow> t
      | Some m \<Rightarrow>
          (case tbl_find m key of
             None \<Rightarrow> t
           | Some cur \<Rightarrow>
               let s0 = tstats t;
                   s1 = s0\<lparr>mvcc_key_dup_bytes := mvcc_key_dup_bytes s0 - key_malloc E key\<rparr>;
                   s2 = (if IsTombstone cur then s1\<lparr>mvcc_tombstones := mvcc_tombstones s1 - 1\<rparr> else s1)
               in t\<lparr>mvcc := Some (tbl_erase key m),
                    tstats := s2\<lparr>mvcc_entries := mvcc_entries s2 - 1\<rparr>\<rparr>))"

definition RollbackUncommittedTombstone :: "slice_env \<Rightarrow> key \<Rightarrow> 'v db_table \<Rightarrow> 'v db_table" where
  "RollbackUncommittedTombstone E key t =
     (case GetMvcc t key of
        Some stamp \<Rightarrow> if IsTombstone stamp then EraseMvcc E key t else t
      | None \<Rightarrow> t)"

definition InstallAbsentKeyTombstone ::
  "slice_env \<Rightarrow> bool \<Rightarrow> u64 \<Rightarrow> key \<Rightarrow> mvcc_stamp \<Rightarrow> 'v db_table \<Rightarrow> 'v db_table" where
  "InstallAbsentKeyTombstone E tombstones_enabled max_tombstones key stamp t =
     (if \<not> tombstones_enabled then t
      else let existing = GetMvcc t key;
               would_grow = (case existing of None \<Rightarrow> True | Some s \<Rightarrow> \<not> IsTombstone s)
           in if \<not> would_grow \<or> mvcc_tombstones (tstats t) < max_tombstones
              then SetTombstone E key stamp t
              else t\<lparr>tstats := (tstats t)\<lparr>mvcc_tombstones_dropped :=
                                 mvcc_tombstones_dropped (tstats t) + 1\<rparr>\<rparr>)"

subsection \<open>Accounting invariant of the side table\<close>

definition dup_bytes :: "slice_env \<Rightarrow> (key, 'a) tbl \<Rightarrow> u64" where
  "dup_bytes E m = sum_list (map (\<lambda>(k, _). key_malloc E k) m)"

definition side_ok :: "slice_env \<Rightarrow> (key, mvcc_stamp) tbl \<Rightarrow> table_stats \<Rightarrow> bool" where
  "side_ok E m st =
     (tbl_ok m \<and> mvcc_entries st = of_nat (tbl_size m) \<and>
      mvcc_tombstones st = of_nat (tbl_count IsTombstone m) \<and>
      mvcc_key_dup_bytes st = dup_bytes E m)"

definition acct_ok :: "slice_env \<Rightarrow> 'v db_table \<Rightarrow> bool" where
  "acct_ok E t = (case mvcc t of None \<Rightarrow> True | Some m \<Rightarrow> side_ok E m (tstats t))"

lemma dup_bytes_append [simp]: "dup_bytes E (xs @ ys) = dup_bytes E xs + dup_bytes E ys"
  by (simp add: dup_bytes_def)

lemma dup_bytes_Cons [simp]: "dup_bytes E ((k, v) # t) = key_malloc E k + dup_bytes E t"
  by (simp add: dup_bytes_def)

lemma dup_bytes_set [simp]: "dup_bytes E (tbl_set k v t) = dup_bytes E t"
  by (induction t) (auto simp: tbl_set_def dup_bytes_def)

lemma dup_bytes_erase:
  "tbl_ok t \<Longrightarrow> tbl_find t k = Some u \<Longrightarrow> dup_bytes E (tbl_erase k t) = dup_bytes E t - key_malloc E k"
proof (induction t)
  case (Cons a t)
  obtain k' v' where a: "a = (k', v')" by force
  show ?case
  proof (cases "k' = k")
    case True
    with Cons.prems a have "k \<notin> fst ` set t" by (auto simp: tbl_ok_def)
    with True a show ?thesis by (simp add: tbl_erase_Cons tbl_erase_notin)
  next
    case False
    with Cons.prems a have "tbl_ok t" "tbl_find t k = Some u" by (auto simp: tbl_ok_def tbl_find_def)
    from Cons.IH [OF this] False a show ?thesis by (simp add: tbl_erase_Cons)
  qed
qed (simp add: tbl_find_def)

lemma tbl_insert_new: "tbl_find m k = None \<Longrightarrow> tbl_insert k v m = (m @ [(k, v)], True)"
  by (simp add: tbl_find_def tbl_insert_def)

lemma tbl_insert_old: "tbl_find m k = Some u \<Longrightarrow> tbl_insert k v m = (m, False)"
  by (rule kv.insert_old)

lemma tbl_set_new: "tbl_find m k = None \<Longrightarrow> tbl_set k v (m @ [(k, u)]) = m @ [(k, v)]"
  using tbl_set_notin [of k m v] by (simp add: tbl_set_def tbl_find_def map_of_None_notin)

lemma tbl_find_snoc:
  "tbl_find m k = None \<Longrightarrow> tbl_find (m @ [(k, v)]) = (tbl_find m)(k \<mapsto> v)"
  by (auto simp: tbl_find_def [abs_def] fun_eq_iff map_add_def split: option.splits)

lemma tbl_ok_snoc: "tbl_ok m \<Longrightarrow> tbl_find m k = None \<Longrightarrow> tbl_ok (m @ [(k, v)])"
  by (auto simp: tbl_ok_def tbl_find_def map_of_None_notin)

lemma tbl_size_simps [simp]:
  "tbl_size (m @ [x]) = Suc (tbl_size m)" "tbl_size (tbl_set k v m) = tbl_size m"
  by (simp_all add: tbl_size_def tbl_set_def)

lemma tbl_size_erase:
  "tbl_ok m \<Longrightarrow> tbl_find m k = Some u \<Longrightarrow> tbl_size m = Suc (tbl_size (tbl_erase k m))"
  using kv.count_erase [of m k u "\<lambda>_. True"] by (simp add: tbl_size_count)

lemma side_ok_insert:
  assumes "side_ok E m st" "tbl_find m k = None"
  shows "side_ok E (m @ [(k, v)])
           (st\<lparr>mvcc_entries := mvcc_entries st + 1,
               mvcc_key_dup_bytes := mvcc_key_dup_bytes st + key_malloc E k,
               mvcc_tombstones := mvcc_tombstones st + of_bool (IsTombstone v)\<rparr>)"
  using assms by (auto simp: side_ok_def tbl_ok_snoc dup_bytes_def)

lemma side_ok_set:
  assumes "side_ok E m st" "tbl_find m k = Some u"
  shows "side_ok E (tbl_set k v m)
           (st\<lparr>mvcc_tombstones := mvcc_tombstones st + of_bool (IsTombstone v) - of_bool (IsTombstone u)\<rparr>)"
proof -
  have ok: "tbl_ok m" using assms(1) by (simp add: side_ok_def)
  have "of_nat (tbl_count IsTombstone (tbl_set k v m)) + of_bool (IsTombstone u) =
        (of_nat (tbl_count IsTombstone m) + of_bool (IsTombstone v) :: u64)"
    using kv.count_set [OF ok assms(2), of IsTombstone v] by (metis of_nat_add of_nat_of_bool)
  then have "of_nat (tbl_count IsTombstone (tbl_set k v m)) =
        (of_nat (tbl_count IsTombstone m) + of_bool (IsTombstone v) - of_bool (IsTombstone u) :: u64)"
    by (simp add: eq_diff_eq)
  then show ?thesis using assms(1) by (simp add: side_ok_def kv.ok_set)
qed

lemma side_ok_erase:
  assumes "side_ok E m st" "tbl_find m k = Some u"
  shows "side_ok E (tbl_erase k m)
           (st\<lparr>mvcc_entries := mvcc_entries st - 1,
               mvcc_key_dup_bytes := mvcc_key_dup_bytes st - key_malloc E k,
               mvcc_tombstones := mvcc_tombstones st - of_bool (IsTombstone u)\<rparr>)"
proof -
  have ok: "tbl_ok m" using assms(1) by (simp add: side_ok_def)
  have "of_nat (tbl_count IsTombstone (tbl_erase k m)) + of_bool (IsTombstone u) =
        (of_nat (tbl_count IsTombstone m) :: u64)"
    using kv.count_erase [OF ok assms(2), of IsTombstone] by (metis of_nat_add of_nat_of_bool)
  then have "of_nat (tbl_count IsTombstone (tbl_erase k m)) =
        (of_nat (tbl_count IsTombstone m) - of_bool (IsTombstone u) :: u64)"
    by (simp add: eq_diff_eq)
  then show ?thesis
    using assms(1) tbl_size_erase [OF ok assms(2)] dup_bytes_erase [OF ok assms(2)]
    by (simp add: side_ok_def kv.ok_erase ok)
qed

subsection \<open>What each operation does to the stamps\<close>

abbreviation live_of :: "mvcc_stamp \<Rightarrow> mvcc_stamp" where
  "live_of s \<equiv> \<lparr>packed = packed s AND kStampMask, origin_hash = origin_hash s\<rparr>"

lemma GetMvcc_eq: "mvcc t = Some m \<Longrightarrow> GetMvcc t = tbl_find m"
  by (simp add: GetMvcc_def fun_eq_iff)

lemma tstats_bool_simps [simp]:
  "st\<lparr>mvcc_tombstones := mvcc_tombstones st + 0\<rparr> = st"
  "st\<lparr>mvcc_tombstones := mvcc_tombstones st - 0\<rparr> = st"
  "st\<lparr>mvcc_tombstones := mvcc_tombstones st\<rparr> = st"
  by simp_all

lemma SetMvcc_spec:
  assumes m: "mvcc t = Some m" and ok: "acct_ok E t"
  shows "GetMvcc (SetMvcc E k s t) = (GetMvcc t)(k \<mapsto> live_of s)"
    and "acct_ok E (SetMvcc E k s t)" and "prime (SetMvcc E k s t) = prime t"
    and "\<exists>m'. mvcc (SetMvcc E k s t) = Some m'"
proof -
  have so: "side_ok E m (tstats t)" using ok m by (simp add: acct_ok_def)
  then have okm: "tbl_ok m" by (simp add: side_ok_def)
  have "GetMvcc (SetMvcc E k s t) = (GetMvcc t)(k \<mapsto> live_of s) \<and> acct_ok E (SetMvcc E k s t) \<and>
    prime (SetMvcc E k s t) = prime t \<and> (\<exists>m'. mvcc (SetMvcc E k s t) = Some m')"
  proof (cases "tbl_find m k")
    case None
    with m show ?thesis using side_ok_insert [OF so None, of "live_of s"]
      by (simp add: SetMvcc_def Let_def tbl_insert_new tbl_set_new GetMvcc_eq tbl_find_snoc acct_ok_def)
  next
    case (Some u)
    with m show ?thesis using side_ok_set [OF so Some, of "live_of s"] kv.find_set [OF okm Some]
      by (auto simp: SetMvcc_def Let_def tbl_insert_old GetMvcc_eq acct_ok_def split: if_splits)
  qed
  then show "GetMvcc (SetMvcc E k s t) = (GetMvcc t)(k \<mapsto> live_of s)" "acct_ok E (SetMvcc E k s t)"
    "prime (SetMvcc E k s t) = prime t" "\<exists>m'. mvcc (SetMvcc E k s t) = Some m'" by blast+
qed

lemma EnsureMvcc_spec:
  assumes m: "mvcc t = Some m" and ok: "acct_ok E t"
  shows "fst (EnsureMvcc E k t) = (case GetMvcc t k of None \<Rightarrow> stamp_empty | Some s \<Rightarrow> s)"
    and "GetMvcc (snd (EnsureMvcc E k t)) = (GetMvcc t)(k \<mapsto>
           (case GetMvcc t k of None \<Rightarrow> stamp_empty | Some s \<Rightarrow> if IsTombstone s then stamp_empty else s))"
    and "acct_ok E (snd (EnsureMvcc E k t))"
    and "prime (snd (EnsureMvcc E k t)) = prime t" "\<exists>m'. mvcc (snd (EnsureMvcc E k t)) = Some m'"
proof -
  have so: "side_ok E m (tstats t)" using ok m by (simp add: acct_ok_def)
  then have okm: "tbl_ok m" by (simp add: side_ok_def)
  have "fst (EnsureMvcc E k t) = (case GetMvcc t k of None \<Rightarrow> stamp_empty | Some s \<Rightarrow> s) \<and>
    GetMvcc (snd (EnsureMvcc E k t)) = (GetMvcc t)(k \<mapsto>
      (case GetMvcc t k of None \<Rightarrow> stamp_empty | Some s \<Rightarrow> if IsTombstone s then stamp_empty else s)) \<and>
    acct_ok E (snd (EnsureMvcc E k t)) \<and> prime (snd (EnsureMvcc E k t)) = prime t \<and>
    (\<exists>m'. mvcc (snd (EnsureMvcc E k t)) = Some m')"
  proof (cases "tbl_find m k")
    case None
    with m show ?thesis using side_ok_insert [OF so None, of stamp_empty]
      by (simp add: EnsureMvcc_def Let_def tbl_insert_new GetMvcc_eq tbl_find_snoc acct_ok_def)
  next
    case (Some u)
    show ?thesis
    proof (cases "IsTombstone u")
      case True
      with m Some show ?thesis
        using side_ok_set [OF so Some, of stamp_empty] kv.find_set [OF okm Some]
        by (auto simp: EnsureMvcc_def Let_def tbl_insert_old GetMvcc_eq acct_ok_def)
    next
      case False
      with m Some show ?thesis
        using ok by (auto simp: EnsureMvcc_def Let_def tbl_insert_old GetMvcc_eq acct_ok_def fun_upd_idem)
    qed
  qed
  then show "fst (EnsureMvcc E k t) = (case GetMvcc t k of None \<Rightarrow> stamp_empty | Some s \<Rightarrow> s)"
    "GetMvcc (snd (EnsureMvcc E k t)) = (GetMvcc t)(k \<mapsto>
      (case GetMvcc t k of None \<Rightarrow> stamp_empty | Some s \<Rightarrow> if IsTombstone s then stamp_empty else s))"
    "acct_ok E (snd (EnsureMvcc E k t))" "prime (snd (EnsureMvcc E k t)) = prime t"
    "\<exists>m'. mvcc (snd (EnsureMvcc E k t)) = Some m'" by blast+
qed

lemma SetExistingMvcc_spec:
  assumes m: "mvcc t = Some m" and ok: "acct_ok E t" and k: "GetMvcc t k = Some u"
  obtains t' m' where "SetExistingMvcc k s t = Some t'" "GetMvcc t' = (GetMvcc t)(k \<mapsto> s)"
    "acct_ok E t'" "prime t' = prime t" "mvcc t' = Some m'"
proof -
  have so: "side_ok E m (tstats t)" using ok m by (simp add: acct_ok_def)
  then have okm: "tbl_ok m" by (simp add: side_ok_def)
  have f: "tbl_find m k = Some u" using k m by (simp add: GetMvcc_eq)
  let ?st = "(tstats t)\<lparr>mvcc_tombstones :=
    mvcc_tombstones (tstats t) + of_bool (IsTombstone s) - of_bool (IsTombstone u)\<rparr>"
  let ?t = "t\<lparr>mvcc := Some (tbl_set k s m), tstats := ?st\<rparr>"
  have "SetExistingMvcc k s t = Some ?t"
    using m f by (cases "IsTombstone s"; cases "IsTombstone u") (simp_all add: SetExistingMvcc_def Let_def)
  moreover have "GetMvcc ?t = (GetMvcc t)(k \<mapsto> s)"
    using m kv.find_set [OF okm f] by (simp add: GetMvcc_eq)
  moreover have "acct_ok E ?t" using side_ok_set [OF so f, of s] by (simp add: acct_ok_def)
  ultimately show thesis by (rule that) simp_all
qed

lemma SetExistingMvcc_None: "SetExistingMvcc k s t = None \<longleftrightarrow> GetMvcc t k = None"
  by (simp add: SetExistingMvcc_def GetMvcc_def Let_def split: option.splits)

lemma SetTombstone_spec:
  assumes m: "mvcc t = Some m" and ok: "acct_ok E t" and s: "IsTombstone s"
  shows "GetMvcc (SetTombstone E k s t) = (GetMvcc t)(k \<mapsto> s)"
    and "acct_ok E (SetTombstone E k s t)" and "prime (SetTombstone E k s t) = prime t"
    and "\<exists>m'. mvcc (SetTombstone E k s t) = Some m'"
proof -
  have so: "side_ok E m (tstats t)" using ok m by (simp add: acct_ok_def)
  then have okm: "tbl_ok m" by (simp add: side_ok_def)
  have "GetMvcc (SetTombstone E k s t) = (GetMvcc t)(k \<mapsto> s) \<and> acct_ok E (SetTombstone E k s t) \<and>
    prime (SetTombstone E k s t) = prime t \<and> (\<exists>m'. mvcc (SetTombstone E k s t) = Some m')"
  proof (cases "tbl_find m k")
    case None
    with m s show ?thesis using side_ok_insert [OF so None, of s]
      by (simp add: SetTombstone_def Let_def tbl_insert_new tbl_set_new GetMvcc_eq tbl_find_snoc acct_ok_def)
  next
    case (Some u)
    with m s show ?thesis using side_ok_set [OF so Some, of s] kv.find_set [OF okm Some]
      by (cases "IsTombstone u") (auto simp: SetTombstone_def Let_def tbl_insert_old GetMvcc_eq acct_ok_def)
  qed
  then show "GetMvcc (SetTombstone E k s t) = (GetMvcc t)(k \<mapsto> s)" "acct_ok E (SetTombstone E k s t)"
    "prime (SetTombstone E k s t) = prime t" "\<exists>m'. mvcc (SetTombstone E k s t) = Some m'" by blast+
qed

lemma EraseMvcc_spec:
  assumes m: "mvcc t = Some m" and ok: "acct_ok E t"
  shows "GetMvcc (EraseMvcc E k t) = (GetMvcc t)(k := None)"
    and "acct_ok E (EraseMvcc E k t)" and "prime (EraseMvcc E k t) = prime t"
    and "\<exists>m'. mvcc (EraseMvcc E k t) = Some m'"
proof -
  have so: "side_ok E m (tstats t)" using ok m by (simp add: acct_ok_def)
  then have okm: "tbl_ok m" by (simp add: side_ok_def)
  have "GetMvcc (EraseMvcc E k t) = (GetMvcc t)(k := None) \<and> acct_ok E (EraseMvcc E k t) \<and>
    prime (EraseMvcc E k t) = prime t \<and> (\<exists>m'. mvcc (EraseMvcc E k t) = Some m')"
  proof (cases "tbl_find m k")
    case None
    with m ok show ?thesis
      by (simp add: EraseMvcc_def GetMvcc_eq fun_upd_idem)
  next
    case (Some u)
    have "side_ok E (tbl_erase k m) (tstats (EraseMvcc E k t))"
    proof (cases "IsTombstone u")
      case True
      with m Some side_ok_erase [OF so Some] show ?thesis by (simp add: EraseMvcc_def Let_def side_ok_def)
    next
      case False
      with m Some side_ok_erase [OF so Some] show ?thesis by (simp add: EraseMvcc_def Let_def side_ok_def)
    qed
    with m Some show ?thesis using kv.find_erase [OF okm, of k]
      by (simp add: EraseMvcc_def Let_def GetMvcc_eq acct_ok_def)
  qed
  then show "GetMvcc (EraseMvcc E k t) = (GetMvcc t)(k := None)" "acct_ok E (EraseMvcc E k t)"
    "prime (EraseMvcc E k t) = prime t" "\<exists>m'. mvcc (EraseMvcc E k t) = Some m'" by blast+
qed

lemma RollbackUncommittedTombstone_spec:
  assumes m: "mvcc t = Some m" and ok: "acct_ok E t"
  shows "GetMvcc (RollbackUncommittedTombstone E k t) =
           (case GetMvcc t k of Some s \<Rightarrow> if IsTombstone s then (GetMvcc t)(k := None) else GetMvcc t
            | None \<Rightarrow> GetMvcc t)"
    and "acct_ok E (RollbackUncommittedTombstone E k t)"
    and "prime (RollbackUncommittedTombstone E k t) = prime t"
    and "\<exists>m'. mvcc (RollbackUncommittedTombstone E k t) = Some m'"
  using EraseMvcc_spec [OF assms] assms
  by (auto simp: RollbackUncommittedTombstone_def split: option.splits)

subsection \<open>Density\<close>

text \<open>The invariant \<^verbatim>\<open>OnCbFinishBlocking\<close> and \<^verbatim>\<open>TEST_VerifyMvccTable\<close> check: live keys and live stamps are the
  same, and the counter counts exactly the tombstones.\<close>

definition dense :: "'v db_table \<Rightarrow> bool" where
  "dense t = (tbl_ok (prime t) \<and>
     (\<forall>k. tbl_find (prime t) k \<noteq> None \<longleftrightarrow> (\<exists>s. GetMvcc t k = Some s \<and> \<not> IsTombstone s)))"

definition table_inv :: "slice_env \<Rightarrow> 'v db_table \<Rightarrow> bool" where
  "table_inv E t = (mvcc t \<noteq> None \<and> acct_ok E t \<and> dense t)"

lemma tbl_ok_filter: "tbl_ok m \<Longrightarrow> tbl_ok (filter P m)"
  by (induction m) (auto simp: tbl_ok_def)

lemma set_tbl: "tbl_ok m \<Longrightarrow> (k, v) \<in> set m \<longleftrightarrow> tbl_find m k = Some v"
  by (simp add: tbl_ok_def tbl_find_def)

lemma tbl_size_card: "tbl_ok m \<Longrightarrow> tbl_size m = card (fst ` set m)"
  using distinct_card [of "map fst m"] by (simp add: tbl_ok_def tbl_size_def)

lemma dense_size:
  assumes "dense t" "acct_ok E t" "mvcc t = Some m"
  shows "tbl_size (prime t) + tbl_count IsTombstone m = tbl_size m"
proof -
  have okm: "tbl_ok m" using assms(2,3) by (simp add: acct_ok_def side_ok_def)
  let ?live = "filter (\<lambda>(_, s). \<not> IsTombstone s) m"
  have "fst ` set ?live = {k. \<exists>s. tbl_find m k = Some s \<and> \<not> IsTombstone s}"
    using set_tbl [OF okm] by (force simp: image_iff)
  also have "\<dots> = fst ` set (prime t)"
    using assms(1,3) by (auto simp: dense_def GetMvcc_eq tbl_find_def map_of_None_notin)
  finally have "tbl_size ?live = tbl_size (prime t)"
    using assms(1) tbl_ok_filter [OF okm] by (simp add: tbl_size_card dense_def)
  moreover have "tbl_size ?live + tbl_count IsTombstone m = tbl_size m"
    unfolding tbl_size_def tbl_count_def by (induction m) auto
  ultimately show ?thesis by simp
qed

subsection \<open>Sequences of side-table operations\<close>

datatype side_op = SSet key mvcc_stamp | SEnsure key | SSetExisting key mvcc_stamp | STombstone key mvcc_stamp
  | SErase key | SRollback key | SInstall bool u64 key mvcc_stamp

fun run_side_op :: "slice_env \<Rightarrow> side_op \<Rightarrow> 'v db_table \<Rightarrow> 'v db_table option" where
  "run_side_op E (SSet k s) t = Some (SetMvcc E k s t)"
| "run_side_op E (SEnsure k) t = Some (snd (EnsureMvcc E k t))"
| "run_side_op E (SSetExisting k s) t = SetExistingMvcc k s t"
| "run_side_op E (STombstone k s) t = Some (SetTombstone E k (AsTombstone s) t)"
| "run_side_op E (SErase k) t = Some (EraseMvcc E k t)"
| "run_side_op E (SRollback k) t = Some (RollbackUncommittedTombstone E k t)"
| "run_side_op E (SInstall en mx k s) t = Some (InstallAbsentKeyTombstone E en mx k (AsTombstone s) t)"

fun run_side_ops :: "slice_env \<Rightarrow> side_op list \<Rightarrow> 'v db_table \<Rightarrow> 'v db_table option" where
  "run_side_ops E [] t = Some t"
| "run_side_ops E (op # ops) t = (case run_side_op E op t of None \<Rightarrow> None | Some t' \<Rightarrow> run_side_ops E ops t')"

lemma IsTombstone_AsTombstone [simp]: "IsTombstone (AsTombstone s)"
  by (simp add: AsTombstone_def)

lemma acct_ok_dropped [simp]:
  "acct_ok E (t\<lparr>tstats := (tstats t)\<lparr>mvcc_tombstones_dropped := n\<rparr>\<rparr>) = acct_ok E t"
  by (simp add: acct_ok_def side_ok_def split: option.split)

lemma InstallAbsentKeyTombstone_ok:
  assumes "mvcc t = Some m" "acct_ok E t"
  shows "acct_ok E (InstallAbsentKeyTombstone E en mx k (AsTombstone s) t) \<and>
    prime (InstallAbsentKeyTombstone E en mx k (AsTombstone s) t) = prime t \<and>
    (\<exists>m'. mvcc (InstallAbsentKeyTombstone E en mx k (AsTombstone s) t) = Some m')"
  using SetTombstone_spec [OF assms, of "AsTombstone s" k] assms
  by (simp add: InstallAbsentKeyTombstone_def Let_def)

lemma run_side_op_ok:
  assumes "mvcc t = Some m" "acct_ok E t" "run_side_op E op t = Some t'"
  shows "acct_ok E t' \<and> prime t' = prime t \<and> (\<exists>m'. mvcc t' = Some m')"
proof (cases op)
  case (SSetExisting k s)
  with assms(3) have r: "SetExistingMvcc k s t = Some t'" by simp
  then obtain u where "GetMvcc t k = Some u" using SetExistingMvcc_None [of k s t] by auto
  from SetExistingMvcc_spec [OF assms(1,2) this] r show ?thesis by (metis option.inject)
qed (use assms SetMvcc_spec [OF assms(1,2)] EnsureMvcc_spec [OF assms(1,2)] SetTombstone_spec [OF assms(1,2)]
      EraseMvcc_spec [OF assms(1,2)] RollbackUncommittedTombstone_spec [OF assms(1,2)]
      InstallAbsentKeyTombstone_ok [OF assms(1,2)] in auto)

text \<open>C19: any sequence of side-table operations keeps the three counters (entries, tombstones, duplicated key
  bytes) equal to what the table holds, modulo \<open>2 ^ 64\<close>, and leaves the key table alone.\<close>

theorem side_table_accounting:
  assumes "mvcc t = Some m" "acct_ok E t" "run_side_ops E ops t = Some t'"
  shows "acct_ok E t' \<and> prime t' = prime t"
  using assms
proof (induction ops arbitrary: t m)
  case (Cons op ops)
  then obtain u where u: "run_side_op E op t = Some u" "run_side_ops E ops u = Some t'"
    by (auto split: option.splits)
  from run_side_op_ok [OF Cons.prems(1,2) u(1)] Cons.IH u(2) show ?case by auto
qed simp

definition demo_env :: slice_env where
  "demo_env = \<lparr>key_malloc = (\<lambda>k. of_nat (length k)), KeySlot = (\<lambda>_. 0)\<rparr>"

definition demo_table :: "unit db_table" where
  "demo_table = \<lparr>prime = [], mcflag = [], mvcc = Some [], watched_keys = [], tstats = stats_init, slots_stats = None,
     mvcc_gc_cursor = 0\<rparr>"

abbreviation demo_side_ops :: "side_op list" where
  "demo_side_ops \<equiv> [SSet ''ab'' \<lparr>packed = 9, origin_hash = 1\<rparr>, STombstone ''c'' \<lparr>packed = 4, origin_hash = 1\<rparr>,
     SSetExisting ''ab'' \<lparr>packed = 10, origin_hash = 1\<rparr>, SErase ''c'']"

theorem side_table_accounting_witness:
  "\<exists>t'. run_side_ops demo_env demo_side_ops demo_table = Some t' \<and> acct_ok demo_env t' \<and>
     mvcc_entries (tstats t') = 1 \<and> mvcc_key_dup_bytes (tstats t') = 2"
proof -
  obtain t' where t': "run_side_ops demo_env demo_side_ops demo_table = Some t'"
      "mvcc_entries (tstats t') = 1" "mvcc_key_dup_bytes (tstats t') = 2"
    by (simp add: demo_env_def demo_table_def stats_init_def SetMvcc_def SetTombstone_def SetExistingMvcc_def
        EraseMvcc_def tbl_insert_def tbl_set_def tbl_find_def tbl_erase_def Let_def AsTombstone_def
        IsTombstone_def kTombstoneBit_num kStampMask_num)
  have "acct_ok demo_env demo_table"
    by (simp add: acct_ok_def side_ok_def demo_table_def stats_init_def tbl_ok_def tbl_size_def tbl_count_def
        dup_bytes_def)
  with side_table_accounting [of demo_table "[]" demo_env demo_side_ops t'] t' show ?thesis
    by (simp add: demo_table_def)
qed

end
