(* ===== verification/Multi_Master.thy ===== *)
theory Multi_Master
  imports Dfly_Prelude
begin

text \<open>
  \<^verbatim>\<open>src/server/multi_master.cc\<close>: the boot flags of the active-replica mode and their validation, the
  clock-skew arithmetic and the \<^verbatim>\<open>PeerRegistry\<close> that assigns origin indices. The flags are a record
  passed to the functions that read them. Logging is not modelled.
\<close>

record mm_flags =
  active_replica :: bool
  multi_master :: bool
  multi_master_tombstone_ttl :: u64
  multi_master_max_tombstones :: u64
  multi_master_tombstone_gc_budget :: u32
  multi_master_stream_lww :: bool
  cluster_mode :: string
  tiered_prefix :: string
  experimental_cascaded_partial_sync :: bool
  cache_mode :: bool

definition IsActiveReplica :: "mm_flags \<Rightarrow> bool" where
  "IsActiveReplica f = active_replica f"

definition IsMultiMaster :: "mm_flags \<Rightarrow> bool" where
  "IsMultiMaster f = multi_master f"

definition TombstonesEnabled :: "mm_flags \<Rightarrow> bool" where
  "TombstonesEnabled f = (multi_master_tombstone_ttl f \<noteq> 0)"

definition kMaxTombstoneTtlSeconds :: u64 where
  "kMaxTombstoneTtlSeconds = 4294967295"

text \<open>One constructor per log statement of the validator.\<close>

datatype flag_log =
    ErrNeedsActiveReplica | ErrClusterMode | ErrTiering | ErrCascadedSync | ErrTombstoneTtl | ErrGcBudget
  | WarnCacheMode | WarnKnownLimitations | WarnStreamLwwOff

definition ValidateMultiMasterFlags :: "mm_flags \<Rightarrow> bool \<times> flag_log list" where
  "ValidateMultiMasterFlags f =
     (let active = active_replica f in
      if multi_master f \<and> \<not> active then (False, [ErrNeedsActiveReplica])
      else if \<not> active then (True, [])
      else if cluster_mode f \<noteq> [] then (False, [ErrClusterMode])
      else if tiered_prefix f \<noteq> [] then (False, [ErrTiering])
      else if experimental_cascaded_partial_sync f then (False, [ErrCascadedSync])
      else if multi_master_tombstone_ttl f > kMaxTombstoneTtlSeconds then (False, [ErrTombstoneTtl])
      else if multi_master_tombstone_gc_budget f = 0 then (False, [ErrGcBudget])
      else (True, (if TombstonesEnabled f \<and> cache_mode f then [WarnCacheMode] else [])
                  @ [WarnKnownLimitations]
                  @ (if \<not> multi_master_stream_lww f then [WarnStreamLwwOff] else [])))"

lemma ValidateMultiMasterFlags_iff:
  "fst (ValidateMultiMasterFlags f) \<longleftrightarrow>
     (if active_replica f
      then cluster_mode f = [] \<and> tiered_prefix f = [] \<and> \<not> experimental_cascaded_partial_sync f \<and>
           multi_master_tombstone_ttl f \<le> kMaxTombstoneTtlSeconds \<and> multi_master_tombstone_gc_budget f \<noteq> 0
      else \<not> multi_master f)"
  by (auto simp: ValidateMultiMasterFlags_def Let_def)

subsection \<open>Clock skew\<close>

definition kClockSkewWarnMs :: int where "kClockSkewWarnMs = 250"

definition ComputeClockSkewMs :: "int \<Rightarrow> int \<Rightarrow> int" where
  "ComputeClockSkewMs local_clock_ms peer_clock_ms =
     (if peer_clock_ms = 0 then 0 else peer_clock_ms - local_clock_ms)"

definition IsClockSkewConcerning :: "int \<Rightarrow> bool" where
  "IsClockSkewConcerning skew_ms = (skew_ms \<ge> kClockSkewWarnMs \<or> skew_ms \<le> - kClockSkewWarnMs)"

subsection \<open>Peer registry\<close>

record peer_registry =
  uuid_to_idx :: "(string \<times> u32) list"
  idx_to_uuid :: "string list"

definition kSelfIdx :: u32 where "kSelfIdx = 0"

definition registry_empty :: peer_registry where
  "registry_empty = \<lparr>uuid_to_idx = [], idx_to_uuid = []\<rparr>"

text \<open>\<^term>\<open>None\<close> is the failed \<^verbatim>\<open>CHECK\<close> of a second \<^verbatim>\<open>Init\<close>. The hash
  map is an association list; \<^verbatim>\<open>try_emplace\<close> on an empty map always inserts.\<close>

definition Init :: "string \<Rightarrow> peer_registry \<Rightarrow> peer_registry option" where
  "Init self_uuid r =
     (if idx_to_uuid r \<noteq> [] then None
      else if uuid_to_idx r \<noteq> [] then None
      else Some (r\<lparr>uuid_to_idx := [(self_uuid, kSelfIdx)], idx_to_uuid := [self_uuid]\<rparr>))"

text \<open>An announcement is the \<^verbatim>\<open>Op::ORIGIN\<close> journal record \<open>AddOrGet\<close> hands to one shard; \<open>shards\<close> is
  \<^term>\<open>None\<close> for a null \<^verbatim>\<open>shard_set\<close>, otherwise it says for each shard whether it has a journal.
  The \<^verbatim>\<open>size_t\<close> of the vector is narrowed to \<^verbatim>\<open>uint32_t\<close> as in the source.\<close>

record origin_announcement =
  ann_shard :: nat
  ann_idx :: u32
  ann_uuid :: string

definition AddOrGet ::
  "bool list option \<Rightarrow> string \<Rightarrow> peer_registry \<Rightarrow> u32 \<times> origin_announcement list \<times> peer_registry" where
  "AddOrGet shards uuid r =
     (case map_of (uuid_to_idx r) uuid of
        Some idx \<Rightarrow> (idx, [], r)
      | None \<Rightarrow>
          let idx = of_nat (length (idx_to_uuid r));
              r' = r\<lparr>uuid_to_idx := (uuid, idx) # uuid_to_idx r, idx_to_uuid := idx_to_uuid r @ [uuid]\<rparr>
          in case shards of
               None \<Rightarrow> (idx, [], r')
             | Some js \<Rightarrow>
                 (idx, map (\<lambda>s. \<lparr>ann_shard = s, ann_idx = idx, ann_uuid = uuid\<rparr>)
                           (filter (\<lambda>s. js ! s) [0..<length js]), r'))"

definition FindIdx :: "string \<Rightarrow> peer_registry \<Rightarrow> u32 option" where
  "FindIdx uuid r = (case map_of (uuid_to_idx r) uuid of None \<Rightarrow> None | Some idx \<Rightarrow> Some idx)"

definition GetUuid :: "u32 \<Rightarrow> peer_registry \<Rightarrow> string" where
  "GetUuid idx r = (if unat idx \<ge> length (idx_to_uuid r) then [] else idx_to_uuid r ! unat idx)"

definition registry_Size :: "peer_registry \<Rightarrow> nat" where
  "registry_Size r = length (idx_to_uuid r)"

text \<open>The two containers are inverse to each other and the indices fit in 32 bits.\<close>

definition registry_inv :: "peer_registry \<Rightarrow> bool" where
  "registry_inv r = (distinct (idx_to_uuid r) \<and> length (idx_to_uuid r) \<le> 2 ^ 32 \<and>
     (\<forall>u i. map_of (uuid_to_idx r) u = Some i \<longleftrightarrow> unat i < length (idx_to_uuid r) \<and> idx_to_uuid r ! unat i = u))"

lemma registry_inv_lookup:
  "registry_inv r \<Longrightarrow> map_of (uuid_to_idx r) u = Some i \<longleftrightarrow> unat i < length (idx_to_uuid r) \<and> idx_to_uuid r ! unat i = u"
  by (simp add: registry_inv_def)

lemma registry_inv_None:
  assumes inv: "registry_inv r"
  shows "map_of (uuid_to_idx r) u = None \<longleftrightarrow> u \<notin> set (idx_to_uuid r)"
proof
  assume none: "map_of (uuid_to_idx r) u = None"
  show "u \<notin> set (idx_to_uuid r)"
  proof
    assume "u \<in> set (idx_to_uuid r)"
    then obtain n where n: "n < length (idx_to_uuid r)" "idx_to_uuid r ! n = u"
      by (auto simp: in_set_conv_nth)
    with inv have "unat (of_nat n :: u32) = n" by (intro unat_of_nat_u32) (simp add: registry_inv_def)
    with n registry_inv_lookup [OF inv, of u "of_nat n"] none show False by simp
  qed
next
  assume "u \<notin> set (idx_to_uuid r)"
  then have "\<not> (unat i < length (idx_to_uuid r) \<and> idx_to_uuid r ! unat i = u)" for i :: u32
    by (auto dest: nth_mem)
  with registry_inv_lookup [OF inv, of u] show "map_of (uuid_to_idx r) u = None"
    by (cases "map_of (uuid_to_idx r) u") blast+
qed

lemma Init_inv: "Init u registry_empty = Some r \<Longrightarrow> registry_inv r \<and> FindIdx u r = Some kSelfIdx"
  by (auto simp: Init_def registry_inv_def registry_empty_def FindIdx_def kSelfIdx_def unat_eq_0
      split: if_splits)

lemma AddOrGet_known:
  "map_of (uuid_to_idx r) u = Some i \<Longrightarrow> AddOrGet sh u r = (i, [], r)"
  by (simp add: AddOrGet_def)

lemma AddOrGet_new:
  assumes "map_of (uuid_to_idx r) u = None"
  shows "fst (AddOrGet sh u r) = of_nat (length (idx_to_uuid r))"
    and "snd (snd (AddOrGet sh u r)) = r\<lparr>uuid_to_idx := (u, of_nat (length (idx_to_uuid r))) # uuid_to_idx r,
           idx_to_uuid := idx_to_uuid r @ [u]\<rparr>"
  using assms by (simp_all add: AddOrGet_def Let_def split: option.splits)

text \<open>Adding a peer keeps the invariant while the 32-bit index space lasts, never moves an index
  already handed out, and the returned index resolves back to the uuid.\<close>

lemma AddOrGet_spec:
  assumes inv: "registry_inv r" and room: "length (idx_to_uuid r) < 2 ^ 32"
  shows "registry_inv (snd (snd (AddOrGet sh u r)))"
    and "GetUuid (fst (AddOrGet sh u r)) (snd (snd (AddOrGet sh u r))) = u"
    and "FindIdx u (snd (snd (AddOrGet sh u r))) = Some (fst (AddOrGet sh u r))"
    and "\<exists>ext. length ext \<le> 1 \<and> idx_to_uuid (snd (snd (AddOrGet sh u r))) = idx_to_uuid r @ ext"
proof -
  let ?n = "length (idx_to_uuid r)"
  have n: "unat (of_nat ?n :: u32) = ?n" using room by (rule unat_of_nat_u32)
  have inj: "unat i = ?n \<longleftrightarrow> i = of_nat ?n" for i :: u32 using n by (metis word_unat_eq_iff)
  show "registry_inv (snd (snd (AddOrGet sh u r)))"
  proof (cases "map_of (uuid_to_idx r) u")
    case None
    with inv have u: "u \<notin> set (idx_to_uuid r)" by (simp add: registry_inv_None)
    then have "idx_to_uuid r ! m \<noteq> u" if "m < ?n" for m using that by (auto dest: nth_mem)
    with inv None room u show ?thesis
      by (auto simp: registry_inv_def AddOrGet_new nth_append less_Suc_eq n inj)
  qed (simp add: AddOrGet_known inv)
  show "GetUuid (fst (AddOrGet sh u r)) (snd (snd (AddOrGet sh u r))) = u"
  proof (cases "map_of (uuid_to_idx r) u")
    case (Some i)
    with registry_inv_lookup [OF inv, of u i] show ?thesis by (simp add: AddOrGet_known GetUuid_def)
  qed (simp add: AddOrGet_new GetUuid_def n)
  show "FindIdx u (snd (snd (AddOrGet sh u r))) = Some (fst (AddOrGet sh u r))"
    by (cases "map_of (uuid_to_idx r) u") (auto simp: AddOrGet_known AddOrGet_new FindIdx_def)
  show "\<exists>ext. length ext \<le> 1 \<and> idx_to_uuid (snd (snd (AddOrGet sh u r))) = idx_to_uuid r @ ext"
    by (cases "map_of (uuid_to_idx r) u") (auto simp: AddOrGet_known AddOrGet_new)
qed

fun add_all :: "bool list option \<Rightarrow> string list \<Rightarrow> peer_registry \<Rightarrow> peer_registry" where
  "add_all sh [] r = r"
| "add_all sh (u # us) r = add_all sh us (snd (snd (AddOrGet sh u r)))"

lemma add_all_spec:
  "registry_inv r \<Longrightarrow> length (idx_to_uuid r) + length us \<le> 2 ^ 32 \<Longrightarrow>
     registry_inv (add_all sh us r) \<and> (\<exists>ext. idx_to_uuid (add_all sh us r) = idx_to_uuid r @ ext)"
proof (induction us arbitrary: r)
  case (Cons u us)
  let ?r = "snd (snd (AddOrGet sh u r))"
  from Cons.prems have room: "length (idx_to_uuid r) < 2 ^ 32" by simp
  note spec = AddOrGet_spec [OF Cons.prems(1) room, where sh = sh and u = u]
  from spec(4) obtain ext where ext: "length ext \<le> 1" "idx_to_uuid ?r = idx_to_uuid r @ ext" by blast
  with Cons.prems(2) have "length (idx_to_uuid ?r) + length us \<le> 2 ^ 32" by simp
  with Cons.IH [OF spec(1)] ext(2) show ?case by auto
qed simp

lemma add_all_length: "length (idx_to_uuid (add_all sh us r)) \<le> length (idx_to_uuid r) + length us"
proof (induction us arbitrary: r)
  case (Cons u us)
  have "length (idx_to_uuid (snd (snd (AddOrGet sh u r)))) \<le> Suc (length (idx_to_uuid r))"
    by (cases "map_of (uuid_to_idx r) u") (simp_all add: AddOrGet_known AddOrGet_new)
  with Cons.IH [of "snd (snd (AddOrGet sh u r))"] show ?case by simp
qed simp

lemma add_all_known:
  "registry_inv r \<Longrightarrow> length (idx_to_uuid r) + length us \<le> 2 ^ 32 \<Longrightarrow>
     set (idx_to_uuid r) \<union> set us \<subseteq> set (idx_to_uuid (add_all sh us r))"
proof (induction us arbitrary: r)
  case (Cons u us)
  let ?r = "snd (snd (AddOrGet sh u r))"
  from Cons.prems have room: "length (idx_to_uuid r) < 2 ^ 32" by simp
  note spec = AddOrGet_spec [OF Cons.prems(1) room, where sh = sh and u = u]
  from spec(4) obtain ext where ext: "length ext \<le> 1" "idx_to_uuid ?r = idx_to_uuid r @ ext" by blast
  have "map_of (uuid_to_idx ?r) u \<noteq> None" using spec(3) by (auto simp: FindIdx_def split: option.splits)
  then have "u \<in> set (idx_to_uuid ?r)" using registry_inv_None [OF spec(1), of u] by simp
  with ext Cons.IH [OF spec(1)] Cons.prems(2) show ?case by auto
qed simp

lemma add_all_stable:
  assumes "registry_inv r" "length (idx_to_uuid r) + length us \<le> 2 ^ 32" "FindIdx u r = Some i"
  shows "FindIdx u (add_all sh us r) = Some i"
  using add_all_spec [OF assms(1,2), of sh] registry_inv_lookup [OF assms(1), of u i] assms(3)
    registry_inv_lookup [of "add_all sh us r" u i]
  by (auto simp: FindIdx_def nth_append split: option.splits)

subsection \<open>Properties\<close>

text \<open>C22: whatever uuids are registered later, the index of a registered uuid never changes, two uuids never
  share an index and every index resolves to its uuid, as long as the 32-bit index space lasts.\<close>

theorem registry_indices_permanent:
  assumes "Init self registry_empty = Some r0" "length us + length vs < 2 ^ 32" "r = add_all sh us r0"
    and "u \<in> set (self # us)"
  shows "\<exists>i. FindIdx u r = Some i \<and> FindIdx u (add_all sh vs r) = Some i \<and> GetUuid i (add_all sh vs r) = u \<and>
    (\<forall>w. FindIdx w (add_all sh vs r) = Some i \<longrightarrow> w = u)"
proof -
  have r0: "registry_inv r0" "idx_to_uuid r0 = [self]"
    using Init_inv [OF assms(1)] assms(1) by (auto simp: Init_def registry_empty_def)
  have len: "length (idx_to_uuid r0) + length us \<le> 2 ^ 32" using r0 assms(2) by simp
  note inv = add_all_spec [OF r0(1) len, of sh, folded assms(3)]
  have lr: "length (idx_to_uuid r) + length vs \<le> 2 ^ 32"
    using add_all_length [of sh us r0] assms(2,3) r0(2) by simp
  from add_all_known [OF r0(1) len, of sh] assms(3,4) r0(2) have "u \<in> set (idx_to_uuid r)" by auto
  then obtain i where i: "FindIdx u r = Some i"
    using inv by (cases "FindIdx u r") (auto simp: FindIdx_def registry_inv_None split: option.splits)
  have inv2: "registry_inv (add_all sh vs r)" using add_all_spec [OF conjunct1 [OF inv] lr] by blast
  have "FindIdx u (add_all sh vs r) = Some i" using add_all_stable [OF conjunct1 [OF inv] lr i] .
  with i show ?thesis
    by (auto simp: FindIdx_def GetUuid_def registry_inv_lookup [OF inv2] split: option.splits)
qed

theorem registry_indices_permanent_witness:
  "FindIdx ''b'' (add_all None [''c''] (add_all None [''b''] \<lparr>uuid_to_idx = [(''a'', 0)], idx_to_uuid = [''a'']\<rparr>)) = Some 1"
  using registry_indices_permanent [of "''a''" "\<lparr>uuid_to_idx = [(''a'', 0)], idx_to_uuid = [''a'']\<rparr>" "[''b'']" "[''c'']"
      "add_all None [''b''] \<lparr>uuid_to_idx = [(''a'', 0)], idx_to_uuid = [''a'']\<rparr>" None "''b''"]
  by (simp add: Init_def registry_empty_def kSelfIdx_def AddOrGet_def FindIdx_def)

text \<open>C25: the flag validator admits an active replica only outside cluster mode, tiering and cascaded partial
  sync, with a tombstone lifetime whose millisecond form added to any stamp time does not wrap around, and with
  a positive collection budget.\<close>

theorem validated_flags_safe:
  assumes "fst (ValidateMultiMasterFlags f)" "active_replica f" "ms < 2 ^ 44"
  shows "cluster_mode f = [] \<and> tiered_prefix f = [] \<and> \<not> experimental_cascaded_partial_sync f \<and>
    multi_master_tombstone_gc_budget f \<noteq> 0 \<and>
    unat (ms + multi_master_tombstone_ttl f * 1000 :: u64) = unat ms + unat (multi_master_tombstone_ttl f) * 1000"
proof -
  let ?t = "multi_master_tombstone_ttl f"
  have "unat ?t \<le> 4294967295"
    using assms(1,2) by (simp add: ValidateMultiMasterFlags_iff kMaxTombstoneTtlSeconds_def word_le_nat_alt)
  then have "unat (?t * 1000) = unat ?t * 1000" by (simp add: unat_word_ariths)
  moreover have "unat ms < 2 ^ 44" using assms(3) by (simp add: word_less_nat_alt)
  ultimately have "unat (ms + ?t * 1000) = unat ms + unat ?t * 1000"
    using \<open>unat ?t \<le> 4294967295\<close> by (simp add: unat_word_ariths)
  with assms(1,2) show ?thesis by (simp add: ValidateMultiMasterFlags_iff)
qed

definition demo_flags :: mm_flags where
  "demo_flags = \<lparr>active_replica = True, multi_master = True, multi_master_tombstone_ttl = 86400,
     multi_master_max_tombstones = 1000000, multi_master_tombstone_gc_budget = 32, multi_master_stream_lww = True,
     cluster_mode = [], tiered_prefix = [], experimental_cascaded_partial_sync = False, cache_mode = False\<rparr>"

theorem validated_flags_safe_witness:
  "unat (5 + multi_master_tombstone_ttl demo_flags * 1000 :: u64) = 86400005"
  using validated_flags_safe [of demo_flags 5]
  by (simp add: ValidateMultiMasterFlags_iff demo_flags_def kMaxTombstoneTtlSeconds_def)

end
