(* ===== verification/Journal_Codec.thy ===== *)
theory Journal_Codec
  imports Dfly_Prelude
begin

text \<open>
  The journal wire format: the packed integers of \<^verbatim>\<open>src/server/serializer_commons.cc\<close>, the writer and
  the reader of \<^verbatim>\<open>src/server/journal/serializer.cc\<close>, with the entry types of \<^verbatim>\<open>journal/types.h\<close>. A sink or
  source is the list of bytes written to it or left in it, so the buffering of the reader
  (\<^verbatim>\<open>EnsureRead\<close>, the split of \<^verbatim>\<open>ReadString\<close>) is the test that enough bytes are left. Strings are byte
  lists. A \<^verbatim>\<open>LOG(FATAL)\<close> of the writer is \<^term>\<open>None\<close>.
\<close>

type_synonym bytes = "u8 list"

datatype errc = io_error | result_out_of_range | illegal_byte_sequence

subsection \<open>Packed integers\<close>

definition RDB_6BITLEN :: u8 where "RDB_6BITLEN = 0"
definition RDB_14BITLEN :: u8 where "RDB_14BITLEN = 1"
definition RDB_32BITLEN :: u8 where "RDB_32BITLEN = 0x80"
definition RDB_64BITLEN :: u8 where "RDB_64BITLEN = 0x81"
definition RDB_ENCVAL :: u8 where "RDB_ENCVAL = 3"

definition MetaType :: "u8 \<Rightarrow> u8" where
  "MetaType first_byte = drop_bit 6 (first_byte AND 0xC0)"

definition MetaByteSize :: "u8 \<Rightarrow> nat" where
  "MetaByteSize first_byte =
     (if MetaType first_byte = RDB_ENCVAL \<or> MetaType first_byte = RDB_6BITLEN then 0
      else if MetaType first_byte = RDB_14BITLEN then 1
      else if first_byte = RDB_32BITLEN then 4
      else if first_byte = RDB_64BITLEN then 8
      else 0)"

text \<open>Big-endian stores and loads of \<open>n\<close> bytes.\<close>

fun be_store :: "nat \<Rightarrow> u64 \<Rightarrow> bytes" where
  "be_store 0 v = []"
| "be_store (Suc n) v = be_store n (drop_bit 8 v) @ [ucast v]"

definition be_load :: "bytes \<Rightarrow> u64" where
  "be_load bs = foldl (\<lambda>acc b. push_bit 8 acc OR ucast b) 0 bs"

definition WritePackedUInt :: "u64 \<Rightarrow> bytes" where
  "WritePackedUInt v =
     (if v < 64 then [ucast (v AND 0xFF) OR push_bit 6 RDB_6BITLEN]
      else if v < 16384 then [ucast (drop_bit 8 v AND 0xFF) OR push_bit 6 RDB_14BITLEN, ucast (v AND 0xFF)]
      else if v \<le> 0xFFFFFFFF then RDB_32BITLEN # be_store 4 v
      else RDB_64BITLEN # be_store 8 v)"

definition ReadPackedUInt :: "u8 \<Rightarrow> bytes \<Rightarrow> errc + u64" where
  "ReadPackedUInt first_byte source =
     (if MetaType first_byte = RDB_ENCVAL \<or> MetaType first_byte = RDB_6BITLEN
      then Inr (ucast (first_byte AND 0x3F))
      else if MetaType first_byte = RDB_14BITLEN
      then Inr (push_bit 8 (ucast (first_byte AND 0x3F)) OR ucast (hd source))
      else if first_byte = RDB_32BITLEN then Inr (be_load (take 4 source))
      else if first_byte = RDB_64BITLEN then Inr (be_load (take 8 source))
      else Inl illegal_byte_sequence)"

subsection \<open>Entries\<close>

datatype op = SELECT | EXPIRED | COMMAND | PING | LSN | ORIGIN

definition op_code :: "op \<Rightarrow> u8" where
  "op_code opc = (case opc of SELECT \<Rightarrow> 6 | EXPIRED \<Rightarrow> 9 | COMMAND \<Rightarrow> 10 | PING \<Rightarrow> 13 | LSN \<Rightarrow> 15 | ORIGIN \<Rightarrow> 16)"

definition kEntryFlagExpired :: u8 where "kEntryFlagExpired = 1"
definition kEntryFlagDerived :: u8 where "kEntryFlagDerived = 2"

record payload =
  pl_cmd :: bytes
  pl_args :: "bytes list"

record entry =
  e_txid :: u64
  e_opcode :: op
  e_dbid :: u16
  e_slot :: "u16 option"
  e_lsn :: u64
  e_origin_idx :: u32
  e_mvcc :: u64
  e_flags :: u8
  e_payload :: payload

definition HasPayload :: "entry \<Rightarrow> bool" where
  "HasPayload e = (pl_cmd (e_payload e) \<noteq> [])"

text \<open>The control-entry constructor \<^verbatim>\<open>Entry(opcode, dbid, slot)\<close>.\<close>

definition select_entry :: "u16 \<Rightarrow> u16 option \<Rightarrow> entry" where
  "select_entry db sl = \<lparr>e_txid = 0, e_opcode = SELECT, e_dbid = db, e_slot = sl, e_lsn = 0, e_origin_idx = 0,
     e_mvcc = 0, e_flags = 0, e_payload = \<lparr>pl_cmd = [], pl_args = []\<rparr>\<rparr>"

text \<open>An opcode read from the wire is kept as its byte, as the cast in the source does.\<close>

record parsed_entry =
  p_txid :: u64
  p_opcode :: u8
  p_dbid :: u16
  p_lsn :: u64
  p_origin_idx :: u32
  p_mvcc :: u64
  p_flags :: u8
  p_cmd :: "bytes list"
  p_origin_uuid :: bytes

subsection \<open>Writer\<close>

record journal_writer =
  cur_dbid :: "u16 option"
  extended_framing :: bool

definition write_string :: "bytes \<Rightarrow> bytes" where
  "write_string sv = WritePackedUInt (of_nat (length sv)) @ (if sv \<noteq> [] then sv else [])"

definition write_payload :: "payload \<Rightarrow> bytes" where
  "write_payload p =
     (if pl_cmd p = [] then []
      else let num_elems = of_nat (length (pl_args p)) :: u64;
               size = of_nat (sum_list (map length (pl_args p)));
               cmd_size = of_nat (length (pl_cmd p)) + size
           in WritePackedUInt (1 + num_elems) @ WritePackedUInt cmd_size @ write_string (pl_cmd p)
              @ concat (map write_string (pl_args p)))"

text \<open>The body of an entry after the nested SELECT has been handled: opcode and fields.\<close>

definition write_body :: "bool \<Rightarrow> entry \<Rightarrow> bytes option" where
  "write_body ext e =
     (let opc = WritePackedUInt (ucast (op_code (e_opcode e))) in
      case e_opcode e of
        SELECT \<Rightarrow> Some (opc @ WritePackedUInt (ucast (e_dbid e)))
      | LSN \<Rightarrow> Some (opc @ WritePackedUInt (e_lsn e))
      | PING \<Rightarrow> Some opc
      | COMMAND \<Rightarrow>
          Some (opc @ WritePackedUInt (e_txid e)
                @ (if \<not> ext then WritePackedUInt 1
                   else WritePackedUInt 2 @ WritePackedUInt (ucast (e_origin_idx e)) @ WritePackedUInt (e_mvcc e)
                        @ WritePackedUInt (ucast (e_flags e)))
                @ write_payload (e_payload e))
      | ORIGIN \<Rightarrow> Some (opc @ WritePackedUInt (ucast (e_origin_idx e)) @ write_string (pl_cmd (e_payload e)))
      | EXPIRED \<Rightarrow> None)"

definition JournalWriter_Write :: "entry \<Rightarrow> journal_writer \<Rightarrow> (bytes \<times> journal_writer) option" where
  "JournalWriter_Write e w =
     (if e_opcode e = ORIGIN \<and> \<not> extended_framing w then Some ([], w)
      else
        let need = (e_opcode e \<noteq> SELECT \<and> e_opcode e \<noteq> LSN \<and> e_opcode e \<noteq> PING \<and> e_opcode e \<noteq> ORIGIN \<and>
                    cur_dbid w \<noteq> Some (e_dbid e));
            sel = (if need then write_body (extended_framing w) (select_entry (e_dbid e) (e_slot e)) else Some []);
            w1 = (if need then w\<lparr>cur_dbid := Some (e_dbid e)\<rparr> else w)
        in case sel of
             None \<Rightarrow> None
           | Some s \<Rightarrow> (case write_body (extended_framing w) e of None \<Rightarrow> None | Some b \<Rightarrow> Some (s @ b, w1)))"

subsection \<open>Reader\<close>

type_synonym 'a read = "errc + 'a \<times> bytes"

definition bind_read :: "'a read \<Rightarrow> ('a \<Rightarrow> bytes \<Rightarrow> 'b read) \<Rightarrow> 'b read" where
  "bind_read r f = (case r of Inl e \<Rightarrow> Inl e | Inr (a, bs) \<Rightarrow> f a bs)"

text \<open>\<open>ReadUInt mx\<close> with \<open>mx\<close> the greatest value of the target type.\<close>

definition ReadUInt :: "u64 \<Rightarrow> bytes \<Rightarrow> u64 read" where
  "ReadUInt mx bs =
     (case bs of
        [] \<Rightarrow> Inl io_error
      | b # rest \<Rightarrow>
          if length rest < MetaByteSize b then Inl io_error
          else (case ReadPackedUInt b (take (MetaByteSize b) rest) of
                  Inl e \<Rightarrow> Inl e
                | Inr v \<Rightarrow> if v > mx then Inl result_out_of_range else Inr (v, drop (MetaByteSize b) rest)))"

abbreviation u8_max :: u64 where "u8_max \<equiv> 0xFF"
abbreviation u16_max :: u64 where "u16_max \<equiv> 0xFFFF"
abbreviation u32_max :: u64 where "u32_max \<equiv> 0xFFFFFFFF"
abbreviation u64_max :: u64 where "u64_max \<equiv> 0xFFFFFFFFFFFFFFFF"

definition ReadString :: "nat \<Rightarrow> bytes \<Rightarrow> bytes read" where
  "ReadString n bs = (if length bs < n then Inl io_error else Inr (take n bs, drop n bs))"

fun ReadStrings :: "nat \<Rightarrow> u64 \<Rightarrow> bytes \<Rightarrow> bytes list read" where
  "ReadStrings 0 cmd_size bs = Inr ([], bs)"
| "ReadStrings (Suc n) cmd_size bs =
     bind_read (ReadUInt u64_max bs) (\<lambda>size bs1.
       if size > cmd_size then Inl io_error
       else bind_read (ReadString (unat size) bs1) (\<lambda>s bs2.
         bind_read (ReadStrings n (cmd_size - size) bs2) (\<lambda>ss bs3. Inr (s # ss, bs3))))"

definition ReadCommand :: "bytes \<Rightarrow> bytes list read" where
  "ReadCommand bs =
     bind_read (ReadUInt u64_max bs) (\<lambda>num_strings bs1.
       bind_read (ReadUInt u64_max bs1) (\<lambda>cmd_size bs2. ReadStrings (unat num_strings) cmd_size bs2))"

definition kMaxOriginUuidLen :: u64 where "kMaxOriginUuidLen = 128"

text \<open>What follows the opcode of an entry that is not a SELECT. \<^verbatim>\<open>lsn\<close> and \<^verbatim>\<open>txid\<close> of the target are
  overwritten only by the opcodes that carry them; \<open>lsn0\<close> and \<open>tx0\<close> are their values before.\<close>

definition read_fields :: "u64 \<Rightarrow> u64 \<Rightarrow> u16 \<Rightarrow> u8 \<Rightarrow> bytes \<Rightarrow> parsed_entry read" where
  "read_fields lsn0 tx0 db opc bs =
     (let dest = \<lparr>p_txid = tx0, p_opcode = opc, p_dbid = db, p_lsn = lsn0, p_origin_idx = 0, p_mvcc = 0,
                  p_flags = 0, p_cmd = [], p_origin_uuid = []\<rparr> in
      if opc = op_code PING then Inr (dest, bs)
      else if opc = op_code LSN then
        bind_read (ReadUInt u64_max bs) (\<lambda>l bs1. Inr (dest\<lparr>p_lsn := l\<rparr>, bs1))
      else if opc = op_code ORIGIN then
        bind_read (ReadUInt u32_max bs) (\<lambda>i bs1.
          bind_read (ReadUInt u64_max bs1) (\<lambda>n bs2.
            if n > kMaxOriginUuidLen then Inl illegal_byte_sequence
            else bind_read (ReadString (unat n) bs2) (\<lambda>u bs3.
              Inr (dest\<lparr>p_origin_idx := ucast i, p_origin_uuid := u\<rparr>, bs3))))
      else
        bind_read (ReadUInt u64_max bs) (\<lambda>tx bs1.
          bind_read (ReadUInt u32_max bs1) (\<lambda>v bs2.
            bind_read (if v = 2 then
                         bind_read (ReadUInt u32_max bs2) (\<lambda>i bs3.
                           bind_read (ReadUInt u64_max bs3) (\<lambda>m bs4.
                             bind_read (ReadUInt u8_max bs4) (\<lambda>fl bs5.
                               Inr (dest\<lparr>p_txid := tx, p_origin_idx := ucast i, p_mvcc := m,
                                         p_flags := ucast fl\<rparr>, bs5))))
                       else if v \<noteq> 1 then Inl illegal_byte_sequence
                       else Inr (dest\<lparr>p_txid := tx\<rparr>, bs2))
              (\<lambda>d bs6. bind_read (ReadCommand bs6) (\<lambda>cmd bs7. Inr (d\<lparr>p_cmd := cmd\<rparr>, bs7))))))"

lemma ReadUInt_shorter: "ReadUInt mx bs = Inr (v, bs') \<Longrightarrow> length bs' < length bs"
  by (auto simp: ReadUInt_def split: list.splits if_splits sum.splits)

text \<open>The reader carries its current database from entry to entry; the result is the new database and
  the entry.\<close>

function ReadEntry :: "u64 \<Rightarrow> u64 \<Rightarrow> u16 \<Rightarrow> bytes \<Rightarrow> (u16 \<times> parsed_entry) read" where
  "ReadEntry lsn0 tx0 db bs =
     (case ReadUInt u8_max bs of
        Inl e \<Rightarrow> Inl e
      | Inr (int_op, bs1) \<Rightarrow>
          if ucast int_op = op_code SELECT then
            (case ReadUInt u16_max bs1 of
               Inl e \<Rightarrow> Inl e
             | Inr (d, bs2) \<Rightarrow> ReadEntry lsn0 tx0 (ucast d) bs2)
          else bind_read (read_fields lsn0 tx0 db (ucast int_op) bs1) (\<lambda>pe bs2. Inr ((db, pe), bs2)))"
  by pat_completeness auto
termination
  by (relation "measure (\<lambda>(_, _, _, bs). length bs)") (auto dest!: ReadUInt_shorter)

declare ReadEntry.simps [simp del]

subsection \<open>Round trip of integers\<close>

lemma be_load_snoc: "be_load (bs @ [b]) = push_bit 8 (be_load bs) OR ucast b"
  by (simp add: be_load_def)

lemma be_load_Nil: "be_load [] = 0"
  by (simp add: be_load_def)

lemma length_be_store [simp]: "length (be_store n v) = n"
  by (induction n arbitrary: v) auto

lemma be_load_store: "be_load (be_store n v) = take_bit (8 * n) v"
proof (induction n arbitrary: v)
  case 0
  then show ?case by (simp add: be_load_Nil)
next
  case (Suc n)
  have "be_load (be_store (Suc n) v) = push_bit 8 (take_bit (8 * n) (drop_bit 8 v)) OR ucast (ucast v :: u8)"
    by (simp add: be_load_snoc Suc)
  also have "\<dots> = take_bit (8 * Suc n) v"
    by (rule bit_eqI) (auto simp: bit_simps)
  finally show ?case .
qed

lemma take_bit_small: "unat v < 2 ^ n \<Longrightarrow> take_bit n v = v" for v :: u64
  by (simp add: word_unat_eq_iff unsigned_take_bit_eq take_bit_nat_eq_self)

lemma bit_small: "unat v < 2 ^ n \<Longrightarrow> bit v m \<Longrightarrow> m < n" for v :: u64
  using take_bit_small [of v n] by (metis bit_take_bit_iff)

lemma mask_consts:
  "(0xFF :: u64) = mask 8" "(0xC0 :: u8) = push_bit 6 (mask 2)" "(0x3F :: u8) = mask 6"
  by (simp_all add: mask_eq_exp_minus_1 push_bit_eq_mult)

lemma packed6:
  fixes v :: u64
  assumes "v < 64"
  shows "MetaType (ucast (v AND 0xFF) OR push_bit 6 RDB_6BITLEN) = RDB_6BITLEN"
    and "ucast ((ucast (v AND 0xFF) OR push_bit 6 RDB_6BITLEN) AND 0x3F :: u8) = v"
proof -
  have b: "bit v m \<Longrightarrow> m < 6" for m using bit_small [of v 6 m] assms by (simp add: word_less_nat_alt)
  show "MetaType (ucast (v AND 0xFF) OR push_bit 6 RDB_6BITLEN) = RDB_6BITLEN"
    unfolding MetaType_def RDB_6BITLEN_def mask_consts
    by (rule bit_eqI) (auto simp: bit_simps dest: b)
  show "ucast ((ucast (v AND 0xFF) OR push_bit 6 RDB_6BITLEN) AND 0x3F :: u8) = v"
    unfolding RDB_6BITLEN_def mask_consts
    by (rule bit_eqI) (auto simp: bit_simps dest: b)
qed

lemma bit_64_gen: "bit (64 :: 'a :: semiring_bit_operations) k \<longleftrightarrow> possible_bit TYPE('a) 6 \<and> k = 6"
proof -
  have "(64 :: 'a) = push_bit 6 1" by (simp add: push_bit_eq_mult)
  then show ?thesis by (simp only: bit_push_bit_iff bit_1_iff) auto
qed

lemma packed14:
  fixes v :: u64
  assumes "v < 16384"
  shows "MetaType (ucast (drop_bit 8 v AND 0xFF) OR push_bit 6 RDB_14BITLEN) = RDB_14BITLEN"
    and "push_bit 8 (ucast ((ucast (drop_bit 8 v AND 0xFF) OR push_bit 6 RDB_14BITLEN) AND 0x3F :: u8)) OR
           ucast (ucast (v AND 0xFF) :: u8) = v"
proof -
  have b: "bit v m \<Longrightarrow> m < 14" for m using bit_small [of v 14 m] assms by (simp add: word_less_nat_alt)
  show "MetaType (ucast (drop_bit 8 v AND 0xFF) OR push_bit 6 RDB_14BITLEN) = RDB_14BITLEN"
    unfolding MetaType_def RDB_14BITLEN_def mask_consts
    by (rule bit_eqI) (auto simp: bit_simps bit_64_gen dest: b)
  show "push_bit 8 (ucast ((ucast (drop_bit 8 v AND 0xFF) OR push_bit 6 RDB_14BITLEN) AND 0x3F :: u8)) OR
           ucast (ucast (v AND 0xFF) :: u8) = v"
    unfolding RDB_14BITLEN_def mask_consts
    by (rule bit_eqI) (auto simp: bit_simps bit_64_gen dest: b)
qed

lemma packed_consts:
  "RDB_6BITLEN \<noteq> RDB_14BITLEN" "RDB_6BITLEN \<noteq> RDB_ENCVAL" "RDB_14BITLEN \<noteq> RDB_ENCVAL"
  "RDB_14BITLEN \<noteq> RDB_6BITLEN" "RDB_64BITLEN \<noteq> RDB_32BITLEN"
  "MetaType RDB_32BITLEN \<notin> {RDB_6BITLEN, RDB_14BITLEN, RDB_ENCVAL}"
  "MetaType RDB_64BITLEN \<notin> {RDB_6BITLEN, RDB_14BITLEN, RDB_ENCVAL}"
  by (simp_all add: RDB_6BITLEN_def RDB_14BITLEN_def RDB_ENCVAL_def RDB_32BITLEN_def RDB_64BITLEN_def
      MetaType_def drop_bit_eq_div)

lemma ReadUInt_WritePackedUInt [simp]:
  assumes "v \<le> mx"
  shows "ReadUInt mx (WritePackedUInt v @ rest) = Inr (v, rest)"
proof -
  have le: "\<not> v > mx" using assms by simp
  consider "v < 64" | "\<not> v < 64" "v < 16384" | "\<not> v < 16384" "v \<le> 0xFFFFFFFF" | "\<not> v \<le> 0xFFFFFFFF" by blast
  then show ?thesis
  proof cases
    case 1
    then show ?thesis
      using le packed6 [OF 1] packed_consts
      by (simp add: WritePackedUInt_def ReadUInt_def MetaByteSize_def ReadPackedUInt_def)
  next
    case 2
    then show ?thesis
      using le packed14 [OF 2(2)] packed_consts
      by (simp add: WritePackedUInt_def ReadUInt_def MetaByteSize_def ReadPackedUInt_def)
  next
    case 3
    then have "\<not> v < 64" by (simp add: word_less_nat_alt)
    moreover have "be_load (be_store 4 v) = v"
      using 3 take_bit_small [of v 32] by (simp add: be_load_store word_le_nat_alt)
    ultimately show ?thesis
      using 3 le packed_consts(6)
      by (simp add: WritePackedUInt_def ReadUInt_def MetaByteSize_def ReadPackedUInt_def)
  next
    case 4
    then have "\<not> v < 64" "\<not> v < 16384" by (simp_all add: word_less_nat_alt word_le_nat_alt)
    moreover have "be_load (be_store 8 v) = v"
      using take_bit_small [of v 64] unat_lt_u64 [of v] by (simp add: be_load_store)
    ultimately show ?thesis
      using 4 le packed_consts(5,7)
      by (simp add: WritePackedUInt_def ReadUInt_def MetaByteSize_def ReadPackedUInt_def)
  qed
qed

subsection \<open>Round trip of entries\<close>

definition payload_ok :: "payload \<Rightarrow> bool" where
  "payload_ok p = (pl_cmd p \<noteq> [] \<and> Suc (length (pl_args p)) < 2 ^ 64 \<and>
     length (pl_cmd p) + sum_list (map length (pl_args p)) < 2 ^ 64)"

definition entry_ok :: "bool \<Rightarrow> entry \<Rightarrow> bool" where
  "entry_ok ext e = (case e_opcode e of
       COMMAND \<Rightarrow> payload_ok (e_payload e)
     | ORIGIN \<Rightarrow> ext \<and> length (pl_cmd (e_payload e)) \<le> 128
     | LSN \<Rightarrow> True | PING \<Rightarrow> True | SELECT \<Rightarrow> False | EXPIRED \<Rightarrow> False)"

text \<open>What reading an entry back must give, in a reader at database \<open>db\<close> whose target last held
  \<open>lsn0\<close> and \<open>tx0\<close>.\<close>

definition parsed_of :: "bool \<Rightarrow> u64 \<Rightarrow> u64 \<Rightarrow> u16 \<Rightarrow> entry \<Rightarrow> parsed_entry" where
  "parsed_of ext lsn0 tx0 db e =
     (case e_opcode e of
        COMMAND \<Rightarrow> \<lparr>p_txid = e_txid e, p_opcode = 10, p_dbid = e_dbid e, p_lsn = lsn0,
          p_origin_idx = (if ext then e_origin_idx e else 0), p_mvcc = (if ext then e_mvcc e else 0),
          p_flags = (if ext then e_flags e else 0), p_cmd = pl_cmd (e_payload e) # pl_args (e_payload e),
          p_origin_uuid = []\<rparr>
      | ORIGIN \<Rightarrow> \<lparr>p_txid = tx0, p_opcode = 16, p_dbid = db, p_lsn = lsn0, p_origin_idx = e_origin_idx e,
          p_mvcc = 0, p_flags = 0, p_cmd = [], p_origin_uuid = pl_cmd (e_payload e)\<rparr>
      | LSN \<Rightarrow> \<lparr>p_txid = tx0, p_opcode = 15, p_dbid = db, p_lsn = e_lsn e, p_origin_idx = 0, p_mvcc = 0,
          p_flags = 0, p_cmd = [], p_origin_uuid = []\<rparr>
      | _ \<Rightarrow> \<lparr>p_txid = tx0, p_opcode = op_code (e_opcode e), p_dbid = db, p_lsn = lsn0, p_origin_idx = 0,
          p_mvcc = 0, p_flags = 0, p_cmd = [], p_origin_uuid = []\<rparr>)"

definition next_db :: "u16 \<Rightarrow> entry \<Rightarrow> u16" where
  "next_db db e = (if e_opcode e = COMMAND then e_dbid e else db)"

lemma bind_read_Inr [simp]: "bind_read (Inr (a, bs)) f = f a bs"
  by (simp add: bind_read_def)

lemma u64_le_max [simp]: "(v :: u64) \<le> 0xFFFFFFFFFFFFFFFF"
  using word_le_max_u64 [of v] by simp

lemma ucast_le_max [simp]:
  "ucast (a :: u8) \<le> (0xFF :: u64)" "ucast (b :: u16) \<le> (0xFFFF :: u64)" "ucast (c :: u32) \<le> (0xFFFFFFFF :: u64)"
  using unsigned_less [of a, where ?'a = nat] unsigned_less [of b, where ?'a = nat]
    unsigned_less [of c, where ?'a = nat]
  by (simp_all add: word_le_nat_alt unsigned_ucast_eq take_bit_nat_eq_self)

lemma ucast_back [simp]:
  "ucast (ucast (a :: u8) :: u64) = a" "ucast (ucast (b :: u16) :: u64) = b" "ucast (ucast (c :: u32) :: u64) = c"
  by (simp_all add: bit_eq_iff bit_simps)

lemma unat_of_nat_u64: "n < 2 ^ 64 \<Longrightarrow> unat (of_nat n :: u64) = n"
  by (simp add: unat_of_nat take_bit_nat_eq_self)

lemma ReadString_append [simp]: "ReadString (length s) (s @ rest) = Inr (s, rest)"
  by (simp add: ReadString_def)

lemma write_string_eq: "write_string sv = WritePackedUInt (of_nat (length sv)) @ sv"
  by (simp add: write_string_def)

lemma ReadStrings_write:
  assumes "sum_list (map length ss) \<le> unat c"
  shows "ReadStrings (length ss) c (concat (map write_string ss) @ rest) = Inr (ss, rest)"
  using assms
proof (induction ss arbitrary: c)
  case (Cons s ss)
  have n: "unat (of_nat (length s) :: u64) = length s"
    using Cons.prems unat_lt_u64 [of c] by (intro unat_of_nat_u64) simp
  have le: "of_nat (length s) \<le> c" using Cons.prems n by (simp add: word_le_nat_alt)
  then have "unat (c - of_nat (length s)) = unat c - length s" by (simp add: unat_sub n)
  with Cons.prems have "sum_list (map length ss) \<le> unat (c - of_nat (length s))" by simp
  from Cons.IH [OF this] le n show ?case by (simp add: write_string_eq not_less)
qed simp

lemma ReadCommand_write:
  assumes "payload_ok p"
  shows "ReadCommand (write_payload p @ rest) = Inr (pl_cmd p # pl_args p, rest)"
proof -
  let ?c = "of_nat (length (pl_cmd p)) + of_nat (sum_list (map length (pl_args p))) :: u64"
  have c: "unat ?c = sum_list (map length (pl_cmd p # pl_args p))"
    using assms unat_of_nat_u64 [of "length (pl_cmd p) + sum_list (map length (pl_args p))"]
    by (simp add: payload_ok_def)
  have n: "unat (1 + of_nat (length (pl_args p)) :: u64) = length (pl_cmd p # pl_args p)"
    using assms unat_of_nat_u64 [of "Suc (length (pl_args p))"] by (simp add: payload_ok_def)
  show ?thesis
    using assms ReadStrings_write [of "pl_cmd p # pl_args p" ?c rest] c n
    by (simp add: ReadCommand_def write_payload_def payload_ok_def Let_def)
qed

lemma op_code_simps:
  "ucast (ucast (op_code x) :: u64) = op_code x" "op_code x = op_code y \<longleftrightarrow> x = y"
  by simp (cases x; cases y; simp add: op_code_def)

lemma read_fields_write:
  assumes "entry_ok ext e" "write_body ext e = Some b"
    and "e_opcode e = COMMAND \<Longrightarrow> db = e_dbid e"
  shows "\<exists>b'. b = WritePackedUInt (ucast (op_code (e_opcode e))) @ b' \<and>
    read_fields lsn0 tx0 db (op_code (e_opcode e)) (b' @ rest) = Inr (parsed_of ext lsn0 tx0 db e, rest)"
proof (cases "e_opcode e")
  case COMMAND
  then show ?thesis
    using assms ReadCommand_write [of "e_payload e" rest]
    by (cases ext) (auto simp: write_body_def read_fields_def entry_ok_def parsed_of_def op_code_simps Let_def op_code_def)
next
  case ORIGIN
  then have n: "unat (of_nat (length (pl_cmd (e_payload e))) :: u64) = length (pl_cmd (e_payload e))"
    using assms(1) by (intro unat_of_nat_u64) (simp add: entry_ok_def)
  then have "\<not> of_nat (length (pl_cmd (e_payload e))) > kMaxOriginUuidLen"
    using assms(1) ORIGIN by (simp add: entry_ok_def kMaxOriginUuidLen_def word_less_nat_alt)
  with ORIGIN assms n show ?thesis
    by (auto simp: write_body_def read_fields_def parsed_of_def Let_def op_code_def write_string_eq)
qed (use assms in \<open>auto simp: write_body_def read_fields_def entry_ok_def parsed_of_def Let_def op_code_def\<close>)

lemma ReadEntry_body:
  assumes "entry_ok ext e" "write_body ext e = Some b" "e_opcode e = COMMAND \<Longrightarrow> db = e_dbid e"
  shows "ReadEntry lsn0 tx0 db (b @ rest) = Inr ((db, parsed_of ext lsn0 tx0 db e), rest)"
proof -
  from read_fields_write [OF assms, of lsn0 tx0 rest] obtain b' where
    b': "b = WritePackedUInt (ucast (op_code (e_opcode e))) @ b'"
    "read_fields lsn0 tx0 db (op_code (e_opcode e)) (b' @ rest) = Inr (parsed_of ext lsn0 tx0 db e, rest)" by blast
  have "e_opcode e \<noteq> SELECT" using assms(1) by (auto simp: entry_ok_def)
  with b' show ?thesis by (simp add: ReadEntry.simps op_code_simps)
qed

lemma ReadEntry_select:
  "ReadEntry lsn0 tx0 db (the (write_body ext (select_entry d sl)) @ rest) = ReadEntry lsn0 tx0 d rest"
  by (subst ReadEntry.simps) (simp add: write_body_def select_entry_def op_code_simps Let_def)

lemma ReadEntry_Write:
  assumes ok: "entry_ok (extended_framing w) e" and cur: "cur_dbid w \<in> {None, Some db}"
    and wr: "JournalWriter_Write e w = Some (bs, w')"
  shows "ReadEntry lsn0 tx0 db (bs @ rest) =
           Inr ((next_db db e, parsed_of (extended_framing w) lsn0 tx0 (next_db db e) e), rest)"
    and "extended_framing w' = extended_framing w" and "cur_dbid w' \<in> {None, Some (next_db db e)}"
proof -
  let ?x = "extended_framing w"
  have no: "\<not> (e_opcode e = ORIGIN \<and> \<not> ?x)" "e_opcode e \<noteq> SELECT" using ok by (auto simp: entry_ok_def)
  show "extended_framing w' = ?x" "cur_dbid w' \<in> {None, Some (next_db db e)}"
    using wr cur no ok by (auto simp: JournalWriter_Write_def Let_def next_db_def entry_ok_def
        split: if_splits option.splits op.splits)
  show "ReadEntry lsn0 tx0 db (bs @ rest) = Inr ((next_db db e, parsed_of ?x lsn0 tx0 (next_db db e) e), rest)"
  proof (cases "e_opcode e = COMMAND \<and> cur_dbid w \<noteq> Some (e_dbid e)")
    case True
    then obtain b where b: "write_body ?x e = Some b"
      "bs = the (write_body ?x (select_entry (e_dbid e) (e_slot e))) @ b"
      using wr by (auto simp: JournalWriter_Write_def Let_def split: option.splits)
    from ReadEntry_body [OF ok b(1), of "e_dbid e" lsn0 tx0 rest] True show ?thesis
      unfolding b(2) append_assoc ReadEntry_select by (simp add: next_db_def)
  next
    case False
    then have b: "write_body ?x e = Some bs"
      using wr no ok by (auto simp: JournalWriter_Write_def Let_def entry_ok_def split: option.splits if_splits op.splits)
    have "e_opcode e = COMMAND \<Longrightarrow> db = e_dbid e" using False cur by auto
    from ReadEntry_body [OF ok b this] this show ?thesis by (auto simp: next_db_def)
  qed
qed

subsection \<open>Streams\<close>

fun write_all :: "entry list \<Rightarrow> journal_writer \<Rightarrow> (bytes \<times> journal_writer) option" where
  "write_all [] w = Some ([], w)"
| "write_all (e # es) w =
     (case JournalWriter_Write e w of
        None \<Rightarrow> None
      | Some (b, w1) \<Rightarrow> (case write_all es w1 of None \<Rightarrow> None | Some (bs, w2) \<Rightarrow> Some (b @ bs, w2)))"

text \<open>Reading \<open>n\<close> entries one after the other into the same target.\<close>

fun read_all :: "nat \<Rightarrow> u64 \<Rightarrow> u64 \<Rightarrow> u16 \<Rightarrow> bytes \<Rightarrow> parsed_entry list read" where
  "read_all 0 lsn0 tx0 db bs = Inr ([], bs)"
| "read_all (Suc n) lsn0 tx0 db bs =
     bind_read (ReadEntry lsn0 tx0 db bs) (\<lambda>(db', pe) bs1.
       bind_read (read_all n (p_lsn pe) (p_txid pe) db' bs1) (\<lambda>pes bs2. Inr (pe # pes, bs2)))"

fun expected :: "bool \<Rightarrow> u64 \<Rightarrow> u64 \<Rightarrow> u16 \<Rightarrow> entry list \<Rightarrow> parsed_entry list" where
  "expected ext lsn0 tx0 db [] = []"
| "expected ext lsn0 tx0 db (e # es) =
     (let db' = next_db db e; pe = parsed_of ext lsn0 tx0 db' e
      in pe # expected ext (p_lsn pe) (p_txid pe) db' es)"

lemma JournalWriter_Write_total: "entry_ok (extended_framing w) e \<Longrightarrow> JournalWriter_Write e w \<noteq> None"
  by (auto simp: JournalWriter_Write_def entry_ok_def write_body_def select_entry_def Let_def split: op.splits)

text \<open>C6: every sequence of well-formed journal entries (commands over any databases, pings, LSN marks, origin
  announcements) that one writer serialises is read back by one reader as exactly the same entries, the
  database of each command included, in both framings; the bytes after the last entry are left untouched.\<close>

theorem journal_stream_roundtrip:
  assumes "\<forall>e \<in> set es. entry_ok (extended_framing w) e" "cur_dbid w \<in> {None, Some db}"
  shows "\<exists>bs w'. write_all es w = Some (bs, w') \<and>
    read_all (length es) lsn0 tx0 db (bs @ rest) = Inr (expected (extended_framing w) lsn0 tx0 db es, rest)"
  using assms
proof (induction es arbitrary: w db lsn0 tx0)
  case (Cons e es)
  then have ok: "entry_ok (extended_framing w) e" by simp
  obtain b w1 where wr: "JournalWriter_Write e w = Some (b, w1)" using JournalWriter_Write_total [OF ok] by auto
  note rd = ReadEntry_Write [OF ok Cons.prems(2) wr]
  let ?pe = "parsed_of (extended_framing w) lsn0 tx0 (next_db db e) e"
  have "\<forall>e \<in> set es. entry_ok (extended_framing w1) e" using Cons.prems(1) rd(2) by simp
  from Cons.IH [OF this rd(3), of "p_lsn ?pe" "p_txid ?pe"] obtain bs w2 where
    "write_all es w1 = Some (bs, w2)"
    "read_all (length es) (p_lsn ?pe) (p_txid ?pe) (next_db db e) (bs @ rest) =
       Inr (expected (extended_framing w1) (p_lsn ?pe) (p_txid ?pe) (next_db db e) es, rest)" by blast
  with wr rd show ?case by (simp add: Let_def)
qed simp

abbreviation demo_command :: entry where
  "demo_command \<equiv> \<lparr>e_txid = 7, e_opcode = COMMAND, e_dbid = 3, e_slot = None, e_lsn = 0, e_origin_idx = 2, e_mvcc = 99,
     e_flags = 1, e_payload = \<lparr>pl_cmd = [68, 69, 76], pl_args = [[107]]\<rparr>\<rparr>"

theorem journal_stream_roundtrip_witness:
  "\<exists>bs w'. write_all [demo_command] \<lparr>cur_dbid = None, extended_framing = True\<rparr> = Some (bs, w') \<and>
    read_all 1 0 0 0 (bs @ [255]) = Inr ([\<lparr>p_txid = 7, p_opcode = 10, p_dbid = 3, p_lsn = 0, p_origin_idx = 2,
      p_mvcc = 99, p_flags = 1, p_cmd = [[68, 69, 76], [107]], p_origin_uuid = []\<rparr>], [255])"
  using journal_stream_roundtrip [of "[demo_command]" "\<lparr>cur_dbid = None, extended_framing = True\<rparr>" 0 0 0 "[255]"]
  by (simp add: entry_ok_def payload_ok_def parsed_of_def next_db_def)

text \<open>C29: the packed encoding of any 64-bit value has one to nine bytes, is read back to that value with
  nothing more consumed, and is refused exactly when the value does not fit the requested type.\<close>

theorem packed_uint_roundtrip:
  "ReadUInt mx (WritePackedUInt v @ rest) = (if v \<le> mx then Inr (v, rest) else Inl result_out_of_range) \<and>
   length (WritePackedUInt v) \<in> {1, 2, 5, 9}"
proof -
  have "ReadUInt u64_max (WritePackedUInt v @ rest) = Inr (v, rest)" by simp
  then have "ReadUInt mx (WritePackedUInt v @ rest) = Inl result_out_of_range" if "\<not> v \<le> mx"
    using that by (auto simp: ReadUInt_def split: list.splits if_splits sum.splits)
  moreover have "length (WritePackedUInt v) \<in> {1, 2, 5, 9}" by (simp add: WritePackedUInt_def)
  ultimately show ?thesis by simp
qed

end
