(* ===== verification/Journal_Slice.thy ===== *)
theory Journal_Slice
  imports Journal_Codec
begin

text \<open>
  \<^verbatim>\<open>JournalSlice\<close> of \<^verbatim>\<open>src/server/journal/journal_slice.cc\<close>: the per-shard replication backlog, a circular
  buffer of serialised entries bounded by bytes and by age, with its consumers; and the peer-echo filter of
  \<^verbatim>\<open>journal/types.cc\<close>. The circular buffer is its contents, oldest first, and its capacity. Byte counts are
  64-bit words. \<open>data_capacity\<close> (the capacity of the stored string, after the shrink of short strings) and
  \<open>item_size\<close> (\<^verbatim>\<open>sizeof(JournalItem)\<close>) depend on the standard library and are parameters. The calls to the
  consumers are returned as a list of events.
\<close>

record journal_item =
  ji_lsn :: u64
  ji_time_ms :: u64
  ji_data :: bytes
  ji_origin_idx :: u32
  ji_entry_flags :: u8
  ji_opcode :: op

record journal_change_item =
  jc_item :: journal_item
  jc_cmd :: bytes
  jc_slot :: "u16 option"

record item_env =
  item_size :: u64
  data_capacity :: "bytes \<Rightarrow> u64"

record journal_slice =
  ring_buffer :: "journal_item list"
  ring_capacity :: nat
  consumers :: "u32 list"
  lsn :: u64
  next_cb_id :: u32
  enable_journal_flush :: bool
  max_age_ms :: u64
  max_bytes :: u64
  js_extended_framing :: bool
  js_mvcc_enabled :: bool
  ring_buffer_bytes :: u64

datatype consumer_event = ConsumeJournalChange u32 journal_change_item | ThrottleIfNeeded u32

definition journal_slice_new :: journal_slice where
  "journal_slice_new = \<lparr>ring_buffer = [], ring_capacity = 0, consumers = [], lsn = 1, next_cb_id = 1,
     enable_journal_flush = True, max_age_ms = 0, max_bytes = 0, js_extended_framing = False,
     js_mvcc_enabled = False, ring_buffer_bytes = 0\<rparr>"

definition GetPerShardBacklogMaxBytes :: "u64 \<Rightarrow> u64 \<Rightarrow> u64 option \<Rightarrow> u64" where
  "GetPerShardBacklogMaxBytes flag_max_bytes max_memory_limit shard_set_size =
     (let total_max_bytes = (if flag_max_bytes = 0 then max_memory_limit div 200 else flag_max_bytes);
          shard_count = (case shard_set_size of Some n \<Rightarrow> max 1 n | None \<Rightarrow> 1)
      in total_max_bytes div shard_count)"

definition js_Init :: "u64 \<Rightarrow> u64 \<Rightarrow> bool \<Rightarrow> journal_slice \<Rightarrow> journal_slice" where
  "js_Init backlog_time_ms per_shard_max_bytes is_active_replica j =
     (if ring_capacity j > 0 then j
      else j\<lparr>ring_capacity := 8192, max_age_ms := backlog_time_ms, max_bytes := per_shard_max_bytes,
             js_extended_framing := is_active_replica, js_mvcc_enabled := is_active_replica\<rparr>)"

definition IsLSNInBuffer :: "u64 \<Rightarrow> journal_slice \<Rightarrow> bool" where
  "IsLSNInBuffer l j =
     (case ring_buffer j of
        [] \<Rightarrow> False
      | [x] \<Rightarrow> ji_lsn x = l
      | x # xs \<Rightarrow> ji_lsn x \<le> l \<and> l \<le> ji_lsn (last (x # xs)))"

definition GetEntryMeta :: "u64 \<Rightarrow> journal_slice \<Rightarrow> journal_item" where
  "GetEntryMeta l j = ring_buffer j ! unat (l - ji_lsn (hd (ring_buffer j)))"

definition GetEntry :: "u64 \<Rightarrow> journal_slice \<Rightarrow> bytes" where
  "GetEntry l j = ji_data (ring_buffer j ! unat (l - ji_lsn (hd (ring_buffer j))))"

definition SetFlushMode :: "bool \<Rightarrow> journal_slice \<Rightarrow> consumer_event list \<times> journal_slice" where
  "SetFlushMode allow_flush j =
     (if allow_flush then map ThrottleIfNeeded (consumers j) else [], j\<lparr>enable_journal_flush := allow_flush\<rparr>)"

definition ItemBytes :: "item_env \<Rightarrow> journal_item \<Rightarrow> u64" where
  "ItemBytes E it = item_size E + data_capacity E (ji_data it)"

definition kMaxTimeEvictionsPerCall :: nat where "kMaxTimeEvictionsPerCall = 100"

definition exceeds_byte_limit :: "u64 \<Rightarrow> u64 \<Rightarrow> u64 \<Rightarrow> bool" where
  "exceeds_byte_limit maxb next_bytes retained = (retained > maxb \<or> next_bytes > maxb - retained)"

definition item_expired :: "u64 \<Rightarrow> u64 \<Rightarrow> journal_item \<Rightarrow> bool" where
  "item_expired max_age now_ms it =
     (max_age \<noteq> 0 \<and> now_ms \<ge> ji_time_ms it \<and> now_ms - ji_time_ms it \<ge> max_age)"

text \<open>One iteration of the loop of \<^verbatim>\<open>CleanEntries\<close> at entry \<open>x\<close>, after \<open>n\<close> evictions: the loop ends
  with a growth of the capacity, ends with what is evicted so far, or evicts \<open>x\<close> and goes on.\<close>

datatype clean_result = Grow u64 | Evict nat u64

record clean_state =
  cl_evicted :: nat
  cl_retained :: u64
  cl_time_evictions :: nat
  cl_bytes_to_free :: u64

definition clean_step ::
  "item_env \<Rightarrow> journal_slice \<Rightarrow> u64 \<Rightarrow> u64 \<Rightarrow> journal_item \<Rightarrow> clean_state \<Rightarrow> clean_result + clean_state" where
  "clean_step E j next_bytes now_ms x s =
     (let exceeds = exceeds_byte_limit (max_bytes j) next_bytes (cl_retained s);
          evict_for_time = (item_expired (max_age_ms j) now_ms x \<and> cl_time_evictions s < kMaxTimeEvictionsPerCall);
          for_cap0 = (cl_bytes_to_free s \<noteq> 0);
          at_full_begin = (\<not> exceeds \<and> \<not> evict_for_time \<and> \<not> for_cap0 \<and> cl_evicted s = 0 \<and>
                           length (ring_buffer j) = ring_capacity j);
          avg_item_bytes = cl_retained s div of_nat (ring_capacity j);
          available_bytes = (if max_bytes j > cl_retained s then max_bytes j - cl_retained s else 0);
          growth = available_bytes div avg_item_bytes
      in if at_full_begin \<and> growth \<noteq> 0 then Inl (Grow growth)
         else
           let btf = (if at_full_begin then next_bytes else cl_bytes_to_free s);
               evict_for_capacity = (at_full_begin \<or> for_cap0)
           in if \<not> exceeds \<and> \<not> evict_for_time \<and> \<not> evict_for_capacity
              then Inl (Evict (cl_evicted s) (cl_retained s))
              else let item_bytes = ItemBytes E x
                   in Inr \<lparr>cl_evicted = Suc (cl_evicted s), cl_retained = cl_retained s - item_bytes,
                           cl_time_evictions = (if evict_for_time \<and> \<not> exceeds \<and> \<not> evict_for_capacity
                                                then Suc (cl_time_evictions s) else cl_time_evictions s),
                           cl_bytes_to_free = (if evict_for_capacity
                                               then (if item_bytes \<ge> btf then 0 else btf - item_bytes)
                                               else btf)\<rparr>)"

fun clean_loop ::
  "item_env \<Rightarrow> journal_slice \<Rightarrow> u64 \<Rightarrow> u64 \<Rightarrow> journal_item list \<Rightarrow> clean_state \<Rightarrow> clean_result" where
  "clean_loop E j next_bytes now_ms [] s = Evict (cl_evicted s) (cl_retained s)"
| "clean_loop E j next_bytes now_ms (x # xs) s =
     (case clean_step E j next_bytes now_ms x s of
        Inl r \<Rightarrow> r
      | Inr s' \<Rightarrow> clean_loop E j next_bytes now_ms xs s')"

definition CleanEntries :: "item_env \<Rightarrow> u64 \<Rightarrow> u64 \<Rightarrow> journal_slice \<Rightarrow> journal_slice" where
  "CleanEntries E next_bytes now_ms j =
     (case clean_loop E j next_bytes now_ms (ring_buffer j)
             \<lparr>cl_evicted = 0, cl_retained = ring_buffer_bytes j, cl_time_evictions = 0, cl_bytes_to_free = 0\<rparr> of
        Grow g \<Rightarrow> j\<lparr>ring_capacity := ring_capacity j + unat g\<rparr>
      | Evict n retained \<Rightarrow>
          if n \<noteq> 0 then j\<lparr>ring_buffer_bytes := retained, ring_buffer := drop n (ring_buffer j)\<rparr> else j)"

text \<open>\<^verbatim>\<open>push_back\<close> of a circular buffer: when it is full, the oldest element is overwritten.\<close>

definition ring_push :: "nat \<Rightarrow> 'a \<Rightarrow> 'a list \<Rightarrow> 'a list" where
  "ring_push cap x xs = (if cap = 0 then xs else if length xs < cap then xs @ [x] else tl xs @ [x])"

definition CallOnChange :: "item_env \<Rightarrow> u64 \<Rightarrow> journal_change_item \<Rightarrow> journal_slice \<Rightarrow> consumer_event list \<times> journal_slice" where
  "CallOnChange E now_ms change_item j =
     (let item = (jc_item change_item)\<lparr>ji_time_ms := now_ms\<rparr>;
          ci = change_item\<lparr>jc_item := item\<rparr>;
          item_bytes = ItemBytes E item;
          j1 = CleanEntries E item_bytes now_ms j;
          j2 = j1\<lparr>ring_buffer := ring_push (ring_capacity j1) item (ring_buffer j1),
                  ring_buffer_bytes := ring_buffer_bytes j1 + item_bytes\<rparr>
      in (map (\<lambda>c. ConsumeJournalChange c ci) (consumers j)
          @ (if enable_journal_flush j then map ThrottleIfNeeded (consumers j) else []), j2))"

text \<open>\<^term>\<open>None\<close> is the \<^verbatim>\<open>LOG(FATAL)\<close> of the writer.\<close>

definition AddLogRecord :: "item_env \<Rightarrow> u64 \<Rightarrow> entry \<Rightarrow> journal_slice \<Rightarrow> (consumer_event list \<times> journal_slice) option" where
  "AddLogRecord E now_ms e j =
     (case JournalWriter_Write e \<lparr>cur_dbid = None, extended_framing = js_extended_framing j\<rparr> of
        None \<Rightarrow> None
      | Some (data, _) \<Rightarrow>
          let item = \<lparr>ji_lsn = lsn j, ji_time_ms = 0, ji_data = data,
                      ji_origin_idx = (if e_opcode e = ORIGIN then 0 else e_origin_idx e),
                      ji_entry_flags = e_flags e, ji_opcode = e_opcode e\<rparr>;
              ci = \<lparr>jc_item = item, jc_cmd = pl_cmd (e_payload e), jc_slot = e_slot e\<rparr>
          in Some (CallOnChange E now_ms ci (j\<lparr>lsn := lsn j + 1\<rparr>)))"

definition RegisterOnChange :: "journal_slice \<Rightarrow> u32 \<times> journal_slice" where
  "RegisterOnChange j = (next_cb_id j, j\<lparr>next_cb_id := next_cb_id j + 1, consumers := consumers j @ [next_cb_id j]\<rparr>)"

definition UnregisterOnChange :: "u32 \<Rightarrow> journal_slice \<Rightarrow> journal_slice option" where
  "UnregisterOnChange cb_id j =
     (if cb_id \<in> set (consumers j) then Some (j\<lparr>consumers := remove1 cb_id (consumers j)\<rparr>) else None)"

definition ResetRingBuffer :: "journal_slice \<Rightarrow> journal_slice" where
  "ResetRingBuffer j = j\<lparr>ring_buffer := [], ring_buffer_bytes := 0\<rparr>"

definition SetStartingLSN :: "u64 \<Rightarrow> journal_slice \<Rightarrow> journal_slice" where
  "SetStartingLSN l j = j\<lparr>lsn := l\<rparr>"

text \<open>\<^verbatim>\<open>journal.cc\<close>: restart at an LSN and clearing of the buffer.\<close>

definition StartInThreadAtLsn :: "u64 \<Rightarrow> u64 \<Rightarrow> bool \<Rightarrow> u64 \<Rightarrow> journal_slice \<Rightarrow> journal_slice" where
  "StartInThreadAtLsn t mb act l j = SetStartingLSN l (ResetRingBuffer (js_Init t mb act j))"

definition ClearBuffer :: "journal_slice \<Rightarrow> journal_slice" where
  "ClearBuffer j = (let j1 = ResetRingBuffer j in SetStartingLSN (lsn j1 + 1) j1)"

definition PassesPeerEchoFilter :: "journal_item \<Rightarrow> bool" where
  "PassesPeerEchoFilter it =
     (if ji_origin_idx it \<noteq> 0 then False
      else if ji_entry_flags it AND kEntryFlagExpired \<noteq> 0 then False
      else if ji_entry_flags it AND kEntryFlagDerived \<noteq> 0 then False
      else if ji_opcode it = ORIGIN then False
      else True)"

subsection \<open>The backlog invariant\<close>

definition env_ok :: "item_env \<Rightarrow> bool" where
  "env_ok E = (\<forall>it. ItemBytes E it \<noteq> 0)"

definition total_bytes :: "item_env \<Rightarrow> journal_item list \<Rightarrow> nat" where
  "total_bytes E xs = sum_list (map (\<lambda>x. unat (ItemBytes E x)) xs)"

definition lsns_ok :: "journal_slice \<Rightarrow> bool" where
  "lsns_ok j = (length (ring_buffer j) \<le> unat (lsn j) \<and>
     (\<forall>i < length (ring_buffer j). unat (ji_lsn (ring_buffer j ! i)) = unat (lsn j) - length (ring_buffer j) + i))"

definition js_inv :: "item_env \<Rightarrow> journal_slice \<Rightarrow> bool" where
  "js_inv E j = (0 < ring_capacity j \<and> length (ring_buffer j) \<le> ring_capacity j \<and>
     unat (ring_buffer_bytes j) = total_bytes E (ring_buffer j) \<and> lsns_ok j)"

lemma total_bytes_simps [simp]:
  "total_bytes E [] = 0" "total_bytes E (x # xs) = unat (ItemBytes E x) + total_bytes E xs"
  "total_bytes E (xs @ ys) = total_bytes E xs + total_bytes E ys"
  by (simp_all add: total_bytes_def)

lemma total_bytes_ge: "env_ok E \<Longrightarrow> length xs \<le> total_bytes E xs"
proof (induction xs)
  case (Cons x xs)
  then have "0 < unat (ItemBytes E x)" by (simp add: env_ok_def unat_gt_0)
  with Cons show ?case by simp
qed simp

lemma exceeds_byte_limit_iff:
  "\<not> exceeds_byte_limit maxb nb r \<longleftrightarrow> unat r + unat nb \<le> unat maxb"
proof (cases "r \<le> maxb")
  case True
  then have "unat (maxb - r) = unat maxb - unat r" by (simp add: unat_sub)
  with True show ?thesis
    by (auto simp: exceeds_byte_limit_def word_le_nat_alt word_less_nat_alt not_less)
next
  case False
  then show ?thesis by (auto simp: exceeds_byte_limit_def word_le_nat_alt not_le word_less_nat_alt)
qed

lemma clean_step_cases:
  assumes "clean_step E j nb now x s = r"
  obtains (grow) g where "r = Inl (Grow g)" "g \<noteq> 0" "cl_evicted s = 0"
      "length (ring_buffer j) = ring_capacity j" "\<not> exceeds_byte_limit (max_bytes j) nb (cl_retained s)"
  | (stop) "r = Inl (Evict (cl_evicted s) (cl_retained s))"
      "\<not> exceeds_byte_limit (max_bytes j) nb (cl_retained s)"
      "cl_evicted s \<noteq> 0 \<or> length (ring_buffer j) \<noteq> ring_capacity j"
  | (evict) s' where "r = Inr s'" "cl_evicted s' = Suc (cl_evicted s)"
      "cl_retained s' = cl_retained s - ItemBytes E x"
proof -
  let ?ex = "exceeds_byte_limit (max_bytes j) nb (cl_retained s)"
  let ?t = "item_expired (max_age_ms j) now x \<and> cl_time_evictions s < kMaxTimeEvictionsPerCall"
  let ?f = "\<not> ?ex \<and> \<not> ?t \<and> cl_bytes_to_free s = 0 \<and> cl_evicted s = 0 \<and> length (ring_buffer j) = ring_capacity j"
  let ?g = "(if max_bytes j > cl_retained s then max_bytes j - cl_retained s else 0) div
    (cl_retained s div of_nat (ring_capacity j))"
  show ?thesis
  proof (cases ?f)
    case f: True
    show ?thesis
    proof (cases "?g = 0")
      case True
      have "clean_step E j nb now x s = Inr \<lparr>cl_evicted = Suc (cl_evicted s), cl_retained = cl_retained s - ItemBytes E x,
          cl_time_evictions = cl_time_evictions s,
          cl_bytes_to_free = (if ItemBytes E x \<ge> nb then 0 else nb - ItemBytes E x)\<rparr>"
        using f True by (simp add: clean_step_def Let_def)
      with assms show ?thesis by (auto intro: evict)
    next
      case False
      then have "clean_step E j nb now x s = Inl (Grow ?g)" using f by (simp add: clean_step_def Let_def)
      with f False assms show ?thesis by (intro grow [of ?g]) simp_all
    qed
  next
    case f: False
    show ?thesis
    proof (cases "?ex \<or> ?t \<or> cl_bytes_to_free s \<noteq> 0")
      case True
      then have "\<exists>te btf. clean_step E j nb now x s = Inr \<lparr>cl_evicted = Suc (cl_evicted s),
          cl_retained = cl_retained s - ItemBytes E x, cl_time_evictions = te, cl_bytes_to_free = btf\<rparr>"
        unfolding clean_step_def Let_def by (simp only: if_False if_True simp_thms not_not de_Morgan_conj) auto
      with assms evict show ?thesis by auto
    next
      case False
      then have "clean_step E j nb now x s = Inl (Evict (cl_evicted s) (cl_retained s))"
        using f by (auto simp: clean_step_def Let_def)
      with f False assms show ?thesis by (intro stop) auto
    qed
  qed
qed

lemma clean_loop_spec:
  assumes "unat (cl_retained s) = total_bytes E xs"
    and "xs = [] \<Longrightarrow> cl_evicted s \<noteq> 0 \<or> length (ring_buffer j) \<noteq> ring_capacity j"
  shows "(case clean_loop E j nb now xs s of
      Grow g \<Rightarrow> g \<noteq> 0 \<and> cl_evicted s = 0 \<and> unat (cl_retained s) + unat nb \<le> unat (max_bytes j)
    | Evict n r \<Rightarrow> cl_evicted s \<le> n \<and> n \<le> cl_evicted s + length xs \<and>
        unat r = total_bytes E (drop (n - cl_evicted s) xs) \<and>
        (n = cl_evicted s + length xs \<or> unat r + unat nb \<le> unat (max_bytes j)) \<and>
        (n \<noteq> 0 \<or> length (ring_buffer j) \<noteq> ring_capacity j))"
  using assms
proof (induction xs arbitrary: s)
  case (Cons x xs)
  obtain r where "clean_step E j nb now x s = r" by simp
  then show ?case
  proof (cases rule: clean_step_cases)
    case (grow g)
    then show ?thesis using \<open>clean_step E j nb now x s = r\<close> by (simp add: exceeds_byte_limit_iff)
  next
    case stop
    then show ?thesis using Cons.prems \<open>clean_step E j nb now x s = r\<close> by (auto simp: exceeds_byte_limit_iff)
  next
    case (evict s')
    have "ItemBytes E x \<le> cl_retained s" using Cons.prems(1) by (simp add: word_le_nat_alt)
    then have "unat (cl_retained s') = total_bytes E xs"
      using Cons.prems(1) evict(3) by (simp add: unat_sub)
    moreover have "Suc n \<le> m \<Longrightarrow> drop (m - n) (x # xs) = drop (m - Suc n) xs" for n m :: nat
      by (simp add: drop_Cons')
    ultimately show ?thesis using Cons.IH [of s'] evict \<open>clean_step E j nb now x s = r\<close>
      by (auto split: clean_result.splits)
  qed
qed simp

lemma lsns_ok_drop:
  "lsns_ok j \<Longrightarrow> n \<le> length (ring_buffer j) \<Longrightarrow> lsns_ok (j\<lparr>ring_buffer_bytes := b, ring_buffer := drop n (ring_buffer j)\<rparr>)"
  by (auto simp: lsns_ok_def)

text \<open>After cleaning there is room for one more entry, and the bytes fit unless the buffer is empty.\<close>

lemma CleanEntries_spec:
  assumes "js_inv E j" and J: "J = CleanEntries E nb now j"
  shows "js_inv E J"
    and "length (ring_buffer J) < ring_capacity J"
    and "ring_buffer J = [] \<or> unat (ring_buffer_bytes J) + unat nb \<le> unat (max_bytes j)"
    and "\<exists>n. ring_buffer J = drop n (ring_buffer j)"
    and "lsn J = lsn j" "max_bytes J = max_bytes j" "consumers J = consumers j"
proof -
  let ?s = "\<lparr>cl_evicted = 0, cl_retained = ring_buffer_bytes j, cl_time_evictions = 0, cl_bytes_to_free = 0\<rparr>"
  note inv = assms(1) [unfolded js_inv_def]
  have "ring_buffer j = [] \<Longrightarrow> cl_evicted ?s \<noteq> 0 \<or> length (ring_buffer j) \<noteq> ring_capacity j" using inv by simp
  from clean_loop_spec [of ?s E "ring_buffer j" j nb now, OF _ this] inv
  have spec: "case clean_loop E j nb now (ring_buffer j) ?s of
      Grow g \<Rightarrow> g \<noteq> 0 \<and> unat (ring_buffer_bytes j) + unat nb \<le> unat (max_bytes j)
    | Evict n r \<Rightarrow> n \<le> length (ring_buffer j) \<and> unat r = total_bytes E (drop n (ring_buffer j)) \<and>
        (n = length (ring_buffer j) \<or> unat r + unat nb \<le> unat (max_bytes j)) \<and>
        (n \<noteq> 0 \<or> length (ring_buffer j) \<noteq> ring_capacity j)"
    by (auto split: clean_result.splits)
  have "js_inv E J \<and> length (ring_buffer J) < ring_capacity J \<and>
    (ring_buffer J = [] \<or> unat (ring_buffer_bytes J) + unat nb \<le> unat (max_bytes j)) \<and>
    (\<exists>n. ring_buffer J = drop n (ring_buffer j)) \<and>
    lsn J = lsn j \<and> max_bytes J = max_bytes j \<and> consumers J = consumers j"
  proof (cases "clean_loop E j nb now (ring_buffer j) ?s")
    case (Grow g)
    with spec have "0 < unat g" by (simp add: unat_gt_0)
    with Grow spec inv show ?thesis
      by (auto simp: J CleanEntries_def js_inv_def lsns_ok_def intro: exI [of _ 0])
  next
    case (Evict n r)
    show ?thesis
    proof (cases "n = 0")
      case True
      with Evict spec inv show ?thesis
        by (auto simp: J CleanEntries_def js_inv_def intro: exI [of _ 0])
    next
      case False
      with Evict have j': "J = j\<lparr>ring_buffer_bytes := r, ring_buffer := drop n (ring_buffer j)\<rparr>"
        by (simp add: J CleanEntries_def)
      have "lsns_ok J" using inv spec Evict unfolding j' by (intro lsns_ok_drop) auto
      moreover have "length (ring_buffer j) - n < ring_capacity j"
        using inv False by (cases "length (ring_buffer j)") auto
      ultimately show ?thesis using inv spec Evict unfolding js_inv_def by (auto simp: j')
    qed
  qed
  then show "js_inv E J" "length (ring_buffer J) < ring_capacity J"
    "ring_buffer J = [] \<or> unat (ring_buffer_bytes J) + unat nb \<le> unat (max_bytes j)"
    "\<exists>n. ring_buffer J = drop n (ring_buffer j)"
    "lsn J = lsn j" "max_bytes J = max_bytes j" "consumers J = consumers j" by blast+
qed

lemma lsns_ok_push:
  assumes "lsns_ok j" "lsn j \<noteq> - 1" "ji_lsn it = lsn j"
  shows "lsns_ok (j\<lparr>lsn := lsn j + 1, ring_buffer := ring_buffer j @ [it], ring_buffer_bytes := b\<rparr>)"
  using assms by (auto simp: lsns_ok_def unat_Suc_word nth_append less_Suc_eq)

lemma clean_step_lsn [simp]: "clean_step E (j\<lparr>lsn := l\<rparr>) nb now x s = clean_step E j nb now x s"
  by (simp add: clean_step_def)

lemma clean_loop_lsn [simp]: "clean_loop E (j\<lparr>lsn := l\<rparr>) nb now xs s = clean_loop E j nb now xs s"
  by (induction xs arbitrary: s) (auto split: sum.splits)

lemma CleanEntries_lsn: "CleanEntries E nb now (j\<lparr>lsn := l\<rparr>) = (CleanEntries E nb now j)\<lparr>lsn := l\<rparr>"
  by (simp add: CleanEntries_def split: clean_result.splits)

definition js_step :: "item_env \<Rightarrow> u64 \<times> entry \<Rightarrow> journal_slice \<Rightarrow> journal_slice option" where
  "js_step E r j = map_option snd (AddLogRecord E (fst r) (snd r) j)"

fun js_run :: "item_env \<Rightarrow> (u64 \<times> entry) list \<Rightarrow> journal_slice \<Rightarrow> journal_slice option" where
  "js_run E [] j = Some j"
| "js_run E (r # rs) j = (case js_step E r j of None \<Rightarrow> None | Some j' \<Rightarrow> js_run E rs j')"

lemma CleanEntries_framing: "js_extended_framing (CleanEntries E nb now j) = js_extended_framing j"
  by (simp add: CleanEntries_def split: clean_result.splits)

lemma js_run_total:
  "\<forall>r \<in> set rs. JournalWriter_Write (snd r) \<lparr>cur_dbid = None, extended_framing = js_extended_framing j\<rparr> \<noteq> None \<Longrightarrow>
     \<exists>j'. js_run E rs j = Some j'"
proof (induction rs arbitrary: j)
  case (Cons r rs)
  then have "js_step E r j \<noteq> None"
    by (auto simp: js_step_def AddLogRecord_def Let_def split: option.splits)
  then obtain k where k: "js_step E r j = Some k" by auto
  then have "js_extended_framing k = js_extended_framing j"
    by (auto simp: js_step_def AddLogRecord_def CallOnChange_def CleanEntries_framing Let_def split: option.splits)
  with Cons k show ?case by simp
qed simp

lemma js_step_spec:
  assumes inv: "js_inv E j" and nowrap: "lsn j \<noteq> - 1" and st: "js_step E r j = Some j'"
  shows "js_inv E j'" "lsn j' = lsn j + 1" "max_bytes j' = max_bytes j"
    and "\<exists>n it. ring_buffer j' = drop n (ring_buffer j) @ [it] \<and> ji_lsn it = lsn j \<and> ji_time_ms it = fst r"
    and "length (ring_buffer j') = 1 \<or> unat (ring_buffer_bytes j') \<le> unat (max_bytes j')"
proof -
  let ?j0 = "j\<lparr>lsn := lsn j + 1\<rparr>"
  from st obtain data w where "JournalWriter_Write (snd r) \<lparr>cur_dbid = None, extended_framing = js_extended_framing j\<rparr>
      = Some (data, w)" by (auto simp: js_step_def AddLogRecord_def split: option.splits)
  then obtain it where it: "ji_lsn it = lsn j" "ji_time_ms it = fst r"
    and j': "j' = (let j1 = CleanEntries E (ItemBytes E it) (fst r) ?j0
      in j1\<lparr>ring_buffer := ring_push (ring_capacity j1) it (ring_buffer j1),
            ring_buffer_bytes := ring_buffer_bytes j1 + ItemBytes E it\<rparr>)"
    using st that [of "\<lparr>ji_lsn = lsn j, ji_time_ms = fst r, ji_data = data,
      ji_origin_idx = (if e_opcode (snd r) = ORIGIN then 0 else e_origin_idx (snd r)),
      ji_entry_flags = e_flags (snd r), ji_opcode = e_opcode (snd r)\<rparr>"]
    by (simp add: js_step_def AddLogRecord_def CallOnChange_def Let_def)
  define j1 where "j1 = CleanEntries E (ItemBytes E it) (fst r) j"
  have comm: "CleanEntries E (ItemBytes E it) (fst r) ?j0 = j1\<lparr>lsn := lsn j + 1\<rparr>"
    unfolding j1_def by (rule CleanEntries_lsn)
  note c = CleanEntries_spec [OF inv j1_def]
  have p: "j' = j1\<lparr>lsn := lsn j + 1, ring_buffer := ring_buffer j1 @ [it],
      ring_buffer_bytes := ring_buffer_bytes j1 + ItemBytes E it\<rparr>"
    using c(2) by (simp add: j' comm Let_def ring_push_def)
  have bytes: "unat (ring_buffer_bytes j1 + ItemBytes E it) = unat (ring_buffer_bytes j1) + unat (ItemBytes E it)"
  proof (rule unat_plus_no_wrap)
    show "unat (ring_buffer_bytes j1) + unat (ItemBytes E it) < 2 ^ 64"
      using c(1,3) unat_lt_u64 [of "ItemBytes E it"] unat_lt_u64 [of "max_bytes j"] by (auto simp: js_inv_def)
  qed
  have "lsns_ok j'"
    using lsns_ok_push [of j1 it] c(1,5) nowrap it unfolding p by (simp add: js_inv_def)
  with c bytes show "js_inv E j'" unfolding js_inv_def by (simp add: p)
  show "lsn j' = lsn j + 1" "max_bytes j' = max_bytes j" using c by (simp_all add: p)
  show "\<exists>n it. ring_buffer j' = drop n (ring_buffer j) @ [it] \<and> ji_lsn it = lsn j \<and> ji_time_ms it = fst r"
    using c(4) it by (auto simp: p)
  show "length (ring_buffer j') = 1 \<or> unat (ring_buffer_bytes j') \<le> unat (max_bytes j')"
    using c(3,6) bytes by (auto simp: p)
qed

lemma IsLSNInBuffer_iff:
  "IsLSNInBuffer l j \<longleftrightarrow> ring_buffer j \<noteq> [] \<and> ji_lsn (hd (ring_buffer j)) \<le> l \<and> l \<le> ji_lsn (last (ring_buffer j))"
  by (auto simp: IsLSNInBuffer_def split: list.splits)

lemma lsns_ok_ends:
  assumes "lsns_ok j" "ring_buffer j \<noteq> []"
  shows "unat (ji_lsn (hd (ring_buffer j))) = unat (lsn j) - length (ring_buffer j)"
    and "unat (ji_lsn (last (ring_buffer j))) = unat (lsn j) - 1"
  using assms by (auto simp: lsns_ok_def hd_conv_nth last_conv_nth Suc_le_eq)

lemma lsn_offset:
  assumes ok: "lsns_ok j" and l: "IsLSNInBuffer l j"
  shows "ring_buffer j ! unat (l - ji_lsn (hd (ring_buffer j))) \<in> set (ring_buffer j)"
    and "ji_lsn (ring_buffer j ! unat (l - ji_lsn (hd (ring_buffer j)))) = l"
proof -
  let ?i = "unat (l - ji_lsn (hd (ring_buffer j)))"
  from l have ne: "ring_buffer j \<noteq> []" and le: "ji_lsn (hd (ring_buffer j)) \<le> l" "l \<le> ji_lsn (last (ring_buffer j))"
    by (simp_all add: IsLSNInBuffer_iff)
  note ends = lsns_ok_ends [OF ok ne]
  have i: "?i = unat l - unat (ji_lsn (hd (ring_buffer j)))" using le(1) by (simp add: unat_sub)
  have len: "length (ring_buffer j) \<le> unat (lsn j)" "0 < length (ring_buffer j)"
    using ok ne by (auto simp: lsns_ok_def)
  have il: "?i < length (ring_buffer j)" using i ends le len unfolding word_le_nat_alt by linarith
  then show "ring_buffer j ! ?i \<in> set (ring_buffer j)" by simp
  have "unat (ji_lsn (ring_buffer j ! ?i)) = unat (lsn j) - length (ring_buffer j) + ?i"
    using ok il by (simp add: lsns_ok_def)
  also have "\<dots> = unat l" using i ends(1) le(1) unfolding word_le_nat_alt by linarith
  finally show "ji_lsn (ring_buffer j ! ?i) = l" by (simp add: word_unat_eq_iff)
qed

subsection \<open>Properties\<close>

text \<open>C14: after any sequence of records the backlog holds consecutive LSNs ending just before the next one, its
  byte counter is exactly the sum over its entries, it never exceeds its capacity (so no entry is overwritten
  by a push), and its bytes are within the limit unless it holds the newest entry alone.\<close>

theorem backlog_invariant:
  assumes "js_inv E j" "unat (lsn j) + length rs < 2 ^ 64" "js_run E rs j = Some j'" "rs \<noteq> []"
  shows "js_inv E j' \<and> unat (lsn j') = unat (lsn j) + length rs \<and> ring_buffer j' \<noteq> [] \<and>
    (length (ring_buffer j') = 1 \<or> unat (ring_buffer_bytes j') \<le> unat (max_bytes j'))"
  using assms
proof (induction rs arbitrary: j)
  case (Cons r rs)
  then obtain k where k: "js_step E r j = Some k" "js_run E rs k = Some j'" by (auto split: option.splits)
  have nw: "lsn j \<noteq> - 1" using Cons.prems(2) by auto
  note sp = js_step_spec [OF Cons.prems(1) nw k(1)]
  have l: "unat (lsn k) = Suc (unat (lsn j))" using sp(2) unat_Suc_word [OF nw] by simp
  show ?case
  proof (cases "rs = []")
    case True
    with k sp l show ?thesis by auto
  next
    case False
    with Cons.IH [OF sp(1) _ k(2)] Cons.prems(2) l show ?thesis by simp
  qed
qed simp

abbreviation demo_items :: item_env where
  "demo_items \<equiv> \<lparr>item_size = 56, data_capacity = (\<lambda>_. 15)\<rparr>"

abbreviation demo_slice :: journal_slice where
  "demo_slice \<equiv> js_Init 5000 100 True journal_slice_new"

theorem backlog_invariant_witness:
  "\<exists>j'. js_run demo_items [(10, demo_command), (20, demo_command)] demo_slice = Some j' \<and> unat (lsn j') = 3"
proof -
  have "JournalWriter_Write demo_command \<lparr>cur_dbid = None, extended_framing = True\<rparr> \<noteq> None"
    by (rule JournalWriter_Write_total) (simp add: entry_ok_def payload_ok_def)
  then obtain j' where j': "js_run demo_items [(10, demo_command), (20, demo_command)] demo_slice = Some j'"
    using js_run_total [of "[(10, demo_command), (20, demo_command)]" demo_slice demo_items]
    by (auto simp: js_Init_def journal_slice_new_def)
  moreover have "js_inv demo_items demo_slice"
    by (simp add: js_inv_def lsns_ok_def js_Init_def journal_slice_new_def)
  ultimately have "unat (lsn j') = unat (lsn demo_slice) + 2"
    using backlog_invariant [of demo_items demo_slice "[(10, demo_command), (20, demo_command)]" j']
    by (simp add: js_Init_def journal_slice_new_def)
  with j' show ?thesis by (simp add: js_Init_def journal_slice_new_def)
qed

text \<open>C30: an LSN is reported as buffered exactly when an entry with that LSN is in the backlog, and the lookup
  by offset then returns that very entry.\<close>

theorem lsn_lookup_correct:
  assumes "js_inv E j"
  shows "(IsLSNInBuffer l j \<longleftrightarrow> (\<exists>it \<in> set (ring_buffer j). ji_lsn it = l)) \<and>
    (IsLSNInBuffer l j \<longrightarrow> ji_lsn (GetEntryMeta l j) = l \<and> GetEntryMeta l j \<in> set (ring_buffer j) \<and>
      GetEntry l j = ji_data (GetEntryMeta l j))"
proof -
  have ok: "lsns_ok j" using assms by (simp add: js_inv_def)
  have found: "ji_lsn (GetEntryMeta l j) = l \<and> GetEntryMeta l j \<in> set (ring_buffer j)" if "IsLSNInBuffer l j"
    using lsn_offset [OF ok that] by (simp add: GetEntryMeta_def)
  moreover have "IsLSNInBuffer l j" if it: "it \<in> set (ring_buffer j)" "ji_lsn it = l" for it
  proof -
    from it obtain i where i: "i < length (ring_buffer j)" "ring_buffer j ! i = it" by (auto simp: in_set_conv_nth)
    with ok it(2) have "unat l = unat (lsn j) - length (ring_buffer j) + i" by (auto simp: lsns_ok_def)
    moreover have "ring_buffer j \<noteq> []" "length (ring_buffer j) \<le> unat (lsn j)"
      using i ok by (auto simp: lsns_ok_def)
    ultimately show ?thesis
      using i lsns_ok_ends [OF ok] by (simp add: IsLSNInBuffer_iff word_le_nat_alt) linarith
  qed
  ultimately show ?thesis by (auto simp: GetEntry_def GetEntryMeta_def)
qed

theorem lsn_lookup_correct_witness:
  "IsLSNInBuffer 1 (demo_slice\<lparr>lsn := 2, ring_buffer := [\<lparr>ji_lsn = 1, ji_time_ms = 0, ji_data = [], ji_origin_idx = 0,
     ji_entry_flags = 0, ji_opcode = PING\<rparr>], ring_buffer_bytes := 71\<rparr>)"
  using lsn_lookup_correct [of demo_items "demo_slice\<lparr>lsn := 2, ring_buffer := [\<lparr>ji_lsn = 1, ji_time_ms = 0,
     ji_data = [], ji_origin_idx = 0, ji_entry_flags = 0, ji_opcode = PING\<rparr>], ring_buffer_bytes := 71\<rparr>" 1]
  by (simp add: js_inv_def lsns_ok_def js_Init_def journal_slice_new_def ItemBytes_def)



end
