(* ===== verification/Db_Slice.thy ===== *)
theory Db_Slice
  imports Db_Table Multi_Master Journal_Slice
begin

text \<open>
  \<^verbatim>\<open>DbSlice\<close> of \<^verbatim>\<open>src/server/db_slice.cc\<close> on the paths that change which keys exist and which stamps they
  carry: post-update, deletion, rollback of a fresh insert, expiry times and the tombstone collector. A shard
  is the slice together with the thread-local stamper and journal it works with. Calls into components that
  are not part of this model (blocking controller, tiered storage, search index, connections) are recorded as
  effects in call order. Settings that never change while a shard runs are the record \<open>slice_cfg\<close>; the
  representation of a key object (inline or on the heap, with or without a TTL) is its function \<open>key_rep\<close>.
\<close>

datatype slice_effect =
    Awaken nat key | SendExpired nat "key list" | SetDirty nat | CancelStash nat key | TieredDelete nat key | WarmupValue nat key
  | AsyncFree nat key | DocDel nat key | ExpiredEvent nat key | ToConsumer consumer_event
  | StashValue nat key | IndexRemove nat key | LwwDropped string key

record slice_events =
  ev_update :: u64
  ev_mutations :: u64
  sl_hits :: u64
  sl_misses :: u64
  sl_expired_keys :: u64
  sl_evicted_keys :: u64
  insertion_rejections :: u64
  ram_hits :: u64
  ram_misses :: u64
  ram_cool_hits :: u64
  garbage_checked :: u64
  journal_omit :: u64

record slice_cfg =
  env :: slice_env
  flags :: mm_flags
  items :: item_env
  key_rep :: "key \<Rightarrow> bool \<Rightarrow> bool \<times> nat"
  blocking_controller :: "bool option"
  doc_del_cb :: bool
  expire_allowed :: bool
  is_replica :: bool
  replica_delete_expired :: bool
  expired_keys_events_recording :: bool
  has_journal :: bool

record 'v shard =
  db_arr :: "'v db_table option list"
  mvcc_enabled :: bool
  ns_is_default :: bool
  entries_count :: u64
  memory_budget :: int
  sl_events :: slice_events
  client_tracking_map :: "(key, nat list) tbl"
  pending_send_map :: "(key, nat list) tbl"
  tombstone_gc_db_index :: nat
  effects :: "slice_effect list"
  stamper :: mvcc_stamper
  journal :: journal_slice

datatype delete_reason = kExplicit | kExpired | kEvicted | kSlotFlush

definition db_at :: "nat \<Rightarrow> 'v shard \<Rightarrow> 'v db_table option" where
  "db_at i sh = (if i < length (db_arr sh) then db_arr sh ! i else None)"

definition upd_db :: "nat \<Rightarrow> ('v db_table \<Rightarrow> 'v db_table) \<Rightarrow> 'v shard \<Rightarrow> 'v shard" where
  "upd_db i f sh = (case db_at i sh of None \<Rightarrow> sh | Some t \<Rightarrow> sh\<lparr>db_arr := (db_arr sh)[i := Some (f t)]\<rparr>)"

definition IsDbValid :: "nat \<Rightarrow> 'v shard \<Rightarrow> bool" where
  "IsDbValid i sh = (i < length (db_arr sh) \<and> db_arr sh ! i \<noteq> None)"

definition CreateDb :: "slice_cfg \<Rightarrow> nat \<Rightarrow> 'v shard \<Rightarrow> 'v shard" where
  "CreateDb C i sh =
     (if db_arr sh ! i = None
      then sh\<lparr>db_arr := (db_arr sh)[i := Some (DbTable_new (IsActiveReplica (flags C)) (cluster_mode (flags C) \<noteq> []))]\<rparr>
      else sh)"

definition ActivateDb :: "slice_cfg \<Rightarrow> nat \<Rightarrow> 'v shard \<Rightarrow> 'v shard" where
  "ActivateDb C i sh =
     CreateDb C i (if length (db_arr sh) \<le> i
                   then sh\<lparr>db_arr := db_arr sh @ replicate (i + 1 - length (db_arr sh)) None\<rparr> else sh)"

text \<open>A fresh slice holds database 0. The stamper and the journal belong to the thread and exist before it.\<close>

definition DbSlice_new :: "slice_cfg \<Rightarrow> bool \<Rightarrow> mvcc_stamper \<Rightarrow> journal_slice \<Rightarrow> 'v shard" where
  "DbSlice_new C default_ns st js =
     CreateDb C 0
       \<lparr>db_arr = [None], mvcc_enabled = IsActiveReplica (flags C), ns_is_default = default_ns, entries_count = 0,
        memory_budget = (2 ^ 63 - 1) div 2,
        sl_events = \<lparr>ev_update = 0, ev_mutations = 0, sl_hits = 0, sl_misses = 0, sl_expired_keys = 0, sl_evicted_keys = 0,
          insertion_rejections = 0, ram_hits = 0, ram_misses = 0, ram_cool_hits = 0, garbage_checked = 0, journal_omit = 0\<rparr>,
        client_tracking_map = [], pending_send_map = [], tombstone_gc_db_index = 0, effects = [],
        stamper = st, journal = js\<rparr>"

definition effect :: "slice_effect list \<Rightarrow> 'v shard \<Rightarrow> 'v shard" where
  "effect es sh = sh\<lparr>effects := effects sh @ es\<rparr>"

subsection \<open>After a mutation\<close>

definition QueueInvalidationTrackingMessageAtomic :: "key \<Rightarrow> 'v shard \<Rightarrow> 'v shard" where
  "QueueInvalidationTrackingMessageAtomic key sh =
     (case tbl_find (client_tracking_map sh) key of
        None \<Rightarrow> sh
      | Some moved_set \<Rightarrow>
          let sh1 = sh\<lparr>client_tracking_map := tbl_erase key (client_tracking_map sh)\<rparr>
          in case tbl_find (pending_send_map sh1) key of
               None \<Rightarrow> sh1\<lparr>pending_send_map := fst (tbl_insert key moved_set (pending_send_map sh1))\<rparr>
             | Some client_set \<Rightarrow>
                 sh1\<lparr>pending_send_map := tbl_set key (fold List.insert moved_set client_set) (pending_send_map sh1)\<rparr>)"

definition bump_total_writes :: "slice_cfg \<Rightarrow> key \<Rightarrow> 'v db_table \<Rightarrow> 'v db_table" where
  "bump_total_writes C key t =
     (case slots_stats t of
        None \<Rightarrow> t
      | Some ss \<Rightarrow> let sid = KeySlot (env C) key
                   in t\<lparr>slots_stats := Some (ss(sid := (ss sid)\<lparr>total_writes := total_writes (ss sid) + 1\<rparr>))\<rparr>)"

definition PostUpdate :: "slice_cfg \<Rightarrow> nat \<Rightarrow> key \<Rightarrow> bool \<Rightarrow> 'v shard \<Rightarrow> 'v shard" where
  "PostUpdate C db key arm_mvcc sh =
     (case db_at db sh of
        None \<Rightarrow> sh
      | Some t \<Rightarrow>
          let sh1 = (if blocking_controller C = Some True then effect [Awaken db key] sh else sh);
              sh2 = (case tbl_find (watched_keys t) key of
                       None \<Rightarrow> sh1
                     | Some dirty \<Rightarrow> upd_db db (\<lambda>t. t\<lparr>watched_keys := tbl_erase key (watched_keys t)\<rparr>)
                                       (effect (map SetDirty dirty) sh1));
              sh3 = sh2\<lparr>sl_events := (sl_events sh2)\<lparr>ev_update := ev_update (sl_events sh2) + 1\<rparr>\<rparr>;
              sh4 = upd_db db (bump_total_writes C key) sh3;
              sh5 = (if client_tracking_map sh4 \<noteq> [] then QueueInvalidationTrackingMessageAtomic key sh4 else sh4)
          in if arm_mvcc \<and> mvcc_enabled sh5 \<and> ns_is_default sh5
             then (case db_at db sh5 of
                     None \<Rightarrow> sh5
                   | Some t5 \<Rightarrow>
                       let (prev_stamp, t6) = EnsureMvcc (env C) key t5
                       in (upd_db db (\<lambda>_. t6) sh5)\<lparr>stamper := Arm db key prev_stamp (stamper sh5)\<rparr>)
             else sh5)"

text \<open>\<^verbatim>\<open>AutoUpdater\<close>: the baseline it captures when it is made, and its run after the mutation.\<close>

record auto_updater =
  up_db :: nat
  up_key :: key
  orig_value_heap_size :: nat
  orig_obj_type :: nat
  orig_has_member_expiry :: bool

definition AutoUpdater_new :: "nat \<Rightarrow> key \<Rightarrow> 'v prime_entry \<Rightarrow> auto_updater" where
  "AutoUpdater_new db key e = \<lparr>up_db = db, up_key = key, orig_value_heap_size = pv_malloc e,
     orig_obj_type = pv_type e, orig_has_member_expiry = pv_member_exp e\<rparr>"

definition ReduceHeapUsage :: "slice_cfg \<Rightarrow> 'v prime_entry \<Rightarrow> auto_updater \<Rightarrow> 'v shard \<Rightarrow> auto_updater \<times> 'v shard" where
  "ReduceHeapUsage C e u sh =
     (u\<lparr>orig_value_heap_size := 0, orig_obj_type := pv_type e\<rparr>,
      upd_db (up_db u) (AccountObjectMemory (env C) (up_key u) (orig_obj_type u) (- int (orig_value_heap_size u))) sh)"

definition ResyncBaseline :: "'v prime_entry \<Rightarrow> auto_updater \<Rightarrow> auto_updater" where
  "ResyncBaseline e u = u\<lparr>orig_value_heap_size := pv_malloc e, orig_obj_type := pv_type e\<rparr>"

definition account_update :: "slice_cfg \<Rightarrow> auto_updater \<Rightarrow> 'v prime_entry \<Rightarrow> 'v db_table \<Rightarrow> 'v db_table" where
  "account_update C u e t =
     (let size = int (pv_malloc e);
          t1 = (if pv_type e \<noteq> orig_obj_type u
                then AccountObjectMemory (env C) (up_key u) (pv_type e) size
                       (AccountObjectMemory (env C) (up_key u) (orig_obj_type u) (- int (orig_value_heap_size u)) t)
                else AccountObjectMemory (env C) (up_key u) (pv_type e) (size - int (orig_value_heap_size u)) t)
      in if pv_member_exp e \<and> \<not> orig_has_member_expiry u
         then t1\<lparr>tstats := (tstats t1)\<lparr>member_expire_count := member_expire_count (tstats t1) + 1\<rparr>\<rparr>
         else if \<not> pv_member_exp e \<and> orig_has_member_expiry u
         then t1\<lparr>tstats := (tstats t1)\<lparr>member_expire_count := member_expire_count (tstats t1) - 1\<rparr>\<rparr>
         else t1)"

text \<open>A cancelled updater is \<^term>\<open>None\<close>; running it again does nothing.\<close>

definition RunInternal :: "slice_cfg \<Rightarrow> bool \<Rightarrow> auto_updater option \<Rightarrow> 'v shard \<Rightarrow> auto_updater option \<times> 'v shard" where
  "RunInternal C arm_mvcc uo sh =
     (case uo of
        None \<Rightarrow> (None, sh)
      | Some u \<Rightarrow>
          (case db_at (up_db u) sh of
             None \<Rightarrow> (None, sh)
           | Some t \<Rightarrow>
               (case tbl_find (prime t) (up_key u) of
                  None \<Rightarrow> (None, sh)
                | Some e \<Rightarrow> (None, PostUpdate C (up_db u) (up_key u) arm_mvcc
                                    (upd_db (up_db u) (account_update C u e) sh)))))"

subsection \<open>Deletion\<close>

definition earns_tombstone :: "slice_cfg \<Rightarrow> delete_reason \<Rightarrow> bool" where
  "earns_tombstone C reason = (TombstonesEnabled (flags C) \<and> (reason = kExplicit \<or> reason = kExpired))"

definition delete_stamps :: "slice_cfg \<Rightarrow> nat \<Rightarrow> key \<Rightarrow> delete_reason \<Rightarrow> 'v shard \<Rightarrow> 'v shard" where
  "delete_stamps C db key reason sh =
     (if mvcc_enabled sh \<and> ns_is_default sh then
        let sh1 = sh\<lparr>stamper := Disarm db key (stamper sh)\<rparr>
        in case db_at db sh1 of
             None \<Rightarrow> sh1
           | Some t \<Rightarrow>
               if earns_tombstone C reason \<and> mvcc_tombstones (tstats t) < multi_master_max_tombstones (flags C)
               then let prev_stamp = (case GetMvcc t key of Some s \<Rightarrow> s | None \<Rightarrow> stamp_empty)
                    in (upd_db db (SetTombstone (env C) key \<lparr>packed = kTombstoneBit, origin_hash = 0\<rparr>) sh1)
                         \<lparr>stamper := ArmTombstone db key prev_stamp (stamper sh1)\<rparr>
               else upd_db db (\<lambda>t. EraseMvcc (env C) key
                      (if earns_tombstone C reason
                       then t\<lparr>tstats := (tstats t)\<lparr>mvcc_tombstones_dropped := mvcc_tombstones_dropped (tstats t) + 1\<rparr>\<rparr>
                       else t)) sh1
      else sh)"

definition MayDeleteAsynchronously :: "'v prime_entry \<Rightarrow> bool" where
  "MayDeleteAsynchronously e = ((pv_type e = 2 \<or> pv_type e = 4) \<and> pv_strmap2 e)"

definition release_accounts :: "slice_cfg \<Rightarrow> key \<Rightarrow> 'v prime_entry \<Rightarrow> 'v db_table \<Rightarrow> 'v db_table" where
  "release_accounts C key e t =
     (let s0 = tstats t;
          s1 = (if pk_expire e \<noteq> None then s0\<lparr>expire_count := expire_count s0 - 1\<rparr> else s0);
          s2 = (if pv_member_exp e then s1\<lparr>member_expire_count := member_expire_count s1 - 1\<rparr> else s1);
          t2 = t\<lparr>tstats := s2\<rparr>;
          t3 = (if pk_inline e then t2\<lparr>tstats := s2\<lparr>inline_keys := inline_keys s2 - 1\<rparr>\<rparr>
                else AccountObjectMemory (env C) key OBJ_KEY (- int (pk_malloc e)) t2);
          t4 = AccountObjectMemory (env C) key (pv_type e) (- int (pv_malloc e)) t3
      in case slots_stats t4 of
           None \<Rightarrow> t4
         | Some ss \<Rightarrow> let sid = KeySlot (env C) key
                      in t4\<lparr>slots_stats := Some (ss(sid := (ss sid)\<lparr>key_count := key_count (ss sid) - 1\<rparr>))\<rparr>)"

definition PerformDeletionAtomic :: "slice_cfg \<Rightarrow> nat \<Rightarrow> key \<Rightarrow> bool \<Rightarrow> delete_reason \<Rightarrow> 'v shard \<Rightarrow> 'v shard" where
  "PerformDeletionAtomic C db key async reason sh =
     (case db_at db sh of
        None \<Rightarrow> sh
      | Some t \<Rightarrow>
          (case tbl_find (prime t) key of
             None \<Rightarrow> sh
           | Some e \<Rightarrow>
               let sh1 = (if pv_flag e then upd_db db (\<lambda>t. snd (SetMCFlag key 0 t)) sh else sh);
                   sh2 = delete_stamps C db key reason sh1;
                   sh3 = (if pv_stash_pending e then effect [CancelStash db key] sh2
                          else if pv_external e then effect [TieredDelete db key] sh2 else sh2);
                   sh4 = upd_db db (release_accounts C key e) sh3;
                   sh5 = (if async \<and> MayDeleteAsynchronously e then effect [AsyncFree db key] sh4 else sh4);
                   sh6 = upd_db db (\<lambda>t. t\<lparr>prime := tbl_erase key (prime t)\<rparr>) sh5;
                   sh7 = sh6\<lparr>entries_count := entries_count sh6 - 1,
                             memory_budget := memory_budget sh6 + int (pv_malloc e + pk_malloc e)\<rparr>
               in if client_tracking_map sh7 \<noteq> [] then QueueInvalidationTrackingMessageAtomic key sh7 else sh7))"

definition Del :: "slice_cfg \<Rightarrow> nat \<Rightarrow> key \<Rightarrow> bool \<Rightarrow> delete_reason \<Rightarrow> 'v shard \<Rightarrow> 'v shard" where
  "Del C db key async reason sh =
     (case db_at db sh of
        None \<Rightarrow> sh
      | Some t \<Rightarrow>
          (case tbl_find (prime t) key of
             None \<Rightarrow> sh
           | Some e \<Rightarrow>
               let sh1 = (if pv_type e = 6
                          then (if blocking_controller C \<noteq> None then effect [Awaken db key] sh else sh)
                          else if doc_del_cb C \<and> (pv_type e = 15 \<or> pv_type e = 4) then effect [DocDel db key] sh
                          else sh)
               in PerformDeletionAtomic C db key async reason sh1))"

definition DelMutable :: "slice_cfg \<Rightarrow> auto_updater option \<Rightarrow> nat \<Rightarrow> key \<Rightarrow> delete_reason \<Rightarrow> 'v shard \<Rightarrow> 'v shard" where
  "DelMutable C u db key reason sh = Del C db key False reason (snd (RunInternal C True u sh))"

text \<open>\<^term>\<open>None\<close> is the failed \<^verbatim>\<open>CHECK\<close> on an entry that is not new.\<close>

definition RollbackFreshInsert :: "slice_cfg \<Rightarrow> nat \<Rightarrow> key \<Rightarrow> bool \<Rightarrow> 'v shard \<Rightarrow> 'v shard option" where
  "RollbackFreshInsert C db key is_new sh =
     (if \<not> is_new then None
      else case db_at db sh of
        None \<Rightarrow> Some sh
      | Some t \<Rightarrow>
          (case tbl_find (prime t) key of
             None \<Rightarrow> Some sh
           | Some e \<Rightarrow>
               let t1 = (if pk_inline e
                         then t\<lparr>tstats := (tstats t)\<lparr>inline_keys := inline_keys (tstats t) - 1\<rparr>\<rparr>
                         else AccountObjectMemory (env C) key OBJ_KEY (- int (pk_malloc e)) t);
                   t2 = (case slots_stats t1 of
                           None \<Rightarrow> t1
                         | Some ss \<Rightarrow> let sid = KeySlot (env C) key
                                      in t1\<lparr>slots_stats := Some (ss(sid := (ss sid)\<lparr>key_count := key_count (ss sid) - 1\<rparr>))\<rparr>);
                   t3 = t2\<lparr>prime := tbl_erase key (prime t2)\<rparr>
               in Some ((upd_db db (\<lambda>_. t3) sh)\<lparr>entries_count := entries_count sh - 1\<rparr>)))"

end
