(* ===== verification/Journal_Record.thy ===== *)
theory Journal_Record
  imports Db_Slice
begin

text \<open>
  \<^verbatim>\<open>journal::RecordEntry\<close> of \<^verbatim>\<open>src/server/journal/journal.cc\<close> and the delete recorders of
  \<^verbatim>\<open>src/server/tx_base.cc\<close>: minting, appending to the backlog, and the commit of the armed stamps. The shard of
  the model is the one whose slice belongs to the default namespace, which is the slice \<^verbatim>\<open>RecordEntry\<close> commits
  to. The clock reading is an argument. \<^term>\<open>None\<close> is a failed \<^verbatim>\<open>CHECK\<close> or \<^verbatim>\<open>LOG(FATAL)\<close>, which ends the
  process.
\<close>

definition key_bytes :: "string \<Rightarrow> bytes" where
  "key_bytes k = map of_char k"

definition SetExistingMvcc_at :: "nat \<Rightarrow> key \<Rightarrow> mvcc_stamp \<Rightarrow> 'v shard \<Rightarrow> 'v shard option" where
  "SetExistingMvcc_at db key stamp sh =
     (case db_at db sh of
        None \<Rightarrow> None
      | Some t \<Rightarrow> (case SetExistingMvcc key stamp t of
                     None \<Rightarrow> None
                   | Some t' \<Rightarrow> Some (upd_db db (\<lambda>_. t') sh)))"

text \<open>The callback \<^verbatim>\<open>RecordEntry\<close> passes to \<^verbatim>\<open>Commit\<close>.\<close>

definition commit_stamp :: "bool \<Rightarrow> mvcc_stamp \<Rightarrow> bool \<Rightarrow> mvcc_stamp \<Rightarrow> mvcc_stamp" where
  "commit_stamp applied st tombstone prev_stamp =
     (if \<not> applied then st
      else let floored = FloorAppliedStamp prev_stamp st
           in if tombstone then floored\<lparr>packed := packed floored OR kTombstoneBit\<rparr>
              else floored\<lparr>packed := packed floored AND kStampMask\<rparr>)"

definition commit_cb :: "bool \<Rightarrow> 'v shard option commit_fn" where
  "commit_cb applied db key st tombstone prev_stamp so =
     (case so of None \<Rightarrow> None | Some sh \<Rightarrow> SetExistingMvcc_at db key (commit_stamp applied st tombstone prev_stamp) sh)"

definition RecordEntry ::
  "slice_cfg \<Rightarrow> u64 \<Rightarrow> u64 \<Rightarrow> op \<Rightarrow> nat \<Rightarrow> u16 option \<Rightarrow> payload \<Rightarrow> nat \<Rightarrow> u64 \<Rightarrow> u8 \<Rightarrow> 'v shard \<Rightarrow> 'v shard option" where
  "RecordEntry C now_ms txid opcode dbid slot pl origin_idx mv entry_flags sh =
     (let applied = (mv \<noteq> 0);
          enabled = js_mvcc_enabled (journal sh);
          (mv', st1) =
            (if enabled \<and> opcode = COMMAND \<and> mv = 0
             then let (hop, st) = HopStamp now_ms (stamper sh) in (max hop (LocalMintFloor st), st)
             else (mv, stamper sh));
          sh1 = sh\<lparr>stamper := st1\<rparr>;
          entry = \<lparr>e_txid = txid, e_opcode = opcode, e_dbid = of_nat dbid, e_slot = slot, e_lsn = 0,
                   e_origin_idx = of_nat origin_idx, e_mvcc = mv', e_flags = entry_flags, e_payload = pl\<rparr>
      in case AddLogRecord (items C) now_ms entry (journal sh1) of
           None \<Rightarrow> None
         | Some (evs, j) \<Rightarrow>
             let sh2 = effect (map ToConsumer evs) (sh1\<lparr>journal := j\<rparr>)
             in if enabled \<and> opcode = COMMAND \<and> entry_flags AND kEntryFlagExpired = 0
                then let (st2, so) = Commit mv' origin_idx (commit_cb applied) (stamper sh2) (Some sh2)
                     in map_option (\<lambda>s. s\<lparr>stamper := st2\<rparr>) so
                else Some sh2)"

text \<open>The fields of \<^verbatim>\<open>DbContext\<close> the recorders read.\<close>

record db_context =
  cx_db :: nat
  cx_time_now_ms :: u64
  cx_repl_origin_idx :: nat
  cx_repl_mvcc :: u64
  cx_repl_lww_guard :: bool

definition del_payload :: "key \<Rightarrow> payload" where
  "del_payload key = \<lparr>pl_cmd = key_bytes ''DEL'', pl_args = [key_bytes key]\<rparr>"

definition RecordDelete :: "slice_cfg \<Rightarrow> u64 \<Rightarrow> db_context \<Rightarrow> key \<Rightarrow> 'v shard \<Rightarrow> 'v shard option" where
  "RecordDelete C now_ms cx key sh =
     (if \<not> ns_is_default sh then Some sh
      else RecordEntry C now_ms 0 COMMAND (cx_db cx) (Some (of_nat (KeySlot (env C) key))) (del_payload key)
             (cx_repl_origin_idx cx) (cx_repl_mvcc cx) 0 sh)"

definition RecordDerivedDelete :: "slice_cfg \<Rightarrow> u64 \<Rightarrow> db_context \<Rightarrow> key \<Rightarrow> 'v shard \<Rightarrow> 'v shard option" where
  "RecordDerivedDelete C now_ms cx key sh =
     (if \<not> ns_is_default sh then Some sh
      else RecordEntry C now_ms 0 COMMAND (cx_db cx) (Some (of_nat (KeySlot (env C) key))) (del_payload key)
             (cx_repl_origin_idx cx) (cx_repl_mvcc cx) kEntryFlagDerived sh)"

text \<open>The callback of the expiry recorders: the tombstone of the key's own previous stamp is installed, or
  the slot erased when there was none. The state carries the committed stamp.\<close>

definition own_tombstone_cb :: "slice_cfg \<Rightarrow> (mvcc_stamp \<times> 'v shard) option commit_fn" where
  "own_tombstone_cb C db k st has_prior_stamp prev so =
     (case so of
        None \<Rightarrow> None
      | Some (committed, sh) \<Rightarrow>
          if has_prior_stamp
          then map_option (\<lambda>s. (st, s)) (SetExistingMvcc_at db k st sh)
          else Some (committed, upd_db db (EraseMvcc (env C) k) sh))"

definition commit_own_tombstone ::
  "slice_cfg \<Rightarrow> nat \<Rightarrow> key \<Rightarrow> 'v shard \<Rightarrow> (bool \<times> mvcc_stamp \<times> 'v shard) option" where
  "commit_own_tombstone C db key sh =
     (let (found, st, so) = CommitOwnTombstone db key (own_tombstone_cb C) (stamper sh) (Some (stamp_empty, sh))
      in map_option (\<lambda>(committed, s). (found, committed, s\<lparr>stamper := st\<rparr>)) so)"

definition RecordExpiryBlocking :: "slice_cfg \<Rightarrow> u64 \<Rightarrow> db_context \<Rightarrow> key \<Rightarrow> 'v shard \<Rightarrow> 'v shard option" where
  "RecordExpiryBlocking C now_ms cx key sh =
     (if \<not> ns_is_default sh then Some sh
      else case commit_own_tombstone C (cx_db cx) key sh of
             None \<Rightarrow> None
           | Some (found, committed, sh1) \<Rightarrow>
               RecordEntry C now_ms 0 COMMAND (cx_db cx) (Some (of_nat (KeySlot (env C) key))) (del_payload key) 0
                 (if found then Mvcc committed else cx_repl_mvcc cx) kEntryFlagExpired sh1)"

text \<open>\<^verbatim>\<open>DbSlice::DeleteReapedContainer\<close>: delete, commit the container's own tombstone, record a derived DEL.\<close>

definition DeleteReapedContainer :: "slice_cfg \<Rightarrow> u64 \<Rightarrow> db_context \<Rightarrow> key \<Rightarrow> bool \<Rightarrow> 'v shard \<Rightarrow> 'v shard option" where
  "DeleteReapedContainer C now_ms cx key journal_deletion sh =
     (let sh1 = Del C (cx_db cx) key False kExpired sh
      in if has_journal C \<and> journal_deletion
         then case commit_own_tombstone C (cx_db cx) key sh1 of
                None \<Rightarrow> None
              | Some (found, committed, sh2) \<Rightarrow>
                  RecordDerivedDelete C now_ms (if found then cx\<lparr>cx_repl_mvcc := Mvcc committed\<rparr> else cx) key sh2
         else Some sh1)"

text \<open>The end of a write epoch: the arms left over are dropped, their tombstone placeholders rolled back.\<close>

definition rollback_cb :: "slice_cfg \<Rightarrow> 'v shard erase_fn" where
  "rollback_cb C db key sh =
     (if IsDbValid db sh then upd_db db (RollbackUncommittedTombstone (env C) key) sh else sh)"

definition EndEpoch :: "slice_cfg \<Rightarrow> 'v shard \<Rightarrow> 'v shard" where
  "EndEpoch C sh =
     (if mvcc_enabled sh
      then let (st, s) = EndOfWriteEpoch (rollback_cb C) (stamper sh) sh in s\<lparr>stamper := st\<rparr>
      else sh)"

end
