(* ===== verification/Shard_Invariant.thy ===== *)
theory Shard_Invariant
  imports Journal_Record
begin

text \<open>
  The invariant that ties the key table, the stamp table and the pending arms of a shard together, and its
  preservation by the operations of \<^verbatim>\<open>Db_Slice\<close> and \<^verbatim>\<open>Journal_Record\<close>: every live key has exactly one
  live stamp and every other slot is a tombstone; every armed key has a prepared slot, a tombstone placeholder
  exactly when its last arm is a deletion.
\<close>

subsection \<open>Tables inside a shard\<close>

lemma db_at_upd_db:
  "db_at i (upd_db j f sh) = (if i = j then map_option f (db_at j sh) else db_at i sh)"
  by (auto simp: db_at_def upd_db_def split: option.splits)

lemma upd_db_frame [simp]:
  "stamper (upd_db i f sh) = stamper sh" "mvcc_enabled (upd_db i f sh) = mvcc_enabled sh"
  "ns_is_default (upd_db i f sh) = ns_is_default sh" "journal (upd_db i f sh) = journal sh"
  "client_tracking_map (upd_db i f sh) = client_tracking_map sh"
  "effects (upd_db i f sh) = effects sh" "sl_events (upd_db i f sh) = sl_events sh"
  "entries_count (upd_db i f sh) = entries_count sh" "memory_budget (upd_db i f sh) = memory_budget sh"
  by (simp_all add: upd_db_def split: option.splits)

lemma db_at_fields [simp]:
  "db_at i (sh\<lparr>stamper := x1\<rparr>) = db_at i sh" "db_at i (sh\<lparr>journal := x2\<rparr>) = db_at i sh"
  "db_at i (sh\<lparr>effects := x3\<rparr>) = db_at i sh" "db_at i (sh\<lparr>sl_events := x4\<rparr>) = db_at i sh"
  "db_at i (sh\<lparr>client_tracking_map := x5\<rparr>) = db_at i sh" "db_at i (sh\<lparr>pending_send_map := x6\<rparr>) = db_at i sh"
  "db_at i (sh\<lparr>entries_count := x7\<rparr>) = db_at i sh" "db_at i (sh\<lparr>memory_budget := x8\<rparr>) = db_at i sh"
  "db_at i (sh\<lparr>tombstone_gc_db_index := x9\<rparr>) = db_at i sh"
  by (simp_all add: db_at_def)

lemma db_at_effect [simp]: "db_at i (effect es sh) = db_at i sh"
  by (simp add: effect_def)

lemma effect_frame [simp]:
  "stamper (effect es sh) = stamper sh" "mvcc_enabled (effect es sh) = mvcc_enabled sh"
  "ns_is_default (effect es sh) = ns_is_default sh" "journal (effect es sh) = journal sh"
  "client_tracking_map (effect es sh) = client_tracking_map sh" "sl_events (effect es sh) = sl_events sh"
  by (simp_all add: effect_def)

lemma Queue_frame [simp]:
  "db_at i (QueueInvalidationTrackingMessageAtomic k sh) = db_at i sh"
  "stamper (QueueInvalidationTrackingMessageAtomic k sh) = stamper sh"
  "mvcc_enabled (QueueInvalidationTrackingMessageAtomic k sh) = mvcc_enabled sh"
  "ns_is_default (QueueInvalidationTrackingMessageAtomic k sh) = ns_is_default sh"
  "journal (QueueInvalidationTrackingMessageAtomic k sh) = journal sh"
  by (simp_all add: QueueInvalidationTrackingMessageAtomic_def Let_def split: option.splits)

text \<open>What the invariant reads of a table: its keys and its stamps, and that the accounting is right.\<close>

definition in_prime :: "'v db_table \<Rightarrow> key \<Rightarrow> bool" where
  "in_prime t k = (tbl_find (prime t) k \<noteq> None)"

definition tbl_good :: "slice_cfg \<Rightarrow> 'v db_table \<Rightarrow> bool" where
  "tbl_good C t = (mvcc t \<noteq> None \<and> acct_ok (env C) t \<and> tbl_ok (prime t))"

definition live_slot :: "'v db_table \<Rightarrow> key \<Rightarrow> bool" where
  "live_slot t k = (\<exists>s. GetMvcc t k = Some s \<and> \<not> IsTombstone s)"

lemma table_inv_alt: "table_inv (env C) t \<longleftrightarrow> tbl_good C t \<and> (\<forall>k. in_prime t k \<longleftrightarrow> live_slot t k)"
  by (auto simp: table_inv_def tbl_good_def dense_def in_prime_def live_slot_def)

text \<open>Updates that touch neither keys nor stamps nor the counters of the stamp table.\<close>

definition quiet :: "'v db_table \<Rightarrow> 'v db_table \<Rightarrow> bool" where
  "quiet t t' = (prime t' = prime t \<and> mvcc t' = mvcc t \<and>
     mvcc_entries (tstats t') = mvcc_entries (tstats t) \<and>
     mvcc_tombstones (tstats t') = mvcc_tombstones (tstats t) \<and>
     mvcc_key_dup_bytes (tstats t') = mvcc_key_dup_bytes (tstats t))"

lemma quiet_refl [simp]: "quiet t t"
  by (simp add: quiet_def)

lemma quiet_trans: "quiet a b \<Longrightarrow> quiet b c \<Longrightarrow> quiet a c"
  by (simp add: quiet_def)

lemma quiet_good:
  assumes "quiet t t'"
  shows "tbl_good C t' = tbl_good C t" "in_prime t' = in_prime t" "GetMvcc t' = GetMvcc t" "live_slot t' = live_slot t"
    "table_inv (env C) t' = table_inv (env C) t" "mvcc_tombstones (tstats t') = mvcc_tombstones (tstats t)"
proof -
  show g: "tbl_good C t' = tbl_good C t"
    using assms by (auto simp: quiet_def tbl_good_def acct_ok_def side_ok_def split: option.splits)
  show p: "in_prime t' = in_prime t" using assms by (simp add: quiet_def in_prime_def fun_eq_iff)
  show m: "GetMvcc t' = GetMvcc t" using assms by (simp add: quiet_def GetMvcc_def fun_eq_iff)
  then show l: "live_slot t' = live_slot t" by (simp add: live_slot_def fun_eq_iff)
  show "table_inv (env C) t' = table_inv (env C) t" using g p l by (simp add: table_inv_alt)
  show "mvcc_tombstones (tstats t') = mvcc_tombstones (tstats t)" using assms by (simp add: quiet_def)
qed

lemma quiet_UpdateSlotStat [simp]: "quiet t (UpdateSlotStat E g u k d t)"
  by (simp add: quiet_def UpdateSlotStat_def Let_def split: option.splits)

lemma quiet_tstats:
  "quiet t (t\<lparr>tstats := (tstats t)\<lparr>inline_keys := a\<rparr>\<rparr>)" "quiet t (t\<lparr>tstats := (tstats t)\<lparr>expire_count := b\<rparr>\<rparr>)"
  "quiet t (t\<lparr>tstats := (tstats t)\<lparr>member_expire_count := c\<rparr>\<rparr>)"
  "quiet t (t\<lparr>tstats := (tstats t)\<lparr>mvcc_tombstones_dropped := d\<rparr>\<rparr>)"
  "quiet t (t\<lparr>tstats := AddTypeMemoryUsage ty dl (tstats t)\<rparr>)"
  by (simp_all add: quiet_def AddTypeMemoryUsage_def Let_def)

lemma quiet_AccountObjectMemory [simp]: "quiet t (AccountObjectMemory E k ty d t)"
  unfolding AccountObjectMemory_def
  by (auto intro: quiet_trans [OF quiet_tstats(5) quiet_UpdateSlotStat])

lemma quiet_other:
  "quiet t (t\<lparr>watched_keys := w\<rparr>)" "quiet t (t\<lparr>slots_stats := s\<rparr>)" "quiet t (t\<lparr>mcflag := f\<rparr>)"
  by (simp_all add: quiet_def)

lemma quiet_bump [simp]: "quiet t (bump_total_writes C k t)"
  by (simp add: bump_total_writes_def quiet_other Let_def split: option.splits)

lemma quiet_SetMCFlag_0 [simp]: "quiet t (snd (SetMCFlag k 0 t))"
  by (simp add: SetMCFlag_def quiet_other split: option.splits)

lemma quiet_account_update [simp]: "quiet t (account_update C u e t)"
proof -
  define t1 where "t1 = (if pv_type e \<noteq> orig_obj_type u
      then AccountObjectMemory (env C) (up_key u) (pv_type e) (int (pv_malloc e))
             (AccountObjectMemory (env C) (up_key u) (orig_obj_type u) (- int (orig_value_heap_size u)) t)
      else AccountObjectMemory (env C) (up_key u) (pv_type e) (int (pv_malloc e) - int (orig_value_heap_size u)) t)"
  have 1: "quiet t t1"
    unfolding t1_def by (auto intro: quiet_trans [OF quiet_AccountObjectMemory quiet_AccountObjectMemory])
  have "account_update C u e t =
     (if pv_member_exp e \<and> \<not> orig_has_member_expiry u
      then t1\<lparr>tstats := (tstats t1)\<lparr>member_expire_count := member_expire_count (tstats t1) + 1\<rparr>\<rparr>
      else if \<not> pv_member_exp e \<and> orig_has_member_expiry u
      then t1\<lparr>tstats := (tstats t1)\<lparr>member_expire_count := member_expire_count (tstats t1) - 1\<rparr>\<rparr>
      else t1)"
    by (simp only: account_update_def t1_def Let_def)
  with 1 show ?thesis by (auto intro: quiet_trans [OF 1 quiet_tstats(3)])
qed

lemma quiet_release_accounts [simp]: "quiet t (release_accounts C k e t)"
proof -
  define t1 where "t1 = (if pk_expire e \<noteq> None then t\<lparr>tstats := (tstats t)\<lparr>expire_count := expire_count (tstats t) - 1\<rparr>\<rparr> else t)"
  define t2 where "t2 = (if pv_member_exp e then t1\<lparr>tstats := (tstats t1)\<lparr>member_expire_count := member_expire_count (tstats t1) - 1\<rparr>\<rparr> else t1)"
  define t3 where "t3 = (if pk_inline e then t2\<lparr>tstats := (tstats t2)\<lparr>inline_keys := inline_keys (tstats t2) - 1\<rparr>\<rparr>
    else AccountObjectMemory (env C) k OBJ_KEY (- int (pk_malloc e)) t2)"
  define t4 where "t4 = AccountObjectMemory (env C) k (pv_type e) (- int (pv_malloc e)) t3"
  have q: "quiet t t1" "quiet t1 t2" "quiet t2 t3" "quiet t3 t4"
    by (simp_all add: t1_def t2_def t3_def t4_def quiet_tstats)
  have "release_accounts C k e t = (case slots_stats t4 of None \<Rightarrow> t4
     | Some ss \<Rightarrow> t4\<lparr>slots_stats := Some (ss(KeySlot (env C) k := (ss (KeySlot (env C) k))
         \<lparr>key_count := key_count (ss (KeySlot (env C) k)) - 1\<rparr>))\<rparr>)"
    by (simp add: release_accounts_def t1_def t2_def t3_def t4_def Let_def cong: if_cong option.case_cong)
  moreover have "quiet t t4" using q quiet_trans by blast
  ultimately show ?thesis by (auto split: option.splits intro: quiet_trans quiet_other)
qed

subsection \<open>Stamps and keys of a shard\<close>

definition slot :: "'v shard \<Rightarrow> nat \<Rightarrow> key \<Rightarrow> mvcc_stamp option" where
  "slot sh db k = (case db_at db sh of None \<Rightarrow> None | Some t \<Rightarrow> GetMvcc t k)"

definition primes :: "'v shard \<Rightarrow> nat \<Rightarrow> (key, 'v prime_entry) tbl option" where
  "primes sh db = map_option prime (db_at db sh)"

definition entry_of :: "'v shard \<Rightarrow> nat \<Rightarrow> key \<Rightarrow> 'v prime_entry option" where
  "entry_of sh db k = (case primes sh db of None \<Rightarrow> None | Some m \<Rightarrow> tbl_find m k)"

definition good_tables :: "slice_cfg \<Rightarrow> 'v shard \<Rightarrow> bool" where
  "good_tables C sh = (\<forall>i t. db_at i sh = Some t \<longrightarrow> tbl_good C t)"

lemma good_tablesD: "good_tables C sh \<Longrightarrow> db_at i sh = Some t \<Longrightarrow> mvcc t \<noteq> None \<and> acct_ok (env C) t \<and> tbl_ok (prime t)"
  by (simp add: good_tables_def tbl_good_def)

text \<open>Two shards with the same tables up to fields outside the invariant.\<close>

definition same_tables :: "slice_cfg \<Rightarrow> 'v shard \<Rightarrow> 'v shard \<Rightarrow> bool" where
  "same_tables C sh sh' = (slot sh' = slot sh \<and> primes sh' = primes sh \<and> good_tables C sh' = good_tables C sh \<and>
     stamper sh' = stamper sh \<and> mvcc_enabled sh' = mvcc_enabled sh \<and> ns_is_default sh' = ns_is_default sh \<and>
     journal sh' = journal sh \<and> (\<forall>i. (db_at i sh' = None) = (db_at i sh = None)))"

lemma same_tables_refl [simp]: "same_tables C sh sh"
  by (simp add: same_tables_def)

lemma same_tables_trans: "same_tables C a b \<Longrightarrow> same_tables C b c \<Longrightarrow> same_tables C a c"
  by (simp add: same_tables_def)

lemma same_tables_fields:
  assumes "\<And>i. db_at i sh' = db_at i sh" "stamper sh' = stamper sh" "mvcc_enabled sh' = mvcc_enabled sh"
    "ns_is_default sh' = ns_is_default sh" "journal sh' = journal sh"
  shows "same_tables C sh sh'"
  using assms by (simp add: same_tables_def slot_def [abs_def] primes_def [abs_def] good_tables_def)

lemma same_tables_quiet:
  assumes "\<And>t. quiet t (f t)"
  shows "same_tables C sh (upd_db db f sh)"
proof -
  have "slot (upd_db db f sh) = slot sh"
    using quiet_good(3) [OF assms] by (auto simp: slot_def fun_eq_iff db_at_upd_db split: option.splits)
  moreover have "primes (upd_db db f sh) = primes sh"
    using assms by (auto simp: primes_def fun_eq_iff db_at_upd_db quiet_def option.map_comp o_def intro: option.map_cong)
  moreover have "good_tables C (upd_db db f sh) = good_tables C sh"
    using quiet_good(1) [OF assms] by (auto simp: good_tables_def db_at_upd_db split: if_splits)
  ultimately show ?thesis by (simp add: same_tables_def db_at_upd_db)
qed

lemma same_tables_effect [simp]: "same_tables C sh (effect es sh)"
  by (rule same_tables_fields) simp_all

lemma same_tables_Queue [simp]: "same_tables C sh (QueueInvalidationTrackingMessageAtomic k sh)"
  by (rule same_tables_fields) simp_all

text \<open>Replacing a table by one with the same keys and other stamps.\<close>

lemma upd_side:
  assumes "good_tables C sh" "db_at db sh = Some t"
    and "acct_ok (env C) t'" "prime t' = prime t" "\<exists>m. mvcc t' = Some m"
  shows "good_tables C (upd_db db (\<lambda>_. t') sh)" "slot (upd_db db (\<lambda>_. t') sh) = (slot sh)(db := GetMvcc t')"
    "primes (upd_db db (\<lambda>_. t') sh) = primes sh"
  using assms
  by (auto simp: good_tables_def tbl_good_def db_at_upd_db slot_def primes_def fun_eq_iff split: if_splits)

lemma upd_db_const: "db_at db sh = Some t \<Longrightarrow> upd_db db f sh = upd_db db (\<lambda>_. f t) sh"
  by (simp add: upd_db_def)

lemma slot_stamper [simp]: "slot (sh\<lparr>stamper := x\<rparr>) = slot sh" "primes (sh\<lparr>stamper := x\<rparr>) = primes sh"
  "good_tables C (sh\<lparr>stamper := x\<rparr>) = good_tables C sh"
  by (simp_all add: slot_def [abs_def] primes_def [abs_def] good_tables_def)

subsection \<open>The invariant\<close>

text \<open>The last arm of a key decides what its commit leaves in the slot.\<close>

definition arm_of :: "parm list \<Rightarrow> nat \<Rightarrow> key \<Rightarrow> parm option" where
  "arm_of ps db k = List.find (\<lambda>p. p_db p = db \<and> p_key p = k) (rev ps)"

definition slot_matches :: "parm \<Rightarrow> mvcc_stamp \<Rightarrow> bool" where
  "slot_matches p s = (IsTombstone s = p_tomb p \<and> (p_tomb p \<longrightarrow> Mvcc s = 0))"

definition key_ok :: "'v shard \<Rightarrow> nat \<Rightarrow> key \<Rightarrow> bool" where
  "key_ok sh db k =
     ((entry_of sh db k \<noteq> None \<longleftrightarrow> (\<exists>s. slot sh db k = Some s \<and> \<not> IsTombstone s)) \<and>
      (\<forall>p. arm_of (pending (stamper sh)) db k = Some p \<longrightarrow> (\<exists>s. slot sh db k = Some s \<and> slot_matches p s)))"

text \<open>A deletion arm of a key can only be the oldest arm of that key.\<close>

definition tomb_first :: "parm list \<Rightarrow> bool" where
  "tomb_first ps = sorted_wrt (\<lambda>p q. p_db p = p_db q \<and> p_key p = p_key q \<longrightarrow> \<not> p_tomb q) ps"

definition shard_wf :: "slice_cfg \<Rightarrow> 'v shard \<Rightarrow> bool" where
  "shard_wf C sh = (mvcc_enabled sh \<and> ns_is_default sh \<and> arms_wf (stamper sh) \<and>
     tomb_first (pending (stamper sh)) \<and> good_tables C sh)"

definition shard_inv_but :: "slice_cfg \<Rightarrow> nat \<Rightarrow> key \<Rightarrow> 'v shard \<Rightarrow> bool" where
  "shard_inv_but C db k sh = (shard_wf C sh \<and> (\<forall>db' k'. (db', k') \<noteq> (db, k) \<longrightarrow> key_ok sh db' k'))"

definition shard_inv :: "slice_cfg \<Rightarrow> 'v shard \<Rightarrow> bool" where
  "shard_inv C sh = (shard_wf C sh \<and> (\<forall>db k. key_ok sh db k))"

lemma shard_inv_iff: "shard_inv C sh \<longleftrightarrow> shard_inv_but C db k sh \<and> key_ok sh db k"
  by (auto simp: shard_inv_def shard_inv_but_def)

lemma shard_invD:
  assumes "shard_inv C sh"
  shows "mvcc_enabled sh" "ns_is_default sh" "arms_wf (stamper sh)" "good_tables C sh" "key_ok sh db k"
    "tomb_first (pending (stamper sh))"
  using assms by (simp_all add: shard_inv_def shard_wf_def)

lemma shard_inv_table_inv:
  assumes "shard_inv C sh" "db_at db sh = Some t"
  shows "table_inv (env C) t"
proof -
  have "tbl_good C t" using assms by (simp add: shard_inv_def shard_wf_def good_tables_def)
  moreover have "in_prime t k \<longleftrightarrow> live_slot t k" for k
    using shard_invD(5) [OF assms(1), of db k] assms(2)
    by (simp add: key_ok_def entry_of_def primes_def slot_def in_prime_def live_slot_def)
  ultimately show ?thesis by (simp add: table_inv_alt)
qed

lemma same_tables_inv:
  assumes "same_tables C sh sh'"
  shows "shard_inv C sh' = shard_inv C sh" "shard_inv_but C db k sh' = shard_inv_but C db k sh"
    "entry_of sh' = entry_of sh"
proof -
  show e: "entry_of sh' = entry_of sh" using assms by (simp add: same_tables_def entry_of_def fun_eq_iff)
  have k: "key_ok sh' = key_ok sh" using assms e by (simp add: same_tables_def key_ok_def fun_eq_iff)
  have w: "shard_wf C sh' = shard_wf C sh" using assms by (simp add: same_tables_def shard_wf_def)
  show "shard_inv C sh' = shard_inv C sh" using k w by (simp add: shard_inv_def)
  show "shard_inv_but C db k sh' = shard_inv_but C db k sh" using k w by (simp add: shard_inv_but_def)
qed

lemma arm_of_Nil [simp]: "arm_of [] db k = None"
  by (simp add: arm_of_def)

lemma arm_of_snoc [simp]:
  "arm_of (ps @ [p]) db k = (if p_db p = db \<and> p_key p = k then Some p else arm_of ps db k)"
  by (simp add: arm_of_def)

lemma find_append: "List.find P (xs @ ys) = (case List.find P xs of Some x \<Rightarrow> Some x | None \<Rightarrow> List.find P ys)"
  by (induction xs) auto

lemma arm_of_append:
  "arm_of (ps @ qs) db k = (case arm_of qs db k of Some p \<Rightarrow> Some p | None \<Rightarrow> arm_of ps db k)"
  by (simp add: arm_of_def find_append split: option.split)

lemma arm_of_Cons:
  "arm_of (p # ps) db k = (case arm_of ps db k of Some q \<Rightarrow> Some q
     | None \<Rightarrow> if p_db p = db \<and> p_key p = k then Some p else None)"
  by (simp add: arm_of_def find_append split: option.split)

lemma arm_of_SomeD: "arm_of ps db k = Some p \<Longrightarrow> p \<in> set ps \<and> p_db p = db \<and> p_key p = k"
  by (induction ps) (auto simp: arm_of_Cons split: option.splits if_splits)

lemma arm_of_None_iff: "arm_of ps db k = None \<longleftrightarrow> (\<forall>p\<in>set ps. \<not> (p_db p = db \<and> p_key p = k))"
  by (induction ps) (auto simp: arm_of_Cons split: option.splits if_splits)

lemma arm_of_disarm:
  "arm_of (spec_disarm db k ps) db' k' = (if (db', k') = (db, k) then None else arm_of ps db' k')"
  by (induction ps) (auto simp: spec_disarm_def arm_of_Cons split: option.splits)

lemma tomb_first_snoc:
  "tomb_first ps \<Longrightarrow> \<not> p_tomb q \<or> arm_of ps (p_db q) (p_key q) = None \<Longrightarrow> tomb_first (ps @ [q])"
  by (auto simp: tomb_first_def sorted_wrt_append arm_of_None_iff)

lemma tomb_first_disarm: "tomb_first ps \<Longrightarrow> tomb_first (spec_disarm db k ps)"
  by (simp add: tomb_first_def spec_disarm_def sorted_wrt_filter)

subsection \<open>Updating a key\<close>

text \<open>Bytes of the key arena in use; arming a key adds its length.\<close>

abbreviation arena_used :: "'v shard \<Rightarrow> nat" where
  "arena_used sh \<equiv> length (arena (stamper sh))"

lemma arena_Arm: "length (arena (Arm db k prev st)) = length (arena st) + length k"
  "length (arena (ArmTombstone db k prev st)) = length (arena st) + length k"
  "arena (Disarm db k st) = arena st"
  by (simp_all add: Arm_def ArmTombstone_def push_arm_def Disarm_def Let_def)

lemma PostUpdate_cases:
  assumes "db_at db sh = Some t"
  obtains sh5 where "same_tables C sh sh5"
    "PostUpdate C db k arm sh =
       (if arm \<and> mvcc_enabled sh5 \<and> ns_is_default sh5
        then (case db_at db sh5 of None \<Rightarrow> sh5 | Some t5 \<Rightarrow>
                let (prev_stamp, t6) = EnsureMvcc (env C) k t5
                in (upd_db db (\<lambda>_. t6) sh5)\<lparr>stamper := Arm db k prev_stamp (stamper sh5)\<rparr>)
        else sh5)"
proof -
  define sh1 where "sh1 = (if blocking_controller C = Some True then effect [Awaken db k] sh else sh)"
  define sh2 where "sh2 = (case tbl_find (watched_keys t) k of None \<Rightarrow> sh1
     | Some dirty \<Rightarrow> upd_db db (\<lambda>t. t\<lparr>watched_keys := tbl_erase k (watched_keys t)\<rparr>) (effect (map SetDirty dirty) sh1))"
  define sh3 where "sh3 = sh2\<lparr>sl_events := (sl_events sh2)\<lparr>ev_update := ev_update (sl_events sh2) + 1\<rparr>\<rparr>"
  define sh4 where "sh4 = upd_db db (bump_total_writes C k) sh3"
  define sh5 where "sh5 = (if client_tracking_map sh4 \<noteq> [] then QueueInvalidationTrackingMessageAtomic k sh4 else sh4)"
  have "same_tables C sh sh1" by (simp add: sh1_def)
  moreover have "same_tables C sh1 sh2"
    by (auto simp: sh2_def split: option.split
        intro: same_tables_trans [OF same_tables_effect] same_tables_quiet quiet_other)
  moreover have "same_tables C sh2 sh3" unfolding sh3_def by (rule same_tables_fields) simp_all
  moreover have "same_tables C sh3 sh4" unfolding sh4_def by (rule same_tables_quiet) simp
  moreover have "same_tables C sh4 sh5" by (simp add: sh5_def)
  ultimately have "same_tables C sh sh5" using same_tables_trans by blast
  then show thesis
    by (rule that)
       (simp add: PostUpdate_def assms sh5_def sh4_def sh3_def sh2_def sh1_def Let_def cong: if_cong option.case_cong)
qed

definition live_after :: "mvcc_stamp option \<Rightarrow> mvcc_stamp" where
  "live_after so = (case so of None \<Rightarrow> stamp_empty | Some s \<Rightarrow> if IsTombstone s then stamp_empty else s)"

definition prev_of :: "mvcc_stamp option \<Rightarrow> mvcc_stamp" where
  "prev_of so = (case so of None \<Rightarrow> stamp_empty | Some s \<Rightarrow> s)"

lemma live_after_live [simp]: "\<not> IsTombstone (live_after so)"
  by (simp add: live_after_def split: option.split)

lemma PostUpdate_arm:
  assumes inv: "shard_inv_but C db k sh" and key: "entry_of sh db k \<noteq> None"
    and room: "length (arena (stamper sh)) + length k < 2 ^ 32"
    and sh': "sh' = PostUpdate C db k True sh"
  shows "shard_inv C sh'" "primes sh' = primes sh"
    "slot sh' = (slot sh)(db := (slot sh db)(k \<mapsto> live_after (slot sh db k)))"
    "pending (stamper sh') = spec_arm db k (prev_of (slot sh db k)) (pending (stamper sh))"
    "journal sh' = journal sh" "arena_used sh' = arena_used sh + length k"
proof -
  have wf: "mvcc_enabled sh" "ns_is_default sh" "arms_wf (stamper sh)" "good_tables C sh"
      "tomb_first (pending (stamper sh))"
    using inv by (simp_all add: shard_inv_but_def shard_wf_def)
  obtain t where t: "db_at db sh = Some t" using key by (auto simp: entry_of_def primes_def split: option.splits)
  from PostUpdate_cases [OF t, of C k True] obtain sh5 where same: "same_tables C sh sh5"
    and eq: "PostUpdate C db k True sh = (if True \<and> mvcc_enabled sh5 \<and> ns_is_default sh5
        then (case db_at db sh5 of None \<Rightarrow> sh5 | Some t5 \<Rightarrow>
                let (prev_stamp, t6) = EnsureMvcc (env C) k t5
                in (upd_db db (\<lambda>_. t6) sh5)\<lparr>stamper := Arm db k prev_stamp (stamper sh5)\<rparr>)
        else sh5)" by blast
  have "db_at db sh5 \<noteq> None" using same t by (simp add: same_tables_def)
  then obtain t5 where t5: "db_at db sh5 = Some t5" by blast
  have g5: "good_tables C sh5" and st5: "stamper sh5 = stamper sh" using same wf by (simp_all add: same_tables_def)
  from good_tablesD [OF g5 t5] obtain m where m: "mvcc t5 = Some m" "acct_ok (env C) t5" by blast
  obtain prev t6 where e: "EnsureMvcc (env C) k t5 = (prev, t6)" by force
  have "GetMvcc t5 = slot sh5 db" using t5 by (simp add: slot_def fun_eq_iff)
  then have slot5: "GetMvcc t5 = slot sh db" using same by (simp add: same_tables_def)
  note spec = EnsureMvcc_spec [OF m, of k, unfolded e, simplified, unfolded slot5]
  have prev: "prev = prev_of (slot sh db k)" using spec(1) by (simp add: prev_of_def)
  have sh'eq: "sh' = (upd_db db (\<lambda>_. t6) sh5)\<lparr>stamper := Arm db k prev (stamper sh5)\<rparr>"
    using eq same wf t5 e by (simp add: sh' same_tables_def)
  note up = upd_side [OF g5 t5 spec(3,4,5)]
  have arm: "arms_wf (Arm db k prev (stamper sh))"
    "pending (Arm db k prev (stamper sh)) = spec_arm db k prev (pending (stamper sh))"
    by (rule Arm_refines [OF wf(3) room])+
  show pr: "primes sh' = primes sh" using up same by (simp add: sh'eq same_tables_def)
  show sl: "slot sh' = (slot sh)(db := (slot sh db)(k \<mapsto> live_after (slot sh db k)))"
    using up same spec(2) by (simp add: sh'eq same_tables_def live_after_def)
  show pe: "pending (stamper sh') = spec_arm db k (prev_of (slot sh db k)) (pending (stamper sh))"
    using arm by (simp add: sh'eq st5 prev)
  show "journal sh' = journal sh" using same by (simp add: sh'eq same_tables_def)
  show "arena_used sh' = arena_used sh + length k" by (simp add: sh'eq st5 arena_Arm)
  have "shard_wf C sh'"
    using wf arm up same tomb_first_snoc [OF wf(5)]
    by (simp add: shard_wf_def sh'eq st5 same_tables_def spec_arm_def)
  moreover have "key_ok sh' db' k'" for db' k'
  proof (cases "(db', k') = (db, k)")
    case True
    then show ?thesis using key pr sl pe by (simp add: key_ok_def entry_of_def spec_arm_def slot_matches_def)
  next
    case False
    then have "key_ok sh db' k'" using inv by (auto simp: shard_inv_but_def)
    then show ?thesis using False pr sl pe by (auto simp: key_ok_def entry_of_def spec_arm_def)
  qed
  ultimately show "shard_inv C sh'" by (simp add: shard_inv_def)
qed

lemma RunInternal_arm:
  assumes "shard_inv_but C db k sh" "entry_of sh db k \<noteq> None" "length (arena (stamper sh)) + length k < 2 ^ 32"
    and "up_db u = db" "up_key u = k" "sh' = snd (RunInternal C True (Some u) sh)"
  shows "shard_inv C sh'" "primes sh' = primes sh"
    "slot sh' = (slot sh)(db := (slot sh db)(k \<mapsto> live_after (slot sh db k)))"
    "pending (stamper sh') = spec_arm db k (prev_of (slot sh db k)) (pending (stamper sh))"
    "journal sh' = journal sh" "arena_used sh' = arena_used sh + length k"
proof -
  obtain t e where t: "db_at db sh = Some t" "tbl_find (prime t) k = Some e"
    using assms(2) by (auto simp: entry_of_def primes_def split: option.splits)
  let ?sh = "upd_db db (account_update C u e) sh"
  have same: "same_tables C sh ?sh" by (rule same_tables_quiet) simp
  have eq: "sh' = PostUpdate C db k True ?sh" using assms(4-6) t by (simp add: RunInternal_def)
  have "shard_inv_but C db k ?sh" "entry_of ?sh db k \<noteq> None"
    "length (arena (stamper ?sh)) + length k < 2 ^ 32"
    using assms(1-3) same_tables_inv [OF same] by simp_all
  note PostUpdate_arm [OF this eq]
  then show "shard_inv C sh'" "primes sh' = primes sh"
    "slot sh' = (slot sh)(db := (slot sh db)(k \<mapsto> live_after (slot sh db k)))"
    "pending (stamper sh') = spec_arm db k (prev_of (slot sh db k)) (pending (stamper sh))"
    "journal sh' = journal sh" "arena_used sh' = arena_used sh + length k"
    using same by (simp_all add: same_tables_def)
qed

subsection \<open>Deleting a key\<close>

definition leaves_tombstone :: "slice_cfg \<Rightarrow> delete_reason \<Rightarrow> nat \<Rightarrow> 'v shard \<Rightarrow> bool" where
  "leaves_tombstone C reason db sh = (earns_tombstone C reason \<and>
     (case db_at db sh of None \<Rightarrow> False | Some t \<Rightarrow> mvcc_tombstones (tstats t) < multi_master_max_tombstones (flags C)))"

abbreviation placeholder :: mvcc_stamp where
  "placeholder \<equiv> \<lparr>packed = kTombstoneBit, origin_hash = 0\<rparr>"

lemma placeholder_simps [simp]: "IsTombstone placeholder" "Mvcc placeholder = 0"
  by (simp_all add: IsTombstone_def Mvcc_def kTombstoneBit_num kStampMask_num)

definition arms_after_delete :: "bool \<Rightarrow> nat \<Rightarrow> key \<Rightarrow> mvcc_stamp option \<Rightarrow> parm list \<Rightarrow> parm list" where
  "arms_after_delete tomb db k so ps =
     (if tomb then spec_arm_tombstone db k (prev_of so) (spec_disarm db k ps) else spec_disarm db k ps)"

lemma delete_stamps_spec:
  fixes sh sh' :: "'v shard"
  assumes wf: "shard_wf C sh" and t: "db_at db sh = Some t"
    and room: "length (arena (stamper sh)) + length k < 2 ^ 32"
    and sh': "sh' = delete_stamps C db k reason sh"
  shows "shard_wf C sh'" "primes sh' = primes sh" "journal sh' = journal sh"
    "slot sh' = (slot sh)(db := (slot sh db)(k := if leaves_tombstone C reason db sh then Some placeholder else None))"
    "pending (stamper sh') = arms_after_delete (leaves_tombstone C reason db sh) db k (slot sh db k) (pending (stamper sh))"
    "arena_used sh' \<le> arena_used sh + length k"
proof -
  have en: "mvcc_enabled sh" "ns_is_default sh" "arms_wf (stamper sh)" "good_tables C sh"
      "tomb_first (pending (stamper sh))"
    using wf by (simp_all add: shard_wf_def)
  let ?d = "Disarm db k (stamper sh)"
  have d: "arms_wf ?d" "pending ?d = spec_disarm db k (pending (stamper sh))"
    "length (arena ?d) + length k < 2 ^ 32"
    using Disarm_refines en(3) room by (simp_all add: Disarm_def)
  note tf = tomb_first_disarm [OF en(5), of db k]
  have slt: "GetMvcc t = slot sh db" using t by (simp add: slot_def fun_eq_iff)
  from good_tablesD [OF en(4) t] obtain m where m: "mvcc t = Some m" "acct_ok (env C) t" by blast
  show "shard_wf C sh'" "primes sh' = primes sh" "journal sh' = journal sh"
    "slot sh' = (slot sh)(db := (slot sh db)(k := if leaves_tombstone C reason db sh then Some placeholder else None))"
    "pending (stamper sh') = arms_after_delete (leaves_tombstone C reason db sh) db k (slot sh db k) (pending (stamper sh))"
    "arena_used sh' \<le> arena_used sh + length k"
  proof (atomize (full), cases "leaves_tombstone C reason db sh", goal_cases)
    case 1
    let ?t = "SetTombstone (env C) k placeholder t"
    note spec = SetTombstone_spec [OF m, of placeholder k, simplified, unfolded slt]
    have "sh' = (upd_db db (SetTombstone (env C) k placeholder) (sh\<lparr>stamper := ?d\<rparr>))
        \<lparr>stamper := ArmTombstone db k (prev_of (slot sh db k)) ?d\<rparr>"
      using 1 t en unfolding sh' delete_stamps_def leaves_tombstone_def
      by (simp add: Let_def prev_of_def slot_def)
    then have sh'eq: "sh' = (upd_db db (\<lambda>_. ?t) (sh\<lparr>stamper := ?d\<rparr>))\<lparr>stamper := ArmTombstone db k (prev_of (slot sh db k)) ?d\<rparr>"
      using t upd_db_const [of db "sh\<lparr>stamper := ?d\<rparr>" t "SetTombstone (env C) k placeholder"] by simp
    have g: "good_tables C (sh\<lparr>stamper := ?d\<rparr>)" "db_at db (sh\<lparr>stamper := ?d\<rparr>) = Some t" using en t by simp_all
    note up = upd_side [OF g spec(2,3,4)]
    show ?case
      using up en 1 spec(1) ArmTombstone_refines [OF d(1,3), of db "prev_of (slot sh db k)"] d(2)
        tomb_first_snoc [OF tf] slt
      by (simp add: sh'eq shard_wf_def arms_after_delete_def spec_arm_tombstone_def arm_of_disarm arena_Arm)
  next
    case 2
    define t1 where "t1 = (if earns_tombstone C reason
         then t\<lparr>tstats := (tstats t)\<lparr>mvcc_tombstones_dropped := mvcc_tombstones_dropped (tstats t) + 1\<rparr>\<rparr> else t)"
    have q: "quiet t t1" by (simp add: t1_def quiet_tstats)
    have m1: "mvcc t1 = Some m" "acct_ok (env C) t1" using m by (simp_all add: t1_def)
    have gm: "GetMvcc t1 = slot sh db" "prime t1 = prime t" using quiet_good(3) [OF q] slt q by (simp_all add: quiet_def)
    note spec = EraseMvcc_spec [OF m1, of k, unfolded gm]
    define er :: "'v db_table \<Rightarrow> 'v db_table" where "er = (\<lambda>t. EraseMvcc (env C) k (if earns_tombstone C reason
         then t\<lparr>tstats := (tstats t)\<lparr>mvcc_tombstones_dropped := mvcc_tombstones_dropped (tstats t) + 1\<rparr>\<rparr> else t))"
    have "sh' = upd_db db er (sh\<lparr>stamper := ?d\<rparr>)"
      using 2 t en unfolding sh' delete_stamps_def leaves_tombstone_def er_def [symmetric] by (auto simp: Let_def)
    then have sh'eq: "sh' = upd_db db (\<lambda>_. EraseMvcc (env C) k t1) (sh\<lparr>stamper := ?d\<rparr>)"
      using t upd_db_const [of db "sh\<lparr>stamper := ?d\<rparr>" t er] by (simp add: er_def t1_def)
    have g: "good_tables C (sh\<lparr>stamper := ?d\<rparr>)" "db_at db (sh\<lparr>stamper := ?d\<rparr>) = Some t" using en t by simp_all
    note up = upd_side [OF g spec(2,3,4)]
    show ?case using up en 2 spec(1) d tf by (simp add: sh'eq shard_wf_def arms_after_delete_def arena_Arm)
  qed
qed

lemma delete_inv:
  assumes inv: "shard_inv_but C db k sh" and wf: "shard_wf C sh'"
    and pr: "primes sh' = (primes sh)(db := map_option (tbl_erase k) (primes sh db))"
    and sl: "slot sh' = (slot sh)(db := (slot sh db)(k := if b then Some placeholder else None))"
    and pe: "pending (stamper sh') = arms_after_delete b db k so (pending (stamper sh))"
  shows "shard_inv C sh'"
proof -
  have e: "entry_of sh' db' k' = (if (db', k') = (db, k) then None else entry_of sh db' k')" for db' k'
    using pr by (auto simp: entry_of_def tbl_find_def map_of_tbl_erase split: option.split)
  have "key_ok sh' db' k'" for db' k'
  proof (cases "(db', k') = (db, k)")
    case True
    then show ?thesis
      by (auto simp: key_ok_def e sl pe arms_after_delete_def spec_arm_tombstone_def arm_of_disarm slot_matches_def)
  next
    case False
    then have "key_ok sh db' k'" using inv by (auto simp: shard_inv_but_def)
    with False show ?thesis
      by (auto simp: key_ok_def e sl pe arms_after_delete_def spec_arm_tombstone_def arm_of_disarm)
  qed
  with wf show ?thesis by (simp add: shard_inv_def)
qed

lemma upd_erase:
  assumes "good_tables C sh"
  shows "good_tables C (upd_db db (\<lambda>t. t\<lparr>prime := tbl_erase k (prime t)\<rparr>) sh)"
    "slot (upd_db db (\<lambda>t. t\<lparr>prime := tbl_erase k (prime t)\<rparr>) sh) = slot sh"
    "primes (upd_db db (\<lambda>t. t\<lparr>prime := tbl_erase k (prime t)\<rparr>) sh) =
       (primes sh)(db := map_option (tbl_erase k) (primes sh db))"
proof -
  let ?f = "\<lambda>t. t\<lparr>prime := tbl_erase k (prime t)\<rparr>"
  have "tbl_good C (?f t)" if "tbl_good C t" for t
    using that by (auto simp: tbl_good_def acct_ok_def kv.ok_erase)
  with assms show "good_tables C (upd_db db ?f sh)" by (auto simp: good_tables_def db_at_upd_db split: if_splits)
  show "slot (upd_db db ?f sh) = slot sh"
    by (auto simp: slot_def fun_eq_iff db_at_upd_db GetMvcc_def split: option.split)
  show "primes (upd_db db ?f sh) = (primes sh)(db := map_option (tbl_erase k) (primes sh db))"
    by (auto simp: primes_def fun_eq_iff db_at_upd_db option.map_comp o_def)
qed

lemma PerformDeletionAtomic_inv:
  fixes sh sh' :: "'v shard"
  assumes inv: "shard_inv_but C db k sh" and key: "entry_of sh db k = Some e"
    and room: "length (arena (stamper sh)) + length k < 2 ^ 32"
    and sh': "sh' = PerformDeletionAtomic C db k async reason sh"
  shows "shard_inv C sh'" "primes sh' = (primes sh)(db := map_option (tbl_erase k) (primes sh db))"
    "slot sh' = (slot sh)(db := (slot sh db)(k := if leaves_tombstone C reason db sh then Some placeholder else None))"
    "pending (stamper sh') = arms_after_delete (leaves_tombstone C reason db sh) db k (slot sh db k) (pending (stamper sh))"
    "journal sh' = journal sh" "arena_used sh' \<le> arena_used sh + length k"
proof -
  obtain t where t: "db_at db sh = Some t" "tbl_find (prime t) k = Some e"
    using key by (auto simp: entry_of_def primes_def split: option.splits)
  define sh1 where "sh1 = (if pv_flag e then upd_db db (\<lambda>t. snd (SetMCFlag k 0 t)) sh else sh)"
  define sh2 where "sh2 = delete_stamps C db k reason sh1"
  define sh3 where "sh3 = (if pv_stash_pending e then effect [CancelStash db k] sh2
                          else if pv_external e then effect [TieredDelete db k] sh2 else sh2)"
  define sh4 where "sh4 = upd_db db (release_accounts C k e) sh3"
  define sh5 where "sh5 = (if async \<and> MayDeleteAsynchronously e then effect [AsyncFree db k] sh4 else sh4)"
  define sh6 where "sh6 = upd_db db (\<lambda>t. t\<lparr>prime := tbl_erase k (prime t)\<rparr>) sh5"
  define sh7 where "sh7 = sh6\<lparr>entries_count := entries_count sh6 - 1,
                             memory_budget := memory_budget sh6 + int (pv_malloc e + pk_malloc e)\<rparr>"
  have s1: "same_tables C sh sh1" by (simp add: sh1_def same_tables_quiet)
  have l1: "leaves_tombstone C reason db sh1 = leaves_tombstone C reason db sh"
    using quiet_good(6) [OF quiet_SetMCFlag_0, of k t] by (simp add: leaves_tombstone_def sh1_def db_at_upd_db t)
  have "db_at db sh1 \<noteq> None" using s1 t by (simp add: same_tables_def)
  then obtain t1 where t1: "db_at db sh1 = Some t1" by blast
  have "shard_wf C sh1" using inv s1 by (simp add: shard_inv_but_def shard_wf_def same_tables_def)
  moreover have "length (arena (stamper sh1)) + length k < 2 ^ 32" using room s1 by (simp add: same_tables_def)
  ultimately have "shard_wf C sh2" "primes sh2 = primes sh" "journal sh2 = journal sh"
    "slot sh2 = (slot sh)(db := (slot sh db)(k := if leaves_tombstone C reason db sh then Some placeholder else None))"
    "pending (stamper sh2) = arms_after_delete (leaves_tombstone C reason db sh) db k (slot sh db k) (pending (stamper sh))"
    "arena_used sh2 \<le> arena_used sh + length k"
    using delete_stamps_spec [OF _ t1 _ sh2_def] s1 l1 by (simp_all add: same_tables_def)
  note d = this
  have s5: "same_tables C sh2 sh5"
    using same_tables_trans [of C sh2 sh3 sh4] same_tables_trans [of C sh2 sh4 sh5]
    by (simp add: sh3_def sh4_def sh5_def same_tables_quiet)
  then have w5: "good_tables C sh5" using d(1) by (simp add: shard_wf_def same_tables_def)
  note e6 = upd_erase [OF w5, of db k, folded sh6_def]
  have "sh' = (if client_tracking_map sh7 \<noteq> [] then QueueInvalidationTrackingMessageAtomic k sh7 else sh7)"
    unfolding sh' PerformDeletionAtomic_def sh7_def sh6_def sh5_def sh4_def sh3_def sh2_def sh1_def
    by (simp only: t Let_def option.case)
  moreover have "same_tables C sh6 sh7" unfolding sh7_def by (rule same_tables_fields) (simp_all add: db_at_def)
  ultimately have s7: "same_tables C sh6 sh'" using same_tables_trans [of C sh6 sh7] by simp
  have fr: "stamper sh6 = stamper sh5" "mvcc_enabled sh6 = mvcc_enabled sh5" "ns_is_default sh6 = ns_is_default sh5"
    "journal sh6 = journal sh5"
    by (simp_all add: sh6_def)
  show p: "primes sh' = (primes sh)(db := map_option (tbl_erase k) (primes sh db))"
    using e6(3) s7 s5 d(2) by (simp add: same_tables_def)
  show sl: "slot sh' = (slot sh)(db := (slot sh db)(k := if leaves_tombstone C reason db sh then Some placeholder else None))"
    using e6(2) s7 s5 d(4) by (simp add: same_tables_def)
  show pe: "pending (stamper sh') = arms_after_delete (leaves_tombstone C reason db sh) db k (slot sh db k) (pending (stamper sh))"
    using fr s7 s5 d(5) by (simp add: same_tables_def)
  show "journal sh' = journal sh" using fr s7 s5 d(3) by (simp add: same_tables_def)
  show "arena_used sh' \<le> arena_used sh + length k" using fr s7 s5 d(6) by (simp add: same_tables_def)
  have "shard_wf C sh'" using d(1) s5 s7 fr e6(1) by (simp add: same_tables_def shard_wf_def)
  from delete_inv [OF inv this p sl pe] show "shard_inv C sh'" .
qed

lemma Del_inv:
  fixes sh sh' :: "'v shard"
  assumes inv: "shard_inv_but C db k sh" and key: "entry_of sh db k = Some e"
    and room: "length (arena (stamper sh)) + length k < 2 ^ 32"
    and sh': "sh' = Del C db k async reason sh"
  shows "shard_inv C sh'" "primes sh' = (primes sh)(db := map_option (tbl_erase k) (primes sh db))"
    "slot sh' = (slot sh)(db := (slot sh db)(k := if leaves_tombstone C reason db sh then Some placeholder else None))"
    "pending (stamper sh') = arms_after_delete (leaves_tombstone C reason db sh) db k (slot sh db k) (pending (stamper sh))"
    "journal sh' = journal sh" "arena_used sh' \<le> arena_used sh + length k"
proof -
  obtain t where t: "db_at db sh = Some t" "tbl_find (prime t) k = Some e"
    using key by (auto simp: entry_of_def primes_def split: option.splits)
  obtain es where eq: "sh' = PerformDeletionAtomic C db k async reason (effect es sh)"
  proof -
    define es where "es = (if pv_type e = 6 then (if blocking_controller C \<noteq> None then [Awaken db k] else [])
       else if doc_del_cb C \<and> (pv_type e = 15 \<or> pv_type e = 4) then [DocDel db k] else [])"
    have "effect [] sh = sh" by (simp add: effect_def)
    then have "effect es sh = (if pv_type e = 6
                          then (if blocking_controller C \<noteq> None then effect [Awaken db k] sh else sh)
                          else if doc_del_cb C \<and> (pv_type e = 15 \<or> pv_type e = 4) then effect [DocDel db k] sh
                          else sh)" by (auto simp: es_def)
    then show thesis using that [of es] t by (simp add: sh' Del_def Let_def)
  qed
  have s: "same_tables C sh (effect es sh)" by simp
  have l: "leaves_tombstone C reason db (effect es sh) = leaves_tombstone C reason db sh"
    by (simp add: leaves_tombstone_def)
  have "shard_inv_but C db k (effect es sh)" "entry_of (effect es sh) db k = Some e"
    "length (arena (stamper (effect es sh))) + length k < 2 ^ 32"
    using inv key room same_tables_inv [OF s] by simp_all
  from PerformDeletionAtomic_inv [OF this eq] s l
  show "shard_inv C sh'" "primes sh' = (primes sh)(db := map_option (tbl_erase k) (primes sh db))"
    "slot sh' = (slot sh)(db := (slot sh db)(k := if leaves_tombstone C reason db sh then Some placeholder else None))"
    "pending (stamper sh') = arms_after_delete (leaves_tombstone C reason db sh) db k (slot sh db k) (pending (stamper sh))"
    "journal sh' = journal sh" "arena_used sh' \<le> arena_used sh + length k"
    by (simp_all add: same_tables_def)
qed

lemma Del_absent: "entry_of sh db k = None \<Longrightarrow> Del C db k async reason sh = sh"
  by (cases "db_at db sh") (auto simp: Del_def entry_of_def primes_def)

subsection \<open>Committing the arms\<close>

lemma IsTombstone_commit_stamp:
  assumes "applied \<or> packed stamp \<le> kStampMask"
  shows "IsTombstone (commit_stamp applied (if tomb then AsTombstone stamp else stamp) tomb prev) = tomb"
proof -
  have "applied \<or> \<not> IsTombstone stamp"
    using assms le_kStampMask_and [of "packed stamp"] by (auto simp: IsTombstone_bit simp flip: and_kStampMask_eq_iff)
  then show ?thesis
    by (auto simp: commit_stamp_def Let_def IsTombstone_bit bit_and_iff bit_or_iff bit_kTombstoneBit bit_kStampMask
        AsTombstone_def)
qed

definition committed :: "bool \<Rightarrow> mvcc_stamp \<Rightarrow> parm \<Rightarrow> mvcc_stamp" where
  "committed applied stamp p =
     commit_stamp applied (if p_tomb p then AsTombstone stamp else stamp) (p_tomb p) (p_prev p)"

text \<open>What a commit leaves in the slots: the stamp of the last arm where there is one.\<close>

definition slots_after :: "bool \<Rightarrow> mvcc_stamp \<Rightarrow> parm list \<Rightarrow> (nat \<Rightarrow> key \<Rightarrow> mvcc_stamp option) \<Rightarrow>
    nat \<Rightarrow> key \<Rightarrow> mvcc_stamp option" where
  "slots_after applied stamp ps sl db k =
     (case arm_of ps db k of None \<Rightarrow> sl db k | Some p \<Rightarrow> Some (committed applied stamp p))"

definition only_tables :: "'v shard \<Rightarrow> 'v shard \<Rightarrow> bool" where
  "only_tables sh sh' = (stamper sh' = stamper sh \<and> mvcc_enabled sh' = mvcc_enabled sh \<and>
     ns_is_default sh' = ns_is_default sh \<and> journal sh' = journal sh \<and> effects sh' = effects sh)"

lemma SetExistingMvcc_at_spec:
  assumes "good_tables C sh" "slot sh db k = Some u"
  obtains sh' where "SetExistingMvcc_at db k s sh = Some sh'" "good_tables C sh'" "primes sh' = primes sh"
    "slot sh' = (slot sh)(db := (slot sh db)(k \<mapsto> s))" "only_tables sh sh'"
proof -
  obtain t where t: "db_at db sh = Some t" "GetMvcc t k = Some u"
    using assms(2) by (auto simp: slot_def split: option.splits)
  have slt: "GetMvcc t = slot sh db" using t by (simp add: slot_def fun_eq_iff)
  from good_tablesD [OF assms(1) t(1)] obtain m where m: "mvcc t = Some m" "acct_ok (env C) t" by blast
  from SetExistingMvcc_spec [OF m t(2), of s] obtain t' m' where t': "SetExistingMvcc k s t = Some t'"
    "GetMvcc t' = (GetMvcc t)(k \<mapsto> s)" "acct_ok (env C) t'" "prime t' = prime t" "mvcc t' = Some m'" by blast
  have "\<exists>m. mvcc t' = Some m" using t'(5) by blast
  note up = upd_side [OF assms(1) t(1) t'(3,4) this]
  show thesis
    by (rule that [of "upd_db db (\<lambda>_. t') sh"])
       (use t t' up slt in \<open>simp_all add: SetExistingMvcc_at_def only_tables_def\<close>)
qed

lemma spec_commit_total:
  assumes "good_tables C sh" "\<forall>p\<in>set ps. slot sh (p_db p) (p_key p) \<noteq> None"
  obtains sh' where "spec_commit stamp (commit_cb applied) ps (Some sh) = Some sh'" "good_tables C sh'"
    "primes sh' = primes sh" "slot sh' = slots_after applied stamp ps (slot sh)" "only_tables sh sh'"
  using assms
proof (induction ps arbitrary: sh thesis)
  case Nil
  show ?case
    by (rule Nil.prems(1) [of sh]) (use Nil.prems in \<open>simp_all add: spec_commit_def slots_after_def fun_eq_iff only_tables_def\<close>)
next
  case (Cons p ps)
  obtain u where u: "slot sh (p_db p) (p_key p) = Some u" using Cons.prems(3) by auto
  from SetExistingMvcc_at_spec [OF Cons.prems(2) u, of "committed applied stamp p"] obtain sh1
    where sh1: "SetExistingMvcc_at (p_db p) (p_key p) (committed applied stamp p) sh = Some sh1" "good_tables C sh1"
      "primes sh1 = primes sh" "slot sh1 = (slot sh)(p_db p := (slot sh (p_db p))(p_key p \<mapsto> committed applied stamp p))"
      "only_tables sh sh1" by blast
  have a: "\<forall>q\<in>set ps. slot sh1 (p_db q) (p_key q) \<noteq> None" using Cons.prems(3) sh1(4) by auto
  obtain sh2 where sh2: "spec_commit stamp (commit_cb applied) ps (Some sh1) = Some sh2" "good_tables C sh2"
    "primes sh2 = primes sh1" "slot sh2 = slots_after applied stamp ps (slot sh1)" "only_tables sh1 sh2"
    using Cons.IH [OF _ sh1(2) a] by blast
  show ?case
  proof (rule Cons.prems(1) [of sh2])
    show "spec_commit stamp (commit_cb applied) (p # ps) (Some sh) = Some sh2"
      using sh1(1) sh2(1) by (simp add: spec_commit_def commit_cb_def committed_def)
    show "slot sh2 = slots_after applied stamp (p # ps) (slot sh)"
      using sh1(4) sh2(4) by (auto simp: slots_after_def fun_eq_iff arm_of_Cons split: option.split)
  qed (use sh1 sh2 in \<open>simp_all add: only_tables_def\<close>)
qed

lemma commit_inv:
  assumes inv: "shard_inv C sh" and stamp: "applied \<or> packed stamp \<le> kStampMask"
    and pr: "primes sh' = primes sh" and g: "good_tables C sh'"
    and sl: "slot sh' = slots_after applied stamp (pending (stamper sh)) (slot sh)"
    and en: "mvcc_enabled sh'" "ns_is_default sh'" and st: "pending (stamper sh') = []" "arms_wf (stamper sh')"
  shows "shard_inv C sh'"
proof -
  have "key_ok sh' db k" for db k
  proof (cases "arm_of (pending (stamper sh)) db k")
    case None
    with shard_invD(5) [OF inv, of db k] show ?thesis by (simp add: key_ok_def entry_of_def pr sl st slots_after_def)
  next
    case (Some p)
    then obtain s where "slot sh db k = Some s" "slot_matches p s" "entry_of sh db k \<noteq> None \<longleftrightarrow> \<not> IsTombstone s"
      using shard_invD(5) [OF inv, of db k] by (auto simp: key_ok_def)
    with Some show ?thesis
      using IsTombstone_commit_stamp [OF stamp, of "p_tomb p" "p_prev p"]
      by (auto simp: key_ok_def entry_of_def pr sl st slots_after_def slot_matches_def committed_def)
  qed
  with g en st show ?thesis by (simp add: shard_inv_def shard_wf_def tomb_first_def)
qed

lemma armed_slots: "shard_inv C sh \<Longrightarrow> \<forall>p\<in>set (pending (stamper sh)). slot sh (p_db p) (p_key p) \<noteq> None"
proof
  fix p assume inv: "shard_inv C sh" and p: "p \<in> set (pending (stamper sh))"
  then have "arm_of (pending (stamper sh)) (p_db p) (p_key p) \<noteq> None" by (auto simp: arm_of_None_iff)
  then show "slot sh (p_db p) (p_key p) \<noteq> None"
    using shard_invD(5) [OF inv, of "p_db p" "p_key p"] by (auto simp: key_ok_def)
qed

definition minted :: "u64 \<Rightarrow> u64 \<Rightarrow> mvcc_stamper \<Rightarrow> u64" where
  "minted now_ms mv st = (if mv = 0 then max (fst (HopStamp now_ms st)) (LocalMintFloor st) else mv)"

lemma minted_le: "mv \<noteq> 0 \<or> fst (HopStamp now_ms st) \<le> kStampMask \<Longrightarrow> mv \<noteq> 0 \<or> minted now_ms mv st \<le> kStampMask"
  using LocalMintFloor_le [of st] by (auto simp: minted_def)

lemma LocalMintFloor_HopStamp [simp]: "LocalMintFloor (snd (HopStamp now st)) = LocalMintFloor st"
  by (simp add: LocalMintFloor_def)

lemma AddLogRecord_command:
  assumes "e_opcode e = COMMAND"
  obtains evs j' where "AddLogRecord E now e j = Some (evs, j')" "js_mvcc_enabled j' = js_mvcc_enabled j"
proof -
  have "JournalWriter_Write e \<lparr>cur_dbid = None, extended_framing = js_extended_framing j\<rparr> \<noteq> None"
    using assms by (simp add: JournalWriter_Write_def write_body_def select_entry_def Let_def)
  then obtain x where "JournalWriter_Write e \<lparr>cur_dbid = None, extended_framing = js_extended_framing j\<rparr> = Some x" by blast
  then show thesis
    using that by (cases x) (auto simp: AddLogRecord_def CallOnChange_def CleanEntries_def Let_def split: clean_result.splits)
qed

lemma RecordEntry_spec:
  fixes sh :: "'v shard"
  assumes inv: "shard_inv C sh" and mv: "mv \<noteq> 0 \<or> fst (HopStamp now (stamper sh)) \<le> kStampMask"
    and en: "js_mvcc_enabled (journal sh)" and fl: "fl AND kEntryFlagExpired = 0"
  obtains sh' where "RecordEntry C now txid COMMAND dbid sl pl o_idx mv fl sh = Some sh'" "shard_inv C sh'"
    "primes sh' = primes sh" "pending (stamper sh') = []" "js_mvcc_enabled (journal sh')"
    "slot sh' = slots_after (mv \<noteq> 0)
       \<lparr>packed = minted now mv (stamper sh), origin_hash = OriginHash (stamper sh) o_idx\<rparr> (pending (stamper sh)) (slot sh)"
    "arena_used sh' \<le> arena_used sh"
proof -
  define st1 where "st1 = (if mv = 0 then snd (HopStamp now (stamper sh)) else stamper sh)"
  have st1: "pending st1 = pending (stamper sh)" "arms_wf st1" "OriginHash st1 = OriginHash (stamper sh)"
    using shard_invD(3) [OF inv] by (simp_all add: st1_def)
  define e where "e = \<lparr>e_txid = txid, e_opcode = COMMAND, e_dbid = of_nat dbid, e_slot = sl, e_lsn = 0,
     e_origin_idx = of_nat o_idx, e_mvcc = minted now mv (stamper sh), e_flags = fl, e_payload = pl\<rparr>"
  obtain evs j' where j': "AddLogRecord (items C) now e (journal sh) = Some (evs, j')"
    "js_mvcc_enabled j' = js_mvcc_enabled (journal sh)"
    using AddLogRecord_command [of e "items C" now "journal sh"] by (auto simp: e_def)
  define sh2 where "sh2 = effect (map ToConsumer evs) (sh\<lparr>stamper := st1, journal := j'\<rparr>)"
  have sh2: "slot sh2 = slot sh" "primes sh2 = primes sh" "good_tables C sh2" "stamper sh2 = st1"
    "mvcc_enabled sh2" "ns_is_default sh2" "journal sh2 = j'"
    using shard_invD [OF inv]
    by (simp_all add: sh2_def slot_def [abs_def] primes_def [abs_def] good_tables_def)
  let ?stamp = "\<lparr>packed = minted now mv (stamper sh), origin_hash = OriginHash (stamper sh) o_idx\<rparr>"
  obtain sh3 where sh3: "spec_commit ?stamp (commit_cb (mv \<noteq> 0)) (pending st1) (Some sh2) = Some sh3"
    "good_tables C sh3" "primes sh3 = primes sh2"
    "slot sh3 = slots_after (mv \<noteq> 0) ?stamp (pending st1) (slot sh2)" "only_tables sh2 sh3"
    using spec_commit_total [OF sh2(3), of "pending st1" ?stamp "mv \<noteq> 0"] armed_slots [OF inv] sh2(1) st1(1) by auto
  let ?c = "Commit (minted now mv (stamper sh)) o_idx (commit_cb (mv \<noteq> 0)) st1 (Some sh2)"
  have c: "snd ?c = Some sh3" "pending (fst ?c) = []" "arms_wf (fst ?c)"
    using sh3(1) Commit_clears [OF st1(2)] by (simp_all add: Commit_refines st1(3))
  have m: "(if js_mvcc_enabled (journal sh) \<and> COMMAND = COMMAND \<and> mv = 0
             then case HopStamp now (stamper sh) of (hop, st) \<Rightarrow> (max hop (LocalMintFloor st), st)
             else (mv, stamper sh)) = (minted now mv (stamper sh), st1)"
    using LocalMintFloor_HopStamp [of now "stamper sh"] en
    by (cases "HopStamp now (stamper sh)") (simp add: minted_def st1_def)
  have eq: "RecordEntry C now txid COMMAND dbid sl pl o_idx mv fl sh = Some (sh3\<lparr>stamper := fst ?c\<rparr>)"
    unfolding RecordEntry_def Let_def m prod.case
    by (cases ?c) (use c(1) in \<open>simp add: e_def [symmetric] j' fl en sh2(4) flip: sh2_def\<close>)
  show thesis
  proof (rule that [OF eq])
    show "shard_inv C (sh3\<lparr>stamper := fst ?c\<rparr>)"
      by (rule commit_inv [OF inv, of "mv \<noteq> 0" ?stamp])
         (use minted_le [OF mv] sh2 sh3 st1 c in \<open>simp_all add: only_tables_def\<close>)
    show "arena_used (sh3\<lparr>stamper := fst ?c\<rparr>) \<le> arena_used sh"
      by (simp add: Commit_def Let_def st1_def)
  qed (use sh2 sh3 st1 c j' en in \<open>simp_all add: only_tables_def\<close>)
qed

lemma RecordEntry_expired:
  fixes sh :: "'v shard"
  assumes wf: "shard_wf C sh" and en: "js_mvcc_enabled (journal sh)"
  obtains sh' where "RecordEntry C now txid COMMAND dbid sl pl o_idx mv kEntryFlagExpired sh = Some sh'"
    "shard_wf C sh'" "key_ok sh' = key_ok sh"
    "primes sh' = primes sh" "slot sh' = slot sh" "pending (stamper sh') = pending (stamper sh)"
    "js_mvcc_enabled (journal sh')" "arena_used sh' = arena_used sh"
proof -
  define st1 where "st1 = (if mv = 0 then snd (HopStamp now (stamper sh)) else stamper sh)"
  have st1: "pending st1 = pending (stamper sh)" "arms_wf st1"
    using wf by (simp_all add: st1_def shard_wf_def)
  define e where "e = \<lparr>e_txid = txid, e_opcode = COMMAND, e_dbid = of_nat dbid, e_slot = sl, e_lsn = 0,
     e_origin_idx = of_nat o_idx, e_mvcc = minted now mv (stamper sh), e_flags = kEntryFlagExpired, e_payload = pl\<rparr>"
  obtain evs j' where j': "AddLogRecord (items C) now e (journal sh) = Some (evs, j')"
    "js_mvcc_enabled j' = js_mvcc_enabled (journal sh)"
    using AddLogRecord_command [of e "items C" now "journal sh"] by (auto simp: e_def)
  define sh2 where "sh2 = effect (map ToConsumer evs) (sh\<lparr>stamper := st1, journal := j'\<rparr>)"
  have sh2: "slot sh2 = slot sh" "primes sh2 = primes sh" "good_tables C sh2" "stamper sh2 = st1"
    "mvcc_enabled sh2" "ns_is_default sh2" "journal sh2 = j'"
    using wf
    by (simp_all add: sh2_def shard_wf_def slot_def [abs_def] primes_def [abs_def] good_tables_def)
  have m: "(if js_mvcc_enabled (journal sh) \<and> COMMAND = COMMAND \<and> mv = 0
             then case HopStamp now (stamper sh) of (hop, st) \<Rightarrow> (max hop (LocalMintFloor st), st)
             else (mv, stamper sh)) = (minted now mv (stamper sh), st1)"
    using LocalMintFloor_HopStamp [of now "stamper sh"] en
    by (cases "HopStamp now (stamper sh)") (simp add: minted_def st1_def)
  have fl: "kEntryFlagExpired \<noteq> 0" by (simp add: kEntryFlagExpired_def)
  have eq: "RecordEntry C now txid COMMAND dbid sl pl o_idx mv kEntryFlagExpired sh = Some sh2"
    unfolding RecordEntry_def Let_def m prod.case
    by (simp add: e_def [symmetric] j' fl flip: sh2_def)
  have "shard_wf C sh2" "key_ok sh2 = key_ok sh"
    using wf sh2 st1 by (simp_all add: shard_wf_def key_ok_def entry_of_def fun_eq_iff)
  with eq sh2 st1 j' en show thesis using that [of sh2] by (simp add: st1_def)
qed

subsection \<open>The tombstone of an expired key\<close>

lemma own_tombstone_arms:
  assumes inv: "shard_inv C sh" and absent: "entry_of sh db k = None"
    and ps: "pending (stamper sh) = before @ p # after" and p: "p_tomb p" "p_db p = db" "p_key p = k"
  shows "arm_of (before @ after) db' k' = (if (db', k') = (db, k) then None else arm_of (pending (stamper sh)) db' k')"
    "tomb_first (before @ after)"
proof -
  have tf: "tomb_first (before @ p # after)" using shard_invD(6) [OF inv] by (simp add: ps)
  then show "tomb_first (before @ after)" by (simp add: tomb_first_def sorted_wrt_append)
  have b: "arm_of before db k = None" using tf p by (auto simp: tomb_first_def sorted_wrt_append arm_of_None_iff)
  have a: "arm_of after db k = None"
  proof (rule ccontr)
    assume "arm_of after db k \<noteq> None"
    then obtain q where q: "arm_of after db k = Some q" by blast
    then have "\<not> p_tomb q" using tf p arm_of_SomeD [OF q] by (auto simp: tomb_first_def sorted_wrt_append)
    moreover have "arm_of (pending (stamper sh)) db k = Some q" using q by (simp add: ps arm_of_append arm_of_Cons)
    ultimately show False using shard_invD(5) [OF inv, of db k] absent by (auto simp: key_ok_def slot_matches_def)
  qed
  show "arm_of (before @ after) db' k' = (if (db', k') = (db, k) then None else arm_of (pending (stamper sh)) db' k')"
    using a b p by (auto simp: ps arm_of_append arm_of_Cons split: option.split)
qed

text \<open>The slot left behind by an expiry: the tombstone directly above the expired stamp, or nothing.\<close>

definition own_tombstone :: "mvcc_stamp \<Rightarrow> mvcc_stamp option" where
  "own_tombstone prev = (if Mvcc prev = 0 then None else Some (ExpiryTombstoneFor prev))"

lemma own_tombstone_cb_total:
  assumes g: "good_tables C sh" and s: "slot sh db k = Some u"
  obtains sh' where
    "(if Mvcc prev = 0 then own_tombstone_cb C db k stamp_empty False prev (Some (stamp_empty, sh))
      else own_tombstone_cb C db k (ExpiryTombstoneFor prev) True prev (Some (stamp_empty, sh))) =
        Some (case own_tombstone prev of None \<Rightarrow> stamp_empty | Some t \<Rightarrow> t, sh')"
    "good_tables C sh'" "primes sh' = primes sh" "slot sh' = (slot sh)(db := (slot sh db)(k := own_tombstone prev))"
    "only_tables sh sh'"
proof (cases "Mvcc prev = 0")
  case True
  obtain t where t: "db_at db sh = Some t" using s by (auto simp: slot_def split: option.splits)
  from good_tablesD [OF g t] obtain m where m: "mvcc t = Some m" "acct_ok (env C) t" by blast
  note sp = EraseMvcc_spec [OF m, of k]
  have slt: "GetMvcc t = slot sh db" using t by (simp add: slot_def fun_eq_iff)
  have eq: "upd_db db (EraseMvcc (env C) k) sh = upd_db db (\<lambda>_. EraseMvcc (env C) k t) sh" by (rule upd_db_const [OF t])
  show thesis
    by (rule that [of "upd_db db (EraseMvcc (env C) k) sh"])
       (use True sp upd_side [OF g t sp(2,3,4)] slt in \<open>simp_all add: own_tombstone_cb_def own_tombstone_def eq only_tables_def\<close>)
next
  case False
  from SetExistingMvcc_at_spec [OF g s, of "ExpiryTombstoneFor prev"] obtain sh' where
    "SetExistingMvcc_at db k (ExpiryTombstoneFor prev) sh = Some sh'" "good_tables C sh'" "primes sh' = primes sh"
    "slot sh' = (slot sh)(db := (slot sh db)(k \<mapsto> ExpiryTombstoneFor prev))" "only_tables sh sh'" by blast
  with False show thesis by (intro that [of sh']) (simp_all add: own_tombstone_cb_def own_tombstone_def)
qed

lemma commit_own_tombstone_inv:
  fixes sh :: "'v shard"
  assumes inv: "shard_inv C sh" and absent: "entry_of sh db k = None"
  obtains found st sh' where "commit_own_tombstone C db k sh = Some (found, st, sh')" "shard_inv C sh'" "primes sh' = primes sh"
    "\<And>db' k'. (db', k') \<noteq> (db, k) \<Longrightarrow> slot sh' db' k' = slot sh db' k' \<and>
       arm_of (pending (stamper sh')) db' k' = arm_of (pending (stamper sh)) db' k'"
    "journal sh' = journal sh" "arena_used sh' = arena_used sh"
    "case arm_of (pending (stamper sh)) db k of None \<Rightarrow> \<not> found \<and> sh' = sh
     | Some p \<Rightarrow> found \<and> slot sh' db k = own_tombstone (p_prev p) \<and> arm_of (pending (stamper sh')) db k = None \<and>
         st = (case own_tombstone (p_prev p) of None \<Rightarrow> stamp_empty | Some t \<Rightarrow> t)"
proof (cases "split_first (\<lambda>p. p_db p = db \<and> p_tomb p \<and> p_key p = k) (pending (stamper sh))")
  case None
  have "arm_of (pending (stamper sh)) db k = None"
  proof (rule ccontr)
    assume "arm_of (pending (stamper sh)) db k \<noteq> None"
    then obtain p where p: "arm_of (pending (stamper sh)) db k = Some p" by blast
    then have "p_tomb p" using shard_invD(5) [OF inv, of db k] absent by (auto simp: key_ok_def slot_matches_def)
    with None arm_of_SomeD [OF p] show False by (auto simp: split_first_None)
  qed
  moreover have "split_first (\<lambda>a. a_db_index a = db \<and> a_tombstone a \<and> ArmedKey (stamper sh) a = k)
      (armed_list (stamper sh)) = None"
    using None by (auto simp: split_first_None pending_def)
  ultimately show thesis
    using that [of False stamp_empty sh] inv by (simp add: commit_own_tombstone_def CommitOwnTombstone_def)
next
  case (Some r)
  obtain before p after where r: "r = (before, p, after)" by (cases r) auto
  from split_first_Some [OF Some [unfolded r]]
  have ps: "pending (stamper sh) = before @ p # after" "p_tomb p" "p_db p = db" "p_key p = k" by auto
  note ao = own_tombstone_arms [OF inv absent ps]
  have armp: "arm_of (pending (stamper sh)) db k = Some p"
    using ao(1) [of db k] ps by (auto simp: arm_of_append arm_of_Cons split: option.splits)
  then obtain u where u: "slot sh db k = Some u" using shard_invD(5) [OF inv, of db k] by (auto simp: key_ok_def)
  from own_tombstone_cb_total [OF shard_invD(4) [OF inv] u, of "p_prev p"] obtain sh1 where sh1:
    "(if Mvcc (p_prev p) = 0 then own_tombstone_cb C db k stamp_empty False (p_prev p) (Some (stamp_empty, sh))
      else own_tombstone_cb C db k (ExpiryTombstoneFor (p_prev p)) True (p_prev p) (Some (stamp_empty, sh))) =
        Some (case own_tombstone (p_prev p) of None \<Rightarrow> stamp_empty | Some t \<Rightarrow> t, sh1)"
    "good_tables C sh1" "primes sh1 = primes sh" "slot sh1 = (slot sh)(db := (slot sh db)(k := own_tombstone (p_prev p)))"
    "only_tables sh sh1" by blast
  let ?c = "CommitOwnTombstone db k (own_tombstone_cb C) (stamper sh) (Some (stamp_empty, sh))"
  have "map_prod id (map_prod pending id) ?c =
      (True, before @ after, Some (case own_tombstone (p_prev p) of None \<Rightarrow> stamp_empty | Some t \<Rightarrow> t, sh1))"
    using sh1(1) by (simp only: CommitOwnTombstone_refines spec_commit_own_def Some r option.case prod.case)
  then have c: "fst ?c" "pending (fst (snd ?c)) = before @ after"
    "snd (snd ?c) = Some (case own_tombstone (p_prev p) of None \<Rightarrow> stamp_empty | Some t \<Rightarrow> t, sh1)"
    by (cases ?c; simp)+
  let ?sh = "sh1\<lparr>stamper := fst (snd ?c)\<rparr>"
  have eq: "commit_own_tombstone C db k sh = Some (True, case own_tombstone (p_prev p) of None \<Rightarrow> stamp_empty | Some t \<Rightarrow> t, ?sh)"
    using c by (simp add: commit_own_tombstone_def split_def)
  have "key_ok ?sh db' k'" for db' k'
  proof (cases "(db', k') = (db, k)")
    case True
    then show ?thesis
      using ao(1) [of db k] sh1 c absent by (auto simp: key_ok_def entry_of_def own_tombstone_def)
  next
    case False
    with shard_invD(5) [OF inv, of db' k'] ao(1) [of db' k'] sh1 c show ?thesis
      by (auto simp: key_ok_def entry_of_def)
  qed
  moreover have "shard_wf C ?sh"
    using shard_invD [OF inv] sh1 c ao(2) CommitOwnTombstone_wf [OF shard_invD(3) [OF inv]]
    by (simp add: shard_wf_def only_tables_def)
  ultimately have "shard_inv C ?sh" by (simp add: shard_inv_def)
  then show thesis
    by (rule that [OF eq])
       (use sh1 ao c armp in \<open>auto simp: only_tables_def CommitOwnTombstone_def Let_def split: option.splits\<close>)
qed

text \<open>The eviction policy calls the recorder before it deletes the key: then only the other keys stay in order
  until the deletion.\<close>

lemma commit_own_tombstone_but:
  fixes sh :: "'v shard"
  assumes inv: "shard_inv C sh"
  obtains found st sh' where "commit_own_tombstone C db k sh = Some (found, st, sh')" "shard_inv_but C db k sh'"
    "primes sh' = primes sh" "journal sh' = journal sh" "arena_used sh' = arena_used sh"
    "\<And>db' k'. (db', k') \<noteq> (db, k) \<Longrightarrow> slot sh' db' k' = slot sh db' k' \<and>
       arm_of (pending (stamper sh')) db' k' = arm_of (pending (stamper sh)) db' k'"
proof (cases "split_first (\<lambda>p. p_db p = db \<and> p_tomb p \<and> p_key p = k) (pending (stamper sh))")
  case None
  have "split_first (\<lambda>a. a_db_index a = db \<and> a_tombstone a \<and> ArmedKey (stamper sh) a = k)
      (armed_list (stamper sh)) = None"
    using None by (auto simp: split_first_None pending_def)
  then show thesis
    using that [of False stamp_empty sh] inv
    by (simp add: commit_own_tombstone_def CommitOwnTombstone_def shard_inv_iff [of C sh db k])
next
  case (Some r)
  obtain before p after where r: "r = (before, p, after)" by (cases r) auto
  from split_first_Some [OF Some [unfolded r]]
  have ps: "pending (stamper sh) = before @ p # after" "p_tomb p" "p_db p = db" "p_key p = k" by auto
  have ao: "arm_of (before @ after) db' k' = arm_of (pending (stamper sh)) db' k'" if "(db', k') \<noteq> (db, k)" for db' k'
    using that ps by (auto simp: arm_of_append arm_of_Cons split: option.split)
  have tf: "tomb_first (before @ after)"
    using shard_invD(6) [OF inv] ps(1) by (simp add: tomb_first_def sorted_wrt_append)
  obtain u where u: "slot sh db k = Some u" using armed_slots [OF inv] ps by auto
  from own_tombstone_cb_total [OF shard_invD(4) [OF inv] u, of "p_prev p"] obtain sh1 where sh1:
    "(if Mvcc (p_prev p) = 0 then own_tombstone_cb C db k stamp_empty False (p_prev p) (Some (stamp_empty, sh))
      else own_tombstone_cb C db k (ExpiryTombstoneFor (p_prev p)) True (p_prev p) (Some (stamp_empty, sh))) =
        Some (case own_tombstone (p_prev p) of None \<Rightarrow> stamp_empty | Some t \<Rightarrow> t, sh1)"
    "good_tables C sh1" "primes sh1 = primes sh" "slot sh1 = (slot sh)(db := (slot sh db)(k := own_tombstone (p_prev p)))"
    "only_tables sh sh1" by blast
  let ?c = "CommitOwnTombstone db k (own_tombstone_cb C) (stamper sh) (Some (stamp_empty, sh))"
  have "map_prod id (map_prod pending id) ?c =
      (True, before @ after, Some (case own_tombstone (p_prev p) of None \<Rightarrow> stamp_empty | Some t \<Rightarrow> t, sh1))"
    using sh1(1) by (simp only: CommitOwnTombstone_refines spec_commit_own_def Some r option.case prod.case)
  then have c: "fst ?c" "pending (fst (snd ?c)) = before @ after"
    "snd (snd ?c) = Some (case own_tombstone (p_prev p) of None \<Rightarrow> stamp_empty | Some t \<Rightarrow> t, sh1)"
    by (cases ?c; simp)+
  let ?sh = "sh1\<lparr>stamper := fst (snd ?c)\<rparr>"
  have eq: "commit_own_tombstone C db k sh = Some (True, case own_tombstone (p_prev p) of None \<Rightarrow> stamp_empty | Some t \<Rightarrow> t, ?sh)"
    using c by (simp add: commit_own_tombstone_def split_def)
  have "key_ok ?sh db' k'" if "(db', k') \<noteq> (db, k)" for db' k'
    using shard_invD(5) [OF inv, of db' k'] ao [OF that] that sh1 c by (auto simp: key_ok_def entry_of_def)
  moreover have "shard_wf C ?sh"
    using shard_invD [OF inv] sh1 c tf CommitOwnTombstone_wf [OF shard_invD(3) [OF inv]]
    by (simp add: shard_wf_def only_tables_def)
  ultimately have "shard_inv_but C db k ?sh" by (simp add: shard_inv_but_def)
  then show thesis
    by (rule that [OF eq])
       (use sh1 ao c in \<open>auto simp: only_tables_def CommitOwnTombstone_def Let_def split: option.splits\<close>)
qed

subsection \<open>The end of an epoch\<close>

lemma rollback_cb_spec:
  assumes g: "good_tables C sh"
  shows "good_tables C (rollback_cb C db k sh)" "primes (rollback_cb C db k sh) = primes sh"
    "slot (rollback_cb C db k sh) = (slot sh)(db := (slot sh db)(k :=
       case slot sh db k of Some s \<Rightarrow> if IsTombstone s then None else Some s | None \<Rightarrow> None))"
    "only_tables sh (rollback_cb C db k sh)"
proof (atomize (full), cases "db_at db sh", goal_cases)
  case 1
  then have "\<not> IsDbValid db sh" by (auto simp: IsDbValid_def db_at_def split: if_splits)
  with 1 g show ?case by (simp add: rollback_cb_def slot_def fun_eq_iff only_tables_def)
next
  case (2 t)
  then have v: "IsDbValid db sh" by (auto simp: IsDbValid_def db_at_def split: if_splits)
  have slt: "GetMvcc t = slot sh db" using 2 by (simp add: slot_def fun_eq_iff)
  from good_tablesD [OF g 2] obtain m where m: "mvcc t = Some m" "acct_ok (env C) t" by blast
  note sp = RollbackUncommittedTombstone_spec [OF m, of k, unfolded slt]
  have gm: "(case slot sh db k of None \<Rightarrow> slot sh db | Some s \<Rightarrow> if IsTombstone s then (slot sh db)(k := None) else slot sh db)
    = (slot sh db)(k := case slot sh db k of Some s \<Rightarrow> if IsTombstone s then None else Some s | None \<Rightarrow> None)"
    by (auto simp: fun_eq_iff split: option.split)
  note up = upd_side [OF g 2 sp(2,3,4)]
  show ?case
    unfolding rollback_cb_def upd_db_const [OF 2, of "RollbackUncommittedTombstone (env C) k"]
    using v up sp(1) gm by (simp add: only_tables_def)
qed

lemma EndEpoch_fold:
  assumes "good_tables C sh" "sh' = fold (\<lambda>p. if p_tomb p then rollback_cb C (p_db p) (p_key p) else id) ps sh"
  shows "good_tables C sh' \<and> primes sh' = primes sh \<and> only_tables sh sh' \<and>
    (\<forall>db k. slot sh' db k = slot sh db k \<or>
       slot sh' db k = None \<and> (\<exists>s p. slot sh db k = Some s \<and> IsTombstone s \<and> p \<in> set ps \<and> p_db p = db \<and> p_key p = k \<and> p_tomb p))"
  using assms
proof (induction ps arbitrary: sh sh')
  case (Cons p ps)
  let ?sh1 = "(if p_tomb p then rollback_cb C (p_db p) (p_key p) else id) sh"
  have s1: "good_tables C ?sh1" "primes ?sh1 = primes sh" "only_tables sh ?sh1"
    "\<forall>db k. slot ?sh1 db k = slot sh db k \<or>
       slot ?sh1 db k = None \<and> (\<exists>s. slot sh db k = Some s \<and> IsTombstone s \<and> p_db p = db \<and> p_key p = k \<and> p_tomb p)"
    using rollback_cb_spec [OF Cons.prems(1), of "p_db p" "p_key p"] Cons.prems(1)
    by (auto simp: only_tables_def split: option.splits if_splits)
  have "sh' = fold (\<lambda>p. if p_tomb p then rollback_cb C (p_db p) (p_key p) else id) ps ?sh1"
    using Cons.prems(2) by simp
  from Cons.IH [OF s1(1) this] s1 show ?case
    by (simp add: only_tables_def) (metis option.distinct(1))
qed (simp add: only_tables_def)

lemma EndEpoch_inv:
  assumes inv: "shard_inv C sh"
  defines "sh' \<equiv> EndEpoch C sh"
  shows "shard_inv C sh'" "primes sh' = primes sh" "pending (stamper sh') = []" "journal sh' = journal sh"
    "slot sh' db k = slot sh db k \<or>
     slot sh' db k = None \<and> (\<exists>s p. slot sh db k = Some s \<and> IsTombstone s \<and> p \<in> set (pending (stamper sh)) \<and> p_db p = db \<and>
       p_key p = k \<and> p_tomb p)"
proof -
  let ?e = "EndOfWriteEpoch (rollback_cb C) (stamper sh) sh"
  note f = EndEpoch_fold [OF shard_invD(4) [OF inv] EndOfWriteEpoch_erases [of "rollback_cb C" "stamper sh" sh]]
  have eq: "sh' = (snd ?e)\<lparr>stamper := fst ?e\<rparr>"
    using shard_invD(1) [OF inv] by (simp add: sh'_def EndEpoch_def split_def Let_def)
  note c = EndOfWriteEpoch_clears [of "rollback_cb C" "stamper sh" sh]
  show pr: "primes sh' = primes sh" and p: "pending (stamper sh') = []" and "journal sh' = journal sh"
    using f c by (simp_all add: eq only_tables_def)
  show sl: "slot sh' db k = slot sh db k \<or>
     slot sh' db k = None \<and> (\<exists>s p. slot sh db k = Some s \<and> IsTombstone s \<and> p \<in> set (pending (stamper sh)) \<and> p_db p = db \<and>
       p_key p = k \<and> p_tomb p)" for db k
    using f by (simp add: eq)
  have "key_ok sh' db k" for db k
    using shard_invD(5) [OF inv, of db k] sl [of db k] by (auto simp: key_ok_def entry_of_def pr p)
  moreover have "shard_wf C sh'"
    using shard_invD [OF inv] f c by (simp add: shard_wf_def eq only_tables_def tomb_first_def)
  ultimately show "shard_inv C sh'" by (simp add: shard_inv_def)
qed

end
