(* ===== verification/Slice_Access.thy ===== *)
theory Slice_Access
  imports Journal_Record
begin

text \<open>
  The access paths of \<^verbatim>\<open>DbSlice\<close> (\<^verbatim>\<open>src/server/db_slice.cc\<close>): lookup with lazy expiry, find-or-insert with
  the memory checks and the eviction policy, expiry times and the EXPIRE conditions. What the hash table and
  the snapshot callbacks decide is an argument, the record \<open>access_env\<close>: which buckets \<^verbatim>\<open>InsertNew\<close> shows to
  the eviction policy and whether it succeeds, the bucket versions, and the change callbacks as functions on
  the shard. \<^term>\<open>None\<close> is a failed \<^verbatim>\<open>CHECK\<close>.
\<close>

datatype op_status = OK | KEY_NOTFOUND | WRONG_TYPE | OUT_OF_MEMORY | OUT_OF_RANGE | SKIPPED
datatype stats_mode = kReadStats | kMutableStats

record change_consumer =
  eventually_consistent :: bool
  snapshot_version :: u64

text \<open>One call of the table into \<^verbatim>\<open>PrimeEvictionPolicy\<close>: the keys of the regular buckets, or the last slot of
  the chosen stash bucket (empty, or a key with its sticky bit and whether a transaction holds its lock).\<close>

datatype evp_call = CallGC "key list" | CallEvict "(key \<times> bool \<times> bool) option"

text \<open>A new value: its payload and the attributes of \<^verbatim>\<open>CompactObj\<close> the slice reads.\<close>

record 'v new_value =
  nv_value :: 'v
  nv_type :: nat
  nv_malloc :: nat
  nv_flag :: bool
  nv_member_exp :: bool
  nv_strmap2 :: bool

record 'v access_env =
  cache_mode :: bool
  loading :: bool
  will_block :: bool
  omit_redundant_writes :: bool
  omittable_operation :: bool
  change_cb :: "change_consumer list"
  max_bucket_version :: "nat \<Rightarrow> key \<Rightarrow> u64"
  tiered :: "(int \<times> (int \<Rightarrow> int)) option"
  empty_value :: 'v
  string_value :: "bytes \<Rightarrow> 'v new_value"
  value_bytes :: "'v \<Rightarrow> bytes"
  dump_value :: "'v prime_entry \<Rightarrow> bytes"
  should_stash :: "nat \<Rightarrow> 'v prime_entry \<Rightarrow> bool"
  pre_update :: "nat \<Rightarrow> key \<Rightarrow> 'v shard \<Rightarrow> 'v shard"
  insert_change_cb :: "nat \<Rightarrow> key \<Rightarrow> 'v shard \<Rightarrow> 'v shard"
  insert_plan :: "nat \<Rightarrow> key \<Rightarrow> 'v shard \<Rightarrow> evp_call list \<times> int option"

record it_and_updater =
  iu_updater :: auto_updater
  is_new :: bool
  omitted_journal :: bool

definition lookup :: "nat \<Rightarrow> key \<Rightarrow> 'v shard \<Rightarrow> 'v prime_entry option" where
  "lookup db key sh = (case db_at db sh of None \<Rightarrow> None | Some t \<Rightarrow> tbl_find (prime t) key)"

definition upd_entry :: "nat \<Rightarrow> key \<Rightarrow> 'v prime_entry \<Rightarrow> 'v shard \<Rightarrow> 'v shard" where
  "upd_entry db key e = upd_db db (\<lambda>t. t\<lparr>prime := tbl_set key e (prime t)\<rparr>)"

definition upd_stats :: "nat \<Rightarrow> (table_stats \<Rightarrow> table_stats) \<Rightarrow> 'v shard \<Rightarrow> 'v shard" where
  "upd_stats db f = upd_db db (\<lambda>t. t\<lparr>tstats := f (tstats t)\<rparr>)"

definition upd_events :: "(slice_events \<Rightarrow> slice_events) \<Rightarrow> 'v shard \<Rightarrow> 'v shard" where
  "upd_events f sh = sh\<lparr>sl_events := f (sl_events sh)\<rparr>"

subsection \<open>Lazy expiry\<close>

definition note_expired :: "nat \<Rightarrow> 'v shard \<Rightarrow> 'v shard" where
  "note_expired db sh =
     upd_stats db (\<lambda>s. s\<lparr>ev_expired_keys := ev_expired_keys s + 1\<rparr>)
       (upd_events (\<lambda>e. e\<lparr>sl_expired_keys := sl_expired_keys e + 1\<rparr>) sh)"

text \<open>The result tells whether the entry is still there, and carries the collected events.\<close>

definition ExpireIfNeeded ::
  "slice_cfg \<Rightarrow> u64 \<Rightarrow> db_context \<Rightarrow> key \<Rightarrow> key list option \<Rightarrow> bool \<Rightarrow> 'v shard \<Rightarrow>
   (bool \<times> key list option \<times> 'v shard) option" where
  "ExpireIfNeeded C now_ms cx key events journal_expiry sh =
     (case lookup (cx_db cx) key sh of
        None \<Rightarrow> Some (False, events, sh)
      | Some e \<Rightarrow>
        (case pk_expire e of
           None \<Rightarrow> Some (True, events, sh)
         | Some expire_time \<Rightarrow>
             if sint (cx_time_now_ms cx) < sint expire_time \<or> \<not> expire_allowed C \<or>
                (is_replica C \<and> \<not> replica_delete_expired C)
             then Some (True, events, sh)
             else
               let (events1, sh1) =
                     (if expired_keys_events_recording C
                      then (case events of
                              Some l \<Rightarrow> (Some (l @ [key]), sh)
                            | None \<Rightarrow> (None, effect [ExpiredEvent (cx_db cx) key] sh))
                      else (events, sh));
                   sh2 = Del C (cx_db cx) key False kExpired sh1
               in case (if has_journal C \<and> journal_expiry then RecordExpiryBlocking C now_ms cx key sh2 else Some sh2) of
                    None \<Rightarrow> None
                  | Some sh3 \<Rightarrow> Some (False, events1, note_expired (cx_db cx) sh3)))"

text \<open>\<^verbatim>\<open>ExpireAllIfNeeded\<close>: the traversal of one table visits the keys it holds; the clock is read per key.\<close>

fun expire_keys ::
  "slice_cfg \<Rightarrow> (nat \<Rightarrow> key \<Rightarrow> u64) \<Rightarrow> nat \<Rightarrow> key list \<Rightarrow> key list \<Rightarrow> 'v shard \<Rightarrow> (key list \<times> 'v shard) option" where
  "expire_keys C clk db [] evs sh = Some (evs, sh)"
| "expire_keys C clk db (k # ks) evs sh =
     (case lookup db k sh of
        None \<Rightarrow> expire_keys C clk db ks evs sh
      | Some e \<Rightarrow>
          if pk_expire e = None then expire_keys C clk db ks evs sh
          else (case ExpireIfNeeded C (clk db k)
                       \<lparr>cx_db = db, cx_time_now_ms = clk db k, cx_repl_origin_idx = 0, cx_repl_mvcc = 0, cx_repl_lww_guard = False\<rparr>
                       k (Some evs) True sh of
                  None \<Rightarrow> None
                | Some (_, evs', sh') \<Rightarrow> expire_keys C clk db ks (case evs' of Some l \<Rightarrow> l | None \<Rightarrow> []) sh'))"

fun expire_dbs ::
  "slice_cfg \<Rightarrow> (nat \<Rightarrow> key \<Rightarrow> u64) \<Rightarrow> nat list \<Rightarrow> 'v shard \<Rightarrow> ((nat \<times> key list) list \<times> 'v shard) option" where
  "expire_dbs C clk [] sh = Some ([], sh)"
| "expire_dbs C clk (db # dbs) sh =
     (case db_at db sh of
        None \<Rightarrow> expire_dbs C clk dbs sh
      | Some t \<Rightarrow>
          (case expire_keys C clk db (map fst (prime t)) [] sh of
             None \<Rightarrow> None
           | Some (evs, sh') \<Rightarrow> map_option (\<lambda>(es, s). ((db, evs) # es, s)) (expire_dbs C clk dbs sh')))"

definition ExpireAllIfNeeded :: "slice_cfg \<Rightarrow> (nat \<Rightarrow> key \<Rightarrow> u64) \<Rightarrow> 'v shard \<Rightarrow> 'v shard option" where
  "ExpireAllIfNeeded C clk sh =
     (case expire_dbs C clk [0..<length (db_arr sh)] sh of
        None \<Rightarrow> None
      | Some (es, sh1) \<Rightarrow>
          Some (effect (map (\<lambda>(db, ks). SendExpired db ks) (filter (\<lambda>(_, ks). ks \<noteq> []) es)) (EndEpoch C sh1)))"

subsection \<open>Lookup\<close>

definition note_miss :: "stats_mode \<Rightarrow> nat \<Rightarrow> 'v shard \<Rightarrow> 'v shard" where
  "note_miss mode db sh =
     (let w = (if mode = kReadStats then 1 else 0)
      in upd_stats db (\<lambda>s. s\<lparr>ev_misses := ev_misses s + w\<rparr>)
           (upd_events (\<lambda>e. e\<lparr>sl_misses := sl_misses e + w\<rparr>) sh))"

definition note_hit :: "slice_cfg \<Rightarrow> stats_mode \<Rightarrow> nat \<Rightarrow> key \<Rightarrow> 'v prime_entry \<Rightarrow> 'v shard \<Rightarrow> 'v shard" where
  "note_hit C mode db key pe sh =
     (case mode of
        kMutableStats \<Rightarrow> upd_events (\<lambda>e. e\<lparr>ev_mutations := ev_mutations e + 1\<rparr>) sh
      | kReadStats \<Rightarrow>
          let sh1 = upd_stats db (\<lambda>s. s\<lparr>ev_hits := ev_hits s + 1\<rparr>)
                      (upd_events (\<lambda>e. e\<lparr>sl_hits := sl_hits e + 1\<rparr>) sh);
              sh2 = upd_db db (\<lambda>t. case slots_stats t of
                        None \<Rightarrow> t
                      | Some ss \<Rightarrow> let sid = KeySlot (env C) key
                                   in t\<lparr>slots_stats := Some (ss(sid := (ss sid)\<lparr>total_reads := total_reads (ss sid) + 1\<rparr>))\<rparr>) sh1
          in upd_events (\<lambda>e. if pv_external pe
                             then (if pv_cool pe then e\<lparr>ram_cool_hits := ram_cool_hits e + 1\<rparr>
                                   else e\<lparr>ram_misses := ram_misses e + 1\<rparr>)
                             else e\<lparr>ram_hits := ram_hits e + 1\<rparr>) sh2)"

definition settle_tiered :: "nat \<Rightarrow> key \<Rightarrow> 'v prime_entry \<Rightarrow> 'v shard \<Rightarrow> 'v shard" where
  "settle_tiered db key e sh =
     (let (e1, sh1) = (if pv_stash_pending e
                       then (e\<lparr>pv_stash_pending := False\<rparr>,
                             upd_entry db key (e\<lparr>pv_stash_pending := False\<rparr>) (effect [CancelStash db key] sh))
                       else (e, sh))
      in if pv_external e1 \<and> pv_cool e1
         then upd_entry db key (e1\<lparr>pv_external := False, pv_cool := False\<rparr>) (effect [WarmupValue db key] sh1)
         else sh1)"

definition FindInternal ::
  "slice_cfg \<Rightarrow> u64 \<Rightarrow> db_context \<Rightarrow> key \<Rightarrow> nat option \<Rightarrow> stats_mode \<Rightarrow> 'v shard \<Rightarrow> (op_status \<times> 'v shard) option" where
  "FindInternal C now_ms cx key req_obj_type mode sh =
     (let db = cx_db cx in
      if \<not> IsDbValid db sh then Some (KEY_NOTFOUND, sh)
      else case lookup db key sh of
        None \<Rightarrow> Some (KEY_NOTFOUND, note_miss mode db sh)
      | Some e \<Rightarrow>
          if (case req_obj_type of None \<Rightarrow> False | Some ty \<Rightarrow> pv_type e \<noteq> ty)
          then Some (WRONG_TYPE, note_miss mode db sh)
          else
            (case (if pk_expire e \<noteq> None then map_option (\<lambda>(v, _, s). (v, s)) (ExpireIfNeeded C now_ms cx key None True sh)
                   else Some (True, sh)) of
               None \<Rightarrow> None
             | Some (valid, sh1) \<Rightarrow>
                 if \<not> valid then Some (KEY_NOTFOUND, note_miss mode db sh1)
                 else Some (OK, settle_tiered db key e (note_hit C mode db key e sh1))))"

definition IsOmittableWrite :: "'v access_env \<Rightarrow> nat \<Rightarrow> key \<Rightarrow> 'v shard \<Rightarrow> bool \<times> 'v shard" where
  "IsOmittableWrite A db key sh =
     (if \<not> omit_redundant_writes A \<or> mvcc_enabled sh then (False, sh)
      else if omittable_operation A \<and> length (change_cb A) = 1
      then let cb = hd (change_cb A);
               omit = (eventually_consistent cb \<and> max_bucket_version A db key < snapshot_version cb \<and>
                       length (consumers (journal sh)) = 1)
           in (omit, upd_events (\<lambda>e. e\<lparr>journal_omit := journal_omit e + of_bool omit\<rparr>) sh)
      else (False, sh))"

definition prepare_update :: "'v access_env \<Rightarrow> nat \<Rightarrow> key \<Rightarrow> 'v shard \<Rightarrow> bool \<times> 'v shard" where
  "prepare_update A db key sh =
     (let (omitted, sh1) = IsOmittableWrite A db key sh
      in (omitted, if omitted then sh1 else pre_update A db key sh1))"

definition FindMutableInternal ::
  "slice_cfg \<Rightarrow> 'v access_env \<Rightarrow> u64 \<Rightarrow> db_context \<Rightarrow> key \<Rightarrow> nat option \<Rightarrow> 'v shard \<Rightarrow>
   ((op_status + it_and_updater) \<times> 'v shard) option" where
  "FindMutableInternal C A now_ms cx key req_obj_type sh =
     (case FindInternal C now_ms cx key req_obj_type kMutableStats sh of
        None \<Rightarrow> None
      | Some (st, sh1) \<Rightarrow>
          if st \<noteq> OK then Some (Inl st, sh1)
          else let (omitted, sh2) = prepare_update A (cx_db cx) key sh1
               in case lookup (cx_db cx) key sh2 of
                    None \<Rightarrow> Some (Inl KEY_NOTFOUND, sh2)
                  | Some e \<Rightarrow> Some (Inr \<lparr>iu_updater = AutoUpdater_new (cx_db cx) key e, is_new = False,
                                        omitted_journal = omitted\<rparr>, sh2))"

subsection \<open>Insertion and the eviction policy\<close>

record evp_state =
  evicted :: u64
  checked :: u64

fun evp_gc ::
  "slice_cfg \<Rightarrow> u64 \<Rightarrow> db_context \<Rightarrow> key list \<Rightarrow> evp_state \<Rightarrow> 'v shard \<Rightarrow> (evp_state \<times> 'v shard) option" where
  "evp_gc C now_ms cx [] st sh = Some (st, sh)"
| "evp_gc C now_ms cx (k # ks) st sh =
     (case lookup (cx_db cx) k sh of
        None \<Rightarrow> evp_gc C now_ms cx ks st sh
      | Some e \<Rightarrow>
          if pk_expire e = None then evp_gc C now_ms cx ks st sh
          else (case ExpireIfNeeded C now_ms cx k None True sh of
                  None \<Rightarrow> None
                | Some (_, _, sh') \<Rightarrow> evp_gc C now_ms cx ks (st\<lparr>checked := checked st + 1\<rparr>) sh'))"

definition evp_evict ::
  "slice_cfg \<Rightarrow> 'v access_env \<Rightarrow> u64 \<Rightarrow> db_context \<Rightarrow> (key \<times> bool \<times> bool) option \<Rightarrow> evp_state \<Rightarrow> 'v shard \<Rightarrow>
   (evp_state \<times> 'v shard) option" where
  "evp_evict C A now_ms cx last_slot st sh =
     (if \<not> (cache_mode A \<and> \<not> is_replica C) \<or> will_block A then Some (st, sh)
      else case last_slot of
        None \<Rightarrow> Some (st, sh)
      | Some (k, sticky, locked) \<Rightarrow>
          if sticky \<or> locked then Some (st, sh)
          else (case (if has_journal C then RecordExpiryBlocking C now_ms cx k sh else Some sh) of
                  None \<Rightarrow> None
                | Some sh1 \<Rightarrow> Some (st\<lparr>evicted := evicted st + 1\<rparr>, Del C (cx_db cx) k False kEvicted sh1)))"

fun run_evp ::
  "slice_cfg \<Rightarrow> 'v access_env \<Rightarrow> u64 \<Rightarrow> db_context \<Rightarrow> evp_call list \<Rightarrow> evp_state \<Rightarrow> 'v shard \<Rightarrow>
   (evp_state \<times> 'v shard) option" where
  "run_evp C A now_ms cx [] st sh = Some (st, sh)"
| "run_evp C A now_ms cx (c # cs) st sh =
     (case (case c of
              CallGC ks \<Rightarrow> if will_block A then Some (st, sh) else evp_gc C now_ms cx ks st sh
            | CallEvict slot \<Rightarrow> evp_evict C A now_ms cx slot st sh) of
        None \<Rightarrow> None
      | Some (st', sh') \<Rightarrow> run_evp C A now_ms cx cs st' sh')"

text \<open>The memory left for the insert: tiered storage gives back memory below the red line, and what it keeps
  cool counts as available.\<close>

definition reclaim :: "'v access_env \<Rightarrow> key \<Rightarrow> 'v shard \<Rightarrow> int \<times> 'v shard" where
  "reclaim A key sh =
     (case tiered A of
        None \<Rightarrow> (- int (length key), sh)
      | Some (cool_usage, reclaim_memory) \<Rightarrow>
          let red_line = int (max (length key * 2) (40 * 1024));
              sh1 = (if memory_budget sh < red_line
                     then sh\<lparr>memory_budget := memory_budget sh + reclaim_memory (red_line - memory_budget sh)\<rparr> else sh)
          in (- int (length key) + cool_usage, sh1))"

definition fresh_entry :: "slice_cfg \<Rightarrow> 'v access_env \<Rightarrow> key \<Rightarrow> 'v prime_entry" where
  "fresh_entry C A key =
     (let (inline, used) = key_rep C key False
      in \<lparr>pk_expire = None, pk_inline = inline, pk_malloc = used, pk_sticky = False, pv_value = empty_value A, pv_type = 0, pv_malloc = 0,
          pv_flag = False, pv_member_exp = False, pv_stash_pending = False, pv_external = False, pv_cool = False,
          pv_strmap2 = False\<rparr>)"

definition account_insert :: "slice_cfg \<Rightarrow> key \<Rightarrow> 'v prime_entry \<Rightarrow> u64 \<Rightarrow> 'v db_table \<Rightarrow> 'v db_table" where
  "account_insert C key e n_evicted t =
     (let t1 = (if pk_inline e then t\<lparr>tstats := (tstats t)\<lparr>inline_keys := inline_keys (tstats t) + 1\<rparr>\<rparr>
                else AccountObjectMemory (env C) key OBJ_KEY (int (pk_malloc e)) t);
          t2 = t1\<lparr>tstats := (tstats t1)\<lparr>ev_evicted_keys := ev_evicted_keys (tstats t1) + n_evicted\<rparr>\<rparr>
      in case slots_stats t2 of
           None \<Rightarrow> t2
         | Some ss \<Rightarrow> let sid = KeySlot (env C) key
                      in t2\<lparr>slots_stats := Some (ss(sid := (ss sid)\<lparr>key_count := key_count (ss sid) + 1\<rparr>))\<rparr>)"

definition insert_new ::
  "slice_cfg \<Rightarrow> 'v access_env \<Rightarrow> u64 \<Rightarrow> db_context \<Rightarrow> key \<Rightarrow> bool \<Rightarrow> 'v shard \<Rightarrow>
   ((op_status + it_and_updater) \<times> 'v shard) option" where
  "insert_new C A now_ms cx key omit_journal sh =
     (let db = cx_db cx; (calls, growth) = insert_plan A db key sh
      in case run_evp C A now_ms cx calls \<lparr>evicted = 0, checked = 0\<rparr> sh of
           None \<Rightarrow> None
         | Some (st, sh1) \<Rightarrow>
             (case growth of
                None \<Rightarrow> Some (Inl OUT_OF_MEMORY,
                              upd_events (\<lambda>e. e\<lparr>insertion_rejections := insertion_rejections e + 1\<rparr>) sh1)
              | Some table_increase \<Rightarrow>
                  let e = fresh_entry C A key;
                      sh2 = upd_db db (\<lambda>t. t\<lparr>prime := fst (tbl_insert key e (prime t))\<rparr>) sh1;
                      sh3 = sh2\<lparr>memory_budget := memory_budget sh2 - table_increase, entries_count := entries_count sh2 + 1\<rparr>;
                      sh4 = upd_db db (account_insert C key e (evicted st)) sh3;
                      sh5 = upd_events (\<lambda>ev. ev\<lparr>ev_mutations := ev_mutations ev + 1,
                                               sl_evicted_keys := sl_evicted_keys ev + evicted st,
                                               garbage_checked := garbage_checked ev + checked st\<rparr>) sh4
                  in Some (Inr \<lparr>iu_updater = AutoUpdater_new db key e, is_new = True, omitted_journal = omit_journal\<rparr>, sh5)))"

definition AddOrFindInternal ::
  "slice_cfg \<Rightarrow> 'v access_env \<Rightarrow> u64 \<Rightarrow> db_context \<Rightarrow> key \<Rightarrow> nat option \<Rightarrow> 'v shard \<Rightarrow>
   ((op_status + it_and_updater) \<times> 'v shard) option" where
  "AddOrFindInternal C A now_ms cx key req_obj_type sh =
     (let db = cx_db cx in
      case FindInternal C now_ms cx key req_obj_type kMutableStats sh of
        None \<Rightarrow> None
      | Some (st, sh1) \<Rightarrow>
          if st = WRONG_TYPE then Some (Inl WRONG_TYPE, sh1)
          else
            let (found, omitted, sh2) = (if st = OK then let (o', s) = prepare_update A db key sh1 in (lookup db key s, o', s)
                                         else (None, False, sh1))
            in case found of
                 Some e \<Rightarrow> Some (Inr \<lparr>iu_updater = AutoUpdater_new db key e, is_new = False, omitted_journal = omitted\<rparr>, sh2)
               | None \<Rightarrow>
                   let (omit_journal, sh3) =
                         (if change_cb A = [] then (False, sh2)
                          else let (o', s) = IsOmittableWrite A db key sh2
                               in (o', if o' then s else insert_change_cb A db key s));
                       (memory_offset, sh4) = reclaim A key sh3;
                       apply_memory_limit = (\<not> is_replica C \<and> \<not> loading A)
                   in if apply_memory_limit \<and> \<not> cache_mode A \<and> memory_budget sh4 + memory_offset < 0
                      then Some (Inl OUT_OF_MEMORY,
                                 upd_events (\<lambda>e. e\<lparr>insertion_rejections := insertion_rejections e + 1\<rparr>) sh4)
                      else insert_new C A now_ms cx key omit_journal sh4)"

subsection \<open>Expiry times\<close>

definition AddExpire :: "slice_cfg \<Rightarrow> nat \<Rightarrow> key \<Rightarrow> u64 \<Rightarrow> 'v shard \<Rightarrow> 'v shard" where
  "AddExpire C db key at sh =
     (case lookup db key sh of
        None \<Rightarrow> sh
      | Some e \<Rightarrow>
          let (inline, new_malloc) = key_rep C key True;
              e' = e\<lparr>pk_expire := Some at, pk_inline := inline, pk_malloc := new_malloc\<rparr>;
              sh1 = upd_entry db key e' sh;
              sh2 = (if pk_inline e \<and> \<not> inline
                     then upd_db db (AccountObjectMemory (env C) key OBJ_KEY (int new_malloc))
                            (upd_stats db (\<lambda>s. s\<lparr>inline_keys := inline_keys s - 1\<rparr>) sh1)
                     else if new_malloc \<noteq> pk_malloc e
                     then upd_db db (AccountObjectMemory (env C) key OBJ_KEY (int new_malloc - int (pk_malloc e))) sh1
                     else sh1)
          in if pk_expire e = None then upd_stats db (\<lambda>s. s\<lparr>expire_count := expire_count s + 1\<rparr>) sh2 else sh2)"

definition RemoveExpire :: "slice_cfg \<Rightarrow> nat \<Rightarrow> key \<Rightarrow> 'v shard \<Rightarrow> bool \<times> 'v shard" where
  "RemoveExpire C db key sh =
     (case lookup db key sh of
        None \<Rightarrow> (False, sh)
      | Some e \<Rightarrow>
          if pk_expire e = None then (False, sh)
          else
            let (inline, new_malloc) = key_rep C key False;
                e' = e\<lparr>pk_expire := None, pk_inline := inline, pk_malloc := new_malloc\<rparr>;
                sh1 = upd_entry db key e' sh;
                sh2 = (if inline
                       then upd_stats db (\<lambda>s. s\<lparr>inline_keys := inline_keys s + 1\<rparr>)
                              (upd_db db (AccountObjectMemory (env C) key OBJ_KEY (- int (pk_malloc e))) sh1)
                       else if new_malloc \<noteq> pk_malloc e
                       then upd_db db (AccountObjectMemory (env C) key OBJ_KEY (int new_malloc - int (pk_malloc e))) sh1
                       else sh1)
            in (True, upd_stats db (\<lambda>s. s\<lparr>expire_count := expire_count s - 1\<rparr>) sh2))"

definition store_value :: "'v new_value \<Rightarrow> 'v prime_entry \<Rightarrow> 'v prime_entry" where
  "store_value v e = e\<lparr>pv_value := nv_value v, pv_type := nv_type v, pv_malloc := nv_malloc v, pv_flag := nv_flag v,
     pv_member_exp := nv_member_exp v, pv_stash_pending := False, pv_external := False, pv_cool := False, pv_strmap2 := nv_strmap2 v\<rparr>"

definition AddOrUpdateInternal ::
  "slice_cfg \<Rightarrow> 'v access_env \<Rightarrow> u64 \<Rightarrow> db_context \<Rightarrow> key \<Rightarrow> 'v new_value \<Rightarrow> u64 \<Rightarrow> bool \<Rightarrow> 'v shard \<Rightarrow>
   ((op_status + it_and_updater) \<times> 'v shard) option" where
  "AddOrUpdateInternal C A now_ms cx key obj expire_at_ms force_update sh =
     (case AddOrFindInternal C A now_ms cx key None sh of
        None \<Rightarrow> None
      | Some (Inl st, sh1) \<Rightarrow> Some (Inl st, sh1)
      | Some (Inr res, sh1) \<Rightarrow>
          if \<not> is_new res \<and> \<not> force_update then Some (Inr res, sh1)
          else case lookup (cx_db cx) key sh1 of
            None \<Rightarrow> Some (Inr res, sh1)
          | Some e \<Rightarrow>
              let sh2 = (if pv_external e then effect [TieredDelete (cx_db cx) key] sh1 else sh1);
                  sh3 = upd_entry (cx_db cx) key (store_value obj e) sh2;
                  sh4 = (if expire_at_ms \<noteq> 0 then AddExpire C (cx_db cx) key expire_at_ms sh3
                         else snd (RemoveExpire C (cx_db cx) key sh3))
              in Some (Inr res, sh4))"

definition AddOrUpdate where
  "AddOrUpdate C A now_ms cx key obj expire_at_ms sh = AddOrUpdateInternal C A now_ms cx key obj expire_at_ms True sh"

text \<open>\<^verbatim>\<open>AddNew\<close> checks that the entry is new.\<close>

definition AddNew ::
  "slice_cfg \<Rightarrow> 'v access_env \<Rightarrow> u64 \<Rightarrow> db_context \<Rightarrow> key \<Rightarrow> 'v new_value \<Rightarrow> u64 \<Rightarrow> 'v shard \<Rightarrow>
   ((op_status + it_and_updater) \<times> 'v shard) option" where
  "AddNew C A now_ms cx key obj expire_at_ms sh =
     (case AddOrUpdateInternal C A now_ms cx key obj expire_at_ms False sh of
        None \<Rightarrow> None
      | Some (Inl st, sh1) \<Rightarrow> Some (Inl st, sh1)
      | Some (Inr res, sh1) \<Rightarrow> if is_new res then Some (Inr (res\<lparr>is_new := False, omitted_journal := False\<rparr>), sh1) else None)"

subsection \<open>The EXPIRE family\<close>

text \<open>Signed 64-bit values are words read with \<^const>\<open>sint\<close>.\<close>

datatype time_unit = SEC | MSEC
datatype exp_t = EX | PX | EXAT | PXAT

record expire_params =
  ms_timestamp :: u64
  persist :: bool
  expire_options :: u32

definition kOverflow :: u64 where "kOverflow = 0x7FFFFFFFFFFFFFFF"
definition kMaxExpireDeadlineSec :: u64 where "kMaxExpireDeadlineSec = 268435455"
definition kMaxExpireDeadlineMs :: u64 where "kMaxExpireDeadlineMs = kMaxExpireDeadlineSec * 1000"

definition params_default :: expire_params where
  "params_default = \<lparr>ms_timestamp = - 1, persist = False, expire_options = 0\<rparr>"

definition ExpireParams_unit :: "time_unit \<Rightarrow> u64 \<Rightarrow> u64 \<Rightarrow> bool \<Rightarrow> expire_params" where
  "ExpireParams_unit unit svalue now_ms cap =
     (if sint svalue \<le> 0 then params_default\<lparr>ms_timestamp := 0\<rparr>
      else
        let ms0 = (if unit = SEC
                   then (if sint svalue \<le> sint kOverflow div 1000 then svalue * 1000 else kOverflow)
                   else svalue);
            ms1 = (if cap \<and> 0 < now_ms \<and> sint ms0 > sint kMaxExpireDeadlineMs then kMaxExpireDeadlineMs else ms0)
        in if sint (kOverflow - now_ms) < sint ms1
           then params_default\<lparr>ms_timestamp := kOverflow\<rparr>
           else params_default\<lparr>ms_timestamp := ms1 + now_ms\<rparr>)"

definition ExpireParams_type :: "exp_t \<Rightarrow> u64 \<Rightarrow> u64 \<Rightarrow> bool \<Rightarrow> expire_params" where
  "ExpireParams_type ty value now_ms cap =
     (let unit = (if ty = PX \<or> ty = PXAT then MSEC else SEC);
          is_absolute = (ty = EXAT \<or> ty = PXAT)
      in if is_absolute then ExpireParams_unit unit value 0 False else ExpireParams_unit unit value now_ms cap)"

definition IsDefined :: "expire_params \<Rightarrow> bool" where
  "IsDefined p = (persist p \<or> sint (ms_timestamp p) \<ge> 0)"

definition Calculate :: "expire_params \<Rightarrow> u64 \<Rightarrow> bool \<Rightarrow> u64 \<times> u64" where
  "Calculate p now_ms cap =
     (if persist p then (0, 0)
      else if ms_timestamp p = kOverflow then (0, - 1)
      else let rel_ms = ms_timestamp p - now_ms
           in if cap
              then let r = (if sint rel_ms \<le> sint kMaxExpireDeadlineMs then rel_ms else kMaxExpireDeadlineMs)
                   in (r, r + now_ms)
              else (rel_ms, ms_timestamp p))"

definition EXPIRE_NX :: u32 where "EXPIRE_NX = 1"
definition EXPIRE_XX :: u32 where "EXPIRE_XX = 4"
definition EXPIRE_GT :: u32 where "EXPIRE_GT = 8"
definition EXPIRE_LT :: u32 where "EXPIRE_LT = 16"

definition ExpireConditionSatisfied :: "bool \<Rightarrow> u64 \<Rightarrow> u32 \<Rightarrow> u64 \<Rightarrow> bool" where
  "ExpireConditionSatisfied has_expire current_cmp options abs_msec =
     (options = 0 \<or>
      (if has_expire then options AND EXPIRE_XX \<noteq> 0 else options AND EXPIRE_NX \<noteq> 0) \<or>
      (options AND EXPIRE_LT \<noteq> 0 \<and> sint abs_msec < sint current_cmp) \<or>
      (options AND EXPIRE_GT \<noteq> 0 \<and> sint abs_msec > sint current_cmp))"

definition current_cmp :: "'v prime_entry \<Rightarrow> u64" where
  "current_cmp e = (case pk_expire e of Some at \<Rightarrow> at | None \<Rightarrow> 0x7FFFFFFFFFFFFFFF)"

definition WouldExpireBeNoop :: "'v prime_entry \<Rightarrow> expire_params \<Rightarrow> u64 \<Rightarrow> bool" where
  "WouldExpireBeNoop e p now_ms =
     (if persist p \<or> \<not> IsDefined p then False
      else let (rel_msec, abs_msec) = Calculate p now_ms False
           in if sint abs_msec < 0 \<or> sint rel_msec > sint kMaxExpireDeadlineMs then True
              else \<not> ExpireConditionSatisfied (pk_expire e \<noteq> None) (current_cmp e) (expire_options p) abs_msec)"

text \<open>\<^verbatim>\<open>UpdateExpire\<close> on the entry of a key: the status, or the value it returns.\<close>

definition UpdateExpire ::
  "slice_cfg \<Rightarrow> db_context \<Rightarrow> key \<Rightarrow> 'v prime_entry \<Rightarrow> expire_params \<Rightarrow> 'v shard \<Rightarrow> (op_status + u64) \<times> 'v shard" where
  "UpdateExpire C cx key e p sh =
     (if persist p then (Inr 0, snd (RemoveExpire C (cx_db cx) key sh))
      else
        let (rel_msec, abs_msec) = Calculate p (cx_time_now_ms cx) False
        in if sint abs_msec < 0 \<or> sint rel_msec > sint kMaxExpireDeadlineMs then (Inl OUT_OF_RANGE, sh)
           else if \<not> ExpireConditionSatisfied (pk_expire e \<noteq> None) (current_cmp e) (expire_options p) abs_msec
           then (Inl SKIPPED, sh)
           else if sint rel_msec \<le> 0
           then (Inr (- 1), note_expired (cx_db cx) (Del C (cx_db cx) key False kExpired sh))
           else (Inr abs_msec, AddExpire C (cx_db cx) key abs_msec sh))"

end
