(* ===== verification/Access_Invariant.thy ===== *)
theory Access_Invariant
  imports Shard_Invariant Slice_Access
begin

text \<open>
  The shard invariant along the access paths of \<^verbatim>\<open>Slice_Access\<close>: lazy expiry, lookup, insertion with the
  eviction policy, overwriting a value. Each lemma also says what happens to one fixed key of interest.
\<close>

lemma lookup_entry_of: "lookup db k sh = entry_of sh db k"
  by (simp add: lookup_def entry_of_def primes_def split: option.split)

text \<open>Updates that keep the set of keys and the stamps.\<close>

definition same_shape :: "slice_cfg \<Rightarrow> 'v shard \<Rightarrow> 'v shard \<Rightarrow> bool" where
  "same_shape C sh sh' = (slot sh' = slot sh \<and> (\<forall>db k. (entry_of sh' db k = None) = (entry_of sh db k = None)) \<and>
     (\<forall>db. (primes sh' db = None) = (primes sh db = None)) \<and>
     (good_tables C sh \<longrightarrow> good_tables C sh') \<and> stamper sh' = stamper sh \<and> mvcc_enabled sh' = mvcc_enabled sh \<and>
     ns_is_default sh' = ns_is_default sh \<and> journal sh' = journal sh)"

lemma same_shape_refl [simp]: "same_shape C sh sh"
  by (simp add: same_shape_def)

lemma same_shape_trans: "same_shape C a b \<Longrightarrow> same_shape C b c \<Longrightarrow> same_shape C a c"
  by (simp add: same_shape_def)

lemma same_tables_shape: "same_tables C sh sh' \<Longrightarrow> same_shape C sh sh'"
  using same_tables_inv(3) by (fastforce simp: same_shape_def same_tables_def)

lemma same_shape_inv:
  assumes "same_shape C sh sh'"
  shows "shard_inv C sh \<Longrightarrow> shard_inv C sh'" "shard_inv_but C db k sh \<Longrightarrow> shard_inv_but C db k sh'"
  using assms by (auto simp: same_shape_def shard_inv_def shard_inv_but_def shard_wf_def key_ok_def)

lemma same_shape_arena: "same_shape C sh sh' \<Longrightarrow> arena_used sh' = arena_used sh"
  by (simp add: same_shape_def)

lemma entry_of_upd_entry:
  "entry_of (upd_entry db k e sh) db' k' =
     (if (db', k') = (db, k) \<and> entry_of sh db k \<noteq> None then Some e else entry_of sh db' k')"
  by (auto simp: upd_entry_def entry_of_def primes_def db_at_upd_db tbl_find_def map_of_tbl_set split: option.splits)

lemma same_shape_upd_entry:
  assumes "entry_of sh db k \<noteq> None"
  shows "same_shape C sh (upd_entry db k e sh)"
proof -
  have "slot (upd_entry db k e sh) = slot sh"
    by (auto simp: upd_entry_def slot_def fun_eq_iff db_at_upd_db GetMvcc_def split: option.splits)
  moreover have "tbl_good C (t\<lparr>prime := tbl_set k e (prime t)\<rparr>)" if "tbl_good C t" for t
    using that by (auto simp: tbl_good_def acct_ok_def kv.ok_set)
  then have "good_tables C (upd_entry db k e sh)" if "good_tables C sh"
    using that by (auto simp: upd_entry_def good_tables_def db_at_upd_db split: if_splits)
  moreover have "(primes (upd_entry db k e sh) db' = None) = (primes sh db' = None)" for db'
    by (simp add: upd_entry_def primes_def db_at_upd_db)
  ultimately show ?thesis using assms by (simp add: same_shape_def entry_of_upd_entry) (simp add: upd_entry_def)
qed

lemma same_tables_upd_stats:
  assumes "\<And>s. mvcc_entries (f s) = mvcc_entries s \<and> mvcc_tombstones (f s) = mvcc_tombstones s \<and>
    mvcc_key_dup_bytes (f s) = mvcc_key_dup_bytes s"
  shows "same_tables C sh (upd_stats db f sh)"
  unfolding upd_stats_def by (rule same_tables_quiet) (simp add: quiet_def assms)

lemma same_tables_upd_events [simp]: "same_tables C sh (upd_events f sh)"
  unfolding upd_events_def by (rule same_tables_fields) simp_all

lemma same_tables_note_expired [simp]: "same_tables C sh (note_expired db sh)"
  unfolding note_expired_def
  by (rule same_tables_trans [OF same_tables_upd_events same_tables_upd_stats]) simp

lemma same_tables_note_miss [simp]: "same_tables C sh (note_miss mode db sh)"
  unfolding note_miss_def Let_def
  by (rule same_tables_trans [OF same_tables_upd_events same_tables_upd_stats]) simp

lemma same_tables_note_hit [simp]: "same_tables C sh (note_hit D mode db k e sh)"
proof (cases mode)
  case kReadStats
  let ?f = "\<lambda>t. case slots_stats t of None \<Rightarrow> t
    | Some ss \<Rightarrow> let sid = KeySlot (env D) k in t\<lparr>slots_stats := Some (ss(sid := (ss sid)\<lparr>total_reads := total_reads (ss sid) + 1\<rparr>))\<rparr>"
  have "quiet t (?f t)" for t by (simp add: Let_def quiet_other split: option.split)
  then show ?thesis
    unfolding note_hit_def kReadStats stats_mode.case Let_def
    by (intro same_tables_trans [OF same_tables_trans [OF same_tables_trans [OF same_tables_upd_events same_tables_upd_stats]
        same_tables_quiet] same_tables_upd_events]) (simp_all add: Let_def)
qed (simp add: note_hit_def)

text \<open>What an operation leaves alone at a fixed key.\<close>

definition frame_at :: "nat \<Rightarrow> key \<Rightarrow> 'v shard \<Rightarrow> 'v shard \<Rightarrow> bool" where
  "frame_at db k sh sh' = (slot sh' db k = slot sh db k \<and> entry_of sh' db k = entry_of sh db k \<and>
     arm_of (pending (stamper sh')) db k = arm_of (pending (stamper sh)) db k \<and>
     (primes sh' db = None) = (primes sh db = None))"

lemma frame_at_refl [simp]: "frame_at db k sh sh"
  by (simp add: frame_at_def)

lemma frame_at_trans: "frame_at db k a b \<Longrightarrow> frame_at db k b c \<Longrightarrow> frame_at db k a c"
  by (simp add: frame_at_def)

lemma same_tables_frame: "same_tables C sh sh' \<Longrightarrow> frame_at db k sh sh'"
  using same_tables_inv(3) [of C sh sh'] by (simp add: frame_at_def same_tables_def)

subsection \<open>Expiry\<close>

lemma RecordExpiryBlocking_inv:
  fixes sh :: "'v shard"
  assumes inv: "shard_inv C sh" and en: "js_mvcc_enabled (journal sh)" and absent: "entry_of sh (cx_db cx) k = None"
  obtains sh' where "RecordExpiryBlocking C now cx k sh = Some sh'" "shard_inv C sh'" "primes sh' = primes sh"
    "js_mvcc_enabled (journal sh')" "arena_used sh' = arena_used sh"
    "\<And>db' k'. (db', k') \<noteq> (cx_db cx, k) \<Longrightarrow> frame_at db' k' sh sh'"
    "slot sh' (cx_db cx) k = (case arm_of (pending (stamper sh)) (cx_db cx) k of None \<Rightarrow> slot sh (cx_db cx) k
       | Some p \<Rightarrow> own_tombstone (p_prev p))"
    "arm_of (pending (stamper sh')) (cx_db cx) k = None"
proof (rule commit_own_tombstone_inv [OF inv absent], goal_cases)
  case (1 found st sh1)
  note thesisI = 1(1) and own = 1(2-)
  have en1: "js_mvcc_enabled (journal sh1)" and wf1: "shard_wf C sh1" using en own(2,5) by (simp_all add: shard_inv_def)
  obtain sh2 where 2: "RecordEntry C now 0 COMMAND (cx_db cx) (Some (of_nat (KeySlot (env C) k))) (del_payload k) 0
      (if found then Mvcc st else cx_repl_mvcc cx) kEntryFlagExpired sh1 = Some sh2"
    "shard_wf C sh2" "key_ok sh2 = key_ok sh1" "primes sh2 = primes sh1" "slot sh2 = slot sh1" "pending (stamper sh2) = pending (stamper sh1)"
    "js_mvcc_enabled (journal sh2)" "arena_used sh2 = arena_used sh1"
    using RecordEntry_expired [OF wf1 en1] by blast
  show ?case
  proof (rule thesisI [of sh2])
    show "RecordExpiryBlocking C now cx k sh = Some sh2"
      using shard_invD(2) [OF inv] own(1) 2(1) by (simp add: RecordExpiryBlocking_def)
  qed (use own 2 in \<open>auto simp: shard_inv_def frame_at_def entry_of_def split: option.splits\<close>)
qed

lemma Del_frame:
  assumes "shard_inv_but C db k sh" "arena_used sh + length k < 2 ^ 32" "(db', k') \<noteq> (db, k)"
  shows "frame_at db' k' sh (Del C db k async reason sh)"
proof (cases "entry_of sh db k")
  case None
  then show ?thesis by (simp add: Del_absent)
next
  case (Some e)
  from Del_inv [OF assms(1) Some assms(2) refl, of async reason] assms(3) show ?thesis
    by (auto simp: frame_at_def entry_of_def tbl_find_def map_of_tbl_erase arms_after_delete_def arm_of_disarm
        spec_arm_tombstone_def split: option.splits)
qed

text \<open>Whether the entry of a key is past its deadline and may be removed by this node.\<close>

definition expired_entry :: "slice_cfg \<Rightarrow> db_context \<Rightarrow> 'v prime_entry \<Rightarrow> bool" where
  "expired_entry C cx e = (case pk_expire e of None \<Rightarrow> False
     | Some at \<Rightarrow> \<not> (sint (cx_time_now_ms cx) < sint at \<or> \<not> expire_allowed C \<or> (is_replica C \<and> \<not> replica_delete_expired C)))"

lemma ExpireIfNeeded_live:
  "entry_of sh (cx_db cx) k = Some e \<Longrightarrow> \<not> expired_entry C cx e \<Longrightarrow> ExpireIfNeeded C now cx k evs je sh = Some (True, evs, sh)"
  by (auto simp: ExpireIfNeeded_def lookup_entry_of expired_entry_def split: option.splits)

lemma leaves_tombstone_effect [simp]: "leaves_tombstone C r db (effect es sh) = leaves_tombstone C r db sh"
  by (simp add: leaves_tombstone_def)

definition after_expiry :: "slice_cfg \<Rightarrow> nat \<Rightarrow> key \<Rightarrow> 'v shard \<Rightarrow> mvcc_stamp option" where
  "after_expiry C db k sh = (if leaves_tombstone C kExpired db sh then own_tombstone (prev_of (slot sh db k)) else None)"

lemma ExpireIfNeeded_expired:
  fixes sh :: "'v shard"
  assumes inv: "shard_inv C sh" and en: "js_mvcc_enabled (journal sh)"
    and e: "entry_of sh (cx_db cx) k = Some e" "expired_entry C cx e"
    and room: "arena_used sh + length k < 2 ^ 32" and j: "has_journal C"
  obtains evs' sh' where "ExpireIfNeeded C now cx k evs True sh = Some (False, evs', sh')" "shard_inv C sh'"
    "js_mvcc_enabled (journal sh')" "arena_used sh' \<le> arena_used sh + length k"
    "\<And>db' k'. (db', k') \<noteq> (cx_db cx, k) \<Longrightarrow> frame_at db' k' sh sh'" "entry_of sh' (cx_db cx) k = None"
    "slot sh' (cx_db cx) k = after_expiry C (cx_db cx) k sh" "arm_of (pending (stamper sh')) (cx_db cx) k = None"
proof -
  obtain at where at: "pk_expire e = Some at" using e(2) by (auto simp: expired_entry_def split: option.splits)
  define r where "r = (if expired_keys_events_recording C
                      then (case evs of Some l \<Rightarrow> (Some (l @ [k]), sh) | None \<Rightarrow> (None, effect [ExpiredEvent (cx_db cx) k] sh))
                      else (evs, sh))"
  define es where "es = (if expired_keys_events_recording C \<and> evs = None then [ExpiredEvent (cx_db cx) k] else [])"
  define evs1 where "evs1 = fst r"
  have r: "r = (evs1, effect es sh)" by (cases evs) (auto simp: r_def es_def evs1_def effect_def)
  let ?sh1 = "effect es sh"
  have s: "same_tables C sh ?sh1" by simp
  have inv1: "shard_inv_but C (cx_db cx) k ?sh1" and e1: "entry_of ?sh1 (cx_db cx) k = Some e"
    and room1: "arena_used ?sh1 + length k < 2 ^ 32"
    using inv e(1) room same_tables_inv [OF s] shard_inv_iff [of C sh "cx_db cx" k] by simp_all
  let ?sh2 = "Del C (cx_db cx) k False kExpired ?sh1"
  note d = Del_inv [OF inv1 e1 room1 refl, of False kExpired]
  have absent: "entry_of ?sh2 (cx_db cx) k = None"
    using d(2) by (auto simp: entry_of_def tbl_find_def map_of_tbl_erase split: option.splits)
  have en2: "js_mvcc_enabled (journal ?sh2)" using d(5) en by simp
  obtain sh3 where 3: "RecordExpiryBlocking C now cx k ?sh2 = Some sh3" "shard_inv C sh3" "primes sh3 = primes ?sh2"
    "js_mvcc_enabled (journal sh3)" "arena_used sh3 = arena_used ?sh2"
    "\<And>db' k'. (db', k') \<noteq> (cx_db cx, k) \<Longrightarrow> frame_at db' k' ?sh2 sh3"
    "slot sh3 (cx_db cx) k = (case arm_of (pending (stamper ?sh2)) (cx_db cx) k of None \<Rightarrow> slot ?sh2 (cx_db cx) k
       | Some p \<Rightarrow> own_tombstone (p_prev p))"
    "arm_of (pending (stamper sh3)) (cx_db cx) k = None"
    using RecordExpiryBlocking_inv [where ?now = now, OF d(1) en2 absent] by metis
  let ?sh4 = "note_expired (cx_db cx) sh3"
  have s4: "same_tables C sh3 ?sh4" by simp
  have sl: "slot sh3 (cx_db cx) k = after_expiry C (cx_db cx) k sh"
    using 3(7) d(3,4) s
    by (simp add: after_expiry_def arms_after_delete_def spec_arm_tombstone_def arm_of_disarm same_tables_def)
  show thesis
  proof (rule that [of evs1 ?sh4])
    show "ExpireIfNeeded C now cx k evs True sh = Some (False, evs1, ?sh4)"
      using e at j 3(1) r unfolding ExpireIfNeeded_def lookup_entry_of r_def [symmetric]
      by (auto simp: expired_entry_def)
    show "frame_at db' k' sh ?sh4" if "(db', k') \<noteq> (cx_db cx, k)" for db' k'
      using frame_at_trans [OF same_tables_frame [OF s] frame_at_trans [OF Del_frame [OF inv1 room1 that]
        frame_at_trans [OF 3(6) [OF that] same_tables_frame [OF s4]]]] .
    show "arena_used ?sh4 \<le> arena_used sh + length k" using s4 3(5) d(6) s by (simp add: same_tables_def)
    show "entry_of ?sh4 (cx_db cx) k = None"
      using same_tables_inv(3) [OF s4] absent 3(3) by (simp add: entry_of_def)
  qed (use 3 s4 sl same_tables_inv [OF s4] in \<open>simp_all add: same_tables_def\<close>)
qed

subsection \<open>Lookup\<close>

lemma settle_tiered_spec:
  assumes "entry_of sh db k = Some e"
  obtains e' where "same_shape C sh (settle_tiered db k e sh)"
    "entry_of (settle_tiered db k e sh) db k = Some e'" "pv_value e' = pv_value e" "pk_expire e' = pk_expire e" "pv_type e' = pv_type e"
    "\<And>db' k'. (db', k') \<noteq> (db, k) \<Longrightarrow> entry_of (settle_tiered db k e sh) db' k' = entry_of sh db' k'"
proof -
  define e1 where "e1 = (if pv_stash_pending e then e\<lparr>pv_stash_pending := False\<rparr> else e)"
  define sh1 where "sh1 = (if pv_stash_pending e then upd_entry db k e1 (effect [CancelStash db k] sh) else sh)"
  define e2 where "e2 = e1\<lparr>pv_external := False, pv_cool := False\<rparr>"
  have eff: "entry_of (effect es x) = entry_of x" for es and x :: "'a shard"
    using same_tables_inv(3) [OF same_tables_effect] by blast
  have eq: "settle_tiered db k e sh =
      (if pv_external e1 \<and> pv_cool e1 then upd_entry db k e2 (effect [WarmupValue db k] sh1) else sh1)"
    by (simp add: settle_tiered_def e1_def sh1_def e2_def)
  have up: "same_shape C x (upd_entry db k y (effect es x))" if "entry_of x db k \<noteq> None" for x :: "'a shard" and y es
    using that by (intro same_shape_trans [OF same_tables_shape [OF same_tables_effect] same_shape_upd_entry]) (simp add: eff)
  have s1: "same_shape C sh sh1" using assms by (simp add: sh1_def up)
  have en1: "entry_of sh1 db k = Some e1" using assms by (simp add: sh1_def e1_def entry_of_upd_entry eff)
  have fr1: "entry_of sh1 db' k' = entry_of sh db' k'" if "(db', k') \<noteq> (db, k)" for db' k'
    using that by (auto simp: sh1_def entry_of_upd_entry eff)
  show thesis
  proof (rule that [of "if pv_external e1 \<and> pv_cool e1 then e2 else e1"])
    show "same_shape C sh (settle_tiered db k e sh)"
      unfolding eq using s1 en1 same_shape_trans [OF s1 up] by simp
  qed (use en1 fr1 in \<open>auto simp: eq entry_of_upd_entry eff e1_def e2_def\<close>)
qed

lemma FindInternal_inv:
  fixes sh :: "'v shard"
  assumes inv: "shard_inv C sh" and en: "js_mvcc_enabled (journal sh)" and j: "has_journal C"
    and room: "arena_used sh + length k < 2 ^ 32"
  obtains st sh' where "FindInternal C now cx k ty mode sh = Some (st, sh')" "shard_inv C sh'"
    "js_mvcc_enabled (journal sh')" "arena_used sh' \<le> arena_used sh + length k"
    "\<And>db' k'. (db', k') \<noteq> (cx_db cx, k) \<Longrightarrow> frame_at db' k' sh sh'"
    "case entry_of sh (cx_db cx) k of
       None \<Rightarrow> st = KEY_NOTFOUND \<and> frame_at (cx_db cx) k sh sh'
     | Some e \<Rightarrow>
         if \<exists>x. ty = Some x \<and> pv_type e \<noteq> x then st = WRONG_TYPE \<and> frame_at (cx_db cx) k sh sh'
         else if expired_entry C cx e
         then st = KEY_NOTFOUND \<and> entry_of sh' (cx_db cx) k = None \<and> slot sh' (cx_db cx) k = after_expiry C (cx_db cx) k sh \<and>
              arm_of (pending (stamper sh')) (cx_db cx) k = None
         else st = OK \<and> slot sh' (cx_db cx) k = slot sh (cx_db cx) k \<and>
              arm_of (pending (stamper sh')) (cx_db cx) k = arm_of (pending (stamper sh)) (cx_db cx) k \<and>
              (\<exists>e'. entry_of sh' (cx_db cx) k = Some e' \<and> pv_value e' = pv_value e \<and> pk_expire e' = pk_expire e)"
proof (cases "entry_of sh (cx_db cx) k")
  case None
  have eq: "\<exists>sh'. FindInternal C now cx k ty mode sh = Some (KEY_NOTFOUND, sh') \<and> same_tables C sh sh'"
    using None by (simp add: FindInternal_def lookup_entry_of Let_def)
  then obtain sh' where sh': "FindInternal C now cx k ty mode sh = Some (KEY_NOTFOUND, sh')" "same_tables C sh sh'" by blast
  show thesis
    by (rule that [OF sh'(1)])
       (use None inv en same_tables_inv [OF sh'(2)] same_tables_frame [OF sh'(2)] sh'(2) in \<open>simp_all add: same_tables_def\<close>)
next
  case (Some e)
  then have valid: "IsDbValid (cx_db cx) sh" by (auto simp: entry_of_def primes_def IsDbValid_def db_at_def split: option.splits if_splits)
  show thesis
  proof (cases "\<exists>x. ty = Some x \<and> pv_type e \<noteq> x")
    case True
    then have eq: "FindInternal C now cx k ty mode sh = Some (WRONG_TYPE, note_miss mode (cx_db cx) sh)"
      using Some valid by (auto simp: FindInternal_def lookup_entry_of Let_def)
    have s: "same_tables C sh (note_miss mode (cx_db cx) sh)" by simp
    show thesis
      by (rule that [OF eq])
         (use Some True inv en same_tables_inv [OF s] same_tables_frame [OF s] s in \<open>simp_all add: same_tables_def\<close>)
  next
    case False
    then have ty: "(case ty of None \<Rightarrow> False | Some x \<Rightarrow> pv_type e \<noteq> x) = False" by (cases ty) auto
    show thesis
    proof (cases "expired_entry C cx e")
      case True
      then have pe: "pk_expire e \<noteq> None" by (auto simp: expired_entry_def split: option.splits)
      obtain evs' sh1 where x: "ExpireIfNeeded C now cx k None True sh = Some (False, evs', sh1)" "shard_inv C sh1"
        "js_mvcc_enabled (journal sh1)" "arena_used sh1 \<le> arena_used sh + length k"
        "\<And>db' k'. (db', k') \<noteq> (cx_db cx, k) \<Longrightarrow> frame_at db' k' sh sh1" "entry_of sh1 (cx_db cx) k = None"
        "slot sh1 (cx_db cx) k = after_expiry C (cx_db cx) k sh" "arm_of (pending (stamper sh1)) (cx_db cx) k = None"
        using ExpireIfNeeded_expired [OF inv en Some True room j, of now None] by metis
      have eq: "FindInternal C now cx k ty mode sh = Some (KEY_NOTFOUND, note_miss mode (cx_db cx) sh1)"
        using Some valid ty pe x(1) by (simp add: FindInternal_def lookup_entry_of Let_def)
      have s: "same_tables C sh1 (note_miss mode (cx_db cx) sh1)" by simp
      show thesis
        by (rule that [OF eq])
           (use Some False True x same_tables_inv [OF s] same_tables_frame [OF s] s frame_at_trans in
            \<open>auto simp: same_tables_def frame_at_def\<close>)
    next
      case live: False
      have eq: "FindInternal C now cx k ty mode sh =
          Some (OK, settle_tiered (cx_db cx) k e (note_hit C mode (cx_db cx) k e sh))"
        using Some valid ty ExpireIfNeeded_live [OF Some live, of now None True]
        by (simp add: FindInternal_def lookup_entry_of Let_def)
      let ?sh1 = "note_hit C mode (cx_db cx) k e sh"
      have s1: "same_tables C sh ?sh1" by simp
      then have e1: "entry_of ?sh1 (cx_db cx) k = Some e" using Some same_tables_inv(3) [OF s1] by simp
      obtain e' where t: "same_shape C ?sh1 (settle_tiered (cx_db cx) k e ?sh1)"
        "entry_of (settle_tiered (cx_db cx) k e ?sh1) (cx_db cx) k = Some e'" "pv_value e' = pv_value e"
        "pk_expire e' = pk_expire e"
        "\<And>db' k'. (db', k') \<noteq> (cx_db cx, k) \<Longrightarrow> entry_of (settle_tiered (cx_db cx) k e ?sh1) db' k' = entry_of ?sh1 db' k'"
        using settle_tiered_spec [OF e1, of C] by metis
      have i: "shard_inv C ?sh1" using inv same_tables_inv [OF s1] by simp
      show thesis
        by (rule that [OF eq])
           (use Some False live t s1 en same_shape_inv(1) [OF t(1) i] same_tables_inv(3) [OF s1] in
            \<open>auto simp: same_tables_def same_shape_def frame_at_def\<close>)
    qed
  qed
qed

subsection \<open>Insertion\<close>

text \<open>The invariant holds afterwards, at most \<open>n\<close> bytes of arena were taken, and only keys of \<open>K\<close> were touched.\<close>

definition kept :: "slice_cfg \<Rightarrow> nat \<Rightarrow> key set \<Rightarrow> nat \<Rightarrow> 'v shard \<Rightarrow> 'v shard \<Rightarrow> bool" where
  "kept C db K n sh sh' = (shard_inv C sh' \<and> js_mvcc_enabled (journal sh') \<and> arena_used sh' \<le> arena_used sh + n \<and>
     (\<forall>db' k'. db' \<noteq> db \<or> k' \<notin> K \<longrightarrow> frame_at db' k' sh sh'))"

lemma kept_refl: "shard_inv C sh \<Longrightarrow> js_mvcc_enabled (journal sh) \<Longrightarrow> kept C db K n sh sh"
  by (simp add: kept_def)

lemma kept_trans: "kept C db K n a b \<Longrightarrow> kept C db L m b c \<Longrightarrow> kept C db (K \<union> L) (n + m) a c"
  unfolding kept_def using frame_at_trans by (fastforce simp: Un_iff)

lemma kept_mono: "kept C db K n a b \<Longrightarrow> K \<subseteq> L \<Longrightarrow> n \<le> m \<Longrightarrow> kept C db L m a b"
  by (auto simp: kept_def)

lemma ExpireIfNeeded_kept:
  assumes "shard_inv C sh" "js_mvcc_enabled (journal sh)" "has_journal C" "arena_used sh + length k < 2 ^ 32"
    "entry_of sh (cx_db cx) k = Some e"
  obtains a evs' sh' where "ExpireIfNeeded C now cx k evs True sh = Some (a, evs', sh')" "kept C (cx_db cx) {k} (length k) sh sh'"
proof (cases "expired_entry C cx e")
  case True
  show thesis
  proof (rule ExpireIfNeeded_expired [OF assms(1,2,5) True assms(4,3), of now evs])
    fix evs' sh'
    assume "ExpireIfNeeded C now cx k evs True sh = Some (False, evs', sh')" "shard_inv C sh'" "js_mvcc_enabled (journal sh')"
      "arena_used sh' \<le> arena_used sh + length k" "\<And>db' k'. (db', k') \<noteq> (cx_db cx, k) \<Longrightarrow> frame_at db' k' sh sh'"
    then show thesis by (intro that) (auto simp: kept_def)
  qed
next
  case False
  from ExpireIfNeeded_live [OF assms(5) False] show thesis
    using that kept_refl [OF assms(1,2)] by blast
qed

lemma evp_gc_kept:
  fixes sh :: "'v shard"
  assumes "shard_inv C sh" "js_mvcc_enabled (journal sh)" "has_journal C"
    "arena_used sh + sum_list (map length ks) < 2 ^ 32"
  obtains st' sh' where "evp_gc C now cx ks st sh = Some (st', sh')"
    "kept C (cx_db cx) (set ks) (sum_list (map length ks)) sh sh'"
  using assms
proof (induction ks arbitrary: st sh thesis)
  case Nil
  then show ?case by (simp add: kept_refl)
next
  case (Cons k ks)
  show ?case
  proof (cases "\<exists>e. entry_of sh (cx_db cx) k = Some e \<and> pk_expire e \<noteq> None")
    case True
    then obtain e where e: "entry_of sh (cx_db cx) k = Some e" "pk_expire e \<noteq> None" by blast
    have r: "arena_used sh + length k < 2 ^ 32" using Cons.prems(5) by simp
    obtain a evs' sh1 where x: "ExpireIfNeeded C now cx k None True sh = Some (a, evs', sh1)"
      "kept C (cx_db cx) {k} (length k) sh sh1"
      using ExpireIfNeeded_kept [OF Cons.prems(2-4) r e(1), of now None] by blast
    have y: "shard_inv C sh1" "js_mvcc_enabled (journal sh1)" "arena_used sh1 + sum_list (map length ks) < 2 ^ 32"
      using x(2) Cons.prems(5) by (auto simp: kept_def)
    obtain st' sh' where z: "evp_gc C now cx ks (st\<lparr>checked := checked st + 1\<rparr>) sh1 = Some (st', sh')"
      "kept C (cx_db cx) (set ks) (sum_list (map length ks)) sh1 sh'"
      using Cons.IH [OF _ y(1,2) Cons.prems(4) y(3)] by blast
    show ?thesis
      by (rule Cons.prems(1) [of st' sh'])
         (use e x(1) z(1) kept_trans [OF x(2) z(2)] in \<open>auto simp: lookup_entry_of\<close>)
  next
    case False
    then have eq: "evp_gc C now cx (k # ks) st sh = evp_gc C now cx ks st sh"
      by (auto simp: lookup_entry_of split: option.split)
    have r: "arena_used sh + sum_list (map length ks) < 2 ^ 32" using Cons.prems(5) by simp
    obtain st' sh' where z: "evp_gc C now cx ks st sh = Some (st', sh')"
      "kept C (cx_db cx) (set ks) (sum_list (map length ks)) sh sh'"
      using Cons.IH [OF _ Cons.prems(2-4) r] by blast
    show ?thesis
      by (rule Cons.prems(1) [of st' sh']) (use eq z kept_mono [OF z(2), of "set (k # ks)" "sum_list (map length (k # ks))"] in auto)
  qed
qed

lemma RecordExpiryBlocking_but:
  fixes sh :: "'v shard"
  assumes inv: "shard_inv C sh" and en: "js_mvcc_enabled (journal sh)"
  obtains sh' where "RecordExpiryBlocking C now cx k sh = Some sh'" "shard_inv_but C (cx_db cx) k sh'" "primes sh' = primes sh"
    "js_mvcc_enabled (journal sh')" "arena_used sh' = arena_used sh"
    "\<And>db' k'. (db', k') \<noteq> (cx_db cx, k) \<Longrightarrow> frame_at db' k' sh sh'"
proof (rule commit_own_tombstone_but [OF inv, of "cx_db cx" k], goal_cases)
  case (1 found st sh1)
  note thesisI = 1(1) and own = 1(2-)
  have en1: "js_mvcc_enabled (journal sh1)" and wf1: "shard_wf C sh1" using en own(2,4) by (simp_all add: shard_inv_but_def)
  obtain sh2 where 2: "RecordEntry C now 0 COMMAND (cx_db cx) (Some (of_nat (KeySlot (env C) k))) (del_payload k) 0
      (if found then Mvcc st else cx_repl_mvcc cx) kEntryFlagExpired sh1 = Some sh2"
    "shard_wf C sh2" "key_ok sh2 = key_ok sh1" "primes sh2 = primes sh1" "slot sh2 = slot sh1"
    "pending (stamper sh2) = pending (stamper sh1)"
    "js_mvcc_enabled (journal sh2)" "arena_used sh2 = arena_used sh1"
    using RecordEntry_expired [OF wf1 en1] by blast
  show ?case
  proof (rule thesisI [of sh2])
    show "RecordExpiryBlocking C now cx k sh = Some sh2"
      using shard_invD(2) [OF inv] own(1) 2(1) by (simp add: RecordExpiryBlocking_def)
  qed (use own 2 in \<open>auto simp: shard_inv_but_def frame_at_def entry_of_def split: option.splits\<close>)
qed

lemma evp_evict_kept:
  fixes sh :: "'v shard"
  assumes inv: "shard_inv C sh" and en: "js_mvcc_enabled (journal sh)" and j: "has_journal C"
    and room: "arena_used sh + length k < 2 ^ 32"
  obtains st' sh' where "evp_evict C A now cx (Some (k, sticky, locked)) st sh = Some (st', sh')"
    "kept C (cx_db cx) {k} (length k) sh sh'"
proof (cases "\<not> (cache_mode A \<and> \<not> is_replica C) \<or> will_block A \<or> sticky \<or> locked")
  case True
  then show thesis using that [of st sh] kept_refl [OF inv en] by (auto simp: evp_evict_def)
next
  case False
  obtain sh1 where x: "RecordExpiryBlocking C now cx k sh = Some sh1" "shard_inv_but C (cx_db cx) k sh1"
    "primes sh1 = primes sh" "js_mvcc_enabled (journal sh1)" "arena_used sh1 = arena_used sh"
    "\<And>db' k'. (db', k') \<noteq> (cx_db cx, k) \<Longrightarrow> frame_at db' k' sh sh1"
    using RecordExpiryBlocking_but [where ?now = now, OF inv en] by metis
  have eq: "evp_evict C A now cx (Some (k, sticky, locked)) st sh =
      Some (st\<lparr>evicted := evicted st + 1\<rparr>, Del C (cx_db cx) k False kEvicted sh1)"
    using False j x(1) by (simp add: evp_evict_def)
  have room1: "arena_used sh1 + length k < 2 ^ 32" using room x(5) by simp
  have fr: "frame_at db' k' sh (Del C (cx_db cx) k False kEvicted sh1)" if "db' \<noteq> cx_db cx \<or> k' \<notin> {k}" for db' k'
    using that frame_at_trans [OF x(6) Del_frame [OF x(2) room1]] by blast
  show thesis
  proof (cases "entry_of sh1 (cx_db cx) k")
    case None
    then have "entry_of sh (cx_db cx) k = None" using x(3) by (simp add: entry_of_def)
    from RecordExpiryBlocking_inv [where ?now = now, OF inv en this] x(1) have "shard_inv C sh1" by (metis option.inject)
    with None x eq fr show thesis by (intro that [OF eq]) (simp add: kept_def Del_absent)
  next
    case (Some e)
    note d = Del_inv [OF x(2) Some room1 refl, of False kEvicted]
    show thesis by (rule that [OF eq]) (use d x fr in \<open>simp add: kept_def\<close>)
  qed
qed

fun call_keys :: "evp_call \<Rightarrow> key list" where
  "call_keys (CallGC ks) = ks"
| "call_keys (CallEvict None) = []"
| "call_keys (CallEvict (Some (k, _, _))) = [k]"

definition plan_keys :: "evp_call list \<Rightarrow> key list" where
  "plan_keys cs = concat (map call_keys cs)"

abbreviation plan_bytes :: "evp_call list \<Rightarrow> nat" where
  "plan_bytes cs \<equiv> sum_list (map length (plan_keys cs))"

lemma evp_call_kept:
  fixes sh :: "'v shard"
  assumes "shard_inv C sh" "js_mvcc_enabled (journal sh)" "has_journal C"
    "arena_used sh + sum_list (map length (call_keys c)) < 2 ^ 32"
  obtains st' sh' where "(case c of CallGC ks \<Rightarrow> if will_block A then Some (st, sh) else evp_gc C now cx ks st sh
            | CallEvict s \<Rightarrow> evp_evict C A now cx s st sh) = Some (st', sh')"
    "kept C (cx_db cx) (set (call_keys c)) (sum_list (map length (call_keys c))) sh sh'"
proof (cases c)
  case (CallGC ks)
  show thesis
  proof (cases "will_block A")
    case True
    then show thesis using that [of st sh] CallGC kept_refl [OF assms(1,2)] by simp
  next
    case False
    have "arena_used sh + sum_list (map length ks) < 2 ^ 32" using assms(4) CallGC by simp
    from evp_gc_kept [OF assms(1-3) this, of now cx st] obtain st' sh' where
      "evp_gc C now cx ks st sh = Some (st', sh')" "kept C (cx_db cx) (set ks) (sum_list (map length ks)) sh sh'" by blast
    then show thesis using that [of st' sh'] CallGC False by simp
  qed
next
  case (CallEvict s)
  show thesis
  proof (cases s)
    case None
    then show thesis using that [of st sh] CallEvict kept_refl [OF assms(1,2)] by (simp add: evp_evict_def)
  next
    case (Some x)
    obtain k sticky locked where x: "x = (k, sticky, locked)" by (cases x) auto
    have "arena_used sh + length k < 2 ^ 32" using assms(4) CallEvict Some x by simp
    from evp_evict_kept [OF assms(1-3) this, of A now cx sticky locked st] obtain st' sh' where
      "evp_evict C A now cx (Some (k, sticky, locked)) st sh = Some (st', sh')" "kept C (cx_db cx) {k} (length k) sh sh'" by blast
    then show thesis using that [of st' sh'] CallEvict Some x by simp
  qed
qed

lemma run_evp_kept:
  fixes sh :: "'v shard"
  assumes "shard_inv C sh" "js_mvcc_enabled (journal sh)" "has_journal C" "arena_used sh + plan_bytes cs < 2 ^ 32"
  obtains st' sh' where "run_evp C A now cx cs st sh = Some (st', sh')" "kept C (cx_db cx) (set (plan_keys cs)) (plan_bytes cs) sh sh'"
  using assms
proof (induction cs arbitrary: st sh thesis)
  case Nil
  then show ?case by (simp add: kept_refl)
next
  case (Cons c cs)
  have b: "plan_bytes (c # cs) = sum_list (map length (call_keys c)) + plan_bytes cs"
    "set (plan_keys (c # cs)) = set (call_keys c) \<union> set (plan_keys cs)"
    by (simp_all add: plan_keys_def)
  have r: "arena_used sh + sum_list (map length (call_keys c)) < 2 ^ 32" using Cons.prems(5) b(1) by linarith
  obtain st1 sh1 where x: "(case c of CallGC ks \<Rightarrow> if will_block A then Some (st, sh) else evp_gc C now cx ks st sh
            | CallEvict s \<Rightarrow> evp_evict C A now cx s st sh) = Some (st1, sh1)"
    "kept C (cx_db cx) (set (call_keys c)) (sum_list (map length (call_keys c))) sh sh1"
    using evp_call_kept [OF Cons.prems(2-4) r, of A st now cx] by blast
  have y: "shard_inv C sh1" "js_mvcc_enabled (journal sh1)" "arena_used sh1 + plan_bytes cs < 2 ^ 32"
    using x(2) Cons.prems(5) b(1) by (auto simp: kept_def)
  obtain st' sh' where z: "run_evp C A now cx cs st1 sh1 = Some (st', sh')"
    "kept C (cx_db cx) (set (plan_keys cs)) (plan_bytes cs) sh1 sh'"
    using Cons.IH [OF _ y(1,2) Cons.prems(4) y(3)] by blast
  show ?case
    by (rule Cons.prems(1) [of st' sh']) (use x(1) z(1) kept_trans [OF x(2) z(2)] b in simp_all)
qed

text \<open>What the model relies on from its parameters: snapshot callbacks leave keys and stamps alone, and the table
  only shows the policy keys other than the one being inserted, at most \<open>n\<close> bytes of them.\<close>

definition hooks_ok :: "slice_cfg \<Rightarrow> 'v access_env \<Rightarrow> bool" where
  "hooks_ok C A = (\<forall>db k sh. same_tables C sh (pre_update A db k sh) \<and> same_tables C sh (insert_change_cb A db k sh))"

definition plan_ok :: "'v access_env \<Rightarrow> nat \<Rightarrow> bool" where
  "plan_ok A n = (\<forall>db k sh. k \<notin> set (plan_keys (fst (insert_plan A db k sh))) \<and>
     plan_bytes (fst (insert_plan A db k sh)) \<le> n)"

lemma IsOmittableWrite_active: "mvcc_enabled sh \<Longrightarrow> IsOmittableWrite A db k sh = (False, sh)"
  by (simp add: IsOmittableWrite_def)

lemma same_tables_reclaim: "same_tables C sh (snd (reclaim A k sh))"
  by (auto simp: reclaim_def Let_def split: option.split intro!: same_tables_fields)

lemma quiet_account_insert [simp]: "quiet t (account_insert C k e n t)"
proof -
  define t1 where "t1 = (if pk_inline e then t\<lparr>tstats := (tstats t)\<lparr>inline_keys := inline_keys (tstats t) + 1\<rparr>\<rparr>
                else AccountObjectMemory (env C) k OBJ_KEY (int (pk_malloc e)) t)"
  define t2 where "t2 = t1\<lparr>tstats := (tstats t1)\<lparr>ev_evicted_keys := ev_evicted_keys (tstats t1) + n\<rparr>\<rparr>"
  have q: "quiet t t1" "quiet t1 t2" by (simp_all add: t1_def t2_def quiet_tstats) (simp add: quiet_def)
  have eq: "account_insert C k e n t = (case slots_stats t2 of None \<Rightarrow> t2
         | Some ss \<Rightarrow> let sid = KeySlot (env C) k
                      in t2\<lparr>slots_stats := Some (ss(sid := (ss sid)\<lparr>key_count := key_count (ss sid) + 1\<rparr>))\<rparr>)"
    by (simp only: account_insert_def t1_def t2_def Let_def)
  show ?thesis
    unfolding eq Let_def using quiet_trans [OF quiet_trans [OF q] quiet_other(2)] quiet_trans [OF q]
    by (simp split: option.split)
qed

lemma upd_insert:
  assumes "good_tables C sh" "entry_of sh db k = None" "db_at db sh \<noteq> None"
    and sh'_def: "sh' = upd_db db (\<lambda>t. t\<lparr>prime := fst (tbl_insert k e (prime t))\<rparr>) sh"
  shows "good_tables C sh'" "slot sh' = slot sh"
    "entry_of sh' db' k' = (if (db', k') = (db, k) then Some e else entry_of sh db' k')"
proof -
  obtain t where t: "db_at db sh = Some t" using assms(3) by blast
  have f: "tbl_find (prime t) k = None" using assms(2) t by (simp add: entry_of_def primes_def)
  have "tbl_good C (t\<lparr>prime := fst (tbl_insert k e (prime t))\<rparr>)" if "tbl_good C t" for t :: "'a db_table"
    using that kv.ok_insert [of "prime t" k e] by (auto simp: tbl_good_def acct_ok_def)
  with assms(1) show "good_tables C sh'" by (auto simp: sh'_def good_tables_def db_at_upd_db split: if_splits)
  show "slot sh' = slot sh" by (auto simp: sh'_def slot_def fun_eq_iff db_at_upd_db GetMvcc_def split: option.split)
  have "tbl_ok (prime t)" using good_tablesD [OF assms(1) t] by simp
  from kv.find_insert_new [OF this f, of e]
  show "entry_of sh' db' k' = (if (db', k') = (db, k) then Some e else entry_of sh db' k')"
    using t by (auto simp: sh'_def entry_of_def primes_def db_at_upd_db)
qed

lemma insert_new_spec:
  fixes sh :: "'v shard"
  assumes inv: "shard_inv C sh" and en: "js_mvcc_enabled (journal sh)" and j: "has_journal C"
    and plan: "plan_ok A n" and room: "arena_used sh + n < 2 ^ 32"
    and absent: "entry_of sh (cx_db cx) k = None" and db: "db_at (cx_db cx) sh \<noteq> None"
  obtains r sh' where "insert_new C A now cx k om sh = Some (r, sh')" "js_mvcc_enabled (journal sh')"
    "arena_used sh' \<le> arena_used sh + n" "slot sh' (cx_db cx) k = slot sh (cx_db cx) k"
    "arm_of (pending (stamper sh')) (cx_db cx) k = arm_of (pending (stamper sh)) (cx_db cx) k"
    "case r of Inl st \<Rightarrow> st = OUT_OF_MEMORY \<and> shard_inv C sh' \<and> entry_of sh' (cx_db cx) k = None
     | Inr res \<Rightarrow> is_new res \<and> omitted_journal res = om \<and> up_db (iu_updater res) = cx_db cx \<and> up_key (iu_updater res) = k \<and>
         shard_inv_but C (cx_db cx) k sh' \<and> entry_of sh' (cx_db cx) k = Some (fresh_entry C A k)"
proof -
  obtain calls growth where ip: "insert_plan A (cx_db cx) k sh = (calls, growth)" by force
  then have pl: "k \<notin> set (plan_keys calls)" "plan_bytes calls \<le> n"
    using plan by (auto simp: plan_ok_def) (metis fst_conv)+
  have r1: "arena_used sh + plan_bytes calls < 2 ^ 32" using pl(2) room by linarith
  obtain st sh1 where x: "run_evp C A now cx calls \<lparr>evicted = 0, checked = 0\<rparr> sh = Some (st, sh1)"
    "kept C (cx_db cx) (set (plan_keys calls)) (plan_bytes calls) sh sh1"
    using run_evp_kept [OF inv en j r1, of A now cx "\<lparr>evicted = 0, checked = 0\<rparr>"] by blast
  have fr: "frame_at (cx_db cx) k sh sh1" and i1: "shard_inv C sh1" and en1: "js_mvcc_enabled (journal sh1)"
    and ar: "arena_used sh1 \<le> arena_used sh + n"
    using x(2) pl by (auto simp: kept_def)
  have absent1: "entry_of sh1 (cx_db cx) k = None" using fr absent by (simp add: frame_at_def)
  show thesis
  proof (cases growth)
    case None
    let ?sh = "upd_events (\<lambda>e. e\<lparr>insertion_rejections := insertion_rejections e + 1\<rparr>) sh1"
    have s: "same_tables C sh1 ?sh" by simp
    have eq: "insert_new C A now cx k om sh = Some (Inl OUT_OF_MEMORY, ?sh)"
      using ip x(1) None by (simp add: insert_new_def)
    show thesis
      by (rule that [OF eq])
         (use s fr i1 en1 ar absent1 same_tables_inv [OF s] in \<open>simp_all add: same_tables_def frame_at_def\<close>)
  next
    case (Some inc)
    define e where "e = fresh_entry C A k"
    define sh2 where "sh2 = upd_db (cx_db cx) (\<lambda>t. t\<lparr>prime := fst (tbl_insert k e (prime t))\<rparr>) sh1"
    define sh3 where "sh3 = sh2\<lparr>memory_budget := memory_budget sh2 - inc, entries_count := entries_count sh2 + 1\<rparr>"
    define sh4 where "sh4 = upd_db (cx_db cx) (account_insert C k e (evicted st)) sh3"
    define sh5 where "sh5 = upd_events (\<lambda>ev. ev\<lparr>ev_mutations := ev_mutations ev + 1,
        sl_evicted_keys := sl_evicted_keys ev + evicted st, garbage_checked := garbage_checked ev + checked st\<rparr>) sh4"
    have eq: "insert_new C A now cx k om sh = Some (Inr \<lparr>iu_updater = AutoUpdater_new (cx_db cx) k e, is_new = True,
        omitted_journal = om\<rparr>, sh5)"
      by (simp only: insert_new_def Let_def ip prod.case x(1) option.case Some sh5_def sh4_def sh3_def sh2_def e_def)
    have db1: "db_at (cx_db cx) sh1 \<noteq> None" using fr db by (simp add: frame_at_def primes_def)
    note ins = upd_insert [OF shard_invD(4) [OF i1] absent1 db1 sh2_def]
    have s: "same_tables C sh2 sh5"
    proof -
      have "same_tables C sh2 sh3" unfolding sh3_def by (rule same_tables_fields) (simp_all add: db_at_def)
      moreover have "same_tables C sh3 sh4" unfolding sh4_def by (rule same_tables_quiet) simp
      moreover have "same_tables C sh4 sh5" by (simp add: sh5_def)
      ultimately show ?thesis using same_tables_trans by blast
    qed
    have st2: "stamper sh2 = stamper sh1" "mvcc_enabled sh2 = mvcc_enabled sh1" "ns_is_default sh2 = ns_is_default sh1"
      "journal sh2 = journal sh1" by (simp_all add: sh2_def)
    have "key_ok sh2 db' k'" if "(db', k') \<noteq> (cx_db cx, k)" for db' k'
      using that shard_invD(5) [OF i1, of db' k'] ins(2,3) st2 by (auto simp: key_ok_def)
    then have "shard_inv_but C (cx_db cx) k sh2"
      using shard_invD [OF i1] ins(1) st2 by (simp add: shard_inv_but_def shard_wf_def)
    then show thesis
      by (intro that [OF eq])
         (use s st2 fr en1 ar ins same_tables_inv [OF s] in
          \<open>simp_all add: same_tables_def frame_at_def AutoUpdater_new_def e_def\<close>)
  qed
qed

lemma AddOrFindInternal_spec:
  fixes sh :: "'v shard"
  assumes inv: "shard_inv C sh" and en: "js_mvcc_enabled (journal sh)" and j: "has_journal C"
    and hooks: "hooks_ok C A" and plan: "plan_ok A n" and room: "arena_used sh + length k + n < 2 ^ 32"
    and db: "db_at (cx_db cx) sh \<noteq> None"
  obtains r sh' where "AddOrFindInternal C A now cx k None sh = Some (r, sh')" "js_mvcc_enabled (journal sh')"
    "arena_used sh' \<le> arena_used sh + length k + n"
    "case r of Inl st \<Rightarrow> st = OUT_OF_MEMORY \<and> shard_inv C sh'
     | Inr res \<Rightarrow> \<not> omitted_journal res \<and> up_db (iu_updater res) = cx_db cx \<and> up_key (iu_updater res) = k \<and> shard_inv_but C (cx_db cx) k sh'"
    "case entry_of sh (cx_db cx) k of
       None \<Rightarrow> slot sh' (cx_db cx) k = slot sh (cx_db cx) k \<and>
         arm_of (pending (stamper sh')) (cx_db cx) k = arm_of (pending (stamper sh)) (cx_db cx) k
     | Some e \<Rightarrow> if expired_entry C cx e
         then slot sh' (cx_db cx) k = after_expiry C (cx_db cx) k sh \<and> arm_of (pending (stamper sh')) (cx_db cx) k = None
         else slot sh' (cx_db cx) k = slot sh (cx_db cx) k \<and>
           arm_of (pending (stamper sh')) (cx_db cx) k = arm_of (pending (stamper sh)) (cx_db cx) k"
    "case r of Inl st \<Rightarrow> entry_of sh' (cx_db cx) k = None
     | Inr res \<Rightarrow> (\<exists>e'. entry_of sh' (cx_db cx) k = Some e' \<and>
         (is_new res \<longleftrightarrow> (case entry_of sh (cx_db cx) k of None \<Rightarrow> True | Some e \<Rightarrow> expired_entry C cx e)))"
proof -
  let ?db = "cx_db cx"
  have r0: "arena_used sh + length k < 2 ^ 32" using room by linarith
  show thesis
  proof (rule FindInternal_inv [OF inv en j r0, of now cx None kMutableStats], goal_cases)
  case (1 st sh1)
  note f = 1(1-4,6,5)
  have en1: "mvcc_enabled sh1" using shard_invD(1) [OF f(2)] .
  show ?case
  proof (cases "st = OK")
    case True
    then obtain e e1 where e: "entry_of sh ?db k = Some e" "\<not> expired_entry C cx e" "entry_of sh1 ?db k = Some e1"
      "slot sh1 ?db k = slot sh ?db k" "arm_of (pending (stamper sh1)) ?db k = arm_of (pending (stamper sh)) ?db k"
      using f(5) by (auto split: option.splits if_splits)
    let ?sh2 = "pre_update A ?db k sh1"
    have s: "same_tables C sh1 ?sh2" using hooks by (simp add: hooks_ok_def)
    have e2: "entry_of ?sh2 ?db k = Some e1" using e(3) same_tables_inv(3) [OF s] by simp
    have eq: "AddOrFindInternal C A now cx k None sh =
        Some (Inr \<lparr>iu_updater = AutoUpdater_new ?db k e1, is_new = False, omitted_journal = False\<rparr>, ?sh2)"
      using f(1) True e2 en1 by (simp add: AddOrFindInternal_def prepare_update_def IsOmittableWrite_active lookup_entry_of Let_def)
    have i2: "shard_inv_but C ?db k ?sh2" using f(2) same_tables_inv [OF s] shard_inv_iff [of C sh1 ?db k] by simp
    show thesis
      by (rule that [OF eq])
         (use s e e2 i2 f(3,4) in \<open>simp_all add: same_tables_def AutoUpdater_new_def\<close>)
  next
    case False
    then have nf: "st = KEY_NOTFOUND" and absent: "entry_of sh1 ?db k = None"
      using f(5) by (auto simp: frame_at_def split: option.splits if_splits)
    define sh3 where "sh3 = (if change_cb A = [] then sh1 else insert_change_cb A ?db k sh1)"
    define sh4 where "sh4 = snd (reclaim A k sh3)"
    have "same_tables C sh1 sh3" using hooks by (simp add: sh3_def hooks_ok_def)
    then have s: "same_tables C sh1 sh4" using same_tables_trans same_tables_reclaim unfolding sh4_def by blast
    have i4: "shard_inv C sh4" "entry_of sh4 ?db k = None" "js_mvcc_enabled (journal sh4)" "arena_used sh4 + n < 2 ^ 32"
      using f(2-4) absent same_tables_inv [OF s] s room by (auto simp: same_tables_def)
    have "frame_at ?db (k @ ''x'') sh sh1" using f(6) by simp
    then have db4: "db_at ?db sh4 \<noteq> None" using db s by (simp add: frame_at_def primes_def same_tables_def)
    have eq: "AddOrFindInternal C A now cx k None sh =
        (if (\<not> is_replica C \<and> \<not> loading A) \<and> \<not> cache_mode A \<and> memory_budget sh4 + fst (reclaim A k sh3) < 0
         then Some (Inl OUT_OF_MEMORY, upd_events (\<lambda>e. e\<lparr>insertion_rejections := insertion_rejections e + 1\<rparr>) sh4)
         else insert_new C A now cx k False sh4)"
      using f(1) nf en1 unfolding AddOrFindInternal_def sh4_def sh3_def
      by (simp add: IsOmittableWrite_active split_def Let_def)
    have slots: "slot sh4 = slot sh1" "pending (stamper sh4) = pending (stamper sh1)" "arena_used sh4 = arena_used sh1"
      using s by (simp_all add: same_tables_def)
    have ent: "(case entry_of sh ?db k of None \<Rightarrow> True | Some e \<Rightarrow> expired_entry C cx e)"
      using f(5) nf by (auto split: option.splits if_splits)
    show thesis
    proof (cases "(\<not> is_replica C \<and> \<not> loading A) \<and> \<not> cache_mode A \<and> memory_budget sh4 + fst (reclaim A k sh3) < 0")
      case True
      let ?sh5 = "upd_events (\<lambda>e. e\<lparr>insertion_rejections := insertion_rejections e + 1\<rparr>) sh4"
      have s5: "same_tables C sh4 ?sh5" by simp
      show thesis
        by (rule that [OF eq [unfolded if_P [OF True]]])
           (use s5 i4 slots f(4,5) nf same_tables_inv [OF s5] in
            \<open>auto simp: same_tables_def frame_at_def split: option.splits if_splits\<close>)
    next
      case fits: False
      obtain r sh5 where x: "insert_new C A now cx k False sh4 = Some (r, sh5)" "js_mvcc_enabled (journal sh5)"
        "arena_used sh5 \<le> arena_used sh4 + n" "slot sh5 ?db k = slot sh4 ?db k"
        "arm_of (pending (stamper sh5)) ?db k = arm_of (pending (stamper sh4)) ?db k"
        "case r of Inl st \<Rightarrow> st = OUT_OF_MEMORY \<and> shard_inv C sh5 \<and> entry_of sh5 ?db k = None
         | Inr res \<Rightarrow> is_new res \<and> omitted_journal res = False \<and> up_db (iu_updater res) = ?db \<and> up_key (iu_updater res) = k \<and>
             shard_inv_but C ?db k sh5 \<and> entry_of sh5 ?db k = Some (fresh_entry C A k)"
        using insert_new_spec [OF i4(1,3) j plan i4(4,2) db4, of now False] by blast
      show thesis
        by (rule that [OF eq [unfolded if_not_P [OF fits] x(1)]])
           (use x slots f(4,5) nf ent in \<open>auto simp: frame_at_def split: option.splits if_splits sum.splits\<close>)
    qed
  qed
  qed
qed

end
