(* ===== verification/Mint_Frame.thy ===== *)
theory Mint_Frame
  imports Access_Invariant
begin

text \<open>
  Within one callback the stamp that a local write would be given does not change, whatever is armed, committed
  or expired in between: \<^verbatim>\<open>HopStamp\<close> is memoised until the end of the epoch. The lemmas follow the operations of
  the slice and say the same of the registered origin hashes.
\<close>

definition hop_view :: "u64 \<Rightarrow> mvcc_stamper \<Rightarrow> u64 list \<times> mvcc_clock \<times> u64" where
  "hop_view now st = (origin_hash_cache st, clock (snd (HopStamp now st)), fst (HopStamp now st))"

abbreviation mints :: "u64 \<Rightarrow> 'v shard \<Rightarrow> u64 list \<times> mvcc_clock \<times> u64" where
  "mints now sh \<equiv> hop_view now (stamper sh)"

text \<open>The stamp of this epoch is a proper one: not 0, and the tombstone bit is clear.\<close>

definition mint_ok :: "u64 \<Rightarrow> 'v shard \<Rightarrow> bool" where
  "mint_ok now sh = (0 < fst (HopStamp now (stamper sh)) \<and> fst (HopStamp now (stamper sh)) \<le> kStampMask)"

lemma mint_ok_mints: "mints now sh' = mints now sh \<Longrightarrow> mint_ok now sh' = mint_ok now sh"
  by (simp add: mint_ok_def hop_view_def)

lemma OriginHash_mints: "mints now sh' = mints now sh \<Longrightarrow> OriginHash (stamper sh') = OriginHash (stamper sh)"
  by (simp add: hop_view_def OriginHash_def fun_eq_iff)

lemma hop_view_cong:
  assumes "clock st' = clock st" "hop_stamp st' = hop_stamp st" "hop_started_ms st' = hop_started_ms st"
    "origin_hash_cache st' = origin_hash_cache st"
  shows "hop_view now st' = hop_view now st"
  using assms by (auto simp: hop_view_def HopStamp_def Let_def split_def)

lemma hop_view_stamper [simp]:
  "hop_view now (st\<lparr>armed_list := x\<rparr>) = hop_view now st" "hop_view now (st\<lparr>arena := y\<rparr>) = hop_view now st"
  "hop_view now (push_arm db k b prev st) = hop_view now st" "hop_view now (Arm db k prev st) = hop_view now st"
  "hop_view now (ArmTombstone db k prev st) = hop_view now st" "hop_view now (Disarm db k st) = hop_view now st"
  by (rule hop_view_cong; simp add: push_arm_def Arm_def ArmTombstone_def Disarm_def Let_def)+

lemma hop_view_HopStamp: "0 < fst (HopStamp now st) \<Longrightarrow> hop_view now (snd (HopStamp now st)) = hop_view now st"
  by (auto simp: hop_view_def HopStamp_def Let_def split_def)

lemma hop_view_Commit [simp]: "hop_view now (fst (Commit mv o_idx f st s)) = hop_view now st"
  by (simp add: Commit_def Let_def)

lemma hop_view_CommitOwn [simp]: "hop_view now (fst (snd (CommitOwnTombstone db k f st s))) = hop_view now st"
  by (simp add: CommitOwnTombstone_def Let_def split: option.split)

subsection \<open>Updates and deletions\<close>

lemma mints_PostUpdate [simp]: "mints now (PostUpdate C db k arm sh) = mints now sh"
  by (simp add: PostUpdate_def Let_def split_def split: option.split)

lemma mints_RunInternal [simp]: "mints now (snd (RunInternal C arm uo sh)) = mints now sh"
  by (simp add: RunInternal_def split: option.split)

lemma mints_delete_stamps [simp]: "mints now (delete_stamps C db k reason sh) = mints now sh"
  by (simp add: delete_stamps_def Let_def split: option.split)

lemma mints_PerformDeletionAtomic [simp]: "mints now (PerformDeletionAtomic C db k async reason sh) = mints now sh"
  by (simp add: PerformDeletionAtomic_def Let_def split: option.split)

lemma mints_Del [simp]: "mints now (Del C db k async reason sh) = mints now sh"
  by (simp add: Del_def Let_def split: option.split)

subsection \<open>Journal entries\<close>

lemma RecordEntry_eq:
  "RecordEntry C now txid oc dbid sl pl o_idx mv fl sh =
     (let r = (if js_mvcc_enabled (journal sh) \<and> oc = COMMAND \<and> mv = 0
               then (max (fst (HopStamp now (stamper sh))) (LocalMintFloor (stamper sh)), snd (HopStamp now (stamper sh)))
               else (mv, stamper sh))
      in case AddLogRecord (items C) now \<lparr>e_txid = txid, e_opcode = oc, e_dbid = of_nat dbid, e_slot = sl, e_lsn = 0,
                e_origin_idx = of_nat o_idx, e_mvcc = fst r, e_flags = fl, e_payload = pl\<rparr> (journal sh) of
           None \<Rightarrow> None
         | Some (evs, j) \<Rightarrow>
             let sh2 = effect (map ToConsumer evs) (sh\<lparr>stamper := snd r, journal := j\<rparr>);
                 c = Commit (fst r) o_idx (commit_cb (mv \<noteq> 0)) (stamper sh2) (Some sh2)
             in if js_mvcc_enabled (journal sh) \<and> oc = COMMAND \<and> fl AND kEntryFlagExpired = 0
                then map_option (\<lambda>s. s\<lparr>stamper := fst c\<rparr>) (snd c) else Some sh2)"
  by (simp add: RecordEntry_def Let_def split_def cong: if_cong option.case_cong)

lemma mints_RecordEntry:
  assumes "RecordEntry C now txid oc dbid sl pl o_idx mv fl sh = Some sh'" "mint_ok now sh"
  shows "mints now sh' = mints now sh"
proof -
  define r where "r = (if js_mvcc_enabled (journal sh) \<and> oc = COMMAND \<and> mv = 0
               then (max (fst (HopStamp now (stamper sh))) (LocalMintFloor (stamper sh)), snd (HopStamp now (stamper sh)))
               else (mv, stamper sh))"
  have r: "hop_view now (snd r) = mints now sh"
    using assms(2) by (simp add: r_def mint_ok_def hop_view_HopStamp)
  show ?thesis
    using assms(1) r unfolding RecordEntry_eq r_def [symmetric] Let_def
    by (auto split: option.splits if_splits)
qed

lemma mints_commit_own:
  assumes "commit_own_tombstone C db k sh = Some (found, st, sh')"
  shows "mints now sh' = mints now sh"
proof -
  obtain f s so where r: "CommitOwnTombstone db k (own_tombstone_cb C) (stamper sh) (Some (stamp_empty, sh)) = (f, s, so)"
    by (metis prod_cases3)
  then have "hop_view now s = mints now sh"
    using hop_view_CommitOwn [of now db k "own_tombstone_cb C" "stamper sh" "Some (stamp_empty, sh)"] by simp
  with assms r show ?thesis by (auto simp: commit_own_tombstone_def)
qed

lemma mints_RecordExpiryBlocking:
  assumes "RecordExpiryBlocking C now cx k sh = Some sh'" "mint_ok now sh"
  shows "mints now sh' = mints now sh"
proof (cases "ns_is_default sh")
  case True
  then obtain found st sh1 where 1: "commit_own_tombstone C (cx_db cx) k sh = Some (found, st, sh1)"
    using assms(1) by (auto simp: RecordExpiryBlocking_def split: option.splits)
  note m = mints_commit_own [OF 1, of now]
  from assms(1) True 1 mints_RecordEntry [of C now _ _ _ _ _ _ _ _ sh1 sh'] m assms(2) mint_ok_mints [OF m]
  show ?thesis by (simp add: RecordExpiryBlocking_def)
qed (use assms in \<open>simp add: RecordExpiryBlocking_def\<close>)

subsection \<open>Lookup and insertion\<close>

lemma mints_note [simp]:
  "mints now (note_expired db sh) = mints now sh" "mints now (note_miss mode db sh) = mints now sh"
  "mints now (note_hit C mode db k e sh) = mints now sh" "mints now (settle_tiered db k e sh) = mints now sh"
  by (simp_all add: note_expired_def note_miss_def note_hit_def settle_tiered_def upd_events_def upd_stats_def upd_entry_def
      Let_def split: stats_mode.split)

lemma mints_ExpireIfNeeded:
  assumes "ExpireIfNeeded C now cx k evs je sh = Some (a, evs', sh')" "mint_ok now sh"
  shows "mints now sh' = mints now sh"
proof (cases "entry_of sh (cx_db cx) k")
  case None
  with assms(1) show ?thesis by (simp add: ExpireIfNeeded_def lookup_entry_of)
next
  case (Some e)
  show ?thesis
  proof (cases "expired_entry C cx e")
    case False
    from ExpireIfNeeded_live [OF Some this] assms(1) show ?thesis by simp
  next
    case True
    then obtain at where at: "pk_expire e = Some at" by (auto simp: expired_entry_def split: option.splits)
    define r where "r = (if expired_keys_events_recording C
                      then (case evs of Some l \<Rightarrow> (Some (l @ [k]), sh) | None \<Rightarrow> (None, effect [ExpiredEvent (cx_db cx) k] sh))
                      else (evs, sh))"
    have r: "mints now (snd r) = mints now sh" by (simp add: r_def split: option.split)
    let ?sh2 = "Del C (cx_db cx) k False kExpired (snd r)"
    have m2: "mints now ?sh2 = mints now sh" using r by simp
    have eq: "ExpireIfNeeded C now cx k evs je sh =
        (case (if has_journal C \<and> je then RecordExpiryBlocking C now cx k ?sh2 else Some ?sh2) of None \<Rightarrow> None
         | Some sh3 \<Rightarrow> Some (False, fst r, note_expired (cx_db cx) sh3))"
      using Some True at unfolding ExpireIfNeeded_def lookup_entry_of r_def [symmetric]
      by (auto simp: expired_entry_def split_def split: option.splits)
    show ?thesis
    proof (cases "has_journal C \<and> je")
      case True
      with assms(1) eq obtain sh3 where 3: "RecordExpiryBlocking C now cx k ?sh2 = Some sh3"
        "sh' = note_expired (cx_db cx) sh3" by (auto split: option.splits)
      have "mint_ok now ?sh2" using assms(2) mint_ok_mints [OF m2] by simp
      from mints_RecordExpiryBlocking [OF 3(1) this] 3(2) m2 show ?thesis by simp
    next
      case False
      with assms(1) eq have "sh' = note_expired (cx_db cx) ?sh2" by auto
      with m2 show ?thesis by simp
    qed
  qed
qed

lemma mints_FindInternal:
  assumes "FindInternal C now cx k ty mode sh = Some (st, sh')" "mint_ok now sh"
  shows "mints now sh' = mints now sh"
proof (cases "lookup (cx_db cx) k sh")
  case None
  with assms(1) show ?thesis by (auto simp: FindInternal_def Let_def split: if_splits)
next
  case (Some e)
  show ?thesis
  proof (cases "\<not> IsDbValid (cx_db cx) sh \<or> (case ty of None \<Rightarrow> False | Some x \<Rightarrow> pv_type e \<noteq> x)")
    case True
    with Some assms(1) show ?thesis by (auto simp: FindInternal_def Let_def split: if_splits)
  next
    case False
    show ?thesis
    proof (cases "pk_expire e")
      case None
      with False Some assms(1) show ?thesis by (auto simp: FindInternal_def Let_def split: option.splits if_splits)
    next
      case at: (Some at)
      with False Some assms(1) obtain a evs sh1 where x: "ExpireIfNeeded C now cx k None True sh = Some (a, evs, sh1)"
        by (auto simp: FindInternal_def Let_def split: option.splits if_splits)
      from mints_ExpireIfNeeded [OF x assms(2)] x at False Some assms(1) show ?thesis
        by (auto simp: FindInternal_def Let_def split: option.splits if_splits)
    qed
  qed
qed

lemma mints_same_tables: "same_tables C sh sh' \<Longrightarrow> mints now sh' = mints now sh"
  by (simp add: same_tables_def)

lemma mints_same_shape: "same_shape C sh sh' \<Longrightarrow> mints now sh' = mints now sh"
  by (simp add: same_shape_def)

lemma mints_evp_gc:
  assumes "evp_gc C now cx ks st sh = Some (st', sh')" "mint_ok now sh"
  shows "mints now sh' = mints now sh"
  using assms
proof (induction ks arbitrary: st sh)
  case (Cons k ks)
  show ?case
  proof (cases "\<exists>e. lookup (cx_db cx) k sh = Some e \<and> pk_expire e \<noteq> None")
    case True
    then obtain a evs sh1 where x: "ExpireIfNeeded C now cx k None True sh = Some (a, evs, sh1)"
      "evp_gc C now cx ks (st\<lparr>checked := checked st + 1\<rparr>) sh1 = Some (st', sh')"
      using Cons.prems(1) by (auto split: option.splits)
    note m = mints_ExpireIfNeeded [OF x(1) Cons.prems(2)]
    from Cons.IH [OF x(2)] Cons.prems(2) mint_ok_mints [OF m] m show ?thesis by simp
  next
    case False
    then have "evp_gc C now cx ks st sh = Some (st', sh')" using Cons.prems(1) by (auto split: option.splits)
    then show ?thesis using Cons by blast
  qed
qed simp

lemma mints_evp_evict:
  assumes "evp_evict C A now cx s st sh = Some (st', sh')" "mint_ok now sh"
  shows "mints now sh' = mints now sh"
  using assms mints_RecordExpiryBlocking [OF _ assms(2)]
  by (auto simp: evp_evict_def split: if_splits option.splits)

lemma mints_run_evp:
  assumes "run_evp C A now cx cs st sh = Some (st', sh')" "mint_ok now sh"
  shows "mints now sh' = mints now sh"
  using assms
proof (induction cs arbitrary: st sh)
  case (Cons c cs)
  obtain st1 sh1 where x: "(case c of CallGC ks \<Rightarrow> if will_block A then Some (st, sh) else evp_gc C now cx ks st sh
      | CallEvict s \<Rightarrow> evp_evict C A now cx s st sh) = Some (st1, sh1)" "run_evp C A now cx cs st1 sh1 = Some (st', sh')"
    using Cons.prems(1) by (auto split: option.splits)
  have m: "mints now sh1 = mints now sh"
    using x(1) mints_evp_gc [OF _ Cons.prems(2)] mints_evp_evict [OF _ Cons.prems(2)]
    by (auto split: evp_call.splits if_splits)
  from Cons.IH [OF x(2)] Cons.prems(2) mint_ok_mints [OF m] m show ?case by simp
qed simp

lemma mints_insert_new:
  assumes "insert_new C A now cx k om sh = Some (r, sh')" "mint_ok now sh"
  shows "mints now sh' = mints now sh"
proof -
  obtain calls growth where ip: "insert_plan A (cx_db cx) k sh = (calls, growth)" by force
  with assms(1) obtain st sh1 where x: "run_evp C A now cx calls \<lparr>evicted = 0, checked = 0\<rparr> sh = Some (st, sh1)"
    by (auto simp: insert_new_def Let_def split: option.splits)
  have "stamper sh' = stamper sh1"
    using assms(1) unfolding insert_new_def Let_def ip prod.case x option.case upd_events_def
    by (cases growth) auto
  with mints_run_evp [OF x assms(2)] show ?thesis by simp
qed

lemma mints_AddOrFindInternal:
  assumes "AddOrFindInternal C A now cx k ty sh = Some (r, sh')" "mint_ok now sh" "hooks_ok C A"
    and f: "FindInternal C now cx k ty kMutableStats sh = Some (st, sh1)" "mvcc_enabled sh1"
  shows "mints now sh' = mints now sh"
proof -
  note m1 = mints_FindInternal [OF f(1) assms(2)]
  have h: "mints now (pre_update A db k s) = mints now s" "mints now (insert_change_cb A db k s) = mints now s"
    "mvcc_enabled (pre_update A db k s) = mvcc_enabled s" for db k s
    using assms(3) mints_same_tables [of C s] by (auto simp: hooks_ok_def same_tables_def)
  define sh2 where "sh2 = (if st = OK then pre_update A (cx_db cx) k sh1 else sh1)"
  define sh3 where "sh3 = (if change_cb A = [] then sh2 else insert_change_cb A (cx_db cx) k sh2)"
  define sh4 where "sh4 = snd (reclaim A k sh3)"
  have m4: "mints now sh2 = mints now sh" "mints now sh4 = mints now sh"
    using m1 h mints_same_tables [OF same_tables_reclaim, of now A k sh3] by (simp_all add: sh2_def sh3_def sh4_def)
  have en2: "mvcc_enabled sh2" using f(2) h(3) by (simp add: sh2_def)
  consider (wrong) "sh' = sh1" | (found) "sh' = sh2" | (oom) "stamper sh' = stamper sh4"
    | (ins) "insert_new C A now cx k False sh4 = Some (r, sh')"
  proof (cases "st = WRONG_TYPE \<or> (st = OK \<and> lookup (cx_db cx) k sh2 \<noteq> None)")
    case True
    then show thesis
      using assms(1) f that(1,2) unfolding AddOrFindInternal_def sh2_def
      by (auto simp: prepare_update_def IsOmittableWrite_active Let_def split: option.splits)
  next
    case False
    have "Some (r, sh') =
      (if (\<not> is_replica C \<and> \<not> loading A) \<and> \<not> cache_mode A \<and> memory_budget sh4 + fst (reclaim A k sh3) < 0
       then Some (Inl OUT_OF_MEMORY, upd_events (\<lambda>e. e\<lparr>insertion_rejections := insertion_rejections e + 1\<rparr>) sh4)
       else insert_new C A now cx k False sh4)"
    proof (cases "st = OK")
      case True
      with False have "lookup (cx_db cx) k sh2 = None" by blast
      with True assms(1) f en2 show ?thesis unfolding AddOrFindInternal_def sh2_def sh4_def sh3_def
        by (simp add: prepare_update_def IsOmittableWrite_active split_def Let_def if_distrib [of snd] if_distrib [of fst] cong: if_cong)
    next
      case nok: False
      with False assms(1) f en2 show ?thesis unfolding AddOrFindInternal_def sh2_def sh4_def sh3_def
        by (simp add: IsOmittableWrite_active split_def Let_def if_distrib [of snd] if_distrib [of fst] cong: if_cong)
    qed
    then show thesis using that(3,4) by (auto simp: upd_events_def split: if_splits)
  qed
  then show ?thesis
  proof cases
    case ins
    from mints_insert_new [OF this] assms(2) mint_ok_mints [OF m4(2)] m4(2) show ?thesis by simp
  qed (use m1 m4 in simp_all)
qed

end
