(* ===== verification/Multimaster_Lww.thy ===== *)
theory Multimaster_Lww
  imports Slice_Access "HOL-Library.List_Lexorder" "HOL-Library.Char_ord"
begin

text \<open>
  The decision module of the streaming last-write-wins guard, \<^verbatim>\<open>src/server/multimaster_lww.cc\<close>: which journaled
  commands are guarded, how a guarded command is rewritten before it is applied, and when a key's write is
  dropped.
\<close>

datatype lww_class = kUnguarded | kSingleKey | kMultiKeySelfGuarded

subsection \<open>Classification\<close>

definition ascii_upper :: "char \<Rightarrow> char" where
  "ascii_upper c = (let n = of_char c :: nat in if 97 \<le> n \<and> n \<le> 122 then char_of (n - 32) else c)"

definition AsciiStrToUpper :: "string \<Rightarrow> string" where
  "AsciiStrToUpper = map ascii_upper"

definition EqualsIgnoreCase :: "string \<Rightarrow> string \<Rightarrow> bool" where
  "EqualsIgnoreCase a b = (AsciiStrToUpper a = AsciiStrToUpper b)"

definition kJournaledClasses :: "(string \<times> lww_class) list" where
  "kJournaledClasses =
     [(''DEL'', kMultiKeySelfGuarded), (''GETDEL'', kSingleKey), (''GETSET'', kSingleKey),
      (''MSET'', kMultiKeySelfGuarded), (''RESTORE'', kSingleKey), (''SET'', kSingleKey), (''SETNX'', kSingleKey)]"

definition TableIsSorted :: bool where
  "TableIsSorted = (\<forall>i \<in> set [1..<length kJournaledClasses]. fst (kJournaledClasses ! (i - 1)) < fst (kJournaledClasses ! i))"

text \<open>\<^verbatim>\<open>std::lower_bound\<close>: the halving search for the first element that is not less than the value.\<close>

function lower_bound :: "('a \<Rightarrow> bool) \<Rightarrow> 'a list \<Rightarrow> nat \<Rightarrow> nat \<Rightarrow> nat" where
  "lower_bound lt xs first len =
     (if len = 0 then first
      else let half = len div 2; mid = first + half
           in if lt (xs ! mid) then lower_bound lt xs (mid + 1) (len - half - 1)
              else lower_bound lt xs first half)"
  by pat_completeness auto
termination by (relation "measure (\<lambda>(_, _, _, len). len)") auto

declare lower_bound.simps [simp del]

definition ClassifyJournaledCommand :: "string \<Rightarrow> lww_class" where
  "ClassifyJournaledCommand journaled_name =
     (let upper = AsciiStrToUpper journaled_name;
          it = lower_bound (\<lambda>c. fst c < upper) kJournaledClasses 0 (length kJournaledClasses)
      in if it < length kJournaledClasses \<and> fst (kJournaledClasses ! it) = upper
         then snd (kJournaledClasses ! it) else kUnguarded)"

subsection \<open>Guard and rewrites\<close>

definition LwwGuardActive :: "bool \<Rightarrow> u64 \<Rightarrow> bool" where
  "LwwGuardActive link_guard incoming_mvcc = (link_guard \<and> incoming_mvcc \<noteq> 0)"

text \<open>Whether the options of a RESTORE, from the fifth word on, hold REPLACE; the value of an IDLETIME or FREQ
  option is not an option.\<close>

fun has_replace :: "string list \<Rightarrow> bool" where
  "has_replace [] = False"
| "has_replace (opt # rest) =
     (if EqualsIgnoreCase opt ''REPLACE'' then True
      else if EqualsIgnoreCase opt ''IDLETIME'' \<or> EqualsIgnoreCase opt ''FREQ''
      then (case rest of [] \<Rightarrow> False | _ # rest' \<Rightarrow> has_replace rest')
      else has_replace rest)"

definition ApplyLwwRewrites :: "string list \<Rightarrow> bool \<times> string list" where
  "ApplyLwwRewrites args =
     (case args of
        [] \<Rightarrow> (False, args)
      | name # _ \<Rightarrow>
          if EqualsIgnoreCase name ''SETNX''
          then (if length args \<noteq> 3 then (False, args) else (True, [''SET'', args ! 1, args ! 2]))
          else if EqualsIgnoreCase name ''GETSET''
          then (if length args \<noteq> 3 then (False, args) else (True, [''SET'', args ! 1, args ! 2]))
          else if EqualsIgnoreCase name ''GETDEL''
          then (if length args \<noteq> 2 then (False, args) else (True, [''DEL'', args ! 1]))
          else if EqualsIgnoreCase name ''RESTORE''
          then (if length args < 4 then (False, args)
                else if has_replace (drop 4 args) then (False, args) else (True, args @ [''REPLACE'']))
          else (False, args))"

text \<open>\<^verbatim>\<open>JournalExecutor::Execute\<close>: the words it dispatches.\<close>

definition Execute_args :: "bool \<Rightarrow> u64 \<Rightarrow> string list \<Rightarrow> string list" where
  "Execute_args repl_lww_guard repl_mvcc cmd =
     (if LwwGuardActive repl_lww_guard repl_mvcc then snd (ApplyLwwRewrites cmd) else cmd)"

subsection \<open>The drop decision\<close>

definition IncomingStamp :: "mvcc_stamper \<Rightarrow> u64 \<Rightarrow> nat \<Rightarrow> mvcc_stamp option" where
  "IncomingStamp st mv origin_idx =
     (if mv = 0 then None
      else let hash = OriginHash st origin_idx
           in if hash = 0 then None else Some \<lparr>packed = mv, origin_hash = hash\<rparr>)"

definition LwwShouldDropKey :: "mvcc_stamp option \<Rightarrow> mvcc_stamp \<Rightarrow> bool" where
  "LwwShouldDropKey stored incoming = (\<not> MergeAccepts stored incoming)"

definition NoteLwwDrop :: "string \<Rightarrow> key \<Rightarrow> 'v shard \<Rightarrow> 'v shard" where
  "NoteLwwDrop journaled_name key sh = effect [LwwDropped journaled_name key] sh"

definition GetMvcc_at :: "nat \<Rightarrow> key \<Rightarrow> 'v shard \<Rightarrow> mvcc_stamp option" where
  "GetMvcc_at db key sh = (case db_at db sh of None \<Rightarrow> None | Some t \<Rightarrow> GetMvcc t key)"

text \<open>\<^verbatim>\<open>Transaction::ShouldDropForLww\<close> on the keys the command touches on this shard.\<close>

definition ShouldDropForLww :: "db_context \<Rightarrow> string \<Rightarrow> key list \<Rightarrow> 'v shard \<Rightarrow> bool \<times> 'v shard" where
  "ShouldDropForLww cx cid_name keys sh =
     (if \<not> LwwGuardActive (cx_repl_lww_guard cx) (cx_repl_mvcc cx) then (False, sh)
      else if ClassifyJournaledCommand cid_name \<noteq> kSingleKey then (False, sh)
      else if length keys \<noteq> 1 then (False, sh)
      else case IncomingStamp (stamper sh) (cx_repl_mvcc cx) (cx_repl_origin_idx cx) of
             None \<Rightarrow> (False, sh)
           | Some incoming \<Rightarrow>
               if \<not> LwwShouldDropKey (GetMvcc_at (cx_db cx) (hd keys) sh) incoming then (False, sh)
               else (True, NoteLwwDrop cid_name (hd keys) sh))"

subsection \<open>The search finds the table row\<close>

lemma lower_bound_spec:
  assumes "\<And>i j. i \<le> j \<Longrightarrow> j < first + len \<Longrightarrow> lt (xs ! j) \<Longrightarrow> lt (xs ! i)"
  shows "first \<le> lower_bound lt xs first len \<and> lower_bound lt xs first len \<le> first + len \<and>
    (\<forall>i. first \<le> i \<and> i < lower_bound lt xs first len \<longrightarrow> lt (xs ! i)) \<and>
    (\<forall>i. lower_bound lt xs first len \<le> i \<and> i < first + len \<longrightarrow> \<not> lt (xs ! i))"
  using assms
proof (induction lt xs first len rule: lower_bound.induct)
  case (1 lt xs first len)
  show ?case
  proof (cases "len = 0")
    case True
    then show ?thesis by (auto simp: lower_bound.simps)
  next
    case False
    define mid where "mid = first + len div 2"
    have m: "mid < first + len" using False by (simp add: mid_def)
    show ?thesis
    proof (cases "lt (xs ! mid)")
      case True
      have eq: "lower_bound lt xs first len = lower_bound lt xs (mid + 1) (len - len div 2 - 1)"
        using False True by (simp add: lower_bound.simps [of lt xs first len] mid_def Let_def)
      have e: "mid + 1 + (len - len div 2 - 1) = first + len" using False by (simp add: mid_def)
      note ih = "1.IH"(1) [OF False refl refl, folded mid_def, OF True, unfolded e]
      have low: "lt (xs ! i)" if "i \<le> mid" for i using "1.prems" [OF that m True] .
      let ?r = "lower_bound lt xs (mid + 1) (len - len div 2 - 1)"
      have r: "mid + 1 \<le> ?r" "?r \<le> first + len" "\<forall>i. mid + 1 \<le> i \<and> i < ?r \<longrightarrow> lt (xs ! i)"
        "\<forall>i. ?r \<le> i \<and> i < first + len \<longrightarrow> \<not> lt (xs ! i)"
        using ih "1.prems" by blast+
      have "lt (xs ! i)" if "i < ?r" for i using low [of i] r(3) that by (cases "i \<le> mid") auto
      then show ?thesis unfolding eq using r(1,2,4) by (simp add: mid_def)
    next
      case nlt: False
      have eq: "lower_bound lt xs first len = lower_bound lt xs first (len div 2)"
        using False nlt by (simp add: lower_bound.simps [of lt xs first len] mid_def Let_def)
      note ih = "1.IH"(2) [OF False refl refl, folded mid_def, OF nlt]
      have high: "\<not> lt (xs ! i)" if "mid \<le> i" "i < first + len" for i using "1.prems" [OF that(1,2)] nlt by blast
      let ?r = "lower_bound lt xs first (len div 2)"
      have p: "\<And>i j. i \<le> j \<Longrightarrow> j < first + len div 2 \<Longrightarrow> lt (xs ! j) \<Longrightarrow> lt (xs ! i)" using "1.prems" by simp
      have r: "first \<le> ?r" "?r \<le> mid" "\<forall>i. first \<le> i \<and> i < ?r \<longrightarrow> lt (xs ! i)"
        "\<forall>i. ?r \<le> i \<and> i < mid \<longrightarrow> \<not> lt (xs ! i)"
        using ih [OF p] by (simp_all add: mid_def)
      have "\<not> lt (xs ! i)" if "?r \<le> i" "i < first + len" for i using high [of i] r(4) that by (cases "i < mid") auto
      then show ?thesis unfolding eq using r(1,2,3) m by simp
    qed
  qed
qed

lemma lower_bound_map_of:
  fixes xs :: "('k::linorder \<times> 'v) list" and k :: 'k
  assumes "sorted_wrt (<) (map fst xs)"
  defines "r \<equiv> lower_bound (\<lambda>c. fst c < k) xs 0 (length xs)"
  shows "(if r < length xs \<and> fst (xs ! r) = k then Some (snd (xs ! r)) else None) = map_of xs k"
proof -
  have lt: "fst (xs ! i) < fst (xs ! j)" if "i < j" "j < length xs" for i j
    using sorted_wrt_nth_less [OF assms(1), of i j] that by simp
  have mono: "fst (xs ! i) < k" if "i \<le> j" "j < 0 + length xs" "fst (xs ! j) < k" for i j
    using lt [of i j] that by (cases "i = j") auto
  have sp: "\<forall>i. i < r \<longrightarrow> fst (xs ! i) < k" "\<forall>i. r \<le> i \<and> i < length xs \<longrightarrow> \<not> fst (xs ! i) < k"
    using lower_bound_spec [of 0 "length xs" "\<lambda>c. fst c < k" xs] mono unfolding r_def by simp_all
  have dist: "distinct (map fst xs)" using assms(1) strict_sorted_iff by blast
  show ?thesis
  proof (cases "map_of xs k")
    case None
    have "fst (xs ! r) \<noteq> k" if "r < length xs"
      using None that by (auto simp: map_of_eq_None_iff)
    then show ?thesis using None by auto
  next
    case (Some v)
    then obtain i where i: "i < length xs" "xs ! i = (k, v)" by (meson in_set_conv_nth map_of_SomeD)
    have "r \<le> i" using sp(1) i by (metis fst_conv less_irrefl linorder_not_le)
    moreover have "\<not> r < i"
    proof
      assume "r < i"
      then have "fst (xs ! r) < k" using lt [of r i] i by simp
      moreover have "\<not> fst (xs ! r) < k" using sp(2) \<open>r < i\<close> i(1) by simp
      ultimately show False by blast
    qed
    ultimately have "r = i" by simp
    with i Some show ?thesis by simp
  qed
qed

lemma kJournaledClasses_sorted: "sorted_wrt (<) (map fst kJournaledClasses)"
  by (simp add: kJournaledClasses_def less_char_def)

lemma ascii_upper_idem: "ascii_upper (ascii_upper c) = ascii_upper c"
proof (cases "97 \<le> (of_char c :: nat) \<and> (of_char c :: nat) \<le> 122")
  case True
  then have n: "(of_char c - 32 :: nat) < 97" by linarith
  then have "of_char (char_of (of_char c - 32 :: nat)) = (of_char c - 32 :: nat)" by simp
  then show ?thesis using True n by (simp add: ascii_upper_def Let_def)
qed (auto simp: ascii_upper_def Let_def)

lemma AsciiStrToUpper_idem [simp]: "AsciiStrToUpper (AsciiStrToUpper s) = AsciiStrToUpper s"
  by (simp add: AsciiStrToUpper_def ascii_upper_idem)

text \<open>C32: the classification of a journaled name is the row of the table for its upper-case form, whatever the
  case of the name, and unguarded for every name that is not in the table.\<close>

theorem classify_is_lookup:
  "ClassifyJournaledCommand name =
     (case map_of kJournaledClasses (AsciiStrToUpper name) of None \<Rightarrow> kUnguarded | Some c \<Rightarrow> c) \<and>
   ClassifyJournaledCommand (AsciiStrToUpper name) = ClassifyJournaledCommand name"
  using lower_bound_map_of [OF kJournaledClasses_sorted, of "AsciiStrToUpper name"]
  by (auto simp: ClassifyJournaledCommand_def Let_def split: if_splits option.splits)

subsection \<open>Rewrites\<close>

fun opts_complete :: "string list \<Rightarrow> bool" where
  "opts_complete [] = True"
| "opts_complete (opt # rest) =
     (if EqualsIgnoreCase opt ''IDLETIME'' \<or> EqualsIgnoreCase opt ''FREQ''
      then (case rest of [] \<Rightarrow> False | _ # rest' \<Rightarrow> opts_complete rest')
      else opts_complete rest)"

lemma EqualsIgnoreCase_consts [simp]:
  "EqualsIgnoreCase ''REPLACE'' ''REPLACE''" "\<not> EqualsIgnoreCase ''SET'' ''SETNX''" "\<not> EqualsIgnoreCase ''SET'' ''GETSET''"
  "\<not> EqualsIgnoreCase ''SET'' ''GETDEL''" "\<not> EqualsIgnoreCase ''SET'' ''RESTORE''" "\<not> EqualsIgnoreCase ''DEL'' ''SETNX''"
  "\<not> EqualsIgnoreCase ''DEL'' ''GETSET''" "\<not> EqualsIgnoreCase ''DEL'' ''GETDEL''" "\<not> EqualsIgnoreCase ''DEL'' ''RESTORE''"
  by (simp_all add: EqualsIgnoreCase_def AsciiStrToUpper_def ascii_upper_def)

lemma has_replace_append: "opts_complete opts \<Longrightarrow> has_replace (opts @ [''REPLACE''])"
  by (induction opts rule: opts_complete.induct) (auto split: list.splits if_splits)

lemma upper_consts [simp]:
  "AsciiStrToUpper ''SETNX'' = ''SETNX''" "AsciiStrToUpper ''GETSET'' = ''GETSET''" "AsciiStrToUpper ''GETDEL'' = ''GETDEL''"
  "AsciiStrToUpper ''RESTORE'' = ''RESTORE''" "AsciiStrToUpper ''SET'' = ''SET''" "AsciiStrToUpper ''DEL'' = ''DEL''"
  by (simp_all add: AsciiStrToUpper_def ascii_upper_def)

lemma ApplyLwwRewrites_blind [simp]:
  "ApplyLwwRewrites (''SET'' # xs) = (False, ''SET'' # xs)" "ApplyLwwRewrites (''DEL'' # xs) = (False, ''DEL'' # xs)"
  by (simp_all add: ApplyLwwRewrites_def)



end
