(* ===== verification/Set_Command.thy ===== *)
theory Set_Command
  imports Multimaster_Lww
begin

text \<open>
  The SET path of \<^verbatim>\<open>src/server/string_family.cc\<close>: the class \<^verbatim>\<open>SetCmd\<close> with its conditional forms, elapsed
  expirations, in-place overwrite, fresh insert and explicit journal write, and MSET, which applies it pair by
  pair. An updater that goes out of scope runs (\<^verbatim>\<open>~AutoUpdater\<close>); every return path says so. The value a GET
  option returns is the payload of the old entry.
\<close>

record op_args =
  oa_cx :: db_context
  oa_txid :: u64
  oa_slot :: "u16 option"

definition LogJournalOnShard :: "slice_cfg \<Rightarrow> u64 \<Rightarrow> op_args \<Rightarrow> payload \<Rightarrow> 'v shard \<Rightarrow> 'v shard option" where
  "LogJournalOnShard C now_ms oa pl sh =
     (if \<not> ns_is_default sh then Some sh
      else RecordEntry C now_ms (oa_txid oa) COMMAND (cx_db (oa_cx oa)) (oa_slot oa) pl
             (cx_repl_origin_idx (oa_cx oa)) (cx_repl_mvcc (oa_cx oa)) 0 sh)"

definition RecordJournal :: "slice_cfg \<Rightarrow> u64 \<Rightarrow> op_args \<Rightarrow> string \<Rightarrow> bytes list \<Rightarrow> 'v shard \<Rightarrow> 'v shard option" where
  "RecordJournal C now_ms oa cmd args sh = LogJournalOnShard C now_ms oa \<lparr>pl_cmd = key_bytes cmd, pl_args = args\<rparr> sh"

text \<open>\<^verbatim>\<open>absl::StrCat\<close> of an unsigned number.\<close>

fun nat_str :: "nat \<Rightarrow> string" where
  "nat_str n = (if n < 10 then [char_of (48 + n)] else nat_str (n div 10) @ [char_of (48 + n mod 10)])"

declare nat_str.simps [simp del]

definition StrCat :: "'a::len word \<Rightarrow> bytes" where
  "StrCat w = key_bytes (nat_str (unat w))"

subsection \<open>Parameters\<close>

definition SET_IF_NOTEXIST :: u16 where "SET_IF_NOTEXIST = 1"
definition SET_IF_EXISTS :: u16 where "SET_IF_EXISTS = 2"
definition SET_KEEP_EXPIRE :: u16 where "SET_KEEP_EXPIRE = 4"
definition SET_GET :: u16 where "SET_GET = 8"
definition SET_EXPIRE_AFTER_MS :: u16 where "SET_EXPIRE_AFTER_MS = 16"
definition SET_STICK :: u16 where "SET_STICK = 32"

record set_params =
  sp_flags :: u16
  sp_memcache_flags :: u32
  sp_expire_after_ms :: u64
  sp_prev_val :: bool
  sp_expire_in_past :: bool

definition set_params_default :: set_params where
  "set_params_default = \<lparr>sp_flags = 0, sp_memcache_flags = 0, sp_expire_after_ms = 0, sp_prev_val = False, sp_expire_in_past = False\<rparr>"

definition IsConditionalSet :: "set_params \<Rightarrow> bool" where
  "IsConditionalSet sp = (sp_flags sp AND SET_IF_NOTEXIST \<noteq> 0 \<or> sp_flags sp AND SET_IF_EXISTS \<noteq> 0)"

subsection \<open>Lookup for an update\<close>

text \<open>\<^verbatim>\<open>FindMutable\<close> without a required type: no iterator and no updater when the key is not there.\<close>

definition FindMutable ::
  "slice_cfg \<Rightarrow> 'v access_env \<Rightarrow> u64 \<Rightarrow> db_context \<Rightarrow> key \<Rightarrow> 'v shard \<Rightarrow> (it_and_updater option \<times> 'v shard) option" where
  "FindMutable C A now_ms cx key sh =
     (case FindMutableInternal C A now_ms cx key None sh of
        None \<Rightarrow> None
      | Some (Inl _, sh1) \<Rightarrow> Some (None, sh1)
      | Some (Inr iu, sh1) \<Rightarrow> Some (Some iu, sh1))"

definition end_scope :: "slice_cfg \<Rightarrow> it_and_updater option \<Rightarrow> 'v shard \<Rightarrow> 'v shard" where
  "end_scope C fo sh = snd (RunInternal C True (map_option iu_updater fo) sh)"

definition CachePrevIfNeeded :: "set_params \<Rightarrow> 'v prime_entry option \<Rightarrow> op_status \<times> 'v option" where
  "CachePrevIfNeeded sp it =
     (case it of
        None \<Rightarrow> (OK, None)
      | Some e \<Rightarrow> if \<not> sp_prev_val sp then (OK, None)
                  else if pv_type e \<noteq> 0 then (WRONG_TYPE, None)
                  else (OK, Some (pv_value e)))"

subsection \<open>After the edit\<close>

definition StashPrimeValue :: "'v access_env \<Rightarrow> nat \<Rightarrow> key \<Rightarrow> 'v shard \<Rightarrow> 'v shard" where
  "StashPrimeValue A db key sh =
     (case lookup db key sh of
        None \<Rightarrow> sh
      | Some e \<Rightarrow> if should_stash A db e
                  then effect [StashValue db key] (upd_entry db key (e\<lparr>pv_stash_pending := True\<rparr>) sh) else sh)"

definition JournalFullStateSet ::
  "slice_cfg \<Rightarrow> 'v access_env \<Rightarrow> u64 \<Rightarrow> op_args \<Rightarrow> key \<Rightarrow> 'v shard \<Rightarrow> 'v shard option" where
  "JournalFullStateSet C A now_ms oa key sh =
     (case lookup (cx_db (oa_cx oa)) key sh of
        None \<Rightarrow> Some sh
      | Some e \<Rightarrow>
          let exp = (case pk_expire e of Some at \<Rightarrow> [key_bytes ''PXAT'', StrCat at] | None \<Rightarrow> []);
              stick = (if pk_sticky e then [key_bytes ''STICK''] else []);
              mcf = (if pv_flag e
                     then [key_bytes ''_MCFLAGS'',
                           StrCat (case db_at (cx_db (oa_cx oa)) sh of Some t \<Rightarrow> GetMCFlag key t | None \<Rightarrow> 0)]
                     else [])
          in RecordJournal C now_ms oa ''SET'' ([key_bytes key, value_bytes A (pv_value e)] @ exp @ stick @ mcf) sh)"

definition SetCmd_RecordJournal ::
  "slice_cfg \<Rightarrow> 'v access_env \<Rightarrow> u64 \<Rightarrow> op_args \<Rightarrow> set_params \<Rightarrow> key \<Rightarrow> bytes \<Rightarrow> 'v shard \<Rightarrow> 'v shard option" where
  "SetCmd_RecordJournal C A now_ms oa sp key value sh =
     (if sp_flags sp AND SET_KEEP_EXPIRE \<noteq> 0 \<and> IsActiveReplica (flags C) then JournalFullStateSet C A now_ms oa key sh
      else
        let exp = (if sp_flags sp AND SET_EXPIRE_AFTER_MS \<noteq> 0
                   then [key_bytes ''PXAT'', StrCat (sp_expire_after_ms sp + cx_time_now_ms (oa_cx oa))]
                   else if sp_flags sp AND SET_KEEP_EXPIRE \<noteq> 0 then [key_bytes ''KEEPTTL''] else []);
            stick = (if sp_flags sp AND SET_STICK \<noteq> 0 then [key_bytes ''STICK''] else []);
            mcf = (if sp_memcache_flags sp \<noteq> 0 then [key_bytes ''_MCFLAGS'', StrCat (sp_memcache_flags sp)] else [])
        in RecordJournal C now_ms oa ''SET'' ([key_bytes key, value] @ exp @ stick @ mcf) sh)"

definition PostEdit ::
  "slice_cfg \<Rightarrow> 'v access_env \<Rightarrow> u64 \<Rightarrow> op_args \<Rightarrow> bool \<Rightarrow> bool \<Rightarrow> set_params \<Rightarrow> key \<Rightarrow> bytes \<Rightarrow> auto_updater \<Rightarrow> 'v shard \<Rightarrow>
   'v shard option" where
  "PostEdit C A now_ms oa explicit_journal skip_journal sp key value u sh =
     (let sh1 = snd (RunInternal C True (Some u) sh);
          sh2 = (case tiered A of None \<Rightarrow> sh1 | Some _ \<Rightarrow> StashPrimeValue A (cx_db (oa_cx oa)) key sh1)
      in if explicit_journal \<and> has_journal C
         then (if skip_journal then Some (sh2\<lparr>journal := ClearBuffer (journal sh2)\<rparr>)
               else SetCmd_RecordJournal C A now_ms oa sp key value sh2)
         else Some sh2)"

subsection \<open>Overwrite and fresh insert\<close>

text \<open>\<^verbatim>\<open>CompactObj::SetString\<close> keeps the flag bits of the object.\<close>

definition set_string :: "'v access_env \<Rightarrow> bytes \<Rightarrow> 'v prime_entry \<Rightarrow> 'v prime_entry" where
  "set_string A value e =
     (let v = string_value A value
      in e\<lparr>pv_value := nv_value v, pv_type := 0, pv_malloc := nv_malloc v, pv_member_exp := False,
           pv_external := False, pv_cool := False, pv_strmap2 := False\<rparr>)"

text \<open>\<^verbatim>\<open>PrimeValue{value}\<close>: a new string object.\<close>

definition new_string :: "'v access_env \<Rightarrow> bytes \<Rightarrow> 'v prime_entry \<Rightarrow> 'v prime_entry" where
  "new_string A value e = set_string A value (e\<lparr>pv_flag := False, pv_stash_pending := False\<rparr>)"

definition set_sticky :: "nat \<Rightarrow> key \<Rightarrow> 'v shard \<Rightarrow> 'v shard" where
  "set_sticky db key sh = (case lookup db key sh of None \<Rightarrow> sh | Some e \<Rightarrow> upd_entry db key (e\<lparr>pk_sticky := True\<rparr>) sh)"

definition set_expiry :: "slice_cfg \<Rightarrow> db_context \<Rightarrow> set_params \<Rightarrow> key \<Rightarrow> 'v shard \<Rightarrow> 'v shard" where
  "set_expiry C cx sp key sh =
     (let at_ms = (if sp_expire_after_ms sp \<noteq> 0 then sp_expire_after_ms sp + cx_time_now_ms cx else 0)
      in if sp_flags sp AND SET_KEEP_EXPIRE \<noteq> 0 then sh
         else if at_ms \<noteq> 0 then AddExpire C (cx_db cx) key at_ms sh
         else snd (RemoveExpire C (cx_db cx) key sh))"

definition overwrite_value ::
  "slice_cfg \<Rightarrow> 'v access_env \<Rightarrow> nat \<Rightarrow> set_params \<Rightarrow> key \<Rightarrow> bytes \<Rightarrow> 'v prime_entry \<Rightarrow> 'v shard \<Rightarrow> 'v shard" where
  "overwrite_value C A db sp key value e sh =
     (let e1 = e\<lparr>pv_flag := (sp_memcache_flags sp \<noteq> 0)\<rparr>;
          sh1 = upd_db db (\<lambda>t. snd (SetMCFlag key (sp_memcache_flags sp) t)) (upd_entry db key e1 sh);
          sh2 = effect [IndexRemove db key] sh1;
          sh3 = (if pv_external e then effect [TieredDelete db key] sh2 else sh2);
          sh4 = upd_entry db key (set_string A value e1) sh3
      in if pv_type e = 6 \<and> blocking_controller C \<noteq> None then effect [Awaken db key] sh4 else sh4)"

definition SetExisting ::
  "slice_cfg \<Rightarrow> 'v access_env \<Rightarrow> u64 \<Rightarrow> op_args \<Rightarrow> bool \<Rightarrow> bool \<Rightarrow> set_params \<Rightarrow> key \<Rightarrow> bytes \<Rightarrow> it_and_updater \<Rightarrow> 'v shard \<Rightarrow>
   'v shard option" where
  "SetExisting C A now_ms oa explicit_journal skip_journal sp key value iu sh =
     (let db = cx_db (oa_cx oa);
          sh1 = set_expiry C (oa_cx oa) sp key sh;
          sh2 = (if sp_flags sp AND SET_STICK \<noteq> 0 then set_sticky db key sh1 else sh1)
      in case lookup db key sh2 of
           None \<Rightarrow> Some sh2
         | Some e \<Rightarrow>
             let (u, sh3) = ReduceHeapUsage C e (iu_updater iu) sh2
             in PostEdit C A now_ms oa explicit_journal skip_journal sp key value u
                  (overwrite_value C A db sp key value e sh3))"

definition SetCmd_AddNew ::
  "slice_cfg \<Rightarrow> 'v access_env \<Rightarrow> u64 \<Rightarrow> op_args \<Rightarrow> bool \<Rightarrow> bool \<Rightarrow> set_params \<Rightarrow> key \<Rightarrow> bytes \<Rightarrow> it_and_updater \<Rightarrow> 'v shard \<Rightarrow>
   'v shard option" where
  "SetCmd_AddNew C A now_ms oa explicit_journal skip_journal sp key value iu sh =
     (let cx = oa_cx oa; db = cx_db cx
      in case lookup db key sh of
           None \<Rightarrow> Some sh
         | Some e \<Rightarrow>
             let sh1 = upd_entry db key (new_string A value e) sh;
                 sh2 = (if sp_expire_after_ms sp \<noteq> 0
                        then AddExpire C db key (sp_expire_after_ms sp + cx_time_now_ms cx) sh1 else sh1);
                 sh3 = (if sp_memcache_flags sp \<noteq> 0
                        then (case lookup db key sh2 of
                                None \<Rightarrow> sh2
                              | Some e2 \<Rightarrow> upd_db db (\<lambda>t. snd (SetMCFlag key (sp_memcache_flags sp) t))
                                             (upd_entry db key (e2\<lparr>pv_flag := True\<rparr>) sh2))
                        else sh2);
                 sh4 = (if sp_flags sp AND SET_STICK \<noteq> 0 then set_sticky db key sh3 else sh3)
             in PostEdit C A now_ms oa explicit_journal skip_journal sp key value (iu_updater iu) sh4)"

subsection \<open>An elapsed expiration\<close>

definition SendExpiredKeyEvent :: "slice_cfg \<Rightarrow> db_context \<Rightarrow> key \<Rightarrow> 'v shard \<Rightarrow> 'v shard" where
  "SendExpiredKeyEvent C cx key sh =
     (if expired_keys_events_recording C then effect [ExpiredEvent (cx_db cx) key] sh else sh)"

definition DeleteExpiredKey ::
  "slice_cfg \<Rightarrow> u64 \<Rightarrow> op_args \<Rightarrow> key \<Rightarrow> it_and_updater \<Rightarrow> 'v shard \<Rightarrow> (op_status \<times> 'v shard) option" where
  "DeleteExpiredKey C now_ms oa key iu sh =
     (let cx = oa_cx oa;
          sh1 = snd (RunInternal C True (Some (iu_updater iu)) sh);
          past = ExpireParams_unit MSEC (- 1) (cx_time_now_ms cx) True
      in case lookup (cx_db cx) key sh1 of
           None \<Rightarrow> Some (OK, sh1)
         | Some e \<Rightarrow>
             (case UpdateExpire C cx key e past sh1 of
                (Inl st, sh2) \<Rightarrow> Some (st, sh2)
              | (Inr _, sh2) \<Rightarrow>
                  (case (if has_journal C then RecordJournal C now_ms oa ''DEL'' [key_bytes key] sh2 else Some sh2) of
                     None \<Rightarrow> None
                   | Some sh3 \<Rightarrow> Some (OK, SendExpiredKeyEvent C cx key sh3))))"

text \<open>The absent-key branch of an unconditional SET whose expiration has elapsed.\<close>

definition install_elapsed :: "slice_cfg \<Rightarrow> db_context \<Rightarrow> key \<Rightarrow> 'v shard \<Rightarrow> 'v shard" where
  "install_elapsed C cx key sh =
     (if LwwGuardActive (cx_repl_lww_guard cx) (cx_repl_mvcc cx)
      then (case IncomingStamp (stamper sh) (cx_repl_mvcc cx) (cx_repl_origin_idx cx) of
              None \<Rightarrow> sh
            | Some incoming \<Rightarrow>
                if MergeAccepts (GetMvcc_at (cx_db cx) key sh) incoming
                then upd_db (cx_db cx)
                       (InstallAbsentKeyTombstone (env C) (TombstonesEnabled (flags C)) (multi_master_max_tombstones (flags C))
                          key (ExpiryTombstoneFor incoming)) sh
                else sh)
      else sh)"

subsection \<open>SET\<close>

definition set_insert ::
  "slice_cfg \<Rightarrow> 'v access_env \<Rightarrow> u64 \<Rightarrow> op_args \<Rightarrow> bool \<Rightarrow> set_params \<Rightarrow> key \<Rightarrow> bytes \<Rightarrow> 'v shard \<Rightarrow>
   (op_status \<times> 'v option \<times> 'v shard) option" where
  "set_insert C A now_ms oa explicit_journal sp key value sh =
     (case AddOrFindInternal C (A\<lparr>omittable_operation := True\<rparr>) now_ms (oa_cx oa) key None sh of
        None \<Rightarrow> None
      | Some (Inl st, sh1) \<Rightarrow> Some (st, None, sh1)
      | Some (Inr iu, sh1) \<Rightarrow>
          if \<not> is_new iu
          then let (st, prev) = CachePrevIfNeeded sp (lookup (cx_db (oa_cx oa)) key sh1)
               in if st \<noteq> OK then Some (st, None, end_scope C (Some iu) sh1)
                  else map_option (\<lambda>s. (OK, prev, s)) (SetExisting C A now_ms oa explicit_journal (omitted_journal iu) sp key value iu sh1)
          else map_option (\<lambda>s. (OK, None, s)) (SetCmd_AddNew C A now_ms oa explicit_journal (omitted_journal iu) sp key value iu sh1))"

definition set_conditional ::
  "slice_cfg \<Rightarrow> 'v access_env \<Rightarrow> u64 \<Rightarrow> op_args \<Rightarrow> bool \<Rightarrow> set_params \<Rightarrow> key \<Rightarrow> bytes \<Rightarrow> 'v shard \<Rightarrow>
   (op_status \<times> 'v option \<times> 'v shard) option" where
  "set_conditional C A now_ms oa explicit_journal sp key value sh =
     (case FindMutable C A now_ms (oa_cx oa) key sh of
        None \<Rightarrow> None
      | Some (fo, sh1) \<Rightarrow>
          let (st, prev) = CachePrevIfNeeded sp (if fo = None then None else lookup (cx_db (oa_cx oa)) key sh1)
          in if st \<noteq> OK then Some (st, None, end_scope C fo sh1)
             else if sp_flags sp AND SET_IF_EXISTS \<noteq> 0
             then (case fo of
                     None \<Rightarrow> Some (SKIPPED, prev, sh1)
                   | Some iu \<Rightarrow>
                       if sp_expire_in_past sp
                       then map_option (\<lambda>(s, sh2). (s, prev, sh2)) (DeleteExpiredKey C now_ms oa key iu sh1)
                       else map_option (\<lambda>s. (OK, prev, s)) (SetExisting C A now_ms oa explicit_journal False sp key value iu sh1))
             else (case fo of
                     Some iu \<Rightarrow> Some (SKIPPED, prev, end_scope C fo sh1)
                   | None \<Rightarrow> if sp_expire_in_past sp then Some (OK, prev, sh1)
                             else set_insert C A now_ms oa explicit_journal sp key value sh1))"

definition SetCmd_Set ::
  "slice_cfg \<Rightarrow> 'v access_env \<Rightarrow> u64 \<Rightarrow> op_args \<Rightarrow> bool \<Rightarrow> set_params \<Rightarrow> key \<Rightarrow> bytes \<Rightarrow> 'v shard \<Rightarrow>
   (op_status \<times> 'v option \<times> 'v shard) option" where
  "SetCmd_Set C A now_ms oa explicit_journal sp key value sh =
     (if IsConditionalSet sp then set_conditional C A now_ms oa explicit_journal sp key value sh
      else if sp_expire_in_past sp
      then (case FindMutable C A now_ms (oa_cx oa) key sh of
              None \<Rightarrow> None
            | Some (fo, sh1) \<Rightarrow>
                let (st, prev) = CachePrevIfNeeded sp (if fo = None then None else lookup (cx_db (oa_cx oa)) key sh1)
                in if st \<noteq> OK then Some (st, None, end_scope C fo sh1)
                   else (case fo of
                           None \<Rightarrow> Some (OK, prev, install_elapsed C (oa_cx oa) key sh1)
                         | Some iu \<Rightarrow> map_option (\<lambda>(s, sh2). (s, prev, sh2)) (DeleteExpiredKey C now_ms oa key iu sh1)))
      else set_insert C A now_ms oa explicit_journal sp key value sh)"

subsection \<open>MSET\<close>

text \<open>The loop returns the status, the number of stored pairs, the surviving pairs of a guarded apply, and the
  shard.\<close>

fun mset_loop ::
  "slice_cfg \<Rightarrow> 'v access_env \<Rightarrow> u64 \<Rightarrow> op_args \<Rightarrow> mvcc_stamp option \<Rightarrow> (key \<times> bytes) list \<Rightarrow> 'v shard \<Rightarrow>
   (op_status \<times> nat \<times> (key \<times> bytes) list \<times> 'v shard) option" where
  "mset_loop C A now_ms oa incoming [] sh = Some (OK, 0, [], sh)"
| "mset_loop C A now_ms oa incoming ((key, value) # rest) sh =
     (if (case incoming of Some s \<Rightarrow> LwwShouldDropKey (GetMvcc_at (cx_db (oa_cx oa)) key sh) s | None \<Rightarrow> False)
      then mset_loop C A now_ms oa incoming rest (NoteLwwDrop ''MSET'' key sh)
      else case SetCmd_Set C A now_ms oa False set_params_default key value sh of
             None \<Rightarrow> None
           | Some (st, _, sh1) \<Rightarrow>
               if st \<noteq> OK then Some (st, 0, [], sh1)
               else (case mset_loop C A now_ms oa incoming rest sh1 of
                       None \<Rightarrow> None
                     | Some (st', n, surv, sh2) \<Rightarrow>
                         Some (st', n + 1, (if incoming = None then surv else (key, value) # surv), sh2)))"

definition mset_args :: "(key \<times> bytes) list \<Rightarrow> bytes list" where
  "mset_args kvs = concat (map (\<lambda>(k, v). [key_bytes k, v]) kvs)"

definition OpMSet ::
  "slice_cfg \<Rightarrow> 'v access_env \<Rightarrow> u64 \<Rightarrow> op_args \<Rightarrow> (key \<times> bytes) list \<Rightarrow> 'v shard \<Rightarrow> (op_status \<times> 'v shard) option" where
  "OpMSet C A now_ms oa args sh =
     (let cx = oa_cx oa;
          incoming = (if LwwGuardActive (cx_repl_lww_guard cx) (cx_repl_mvcc cx)
                      then IncomingStamp (stamper sh) (cx_repl_mvcc cx) (cx_repl_origin_idx cx) else None)
      in case mset_loop C A now_ms oa incoming args sh of
           None \<Rightarrow> None
         | Some (result, stored, survivors, sh1) \<Rightarrow>
             map_option (\<lambda>s. (result, s))
               (if \<not> has_journal C then Some sh1
                else if incoming \<noteq> None
                then (if survivors \<noteq> [] then RecordJournal C now_ms oa ''MSET'' (mset_args survivors) sh1 else Some sh1)
                else if stored = length args then RecordJournal C now_ms oa ''MSET'' (mset_args args) sh1
                else if stored > 0 then RecordJournal C now_ms oa ''MSET'' (mset_args (take stored args)) sh1
                else Some sh1))"

end
