(* ===== verification/Key_Commands.thy ===== *)
theory Key_Commands
  imports Set_Command
begin

text \<open>
  Commands on keys of any type from \<^verbatim>\<open>src/server/generic_family.cc\<close>: DEL, the EXPIRE family, PERSIST, STICK and
  the lookup of an expiry time, with the journal entries they write themselves.
\<close>

subsection \<open>Full-state journal entries\<close>

definition RecordFullStateJournal ::
  "slice_cfg \<Rightarrow> 'v access_env \<Rightarrow> u64 \<Rightarrow> op_args \<Rightarrow> key \<Rightarrow> 'v prime_entry \<Rightarrow> 'v shard \<Rightarrow> 'v shard option" where
  "RecordFullStateJournal C A now_ms oa key e sh =
     (if pv_type e = 0 then JournalFullStateSet C A now_ms oa key sh
      else RecordJournal C now_ms oa ''RESTORE''
             ([key_bytes key, StrCat (case pk_expire e of Some at \<Rightarrow> at | None \<Rightarrow> 0), dump_value A e,
               key_bytes ''REPLACE'', key_bytes ''ABSTTL''] @ (if pk_sticky e then [key_bytes ''STICK''] else [])) sh)"

subsection \<open>DEL\<close>

fun del_loop ::
  "slice_cfg \<Rightarrow> 'v access_env \<Rightarrow> u64 \<Rightarrow> op_args \<Rightarrow> bool \<Rightarrow> mvcc_stamp option \<Rightarrow> key list \<Rightarrow> 'v shard \<Rightarrow>
   (nat \<times> key list \<times> 'v shard) option" where
  "del_loop C A now_ms oa async incoming [] sh = Some (0, [], sh)"
| "del_loop C A now_ms oa async incoming (key # rest) sh =
     (if (case incoming of Some s \<Rightarrow> LwwShouldDropKey (GetMvcc_at (cx_db (oa_cx oa)) key sh) s | None \<Rightarrow> False)
      then del_loop C A now_ms oa async incoming rest (NoteLwwDrop ''DEL'' key sh)
      else case FindMutable C A now_ms (oa_cx oa) key sh of
             None \<Rightarrow> None
           | Some (None, sh1) \<Rightarrow> del_loop C A now_ms oa async incoming rest sh1
           | Some (Some iu, sh1) \<Rightarrow>
               (case del_loop C A now_ms oa async incoming rest
                       (Del C (cx_db (oa_cx oa)) key async kExplicit (end_scope C (Some iu) sh1)) of
                  None \<Rightarrow> None
                | Some (n, journal_args, sh2) \<Rightarrow>
                    Some (n + 1, (if has_journal C \<and> \<not> omitted_journal iu then key # journal_args else journal_args), sh2)))"

definition OpDelV2 ::
  "slice_cfg \<Rightarrow> 'v access_env \<Rightarrow> u64 \<Rightarrow> op_args \<Rightarrow> key list \<Rightarrow> bool \<Rightarrow> 'v shard \<Rightarrow> (nat \<times> 'v shard) option" where
  "OpDelV2 C A now_ms oa keys async sh =
     (let cx = oa_cx oa;
          incoming = (if LwwGuardActive (cx_repl_lww_guard cx) (cx_repl_mvcc cx)
                      then IncomingStamp (stamper sh) (cx_repl_mvcc cx) (cx_repl_origin_idx cx) else None)
      in case del_loop C A now_ms oa async incoming keys sh of
           None \<Rightarrow> None
         | Some (deleted_cnt, journal_args, sh1) \<Rightarrow>
             map_option (\<lambda>s. (deleted_cnt, s))
               (if \<not> has_journal C then Some sh1
                else if journal_args \<noteq> [] then RecordJournal C now_ms oa ''DEL'' (map key_bytes journal_args) sh1
                else if deleted_cnt > 0 then Some (sh1\<lparr>journal := ClearBuffer (journal sh1)\<rparr>)
                else Some sh1))"

subsection \<open>EXPIRE and PERSIST\<close>

definition OpExpire ::
  "slice_cfg \<Rightarrow> 'v access_env \<Rightarrow> u64 \<Rightarrow> op_args \<Rightarrow> key \<Rightarrow> expire_params \<Rightarrow> 'v shard \<Rightarrow> (op_status \<times> 'v shard) option" where
  "OpExpire C A now_ms oa key p sh =
     (let cx = oa_cx oa; db = cx_db cx
      in case FindMutable C A now_ms cx key sh of
           None \<Rightarrow> None
         | Some (None, sh1) \<Rightarrow> Some (KEY_NOTFOUND, sh1)
         | Some (Some iu, sh1) \<Rightarrow>
             (case lookup db key sh1 of
                None \<Rightarrow> Some (KEY_NOTFOUND, sh1)
              | Some e \<Rightarrow>
                  let would_be_noop = WouldExpireBeNoop e p (cx_time_now_ms cx);
                      sh2 = snd (RunInternal C (\<not> would_be_noop) (Some (iu_updater iu)) sh1)
                  in case UpdateExpire C cx key e p sh2 of
                       (Inl st, sh3) \<Rightarrow> Some (st, sh3)
                     | (Inr v, sh3) \<Rightarrow>
                         (case (if \<not> has_journal C then Some sh3
                                else if v = - 1 then RecordJournal C now_ms oa ''DEL'' [key_bytes key] sh3
                                else if IsActiveReplica (flags C)
                                then (case lookup db key sh3 of
                                        None \<Rightarrow> Some sh3
                                      | Some e3 \<Rightarrow> RecordFullStateJournal C A now_ms oa key e3 sh3)
                                else RecordJournal C now_ms oa ''PEXPIREAT'' [key_bytes key, StrCat v] sh3) of
                            None \<Rightarrow> None
                          | Some sh4 \<Rightarrow> Some (OK, if v = - 1 then SendExpiredKeyEvent C cx key sh4 else sh4))))"

definition OpPersist ::
  "slice_cfg \<Rightarrow> 'v access_env \<Rightarrow> u64 \<Rightarrow> op_args \<Rightarrow> key \<Rightarrow> 'v shard \<Rightarrow> (op_status \<times> 'v shard) option" where
  "OpPersist C A now_ms oa key sh =
     (let db = cx_db (oa_cx oa)
      in case FindMutable C A now_ms (oa_cx oa) key sh of
           None \<Rightarrow> None
         | Some (None, sh1) \<Rightarrow> Some (KEY_NOTFOUND, sh1)
         | Some (Some iu, sh1) \<Rightarrow>
             let (cleared, sh2) = RemoveExpire C db key sh1
             in if \<not> cleared then Some (SKIPPED, snd (RunInternal C False (Some (iu_updater iu)) sh2))
                else
                  let sh3 = end_scope C (Some iu) sh2
                  in map_option (\<lambda>s. (OK, s))
                       (if has_journal C \<and> IsActiveReplica (flags C)
                        then (case lookup db key sh3 of
                                None \<Rightarrow> Some sh3
                              | Some e \<Rightarrow> RecordFullStateJournal C A now_ms oa key e sh3)
                        else Some sh3))"

subsection \<open>STICK and EXPIRETIME\<close>

fun OpStick ::
  "slice_cfg \<Rightarrow> 'v access_env \<Rightarrow> u64 \<Rightarrow> db_context \<Rightarrow> key list \<Rightarrow> 'v shard \<Rightarrow> (nat \<times> 'v shard) option" where
  "OpStick C A now_ms cx [] sh = Some (0, sh)"
| "OpStick C A now_ms cx (key # rest) sh =
     (case FindMutable C A now_ms cx key sh of
        None \<Rightarrow> None
      | Some (None, sh1) \<Rightarrow> OpStick C A now_ms cx rest sh1
      | Some (Some iu, sh1) \<Rightarrow>
          let fresh = (case lookup (cx_db cx) key sh1 of None \<Rightarrow> False | Some e \<Rightarrow> \<not> pk_sticky e);
              sh2 = (if fresh then set_sticky (cx_db cx) key sh1 else sh1)
          in map_option (\<lambda>(n, s). (n + of_bool fresh, s)) (OpStick C A now_ms cx rest (end_scope C (Some iu) sh2)))"

definition OpExpireTime ::
  "slice_cfg \<Rightarrow> u64 \<Rightarrow> db_context \<Rightarrow> key \<Rightarrow> 'v shard \<Rightarrow> ((op_status + u64) \<times> 'v shard) option" where
  "OpExpireTime C now_ms cx key sh =
     (case FindInternal C now_ms cx key None kReadStats sh of
        None \<Rightarrow> None
      | Some (st, sh1) \<Rightarrow>
          (case lookup (cx_db cx) key sh1 of
             Some e \<Rightarrow> if st \<noteq> OK then Some (Inl KEY_NOTFOUND, sh1)
                       else (case pk_expire e of None \<Rightarrow> Some (Inl SKIPPED, sh1) | Some at \<Rightarrow> Some (Inr at, sh1))
           | None \<Rightarrow> Some (Inl KEY_NOTFOUND, sh1)))"

subsection \<open>The prediction of a refused EXPIRE\<close>

text \<open>C34: the read-only prediction that decides whether an EXPIRE arms the key agrees with what the update then
  does, for every entry, option set and clock reading, in every case the command can produce: it says no-op
  exactly when the update returns an error, and then the update changes nothing. This is the condition
  \<^verbatim>\<open>OpExpire\<close> checks in debug builds.\<close>

theorem expire_noop_prediction:
  assumes "\<not> persist p" "IsDefined p"
  shows "(WouldExpireBeNoop e p (cx_time_now_ms cx) \<longleftrightarrow> (\<exists>st. fst (UpdateExpire C cx key e p sh) = Inl st)) \<and>
    (WouldExpireBeNoop e p (cx_time_now_ms cx) \<longrightarrow> snd (UpdateExpire C cx key e p sh) = sh)"
  using assms by (simp add: WouldExpireBeNoop_def UpdateExpire_def Let_def split_def)

theorem expire_noop_prediction_witness:
  "\<exists>(e :: unit prime_entry) (cx :: db_context). \<forall>C sh.
     pk_expire e = Some 90 \<and> cx_time_now_ms cx = 20 \<and>
     fst (UpdateExpire C cx ''K'' e \<lparr>ms_timestamp = 50, persist = False, expire_options = EXPIRE_NX\<rparr> sh) = Inl SKIPPED \<and>
     snd (UpdateExpire C cx ''K'' e \<lparr>ms_timestamp = 50, persist = False, expire_options = EXPIRE_NX\<rparr> sh) = sh"
proof (intro exI allI)
  let ?p = "\<lparr>ms_timestamp = 50, persist = False, expire_options = EXPIRE_NX\<rparr>"
  let ?e = "\<lparr>pk_expire = Some 90, pk_inline = True, pk_malloc = 0, pk_sticky = False, pv_value = (), pv_type = 0, pv_malloc = 0,
    pv_flag = False, pv_member_exp = False, pv_stash_pending = False, pv_external = False, pv_cool = False, pv_strmap2 = False\<rparr>"
  let ?cx = "\<lparr>cx_db = 0, cx_time_now_ms = 20, cx_repl_origin_idx = 0, cx_repl_mvcc = 0, cx_repl_lww_guard = False\<rparr>"
  fix C and sh :: "unit shard"
  have p: "\<not> persist ?p" "IsDefined ?p" by (simp_all add: IsDefined_def)
  have r: "Calculate ?p 20 False = (30, 50)" by (simp add: Calculate_def kOverflow_def)
  have c: "\<not> ExpireConditionSatisfied True 90 EXPIRE_NX 50"
    by (simp add: ExpireConditionSatisfied_def EXPIRE_NX_def EXPIRE_XX_def EXPIRE_LT_def EXPIRE_GT_def)
  have "sint kMaxExpireDeadlineMs = 268435455000" by (simp add: kMaxExpireDeadlineMs_def kMaxExpireDeadlineSec_def)
  then have "WouldExpireBeNoop ?e ?p (cx_time_now_ms ?cx)" "fst (UpdateExpire C ?cx ''K'' ?e ?p sh) = Inl SKIPPED"
    using p c by (simp_all add: WouldExpireBeNoop_def UpdateExpire_def r current_cmp_def)
  then show "pk_expire ?e = Some 90 \<and> cx_time_now_ms ?cx = 20 \<and> fst (UpdateExpire C ?cx ''K'' ?e ?p sh) = Inl SKIPPED \<and>
      snd (UpdateExpire C ?cx ''K'' ?e ?p sh) = sh"
    using expire_noop_prediction [OF p, of ?e ?cx C "''K''" sh] by simp
qed

subsection \<open>Deadlines\<close>

text \<open>Milliseconds of one unit.\<close>

definition unit_ms :: "time_unit \<Rightarrow> int" where
  "unit_ms u = (if u = SEC then 1000 else 1)"

lemma sint_times_1000:
  fixes v :: u64
  assumes "0 < sint v" "sint v \<le> 9223372036854775"
  shows "sint (v * 1000) = sint v * 1000"
proof -
  have "sint (v * 1000) = signed_take_bit 63 (sint v * sint (1000 :: u64))" by (simp add: sint_word_ariths)
  also have "sint (1000 :: u64) = 1000" by simp
  finally show ?thesis using assms by (simp add: signed_take_bit_int_eq_self)
qed

lemma sint_kOverflow [simp]: "sint kOverflow = 9223372036854775807"
  by (simp add: kOverflow_def)

lemma sint_in_range:
  fixes a b :: u64
  shows "- (2 ^ 63) \<le> sint a + sint b \<Longrightarrow> sint a + sint b < 2 ^ 63 \<Longrightarrow> sint (a + b) = sint a + sint b"
    "- (2 ^ 63) \<le> sint a - sint b \<Longrightarrow> sint a - sint b < 2 ^ 63 \<Longrightarrow> sint (a - b) = sint a - sint b"
  by (simp_all add: sint_word_ariths signed_take_bit_int_eq_self)

text \<open>C35: the deadline of an expiry is exact or saturated, never wrapped. For any clock reading below \<open>2 ^ 63\<close> and any
  64-bit amount of seconds or milliseconds, relative or absolute (clock 0), the stored timestamp is the mathematical sum of
  the amount and the clock, cut off at the largest signed 64-bit number; an amount of at most zero gives timestamp 0.\<close>

theorem expire_deadline_saturates:
  assumes "now < 2 ^ 63"
  shows "sint (ms_timestamp (ExpireParams_unit u v now False)) =
    (if sint v \<le> 0 then 0 else min (unit_ms u * sint v + int (unat now)) (2 ^ 63 - 1))"
proof (cases "sint v \<le> 0")
  case True
  then show ?thesis by (simp add: ExpireParams_unit_def)
next
  case False
  have ub: "uint now < 2 ^ 63" using assms by (simp add: word_less_def)
  have "- (2 ^ 63) \<le> uint now" by (rule order_trans [OF _ uint_ge_0]) simp
  with ub have n: "sint now = int (unat now)"
    using signed_take_bit_int_eq_self [of 63 "uint now"] by (simp add: sint_uint flip: uint_nat)
  define ms where "ms = (if u = SEC then (if sint v \<le> 9223372036854775 then v * 1000 else kOverflow) else v)"
  have ms: "sint ms = min (unit_ms u * sint v) (2 ^ 63 - 1)" "0 < sint ms"
    using False sint_times_1000 [of v] sint_lt [of v] by (auto simp: ms_def unit_ms_def)
  have pos: "0 \<le> sint now" using n by simp
  have lo: "sint (kOverflow - now) = 9223372036854775807 - sint now"
    using pos sint_lt [of now] by (subst sint_in_range(2)) simp_all
  have ts: "ms_timestamp (ExpireParams_unit u v now False) = (if 9223372036854775807 - sint now < sint ms then kOverflow else ms + now)"
    using False lo by (simp add: ExpireParams_unit_def Let_def ms_def params_default_def)
  show ?thesis
  proof (cases "9223372036854775807 - sint now < sint ms")
    case True
    then show ?thesis using ts ms False unfolding n [symmetric] by auto
  next
    case f: False
    have "sint (ms + now) = sint ms + sint now" using f ms(2) pos by (subst sint_in_range(1)) simp_all
    then show ?thesis using ts f ms False pos unfolding n [symmetric] by (auto simp: min_def)
  qed
qed

theorem expire_deadline_saturates_witness:
  "sint (ms_timestamp (ExpireParams_unit SEC 9223372036854775807 1000 False)) = 2 ^ 63 - 1 \<and>
   sint (ms_timestamp (ExpireParams_unit SEC 60 1000 False)) = 61000"
  using expire_deadline_saturates [of 1000 SEC 9223372036854775807] expire_deadline_saturates [of 1000 SEC 60]
  by (simp add: unit_ms_def)

text \<open>The options of EXPIRE are alternatives, not conditions: with \<^verbatim>\<open>XX GT\<close> a key that has an expiry gets the new one even when
  it is earlier.\<close>

lemma expire_xx_gt: "ExpireConditionSatisfied True current (EXPIRE_XX OR EXPIRE_GT) abs_msec"
  by (simp add: ExpireConditionSatisfied_def EXPIRE_XX_def EXPIRE_GT_def)

end
