(* ===== verification/Transaction_Run.thy ===== *)
theory Transaction_Run
  imports Key_Commands
begin

text \<open>
  One hop of a transaction on a shard, \<^verbatim>\<open>Transaction::RunCallback\<close> of \<^verbatim>\<open>src/server/transaction.cc\<close>: the
  last-write-wins veto, the command's callback, the end-of-callback checks of the slice, the automatic journal
  entry and the end of the write epoch. A callback is a function on the shard. What the command table and the
  coordinator decide (journalled, no automatic journal, concluding, squashing) is the record \<open>tx_env\<close>.
\<close>

record tx_env =
  tx_args :: op_args
  tx_cid_name :: string
  tx_keys :: "key list"
  tx_payload :: payload
  tx_is_journaled :: bool
  tx_no_key_transactional :: bool
  tx_no_autojournal :: bool
  tx_re_enabled_auto_journal :: bool
  tx_concluding :: bool
  tx_is_squasher :: bool
  tx_single_shard :: bool

definition IsAutoJournalSuppressed :: "tx_env \<Rightarrow> bool" where
  "IsAutoJournalSuppressed T = (tx_no_autojournal T \<and> \<not> tx_re_enabled_auto_journal T)"

text \<open>The O(1) density check: one live stamp per key. The queued invalidations are sent afterwards.\<close>

definition dense_count :: "'v db_table \<Rightarrow> bool" where
  "dense_count t = (case mvcc t of
     None \<Rightarrow> True
   | Some m \<Rightarrow> of_nat (tbl_size m) - mvcc_tombstones (tstats t) = (of_nat (tbl_size (prime t)) :: u64))"

definition OnCbFinishBlocking :: "'v shard \<Rightarrow> 'v shard option" where
  "OnCbFinishBlocking sh =
     (if mvcc_enabled sh \<and> ns_is_default sh \<and> \<not> list_all (\<lambda>x. case x of None \<Rightarrow> True | Some t \<Rightarrow> dense_count t) (db_arr sh)
      then None else Some (sh\<lparr>pending_send_map := []\<rparr>))"

definition LogAutoJournalOnShard ::
  "slice_cfg \<Rightarrow> u64 \<Rightarrow> tx_env \<Rightarrow> op_status \<Rightarrow> bool \<Rightarrow> 'v shard \<Rightarrow> 'v shard option" where
  "LogAutoJournalOnShard C now_ms T status lww_dropped sh =
     (if lww_dropped then Some sh
      else if tx_is_squasher T then Some sh
      else if \<not> tx_is_journaled T \<and> \<not> tx_no_key_transactional T then Some sh
      else if \<not> has_journal C then Some sh
      else if status \<noteq> OK then Some sh
      else if IsAutoJournalSuppressed T then Some sh
      else LogJournalOnShard C now_ms (tx_args T) (tx_payload T) sh)"

text \<open>A callback that runs on one of several shards may only fail with \<^verbatim>\<open>OUT_OF_MEMORY\<close>.\<close>

definition RunCallback ::
  "slice_cfg \<Rightarrow> u64 \<Rightarrow> tx_env \<Rightarrow> ('v shard \<Rightarrow> (op_status \<times> 'v shard) option) \<Rightarrow> 'v shard \<Rightarrow> (op_status \<times> 'v shard) option" where
  "RunCallback C now_ms T cb sh =
     (let (lww_dropped, sh1) = ShouldDropForLww (oa_cx (tx_args T)) (tx_cid_name T) (tx_keys T) sh
      in case (if lww_dropped then Some (OK, sh1) else cb sh1) of
           None \<Rightarrow> None
         | Some (result, sh2) \<Rightarrow>
             if \<not> tx_single_shard T \<and> result \<noteq> OUT_OF_MEMORY \<and> result \<noteq> OK then None
             else case OnCbFinishBlocking sh2 of
                    None \<Rightarrow> None
                  | Some sh3 \<Rightarrow>
                      (case (if tx_concluding T then LogAutoJournalOnShard C now_ms T result lww_dropped sh3 else Some sh3) of
                         None \<Rightarrow> None
                       | Some sh4 \<Rightarrow> Some (result, EndEpoch C sh4)))"

subsection \<open>The commands as callbacks\<close>

datatype command =
    CmdSet set_params key bytes
  | CmdMSet "(key \<times> bytes) list"
  | CmdDel "key list" bool
  | CmdExpire key expire_params
  | CmdPersist key
  | CmdExpireTime key

definition forget :: "('a \<times> 'b \<times> 'c) option \<Rightarrow> ('a \<times> 'c) option" where
  "forget r = map_option (\<lambda>(a, _, c). (a, c)) r"

fun callback :: "slice_cfg \<Rightarrow> 'v access_env \<Rightarrow> u64 \<Rightarrow> op_args \<Rightarrow> command \<Rightarrow> 'v shard \<Rightarrow> (op_status \<times> 'v shard) option" where
  "callback C A now_ms oa (CmdSet sp key value) sh = forget (SetCmd_Set C A now_ms oa True sp key value sh)"
| "callback C A now_ms oa (CmdMSet kvs) sh = OpMSet C A now_ms oa kvs sh"
| "callback C A now_ms oa (CmdDel keys async) sh = map_option (\<lambda>(_, s). (OK, s)) (OpDelV2 C A now_ms oa keys async sh)"
| "callback C A now_ms oa (CmdExpire key p) sh = OpExpire C A now_ms oa key p sh"
| "callback C A now_ms oa (CmdPersist key) sh = OpPersist C A now_ms oa key sh"
| "callback C A now_ms oa (CmdExpireTime key) sh =
     map_option (\<lambda>(r, s). (case r of Inl st \<Rightarrow> st | Inr _ \<Rightarrow> OK, s)) (OpExpireTime C now_ms (oa_cx oa) key sh)"

end
