(* ===== verification/Command_Invariant.thy ===== *)
theory Command_Invariant
  imports Mint_Frame Transaction_Run
begin

text \<open>
  Whole commands keep the shard invariant and cannot fail a check. The lemmas follow the command handlers; the
  budget they are given is the space left in the key arena of the epoch, in bytes.
\<close>

definition ready :: "slice_cfg \<Rightarrow> u64 \<Rightarrow> 'v shard \<Rightarrow> bool" where
  "ready C now sh = (shard_inv C sh \<and> js_mvcc_enabled (journal sh) \<and> mint_ok now sh)"

definition ready_but :: "slice_cfg \<Rightarrow> u64 \<Rightarrow> nat \<Rightarrow> key \<Rightarrow> 'v shard \<Rightarrow> bool" where
  "ready_but C now db k sh = (shard_inv_but C db k sh \<and> js_mvcc_enabled (journal sh) \<and> mint_ok now sh)"

definition access_ok :: "slice_cfg \<Rightarrow> 'v access_env \<Rightarrow> nat \<Rightarrow> bool" where
  "access_ok C A n = (has_journal C \<and> hooks_ok C A \<and> plan_ok A n)"

lemma ready_imp_but: "ready C now sh \<Longrightarrow> ready_but C now db k sh"
  using shard_inv_iff [of C sh db k] by (simp add: ready_def ready_but_def)

lemma ready_same_tables: "same_tables C sh sh' \<Longrightarrow> ready C now sh' = ready C now sh"
  using same_tables_inv(1) [of C sh sh'] by (simp add: ready_def same_tables_def mint_ok_def)

lemma ready_same_shape: "same_shape C sh sh' \<Longrightarrow> ready C now sh \<Longrightarrow> ready C now sh'"
  using same_shape_inv(1) [of C sh sh'] by (simp add: ready_def same_shape_def mint_ok_def)

lemma ready_but_same_shape: "same_shape C sh sh' \<Longrightarrow> ready_but C now db k sh \<Longrightarrow> ready_but C now db k sh'"
  using same_shape_inv(2) [of C sh sh'] by (simp add: ready_but_def same_shape_def mint_ok_def)

lemma access_ok_omittable [simp]: "access_ok C (A\<lparr>omittable_operation := b\<rparr>) n = access_ok C A n"
  by (simp add: access_ok_def hooks_ok_def plan_ok_def)

subsection \<open>Edits of an entry\<close>

lemma same_shape_quiet: "(\<And>t. quiet t (f t)) \<Longrightarrow> same_shape C sh (upd_db db f sh)"
  by (rule same_tables_shape [OF same_tables_quiet])

lemma entry_of_quiet: "(\<And>t. quiet t (f t)) \<Longrightarrow> entry_of (upd_db db f sh) = entry_of sh"
  by (rule same_tables_inv(3) [OF same_tables_quiet])

lemma quiet_upd_stats:
  assumes "\<And>s. mvcc_entries (f s) = mvcc_entries s \<and> mvcc_tombstones (f s) = mvcc_tombstones s \<and>
    mvcc_key_dup_bytes (f s) = mvcc_key_dup_bytes s"
  shows "same_shape C sh (upd_stats db f sh)" "entry_of (upd_stats db f sh) = entry_of sh"
  using same_tables_shape [OF same_tables_upd_stats [OF assms]] same_tables_inv(3) [OF same_tables_upd_stats [OF assms]] by blast+

lemma entry_of_effect [simp]: "entry_of (effect es sh) = entry_of sh"
  by (rule same_tables_inv(3) [OF same_tables_effect])

text \<open>An edit of one entry: the other entries, the key set and the stamps stay.\<close>

definition edits :: "slice_cfg \<Rightarrow> nat \<Rightarrow> key \<Rightarrow> 'v prime_entry \<Rightarrow> 'v shard \<Rightarrow> 'v shard \<Rightarrow> bool" where
  "edits C db k e sh sh' = (same_shape C sh sh' \<and> entry_of sh' db k = Some e \<and>
     (\<forall>db' k'. (db', k') \<noteq> (db, k) \<longrightarrow> entry_of sh' db' k' = entry_of sh db' k'))"

lemma edits_refl: "entry_of sh db k = Some e \<Longrightarrow> edits C db k e sh sh"
  by (simp add: edits_def)

lemma edits_trans: "edits C db k e a b \<Longrightarrow> edits C db k f b c \<Longrightarrow> edits C db k f a c"
  using same_shape_trans by (auto simp: edits_def)

lemma edits_upd_entry: "entry_of sh db k \<noteq> None \<Longrightarrow> edits C db k e sh (upd_entry db k e sh)"
  by (auto simp: edits_def same_shape_upd_entry entry_of_upd_entry)

lemma edits_same_tables: "same_tables C sh sh' \<Longrightarrow> entry_of sh db k = Some e \<Longrightarrow> edits C db k e sh sh'"
  using same_tables_shape same_tables_inv(3) by (fastforce simp: edits_def)

lemma edits_AddExpire:
  assumes e: "entry_of sh db k = Some e"
  obtains e' where "edits C db k e' sh (AddExpire D db k at sh)" "pv_value e' = pv_value e" "pk_expire e' = Some at"
    "pv_type e' = pv_type e" "pv_flag e' = pv_flag e" "pk_sticky e' = pk_sticky e"
proof -
  obtain inline new_malloc where kr: "key_rep D k True = (inline, new_malloc)" by force
  define e' where "e' = e\<lparr>pk_expire := Some at, pk_inline := inline, pk_malloc := new_malloc\<rparr>"
  define sh1 where "sh1 = upd_entry db k e' sh"
  define sh2 where "sh2 = (if pk_inline e \<and> \<not> inline
                     then upd_db db (AccountObjectMemory (env D) k OBJ_KEY (int new_malloc))
                            (upd_stats db (\<lambda>s. s\<lparr>inline_keys := inline_keys s - 1\<rparr>) sh1)
                     else if new_malloc \<noteq> pk_malloc e
                     then upd_db db (AccountObjectMemory (env D) k OBJ_KEY (int new_malloc - int (pk_malloc e))) sh1
                     else sh1)"
  have eq: "AddExpire D db k at sh = (if pk_expire e = None then upd_stats db (\<lambda>s. s\<lparr>expire_count := expire_count s + 1\<rparr>) sh2 else sh2)"
    by (simp only: AddExpire_def lookup_entry_of e option.case kr Let_def prod.case sh2_def sh1_def e'_def)
  have 1: "edits C db k e' sh sh1" unfolding sh1_def by (rule edits_upd_entry) (simp add: e)
  have "same_tables C sh1 sh2"
    unfolding sh2_def
    by (simp add: same_tables_quiet same_tables_trans [OF same_tables_upd_stats same_tables_quiet])
  moreover have "same_tables C sh2 (AddExpire D db k at sh)"
    unfolding eq by (simp add: same_tables_upd_stats)
  ultimately have "same_tables C sh1 (AddExpire D db k at sh)" by (rule same_tables_trans)
  from edits_trans [OF 1 edits_same_tables [OF this]] 1 have "edits C db k e' sh (AddExpire D db k at sh)"
    by (simp add: edits_def)
  then show thesis by (rule that) (simp_all add: e'_def)
qed

lemma edits_RemoveExpire:
  assumes e: "entry_of sh db k = Some e"
  obtains e' where "edits C db k e' sh (snd (RemoveExpire D db k sh))" "pv_value e' = pv_value e" "pk_expire e' = None"
    "pv_type e' = pv_type e" "pv_flag e' = pv_flag e" "pk_sticky e' = pk_sticky e"
proof (cases "pk_expire e = None")
  case True
  then have "edits C db k e sh (snd (RemoveExpire D db k sh))"
    using e edits_refl [OF e] by (simp add: RemoveExpire_def lookup_entry_of)
  with True show thesis by (intro that) simp_all
next
  case False
  obtain inline new_malloc where kr: "key_rep D k False = (inline, new_malloc)" by force
  define e' where "e' = e\<lparr>pk_expire := None, pk_inline := inline, pk_malloc := new_malloc\<rparr>"
  define sh1 where "sh1 = upd_entry db k e' sh"
  define sh2 where "sh2 = (if inline
                       then upd_stats db (\<lambda>s. s\<lparr>inline_keys := inline_keys s + 1\<rparr>)
                              (upd_db db (AccountObjectMemory (env D) k OBJ_KEY (- int (pk_malloc e))) sh1)
                       else if new_malloc \<noteq> pk_malloc e
                       then upd_db db (AccountObjectMemory (env D) k OBJ_KEY (int new_malloc - int (pk_malloc e))) sh1
                       else sh1)"
  have eq: "RemoveExpire D db k sh = (True, upd_stats db (\<lambda>s. s\<lparr>expire_count := expire_count s - 1\<rparr>) sh2)"
    by (simp only: RemoveExpire_def lookup_entry_of e option.case kr Let_def prod.case sh2_def sh1_def e'_def False if_False)
  have 1: "edits C db k e' sh sh1" unfolding sh1_def by (rule edits_upd_entry) (simp add: e)
  have "same_tables C sh1 sh2"
    unfolding sh2_def
    by (simp add: same_tables_quiet same_tables_trans [OF same_tables_quiet same_tables_upd_stats])
  moreover have "same_tables C sh2 (snd (RemoveExpire D db k sh))"
    unfolding eq snd_conv by (rule same_tables_upd_stats) simp
  ultimately have "same_tables C sh1 (snd (RemoveExpire D db k sh))" by (rule same_tables_trans)
  from edits_trans [OF 1 edits_same_tables [OF this]] 1 have "edits C db k e' sh (snd (RemoveExpire D db k sh))"
    by (simp add: edits_def)
  then show thesis by (rule that) (simp_all add: e'_def)
qed

lemma edits_set_sticky:
  assumes "entry_of sh db k = Some e"
  shows "edits C db k (e\<lparr>pk_sticky := True\<rparr>) sh (set_sticky db k sh)"
  using assms edits_upd_entry [of sh db k C "e\<lparr>pk_sticky := True\<rparr>"] by (simp add: set_sticky_def lookup_entry_of)

lemma edits_set_expiry:
  assumes e: "entry_of sh (cx_db cx) k = Some e"
  obtains e' where "edits C (cx_db cx) k e' sh (set_expiry D cx sp k sh)" "pv_value e' = pv_value e" "pv_type e' = pv_type e"
    "pv_flag e' = pv_flag e" "pk_sticky e' = pk_sticky e"
    "pk_expire e' = (if sp_flags sp AND SET_KEEP_EXPIRE \<noteq> 0 then pk_expire e
       else if sp_expire_after_ms sp \<noteq> 0 \<and> sp_expire_after_ms sp + cx_time_now_ms cx \<noteq> 0
       then Some (sp_expire_after_ms sp + cx_time_now_ms cx) else None)"
proof (cases "sp_flags sp AND SET_KEEP_EXPIRE \<noteq> 0")
  case True
  then show thesis using edits_refl [OF e, of C] by (intro that [of e]) (simp_all add: set_expiry_def)
next
  case False
  show thesis
  proof (cases "sp_expire_after_ms sp \<noteq> 0 \<and> sp_expire_after_ms sp + cx_time_now_ms cx \<noteq> 0")
    case True
    show thesis
      by (rule edits_AddExpire [OF e, of C D "sp_expire_after_ms sp + cx_time_now_ms cx"])
         (use False True in \<open>auto intro!: that simp: set_expiry_def Let_def\<close>)
  next
    case n: False
    show thesis
      by (rule edits_RemoveExpire [OF e, of C D]) (use False n in \<open>auto intro!: that simp: set_expiry_def Let_def\<close>)
  qed
qed

lemma quiet_SetMCFlag [simp]: "quiet t (snd (SetMCFlag k f t))"
  by (simp add: SetMCFlag_def quiet_other split: option.splits)

lemma edits_overwrite:
  assumes e: "entry_of sh db k = Some e"
  shows "edits C db k (set_string A value (e\<lparr>pv_flag := (sp_memcache_flags sp \<noteq> 0)\<rparr>)) sh (overwrite_value D A db sp k value e sh)"
proof -
  define e1 where "e1 = e\<lparr>pv_flag := (sp_memcache_flags sp \<noteq> 0)\<rparr>"
  define sh1 where "sh1 = upd_db db (\<lambda>t. snd (SetMCFlag k (sp_memcache_flags sp) t)) (upd_entry db k e1 sh)"
  define sh3 where "sh3 = (if pv_external e then effect [TieredDelete db k] (effect [IndexRemove db k] sh1) else effect [IndexRemove db k] sh1)"
  define sh4 where "sh4 = upd_entry db k (set_string A value e1) sh3"
  have eq: "overwrite_value D A db sp k value e sh = (if pv_type e = 6 \<and> blocking_controller D \<noteq> None then effect [Awaken db k] sh4 else sh4)"
    by (simp only: overwrite_value_def Let_def e1_def sh1_def sh3_def sh4_def)
  have "edits C db k e1 sh (upd_entry db k e1 sh)" using e by (simp add: edits_upd_entry)
  moreover have "same_tables C (upd_entry db k e1 sh) sh3"
    unfolding sh3_def sh1_def using same_tables_trans same_tables_effect same_tables_quiet [of "\<lambda>t. snd (SetMCFlag k (sp_memcache_flags sp) t)"]
    by (smt (verit) quiet_SetMCFlag)
  ultimately have 3: "edits C db k e1 sh sh3"
    using edits_trans edits_same_tables edits_def by (metis (no_types, lifting))
  then have 4: "edits C db k (set_string A value e1) sh sh4"
    unfolding sh4_def by (intro edits_trans [OF 3 edits_upd_entry]) (simp add: edits_def)
  then have "edits C db k (set_string A value e1) sh4 (overwrite_value D A db sp k value e sh)"
    unfolding eq by (intro edits_same_tables) (simp_all add: edits_def)
  with 4 show ?thesis unfolding e1_def by (rule edits_trans)
qed

lemma ReduceHeapUsage_same: "same_tables C sh (snd (ReduceHeapUsage D e u sh))"
  by (simp add: ReduceHeapUsage_def same_tables_quiet)

lemma ReduceHeapUsage_updater [simp]:
  "up_db (fst (ReduceHeapUsage D e u sh)) = up_db u" "up_key (fst (ReduceHeapUsage D e u sh)) = up_key u"
  by (simp_all add: ReduceHeapUsage_def)

subsection \<open>Building blocks of the handlers\<close>

abbreviation stamp_for :: "u64 \<Rightarrow> db_context \<Rightarrow> 'v shard \<Rightarrow> mvcc_stamp" where
  "stamp_for now cx sh \<equiv> \<lparr>packed = minted now (cx_repl_mvcc cx) (stamper sh), origin_hash = OriginHash (stamper sh) (cx_repl_origin_idx cx)\<rparr>"

lemma LogJournalOnShard_ready:
  fixes sh :: "'v shard"
  assumes r: "ready C now sh"
  obtains sh' where "LogJournalOnShard C now oa pl sh = Some sh'" "ready C now sh'" "primes sh' = primes sh"
    "pending (stamper sh') = []" "arena_used sh' \<le> arena_used sh" "mints now sh' = mints now sh"
    "slot sh' = slots_after (cx_repl_mvcc (oa_cx oa) \<noteq> 0) (stamp_for now (oa_cx oa) sh) (pending (stamper sh)) (slot sh)"
proof -
  have inv: "shard_inv C sh" and en: "js_mvcc_enabled (journal sh)" and mo: "mint_ok now sh" using r by (simp_all add: ready_def)
  have fl: "(0 :: u8) AND kEntryFlagExpired = 0" by simp
  have mv: "cx_repl_mvcc (oa_cx oa) \<noteq> 0 \<or> fst (HopStamp now (stamper sh)) \<le> kStampMask" using mo by (simp add: mint_ok_def)
  show thesis
  proof (rule RecordEntry_spec [OF inv mv en fl, of "oa_txid oa" "cx_db (oa_cx oa)" "oa_slot oa" pl "cx_repl_origin_idx (oa_cx oa)"],
      goal_cases)
    case (1 sh')
    note m = mints_RecordEntry [OF 1(1) mo]
    show ?case
      by (rule that [of sh'])
         (use 1 m shard_invD(2) [OF inv] mint_ok_mints [OF m] mo in \<open>simp_all add: LogJournalOnShard_def ready_def\<close>)
  qed
qed

lemmas RecordJournal_ready = LogJournalOnShard_ready [where ?pl = "\<lparr>pl_cmd = key_bytes cmd, pl_args = args\<rparr>" for cmd args, folded RecordJournal_def]

lemma end_scope_ready:
  fixes sh :: "'v shard"
  assumes r: "ready_but C now db k sh" and e: "entry_of sh db k \<noteq> None" and room: "arena_used sh + length k < 2 ^ 32"
    and u: "up_db u = db" "up_key u = k" and sh': "sh' = snd (RunInternal C True (Some u) sh)"
  shows "ready C now sh'" "primes sh' = primes sh" "entry_of sh' = entry_of sh" "arena_used sh' = arena_used sh + length k"
    "mints now sh' = mints now sh"
    "slot sh' = (slot sh)(db := (slot sh db)(k \<mapsto> live_after (slot sh db k)))"
    "pending (stamper sh') = spec_arm db k (prev_of (slot sh db k)) (pending (stamper sh))"
proof -
  note a = RunInternal_arm [OF _ e room u sh']
  have i: "shard_inv_but C db k sh" using r by (simp add: ready_but_def)
  note a = a [OF i]
  show m: "mints now sh' = mints now sh" by (simp add: sh')
  show "ready C now sh'" using a r mint_ok_mints [OF m] by (simp add: ready_def ready_but_def)
  show "entry_of sh' = entry_of sh" using a(2) by (simp add: entry_of_def fun_eq_iff)
qed (rule RunInternal_arm [OF _ e room u sh'], use r in \<open>simp add: ready_but_def\<close>)+

lemma RunInternal_quiet:
  assumes "entry_of sh (up_db u) (up_key u) \<noteq> None"
  shows "same_tables C sh (snd (RunInternal C False (Some u) sh))"
proof -
  obtain t e where t: "db_at (up_db u) sh = Some t" "tbl_find (prime t) (up_key u) = Some e"
    using assms by (auto simp: entry_of_def primes_def split: option.splits)
  let ?sh = "upd_db (up_db u) (account_update C u e) sh"
  have same: "same_tables C sh ?sh" by (rule same_tables_quiet) simp
  have t': "db_at (up_db u) ?sh = Some (account_update C u e t)" using t by (simp add: db_at_upd_db)
  from PostUpdate_cases [OF t', of C "up_key u" False] obtain sh5 where "same_tables C ?sh sh5"
    "PostUpdate C (up_db u) (up_key u) False ?sh = sh5" by auto
  then show ?thesis using same_tables_trans [OF same] t by (simp add: RunInternal_def)
qed

lemma FindMutable_ready:
  fixes sh :: "'v shard"
  assumes r: "ready C now sh" and ok: "access_ok C A n" and room: "arena_used sh + length k < 2 ^ 32"
  obtains fo sh1 where "FindMutable C A now cx k sh = Some (fo, sh1)" "ready C now sh1"
    "arena_used sh1 \<le> arena_used sh + length k" "mints now sh1 = mints now sh"
    "\<And>db' k'. (db', k') \<noteq> (cx_db cx, k) \<Longrightarrow> frame_at db' k' sh sh1"
    "fo = None \<longleftrightarrow> entry_of sh1 (cx_db cx) k = None"
    "\<And>iu. fo = Some iu \<Longrightarrow> up_db (iu_updater iu) = cx_db cx \<and> up_key (iu_updater iu) = k \<and> \<not> omitted_journal iu"
    "case entry_of sh (cx_db cx) k of
       None \<Rightarrow> fo = None \<and> frame_at (cx_db cx) k sh sh1
     | Some e \<Rightarrow>
         if expired_entry C cx e
         then fo = None \<and> slot sh1 (cx_db cx) k = after_expiry C (cx_db cx) k sh \<and> arm_of (pending (stamper sh1)) (cx_db cx) k = None
         else fo \<noteq> None \<and> slot sh1 (cx_db cx) k = slot sh (cx_db cx) k \<and>
              arm_of (pending (stamper sh1)) (cx_db cx) k = arm_of (pending (stamper sh)) (cx_db cx) k \<and>
              (\<exists>e'. entry_of sh1 (cx_db cx) k = Some e' \<and> pv_value e' = pv_value e \<and> pk_expire e' = pk_expire e)"
proof -
  have inv: "shard_inv C sh" and en: "js_mvcc_enabled (journal sh)" and mo: "mint_ok now sh" and j: "has_journal C"
    using r ok by (simp_all add: ready_def access_ok_def)
  show thesis
  proof (rule FindInternal_inv [OF inv en j room, of now cx None kMutableStats], goal_cases)
    case (1 st sh1)
    note m = mints_FindInternal [OF 1(1) mo]
    have r1: "ready C now sh1" using 1 mo mint_ok_mints [OF m] by (simp add: ready_def)
    show ?case
    proof (cases "st = OK")
      case True
      let ?sh2 = "pre_update A (cx_db cx) k sh1"
      have s: "same_tables C sh1 ?sh2" using ok by (simp add: access_ok_def hooks_ok_def)
      obtain e e1 where e: "entry_of sh (cx_db cx) k = Some e" "\<not> expired_entry C cx e" "entry_of sh1 (cx_db cx) k = Some e1"
        "pv_value e1 = pv_value e" "pk_expire e1 = pk_expire e" "slot sh1 (cx_db cx) k = slot sh (cx_db cx) k"
        "arm_of (pending (stamper sh1)) (cx_db cx) k = arm_of (pending (stamper sh)) (cx_db cx) k"
        using 1(6) True by (auto split: option.splits if_splits)
      have e2: "entry_of ?sh2 (cx_db cx) k = Some e1" using same_tables_inv(3) [OF s] e(3) by simp
      have "FindMutable C A now cx k sh = Some (Some \<lparr>iu_updater = AutoUpdater_new (cx_db cx) k e1, is_new = False, omitted_journal = False\<rparr>, ?sh2)"
        using 1(1) True e2 shard_invD(1) [OF 1(2)]
        by (simp add: FindMutable_def FindMutableInternal_def prepare_update_def IsOmittableWrite_active lookup_entry_of)
      then show thesis
        by (rule that)
           (use s r1 1(4) m e e2 ready_same_tables [OF s] frame_at_trans [OF 1(5) same_tables_frame [OF s]] in
            \<open>auto simp: same_tables_def AutoUpdater_new_def\<close>)
    next
      case False
      have "FindMutable C A now cx k sh = Some (None, sh1)"
        using 1(1) False by (simp add: FindMutable_def FindMutableInternal_def)
      then show thesis
        by (rule that) (use r1 1 m False in \<open>auto simp: frame_at_def split: option.splits if_splits\<close>)
    qed
  qed
qed

text \<open>What a finished edit of a key leaves: the journal entry commits the arm of the key, otherwise the arm stays
  pending.\<close>

text \<open>A stamp minted for a local write: at least the stamp of the hop and above every version it replaces.\<close>

definition local_stamp :: "u64 \<Rightarrow> 'v shard \<Rightarrow> parm list \<Rightarrow> u64 \<Rightarrow> bool" where
  "local_stamp now sh ps mv = (fst (HopStamp now (stamper sh)) \<le> mv \<and> mv \<le> kStampMask \<and>
     (\<forall>p\<in>set ps. Mvcc (p_prev p) \<noteq> 0 \<longrightarrow> Mvcc (p_prev p) \<noteq> kStampMask \<longrightarrow> Mvcc (p_prev p) < mv))"

lemma minted_local:
  assumes "mint_ok now sh" "mints now sh = mints now sh0"
  shows "local_stamp now sh0 (pending (stamper sh)) (minted now 0 (stamper sh))"
proof -
  have "fst (HopStamp now (stamper sh0)) = fst (HopStamp now (stamper sh))" using assms(2) by (simp add: hop_view_def)
  moreover have "Mvcc (a_prev_stamp a) < minted now 0 (stamper sh)"
    if "a \<in> set (armed_list (stamper sh))" "Mvcc (a_prev_stamp a) \<noteq> 0" "Mvcc (a_prev_stamp a) \<noteq> kStampMask" for a
    using LocalMintFloor_above [OF that] by (simp add: minted_def less_max_iff_disj)
  ultimately show ?thesis
    using assms(1) LocalMintFloor_le [of "stamper sh"] by (auto simp: local_stamp_def minted_def mint_ok_def pending_def arm_view_def)
qed

definition settled :: "slice_cfg \<Rightarrow> u64 \<Rightarrow> db_context \<Rightarrow> key \<Rightarrow> bool \<Rightarrow> 'v shard \<Rightarrow> 'v shard \<Rightarrow> bool" where
  "settled C now cx k journaled sh sh' =
     (let ps = spec_arm (cx_db cx) k (prev_of (slot sh (cx_db cx) k)) (pending (stamper sh));
          sl = (slot sh)(cx_db cx := (slot sh (cx_db cx))(k \<mapsto> live_after (slot sh (cx_db cx) k)))
      in if journaled
         then pending (stamper sh') = [] \<and>
              (\<exists>mv. slot sh' = slots_after (cx_repl_mvcc cx \<noteq> 0) \<lparr>packed = mv, origin_hash = OriginHash (stamper sh) (cx_repl_origin_idx cx)\<rparr> ps sl \<and>
                    (cx_repl_mvcc cx \<noteq> 0 \<longrightarrow> mv = cx_repl_mvcc cx) \<and>
                    (cx_repl_mvcc cx = 0 \<longrightarrow> local_stamp now sh ps mv))
         else pending (stamper sh') = ps \<and> slot sh' = sl)"

lemma SetCmd_RecordJournal_ready:
  fixes sh :: "'v shard"
  assumes r: "ready C now sh" and e: "entry_of sh (cx_db (oa_cx oa)) k \<noteq> None"
  obtains sh' where "SetCmd_RecordJournal C A now oa sp k value sh = Some sh'" "ready C now sh'" "primes sh' = primes sh"
    "pending (stamper sh') = []" "arena_used sh' \<le> arena_used sh" "mints now sh' = mints now sh"
    "slot sh' = slots_after (cx_repl_mvcc (oa_cx oa) \<noteq> 0) (stamp_for now (oa_cx oa) sh) (pending (stamper sh)) (slot sh)"
proof -
  obtain x where x: "entry_of sh (cx_db (oa_cx oa)) k = Some x" using e by blast
  have "\<exists>args. SetCmd_RecordJournal C A now oa sp k value sh = RecordJournal C now oa ''SET'' args sh"
  proof (cases "sp_flags sp AND SET_KEEP_EXPIRE \<noteq> 0 \<and> IsActiveReplica (flags C)")
    case True
    then show ?thesis
      unfolding SetCmd_RecordJournal_def if_P [OF True] JournalFullStateSet_def lookup_entry_of x option.case Let_def by blast
  next
    case False
    then show ?thesis unfolding SetCmd_RecordJournal_def if_not_P [OF False] Let_def by blast
  qed
  then obtain args where eq: "SetCmd_RecordJournal C A now oa sp k value sh = RecordJournal C now oa ''SET'' args sh" by blast
  show thesis
    by (rule RecordJournal_ready [OF r, of oa "''SET''" args]) (use that eq in auto)
qed

lemma StashPrimeValue_edits:
  assumes "entry_of sh db k = Some e"
  obtains e' where "edits C db k e' sh (StashPrimeValue A db k sh)" "pv_value e' = pv_value e" "pk_expire e' = pk_expire e"
proof (cases "should_stash A db e")
  case True
  have 1: "edits C db k (e\<lparr>pv_stash_pending := True\<rparr>) sh (upd_entry db k (e\<lparr>pv_stash_pending := True\<rparr>) sh)"
    using assms by (simp add: edits_upd_entry)
  then have "edits C db k (e\<lparr>pv_stash_pending := True\<rparr>) sh (StashPrimeValue A db k sh)"
    using True assms edits_trans [OF 1 edits_same_tables [OF same_tables_effect]]
    by (simp add: StashPrimeValue_def lookup_entry_of edits_def)
  then show thesis by (rule that) simp_all
next
  case False
  then show thesis using that [of e] edits_refl [OF assms] assms by (simp add: StashPrimeValue_def lookup_entry_of)
qed

lemma PostEdit_ready:
  fixes sh :: "'v shard"
  assumes r: "ready_but C now (cx_db (oa_cx oa)) k sh" and e: "entry_of sh (cx_db (oa_cx oa)) k = Some e"
    and room: "arena_used sh + length k < 2 ^ 32" and j: "has_journal C"
    and u: "up_db u = cx_db (oa_cx oa)" "up_key u = k"
  obtains sh' where "PostEdit C A now oa ex sk sp k value u sh = Some sh'" "ready C now sh'"
    "arena_used sh' \<le> arena_used sh + length k" "mints now sh' = mints now sh"
    "\<exists>e'. entry_of sh' (cx_db (oa_cx oa)) k = Some e' \<and> pv_value e' = pv_value e \<and> pk_expire e' = pk_expire e"
    "settled C now (oa_cx oa) k (ex \<and> \<not> sk) sh sh'"
proof -
  let ?db = "cx_db (oa_cx oa)" and ?cx = "oa_cx oa"
  define sh1 where "sh1 = snd (RunInternal C True (Some u) sh)"
  have ne: "entry_of sh ?db k \<noteq> None" using e by simp
  note a = end_scope_ready [OF r ne room u sh1_def]
  define sh2 where "sh2 = (case tiered A of None \<Rightarrow> sh1 | Some _ \<Rightarrow> StashPrimeValue A ?db k sh1)"
  have pe: "PostEdit C A now oa ex sk sp k value u sh =
      (if ex \<and> has_journal C
       then (if sk then Some (sh2\<lparr>journal := ClearBuffer (journal sh2)\<rparr>) else SetCmd_RecordJournal C A now oa sp k value sh2)
       else Some sh2)"
    by (simp only: PostEdit_def sh1_def sh2_def Let_def)
  have e1: "entry_of sh1 ?db k = Some e" using a(3) e by simp
  obtain e2 where e2: "edits C ?db k e2 sh1 sh2" "pv_value e2 = pv_value e" "pk_expire e2 = pk_expire e"
  proof (cases "tiered A")
    case None
    then show thesis using that [of e] edits_refl [OF e1] by (simp add: sh2_def)
  next
    case (Some x)
    show thesis by (rule StashPrimeValue_edits [OF e1, of C A]) (use Some that in \<open>auto simp: sh2_def\<close>)
  qed
  have sh12: "same_shape C sh1 sh2" using e2(1) by (simp add: edits_def)
  have r2: "ready C now sh2" using ready_same_shape [OF sh12 a(1)] .
  have st2: "stamper sh2 = stamper sh1" "slot sh2 = slot sh1" using sh12 by (simp_all add: same_shape_def)
  have ent2: "entry_of sh2 ?db k = Some e2" using e2(1) by (simp add: edits_def)
  have m2: "mints now sh2 = mints now sh" using st2 a(5) by simp
  show thesis
  proof (cases "ex \<and> \<not> sk")
    case True
    have ne2: "entry_of sh2 ?db k \<noteq> None" using ent2 by simp
    show thesis
    proof (rule SetCmd_RecordJournal_ready [OF r2 ne2, of A sp "value"], goal_cases)
      case (1 sh')
      have eq: "PostEdit C A now oa ex sk sp k value u sh = Some sh'"
        using True j 1(1) pe by simp
      have oh: "OriginHash (stamper sh1) = OriginHash (stamper sh)" by (rule OriginHash_mints [OF a(5)])
      have "settled C now ?cx k True sh sh'"
        using 1(4,7) st2 a(6,7) oh minted_local [OF _ m2] r2 unfolding settled_def Let_def ready_def
        by (auto simp: minted_def)
      moreover have "entry_of sh' ?db k = Some e2" using 1(3) ent2 by (simp add: entry_of_def)
      ultimately show ?case
        by (intro that [OF eq]) (use 1 True e2 m2 st2 a(4) in auto)
    qed
  next
    case False
    define sh3 where "sh3 = (if ex \<and> has_journal C then sh2\<lparr>journal := ClearBuffer (journal sh2)\<rparr> else sh2)"
    have eq: "PostEdit C A now oa ex sk sp k value u sh = Some sh3"
      using False by (auto simp: pe sh3_def)
    have f: "stamper sh3 = stamper sh2" "slot sh3 = slot sh2" "entry_of sh3 = entry_of sh2" "primes sh3 = primes sh2"
      by (auto simp: sh3_def slot_def fun_eq_iff primes_def entry_of_def)
    have jm: "js_mvcc_enabled (journal sh3) = js_mvcc_enabled (journal sh2)" "mvcc_enabled sh3 = mvcc_enabled sh2"
      "ns_is_default sh3 = ns_is_default sh2" "good_tables C sh3 = good_tables C sh2"
      by (auto simp: sh3_def ClearBuffer_def ResetRingBuffer_def SetStartingLSN_def Let_def good_tables_def)
    have "ready C now sh3" using r2 f jm by (simp add: ready_def shard_inv_def shard_wf_def key_ok_def mint_ok_def)
    moreover have "settled C now ?cx k (ex \<and> \<not> sk) sh sh3" using False f st2 a(6,7) by (auto simp: settled_def Let_def)
    ultimately show thesis by (intro that [OF eq]) (use f st2 a(4) m2 ent2 e2 in auto)
  qed
qed

lemma settled_cong:
  assumes "slot b = slot a" "stamper b = stamper a"
  shows "settled C now cx k jn b c = settled C now cx k jn a c"
  using assms by (simp add: settled_def local_stamp_def)

subsection \<open>SET\<close>

lemma SetExisting_ready:
  fixes sh :: "'v shard"
  assumes r: "ready_but C now (cx_db (oa_cx oa)) k sh" and e: "entry_of sh (cx_db (oa_cx oa)) k = Some e"
    and room: "arena_used sh + length k < 2 ^ 32" and j: "has_journal C"
    and u: "up_db (iu_updater iu) = cx_db (oa_cx oa)" "up_key (iu_updater iu) = k"
  obtains sh' where "SetExisting C A now oa ex sk sp k value iu sh = Some sh'" "ready C now sh'"
    "arena_used sh' \<le> arena_used sh + length k" "mints now sh' = mints now sh"
    "\<exists>e'. entry_of sh' (cx_db (oa_cx oa)) k = Some e' \<and> pv_value e' = nv_value (string_value A value)"
    "settled C now (oa_cx oa) k (ex \<and> \<not> sk) sh sh'"
proof -
  let ?db = "cx_db (oa_cx oa)"
  show thesis
  proof (rule edits_set_expiry [OF e, of C C sp], goal_cases)
    case (1 e1)
    let ?sh1 = "set_expiry C (oa_cx oa) sp k sh"
    define sh2 where "sh2 = (if sp_flags sp AND SET_STICK \<noteq> 0 then set_sticky ?db k ?sh1 else ?sh1)"
    have en1: "entry_of ?sh1 ?db k = Some e1" using 1(1) by (simp add: edits_def)
    have "\<exists>e2. edits C ?db k e2 sh sh2"
      using 1(1) edits_trans [OF 1(1) edits_set_sticky [OF en1]] unfolding sh2_def by (cases "sp_flags sp AND SET_STICK \<noteq> 0") auto
    then obtain e2 where 2: "edits C ?db k e2 sh sh2" by blast
    have en2: "entry_of sh2 ?db k = Some e2" using 2 by (simp add: edits_def)
    define u' where "u' = fst (ReduceHeapUsage C e2 (iu_updater iu) sh2)"
    define sh3 where "sh3 = snd (ReduceHeapUsage C e2 (iu_updater iu) sh2)"
    define sh4 where "sh4 = overwrite_value C A ?db sp k value e2 sh3"
    have s3: "same_tables C sh2 sh3" unfolding sh3_def by (rule ReduceHeapUsage_same)
    have en3: "entry_of sh3 ?db k = Some e2" using same_tables_inv(3) [OF s3] en2 by simp
    have "edits C ?db k e2 sh sh3" using edits_trans [OF 2 edits_same_tables [OF s3 en2]] .
    from edits_trans [OF this edits_overwrite [OF en3]]
    have 4: "edits C ?db k (set_string A value (e2\<lparr>pv_flag := (sp_memcache_flags sp \<noteq> 0)\<rparr>)) sh sh4"
      unfolding sh4_def .
    have sh4: "same_shape C sh sh4" and en4: "entry_of sh4 ?db k = Some (set_string A value (e2\<lparr>pv_flag := (sp_memcache_flags sp \<noteq> 0)\<rparr>))"
      using 4 by (simp_all add: edits_def)
    have st4: "stamper sh4 = stamper sh" "slot sh4 = slot sh" using sh4 by (simp_all add: same_shape_def)
    have room4: "arena_used sh4 + length k < 2 ^ 32" using room st4 by simp
    have eq: "SetExisting C A now oa ex sk sp k value iu sh = PostEdit C A now oa ex sk sp k value u' sh4"
      using en2 by (simp add: SetExisting_def Let_def sh2_def [symmetric] lookup_entry_of split_def u'_def sh3_def sh4_def)
    have u': "up_db u' = ?db" "up_key u' = k" using u by (simp_all add: u'_def)
    show ?case
      by (rule PostEdit_ready [OF ready_but_same_shape [OF sh4 r] en4 room4 j u', of A ex sk sp "value"])
         (use that eq st4 settled_cong [OF st4(2,1)] in \<open>auto simp: set_string_def Let_def\<close>)
  qed
qed

lemma edits_optional:
  assumes "entry_of sh db k = Some e" "b \<Longrightarrow> \<exists>e'. edits C db k e' sh sh1 \<and> pv_value e' = pv_value e"
  shows "\<exists>e'. edits C db k e' sh (if b then sh1 else sh) \<and> pv_value e' = pv_value e"
  using assms edits_refl [OF assms(1)] by auto

lemma SetCmd_AddNew_ready:
  fixes sh :: "'v shard"
  assumes r: "ready_but C now (cx_db (oa_cx oa)) k sh" and e: "entry_of sh (cx_db (oa_cx oa)) k = Some e"
    and room: "arena_used sh + length k < 2 ^ 32" and j: "has_journal C"
    and u: "up_db (iu_updater iu) = cx_db (oa_cx oa)" "up_key (iu_updater iu) = k"
  obtains sh' where "SetCmd_AddNew C A now oa ex sk sp k value iu sh = Some sh'" "ready C now sh'"
    "arena_used sh' \<le> arena_used sh + length k" "mints now sh' = mints now sh"
    "\<exists>e'. entry_of sh' (cx_db (oa_cx oa)) k = Some e' \<and> pv_value e' = nv_value (string_value A value)"
    "settled C now (oa_cx oa) k (ex \<and> \<not> sk) sh sh'"
proof -
  let ?db = "cx_db (oa_cx oa)" and ?at = "sp_expire_after_ms sp + cx_time_now_ms (oa_cx oa)"
  define v where "v = nv_value (string_value A value)"
  define sh1 where "sh1 = upd_entry ?db k (new_string A value e) sh"
  define sh2 where "sh2 = (if sp_expire_after_ms sp \<noteq> 0 then AddExpire C ?db k ?at sh1 else sh1)"
  define sh3 where "sh3 = (if sp_memcache_flags sp \<noteq> 0
                        then (case lookup ?db k sh2 of
                                None \<Rightarrow> sh2
                              | Some e2 \<Rightarrow> upd_db ?db (\<lambda>t. snd (SetMCFlag k (sp_memcache_flags sp) t))
                                             (upd_entry ?db k (e2\<lparr>pv_flag := True\<rparr>) sh2))
                        else sh2)"
  define sh4 where "sh4 = (if sp_flags sp AND SET_STICK \<noteq> 0 then set_sticky ?db k sh3 else sh3)"
  have eq: "SetCmd_AddNew C A now oa ex sk sp k value iu sh = PostEdit C A now oa ex sk sp k value (iu_updater iu) sh4"
    by (simp only: SetCmd_AddNew_def Let_def lookup_entry_of e option.case sh4_def sh3_def sh2_def sh1_def)
  have 1: "edits C ?db k (new_string A value e) sh sh1" "pv_value (new_string A value e) = v"
    using e by (simp_all add: sh1_def edits_upd_entry new_string_def set_string_def Let_def v_def)
  then have en1: "entry_of sh1 ?db k = Some (new_string A value e)" by (simp add: edits_def)
  have "\<exists>e'. edits C ?db k e' sh1 sh2 \<and> pv_value e' = pv_value (new_string A value e)"
    unfolding sh2_def by (rule edits_optional [OF en1]) (rule edits_AddExpire [OF en1, of C C ?at], blast)
  then obtain e2 where 2: "edits C ?db k e2 sh1 sh2" "pv_value e2 = v" using 1 by auto
  then have en2: "entry_of sh2 ?db k = Some e2" by (simp add: edits_def)
  have "\<exists>e'. edits C ?db k e' sh2 sh3 \<and> pv_value e' = pv_value e2"
    unfolding sh3_def lookup_entry_of en2 option.case
  proof (rule edits_optional [OF en2])
    let ?e = "e2\<lparr>pv_flag := True\<rparr>"
    have a: "edits C ?db k ?e sh2 (upd_entry ?db k ?e sh2)" using en2 by (simp add: edits_upd_entry)
    then have "entry_of (upd_entry ?db k ?e sh2) ?db k = Some ?e" by (simp add: edits_def)
    from edits_trans [OF a edits_same_tables [OF same_tables_quiet this]]
    show "\<exists>e'. edits C ?db k e' sh2 (upd_db ?db (\<lambda>t. snd (SetMCFlag k (sp_memcache_flags sp) t)) (upd_entry ?db k ?e sh2)) \<and>
        pv_value e' = pv_value e2" by (intro exI [of _ ?e]) simp
  qed
  then obtain e3 where 3: "edits C ?db k e3 sh2 sh3" "pv_value e3 = v" using 2 by auto
  then have en3: "entry_of sh3 ?db k = Some e3" by (simp add: edits_def)
  have "\<exists>e'. edits C ?db k e' sh3 sh4 \<and> pv_value e' = pv_value e3"
    unfolding sh4_def by (rule edits_optional [OF en3]) (use edits_set_sticky [OF en3, of C] in fastforce)
  then obtain e4 where e4: "edits C ?db k e4 sh3 sh4" and v4: "pv_value e4 = v" using 3 by auto
  note 4 = edits_trans [OF edits_trans [OF edits_trans [OF 1(1) 2(1)] 3(1)] e4]
  have sh4: "same_shape C sh sh4" and en4: "entry_of sh4 ?db k = Some e4" using 4 by (simp_all add: edits_def)
  have st4: "stamper sh4 = stamper sh" "slot sh4 = slot sh" using sh4 by (simp_all add: same_shape_def)
  have room4: "arena_used sh4 + length k < 2 ^ 32" using room st4 by simp
  show thesis
    by (rule PostEdit_ready [OF ready_but_same_shape [OF sh4 r] en4 room4 j u, of A ex sk sp "value"])
       (use that eq st4 settled_cong [OF st4(2,1)] v4 in \<open>auto simp: v_def\<close>)
qed

text \<open>The stamp a key has when it is about to be written: its own, or what the lazy expiry of an old value leaves.\<close>

definition slot_before :: "slice_cfg \<Rightarrow> db_context \<Rightarrow> key \<Rightarrow> 'v shard \<Rightarrow> mvcc_stamp option" where
  "slot_before C cx k sh = (case entry_of sh (cx_db cx) k of
     None \<Rightarrow> slot sh (cx_db cx) k
   | Some e \<Rightarrow> if expired_entry C cx e then after_expiry C (cx_db cx) k sh else slot sh (cx_db cx) k)"

definition arm_before :: "slice_cfg \<Rightarrow> db_context \<Rightarrow> key \<Rightarrow> 'v shard \<Rightarrow> parm option" where
  "arm_before C cx k sh = (case entry_of sh (cx_db cx) k of
     None \<Rightarrow> arm_of (pending (stamper sh)) (cx_db cx) k
   | Some e \<Rightarrow> if expired_entry C cx e then None else arm_of (pending (stamper sh)) (cx_db cx) k)"

lemma AddOrFind_ready:
  fixes sh :: "'v shard"
  assumes r: "ready C now sh" and ok: "access_ok C A n" and room: "arena_used sh + length k + n < 2 ^ 32"
    and db: "db_at (cx_db cx) sh \<noteq> None"
  obtains st sh' where "AddOrFindInternal C A now cx k None sh = Some (Inl st, sh')" "st = OUT_OF_MEMORY" "ready C now sh'"
      "arena_used sh' \<le> arena_used sh + length k + n" "mints now sh' = mints now sh"
  | iu sh' e where "AddOrFindInternal C A now cx k None sh = Some (Inr iu, sh')" "ready_but C now (cx_db cx) k sh'"
      "arena_used sh' \<le> arena_used sh + length k + n" "mints now sh' = mints now sh"
      "\<not> omitted_journal iu" "up_db (iu_updater iu) = cx_db cx" "up_key (iu_updater iu) = k" "entry_of sh' (cx_db cx) k = Some e"
      "slot sh' (cx_db cx) k = slot_before C cx k sh" "arm_of (pending (stamper sh')) (cx_db cx) k = arm_before C cx k sh"
proof -
  have inv: "shard_inv C sh" and en: "js_mvcc_enabled (journal sh)" and mo: "mint_ok now sh" and j: "has_journal C"
    and h: "hooks_ok C A" and pl: "plan_ok A n"
    using r ok by (simp_all add: ready_def access_ok_def)
  have r0: "arena_used sh + length k < 2 ^ 32" using room by linarith
  obtain st1 sh1 where f: "FindInternal C now cx k None kMutableStats sh = Some (st1, sh1)" "mvcc_enabled sh1"
    by (rule FindInternal_inv [OF inv en j r0, of now cx None kMutableStats]) (auto dest: shard_invD(1))
  show thesis
  proof (rule AddOrFindInternal_spec [OF inv en j h pl room db, of now], goal_cases)
    case (1 res sh')
    note m = mints_AddOrFindInternal [OF 1(1) mo h f]
    have mo': "mint_ok now sh'" using mo mint_ok_mints [OF m] by simp
    show ?case
    proof (cases res)
      case (Inl st)
      show ?thesis by (rule that(1) [of st sh']) (use 1 Inl m mo' in \<open>simp_all add: ready_def\<close>)
    next
      case (Inr iu)
      then obtain e where e: "entry_of sh' (cx_db cx) k = Some e" using 1(6) by auto
      show ?thesis
        by (rule that(2) [of iu sh' e])
           (use 1 Inr m mo' e in \<open>auto simp: ready_but_def slot_before_def arm_before_def split: option.splits if_splits\<close>)
    qed
  qed
qed

lemma CachePrev_cases:
  obtains "CachePrevIfNeeded sp eo = (WRONG_TYPE, None)" | p where "CachePrevIfNeeded sp eo = (OK, p)"
proof -
  have "CachePrevIfNeeded sp eo = (WRONG_TYPE, None) \<or> (\<exists>p. CachePrevIfNeeded sp eo = (OK, p))"
    by (simp add: CachePrevIfNeeded_def split: option.split)
  then show thesis using that by blast
qed

lemma set_insert_ready:
  fixes sh :: "'v shard"
  assumes r: "ready C now sh" and ok: "access_ok C A n" and room: "arena_used sh + 2 * length k + n < 2 ^ 32"
    and db: "db_at (cx_db (oa_cx oa)) sh \<noteq> None"
  obtains st prev sh' where "set_insert C A now oa ex sp k value sh = Some (st, prev, sh')" "ready C now sh'"
    "arena_used sh' \<le> arena_used sh + 2 * length k + n" "mints now sh' = mints now sh"
    "st = OUT_OF_MEMORY \<or> st = WRONG_TYPE \<and> sp_prev_val sp \<or> st = OK"
    "st = OK \<Longrightarrow> \<exists>sh1 e'. slot sh1 (cx_db (oa_cx oa)) k = slot_before C (oa_cx oa) k sh \<and>
       arm_of (pending (stamper sh1)) (cx_db (oa_cx oa)) k = arm_before C (oa_cx oa) k sh \<and>
       mints now sh1 = mints now sh \<and> settled C now (oa_cx oa) k ex sh1 sh' \<and>
       entry_of sh' (cx_db (oa_cx oa)) k = Some e' \<and> pv_value e' = nv_value (string_value A value)"
proof -
  let ?A = "A\<lparr>omittable_operation := True\<rparr>" and ?db = "cx_db (oa_cx oa)"
  have ok': "access_ok C ?A n" and j: "has_journal C" using ok by (simp_all, simp add: access_ok_def)
  have r0: "arena_used sh + length k + n < 2 ^ 32" using room by linarith
  from r ok' r0 db show thesis
  proof (rule AddOrFind_ready, goal_cases)
    case (1 st sh')
    show ?case
      by (rule that [of st None sh']) (use 1 in \<open>auto simp: set_insert_def\<close>)
  next
    case (2 iu sh1 e)
    have room1: "arena_used sh1 + length k < 2 ^ 32" using 2(3) room by linarith
    show ?case
    proof (cases "is_new iu")
      case True
      show ?thesis
      proof (rule SetCmd_AddNew_ready [OF 2(2,8) room1 j 2(6,7), of A ex False sp "value"], goal_cases)
        case (1 sh2)
        show ?case
          by (rule that [of OK None sh2], use 1 2 True in \<open>simp_all add: set_insert_def\<close>) (use 1(5,6) in \<open>auto intro!: exI [of _ sh1]\<close>)
      qed
    next
      case False
      show ?thesis
      proof (rule CachePrev_cases [of sp "lookup ?db k sh1"])
        assume c: "CachePrevIfNeeded sp (lookup ?db k sh1) = (WRONG_TYPE, None)"
        then have pv: "sp_prev_val sp" by (auto simp: CachePrevIfNeeded_def split: option.splits if_splits)
        have ne: "entry_of sh1 ?db k \<noteq> None" using 2(8) by simp
        note es = end_scope_ready [OF 2(2) ne room1 2(6,7) refl]
        show thesis
          by (rule that [of WRONG_TYPE None "end_scope C (Some iu) sh1"])
             (use 2 False c es pv in \<open>auto simp: set_insert_def end_scope_def\<close>)
      next
        fix p assume c: "CachePrevIfNeeded sp (lookup ?db k sh1) = (OK, p)"
        show thesis
        proof (rule SetExisting_ready [OF 2(2,8) room1 j 2(6,7), of A ex False sp "value"], goal_cases)
          case (1 sh2)
          show ?case
            by (rule that [of OK p sh2], use 1 2 False c in \<open>simp_all add: set_insert_def\<close>) (use 1(5,6) in \<open>auto intro!: exI [of _ sh1]\<close>)
        qed
      qed
    qed
  qed
qed

lemma Del_ready:
  fixes sh :: "'v shard"
  assumes r: "ready_but C now db k sh" and e: "entry_of sh db k \<noteq> None" and room: "arena_used sh + length k < 2 ^ 32"
  shows "ready C now (Del C db k async reason sh)" "arena_used (Del C db k async reason sh) \<le> arena_used sh + length k"
    "mints now (Del C db k async reason sh) = mints now sh"
proof -
  obtain x where x: "entry_of sh db k = Some x" using e by blast
  have i: "shard_inv_but C db k sh" using r by (simp add: ready_but_def)
  note d = Del_inv [OF i x room refl, of async reason]
  have m: "mints now (Del C db k async reason sh) = mints now sh" by simp
  then show "mints now (Del C db k async reason sh) = mints now sh" .
  show "ready C now (Del C db k async reason sh)"
    using d r mint_ok_mints [OF m] by (simp add: ready_def ready_but_def)
  show "arena_used (Del C db k async reason sh) \<le> arena_used sh + length k" by (rule d(6))
qed

lemma UpdateExpire_ready:
  fixes sh :: "'v shard"
  assumes r: "ready C now sh" and e: "entry_of sh (cx_db cx) k = Some x" and room: "arena_used sh + length k < 2 ^ 32"
    and sh': "sh' = snd (UpdateExpire C cx k e p sh)"
  shows "ready C now sh' \<and> arena_used sh' \<le> arena_used sh + length k \<and> mints now sh' = mints now sh"
proof -
  have ne: "entry_of sh (cx_db cx) k \<noteq> None" using e by simp
  let ?del = "Del C (cx_db cx) k False kExpired sh"
  note d = Del_ready [OF ready_imp_but [OF r] ne room, of False kExpired]
  have s: "same_tables C ?del (note_expired (cx_db cx) ?del)" by simp
  have dl: "ready C now (note_expired (cx_db cx) ?del) \<and> arena_used (note_expired (cx_db cx) ?del) \<le> arena_used sh + length k \<and>
      mints now (note_expired (cx_db cx) ?del) = mints now sh"
    using d ready_same_tables [OF s] s by (simp add: same_tables_def)
  have ed: "ready C now y \<and> arena_used y \<le> arena_used sh + length k \<and> mints now y = mints now sh" if "edits C (cx_db cx) k e' sh y" for e' y
    using that ready_same_shape [OF _ r] by (simp add: edits_def same_shape_def)
  have ad: "ready C now (AddExpire C (cx_db cx) k at sh) \<and> arena_used (AddExpire C (cx_db cx) k at sh) \<le> arena_used sh + length k \<and>
      mints now (AddExpire C (cx_db cx) k at sh) = mints now sh" for at
    by (rule edits_AddExpire [OF e, of C C at]) (rule ed)
  have rm: "ready C now (snd (RemoveExpire C (cx_db cx) k sh)) \<and> arena_used (snd (RemoveExpire C (cx_db cx) k sh)) \<le> arena_used sh + length k \<and>
      mints now (snd (RemoveExpire C (cx_db cx) k sh)) = mints now sh"
    by (rule edits_RemoveExpire [OF e, of C C]) (rule ed)
  have "sh' \<in> {sh, snd (RemoveExpire C (cx_db cx) k sh), note_expired (cx_db cx) ?del} \<or> (\<exists>at. sh' = AddExpire C (cx_db cx) k at sh)"
    unfolding sh' UpdateExpire_def Let_def split_def by auto
  then show ?thesis using r dl ad rm by auto
qed

lemma ready_effect [simp]: "ready C now (effect es sh) = ready C now sh"
  by (rule ready_same_tables [OF same_tables_effect])

lemma SendExpired_ready [simp]:
  "ready C now (SendExpiredKeyEvent C cx k sh) = ready C now sh" "arena_used (SendExpiredKeyEvent C cx k sh) = arena_used sh"
  "mints now (SendExpiredKeyEvent C cx k sh) = mints now sh"
  by (simp_all add: SendExpiredKeyEvent_def)

lemma DeleteExpiredKey_ready:
  fixes sh :: "'v shard"
  assumes r: "ready C now sh" and e: "entry_of sh (cx_db (oa_cx oa)) k \<noteq> None" and room: "arena_used sh + 2 * length k < 2 ^ 32"
    and j: "has_journal C" and u: "up_db (iu_updater iu) = cx_db (oa_cx oa)" "up_key (iu_updater iu) = k"
  obtains st sh' where "DeleteExpiredKey C now oa k iu sh = Some (st, sh')" "ready C now sh'"
    "arena_used sh' \<le> arena_used sh + 2 * length k" "mints now sh' = mints now sh"
proof -
  let ?cx = "oa_cx oa" and ?db = "cx_db (oa_cx oa)"
  define sh1 where "sh1 = snd (RunInternal C True (Some (iu_updater iu)) sh)"
  have r0: "arena_used sh + length k < 2 ^ 32" using room by linarith
  note a = end_scope_ready [OF ready_imp_but [OF r] e r0 u sh1_def]
  obtain x where x: "entry_of sh1 ?db k = Some x" using e a(3) by auto
  let ?past = "ExpireParams_unit MSEC (- 1) (cx_time_now_ms ?cx) True"
  obtain q sh2 where q: "UpdateExpire C ?cx k x ?past sh1 = (q, sh2)" by force
  have r1: "arena_used sh1 + length k < 2 ^ 32" using a(4) room by simp
  have up: "ready C now sh2" "arena_used sh2 \<le> arena_used sh + 2 * length k" "mints now sh2 = mints now sh"
    using UpdateExpire_ready [OF a(1) x r1, of sh2 x ?past] q a(4,5) by auto
  have eq: "DeleteExpiredKey C now oa k iu sh = (case (q, sh2) of (Inl st, sh2) \<Rightarrow> Some (st, sh2)
      | (Inr _, sh2) \<Rightarrow> (case RecordJournal C now oa ''DEL'' [key_bytes k] sh2 of None \<Rightarrow> None
         | Some sh3 \<Rightarrow> Some (OK, SendExpiredKeyEvent C ?cx k sh3)))"
    using x q j by (simp add: DeleteExpiredKey_def Let_def sh1_def [symmetric] lookup_entry_of)
  show thesis
  proof (cases q)
    case (Inl st)
    then show thesis using that [of st sh2] eq up by simp
  next
    case (Inr v)
    show thesis
    proof (rule RecordJournal_ready [OF up(1), of oa "''DEL''" "[key_bytes k]"], goal_cases)
      case (1 sh3)
      show ?case by (rule that [of OK "SendExpiredKeyEvent C ?cx k sh3"]) (use 1 Inr eq up in auto)
    qed
  qed
qed

lemma install_elapsed_ready:
  fixes sh :: "'v shard"
  assumes r: "ready C now sh" and absent: "entry_of sh (cx_db cx) k = None"
    and arm: "arm_of (pending (stamper sh)) (cx_db cx) k = None" and sh': "sh' = install_elapsed C cx k sh"
  shows "ready C now sh'" "stamper sh' = stamper sh" "primes sh' = primes sh"
    "(db', k') \<noteq> (cx_db cx, k) \<Longrightarrow> slot sh' db' k' = slot sh db' k'"
proof -
  let ?db = "cx_db cx"
  have "ready C now sh' \<and> stamper sh' = stamper sh \<and> primes sh' = primes sh \<and>
      ((db', k') \<noteq> (?db, k) \<longrightarrow> slot sh' db' k' = slot sh db' k')"
  proof (cases "sh' = sh")
    case True
    then show ?thesis using r by simp
  next
    case False
    then obtain incoming where i: "sh' = upd_db ?db (InstallAbsentKeyTombstone (env C) (TombstonesEnabled (flags C))
        (multi_master_max_tombstones (flags C)) k (ExpiryTombstoneFor incoming)) sh"
      using sh' by (auto simp: install_elapsed_def split: if_splits option.splits)
    obtain t where t: "db_at ?db sh = Some t" using False i by (auto simp: upd_db_def split: option.splits)
    have inv: "shard_inv C sh" using r by (simp add: ready_def)
    have g: "good_tables C sh" using shard_invD(4) [OF inv] .
    from good_tablesD [OF g t] obtain m where m: "mvcc t = Some m" "acct_ok (env C) t" by blast
    let ?t = "InstallAbsentKeyTombstone (env C) (TombstonesEnabled (flags C)) (multi_master_max_tombstones (flags C)) k
        (ExpiryTombstoneFor incoming) t"
    note sp = SetTombstone_spec [OF m ExpiryTombstoneFor_tomb [of incoming], of k]
    have tt: "acct_ok (env C) ?t" "prime ?t = prime t" "\<exists>m'. mvcc ?t = Some m'"
      "GetMvcc ?t = GetMvcc t \<or> GetMvcc ?t = (GetMvcc t)(k \<mapsto> ExpiryTombstoneFor incoming)"
      using sp m by (auto simp: InstallAbsentKeyTombstone_def Let_def GetMvcc_def fun_eq_iff)
    have eq: "sh' = upd_db ?db (\<lambda>_. ?t) sh" using i upd_db_const [OF t] by simp
    note up = upd_side [OF g t tt(1,2,3), folded eq]
    have sl: "slot sh' = slot sh \<or> slot sh' = (slot sh)(?db := (slot sh ?db)(k \<mapsto> ExpiryTombstoneFor incoming))"
      using up(2) tt(4) t by (auto simp: slot_def fun_eq_iff)
    have fr: "stamper sh' = stamper sh" "journal sh' = journal sh" "mvcc_enabled sh' = mvcc_enabled sh"
      "ns_is_default sh' = ns_is_default sh" by (simp_all add: eq)
    have "key_ok sh' d q" for d q
    proof (cases "(d, q) = (?db, k)")
      case True
      then show ?thesis
        using shard_invD(5) [OF inv, of d q] sl absent arm fr up(3) by (auto simp: key_ok_def entry_of_def)
    next
      case False
      then have "slot sh' d q = slot sh d q" using sl by auto
      then show ?thesis using shard_invD(5) [OF inv, of d q] fr up(3) by (simp add: key_ok_def entry_of_def)
    qed
    then have "shard_inv C sh'" using shard_invD [OF inv] up(1) fr by (simp add: shard_inv_def shard_wf_def)
    then show ?thesis using r fr up(3) sl by (auto simp: ready_def mint_ok_def)
  qed
  then show "ready C now sh'" "stamper sh' = stamper sh" "primes sh' = primes sh"
    "(db', k') \<noteq> (cx_db cx, k) \<Longrightarrow> slot sh' db' k' = slot sh db' k'" by blast+
qed

lemma db_at_primes: "db_at db sh = None \<longleftrightarrow> primes sh db = None"
  by (simp add: primes_def)

lemma entry_db: "entry_of sh db k = Some e \<Longrightarrow> db_at db sh \<noteq> None"
  by (auto simp: entry_of_def primes_def split: option.splits)

lemma set_conditional_ready:
  fixes sh :: "'v shard"
  assumes r: "ready C now sh" and ok: "access_ok C A n" and room: "arena_used sh + 3 * length k + n < 2 ^ 32"
    and db: "db_at (cx_db (oa_cx oa)) sh \<noteq> None"
  shows "\<exists>st prev sh'. set_conditional C A now oa ex sp k value sh = Some (st, prev, sh') \<and> ready C now sh' \<and>
    arena_used sh' \<le> arena_used sh + 3 * length k + n \<and> mints now sh' = mints now sh"
proof -
  let ?cx = "oa_cx oa" and ?db = "cx_db (oa_cx oa)"
  have j: "has_journal C" using ok by (simp add: access_ok_def)
  have r0: "arena_used sh + length k < 2 ^ 32" using room by linarith
  show ?thesis
  proof (rule FindMutable_ready [OF r ok r0, of ?cx], goal_cases)
    case (1 fo sh1)
    have "frame_at ?db (k @ ''x'') sh sh1" using 1(5) by simp
    then have db1: "db_at ?db sh1 \<noteq> None" using db by (simp add: frame_at_def db_at_primes)
    let ?eo = "if fo = None then None else lookup ?db k sh1"
    have room1: "arena_used sh1 + length k < 2 ^ 32" "arena_used sh1 + 2 * length k < 2 ^ 32" "arena_used sh1 + 2 * length k + n < 2 ^ 32"
      using 1(3) room by linarith+
    show ?case
    proof (rule CachePrev_cases [of sp ?eo])
      assume c: "CachePrevIfNeeded sp ?eo = (WRONG_TYPE, None)"
      then obtain iu where iu: "fo = Some iu" by (auto simp: CachePrevIfNeeded_def split: option.splits if_splits)
      then have ne: "entry_of sh1 ?db k \<noteq> None" using 1(6) by simp
      have u: "up_db (iu_updater iu) = ?db" "up_key (iu_updater iu) = k" using 1(7) [OF iu] by simp_all
      note es = end_scope_ready [OF ready_imp_but [OF 1(2)] ne room1(1) u refl]
      have "set_conditional C A now oa ex sp k value sh = Some (WRONG_TYPE, None, end_scope C fo sh1)"
        using 1(1) c by (simp add: set_conditional_def)
      then show ?thesis using es 1(3,4) iu by (auto simp: end_scope_def)
    next
      fix p assume c: "CachePrevIfNeeded sp ?eo = (OK, p)"
      show ?thesis
      proof (cases fo)
        case None
        show ?thesis
        proof (cases "sp_flags sp AND SET_IF_EXISTS \<noteq> 0 \<or> sp_expire_in_past sp")
          case True
          then have "\<exists>st. set_conditional C A now oa ex sp k value sh = Some (st, p, sh1)"
            using 1(1) c None by (auto simp: set_conditional_def)
          then show ?thesis using 1(2-4) by auto
        next
          case False
          then have eq: "set_conditional C A now oa ex sp k value sh = set_insert C A now oa ex sp k value sh1"
            using 1(1) c None by (simp add: set_conditional_def)
          show ?thesis
            by (rule set_insert_ready [OF 1(2) ok room1(3) db1, of ex sp "value"]) (use eq 1(3,4) in auto)
        qed
      next
        case (Some iu)
        then have ne: "entry_of sh1 ?db k \<noteq> None" using 1(6) by simp
        have u: "up_db (iu_updater iu) = ?db" "up_key (iu_updater iu) = k" using 1(7) [OF Some] by simp_all
        obtain e where e: "entry_of sh1 ?db k = Some e" using ne by blast
        show ?thesis
        proof (cases "sp_flags sp AND SET_IF_EXISTS \<noteq> 0")
          case True
          show ?thesis
          proof (cases "sp_expire_in_past sp")
            case past: True
            have eq: "set_conditional C A now oa ex sp k value sh = map_option (\<lambda>(s, sh2). (s, p, sh2)) (DeleteExpiredKey C now oa k iu sh1)"
              using 1(1) c Some True past by (simp add: set_conditional_def)
            show ?thesis
              by (rule DeleteExpiredKey_ready [OF 1(2) ne room1(2) j u]) (use eq 1(3,4) in auto)
          next
            case nopast: False
            have eq: "set_conditional C A now oa ex sp k value sh = map_option (\<lambda>s. (OK, p, s)) (SetExisting C A now oa ex False sp k value iu sh1)"
              using 1(1) c Some True nopast by (simp add: set_conditional_def)
            show ?thesis
              by (rule SetExisting_ready [OF ready_imp_but [OF 1(2)] e room1(1) j u, of A ex False sp "value"]) (use eq 1(3,4) in auto)
          qed
        next
          case False
          have eq: "set_conditional C A now oa ex sp k value sh = Some (SKIPPED, p, end_scope C fo sh1)"
            using 1(1) c Some False by (simp add: set_conditional_def)
          note es = end_scope_ready [OF ready_imp_but [OF 1(2)] ne room1(1) u refl]
          show ?thesis using eq es 1(3,4) Some by (auto simp: end_scope_def)
        qed
      qed
    qed
  qed
qed

lemma SetCmd_Set_ready:
  fixes sh :: "'v shard"
  assumes r: "ready C now sh" and ok: "access_ok C A n" and room: "arena_used sh + 3 * length k + n < 2 ^ 32"
    and db: "db_at (cx_db (oa_cx oa)) sh \<noteq> None" and arm: "arm_of (pending (stamper sh)) (cx_db (oa_cx oa)) k = None"
  shows "\<exists>st prev sh'. SetCmd_Set C A now oa ex sp k value sh = Some (st, prev, sh') \<and> ready C now sh' \<and>
    arena_used sh' \<le> arena_used sh + 3 * length k + n \<and> mints now sh' = mints now sh"
proof -
  let ?cx = "oa_cx oa" and ?db = "cx_db (oa_cx oa)"
  have j: "has_journal C" using ok by (simp add: access_ok_def)
  have r0: "arena_used sh + length k < 2 ^ 32" "arena_used sh + 2 * length k + n < 2 ^ 32" using room by linarith+
  consider (cond) "IsConditionalSet sp" | (past) "\<not> IsConditionalSet sp" "sp_expire_in_past sp"
    | (plain) "\<not> IsConditionalSet sp" "\<not> sp_expire_in_past sp" by blast
  then show ?thesis
  proof cases
    case cond
    then show ?thesis using set_conditional_ready [OF r ok room db] by (simp add: SetCmd_Set_def)
  next
    case plain
    then have eq: "SetCmd_Set C A now oa ex sp k value sh = set_insert C A now oa ex sp k value sh" by (simp add: SetCmd_Set_def)
    show ?thesis by (rule set_insert_ready [OF r ok r0(2) db, of ex sp "value"]) (use eq in auto)
  next
    case past
    show ?thesis
    proof (rule FindMutable_ready [OF r ok r0(1), of ?cx], goal_cases)
      case (1 fo sh1)
      let ?eo = "if fo = None then None else lookup ?db k sh1"
      have room1: "arena_used sh1 + length k < 2 ^ 32" "arena_used sh1 + 2 * length k < 2 ^ 32"
        using 1(3) room by linarith+
      show ?case
      proof (rule CachePrev_cases [of sp ?eo])
        assume c: "CachePrevIfNeeded sp ?eo = (WRONG_TYPE, None)"
        then obtain iu where iu: "fo = Some iu" by (auto simp: CachePrevIfNeeded_def split: option.splits if_splits)
        then have ne: "entry_of sh1 ?db k \<noteq> None" using 1(6) by simp
        have u: "up_db (iu_updater iu) = ?db" "up_key (iu_updater iu) = k" using 1(7) [OF iu] by simp_all
        note es = end_scope_ready [OF ready_imp_but [OF 1(2)] ne room1(1) u refl]
        have "SetCmd_Set C A now oa ex sp k value sh = Some (WRONG_TYPE, None, end_scope C fo sh1)"
          using 1(1) c past by (simp add: SetCmd_Set_def)
        then show ?thesis using es 1(3,4) iu by (auto simp: end_scope_def)
      next
        fix p assume c: "CachePrevIfNeeded sp ?eo = (OK, p)"
        show ?thesis
        proof (cases fo)
          case None
          have eq: "SetCmd_Set C A now oa ex sp k value sh = Some (OK, p, install_elapsed C ?cx k sh1)"
            using 1(1) c past None by (simp add: SetCmd_Set_def)
          have absent: "entry_of sh1 ?db k = None" using None 1(6) by simp
          have arm1: "arm_of (pending (stamper sh1)) ?db k = None"
            using 1(8) None arm by (auto simp: frame_at_def split: option.splits if_splits)
          note ie = install_elapsed_ready [OF 1(2) absent arm1 refl]
          show ?thesis using eq ie 1(3,4) by auto
        next
          case (Some iu)
          then have ne: "entry_of sh1 ?db k \<noteq> None" using 1(6) by simp
          have u: "up_db (iu_updater iu) = ?db" "up_key (iu_updater iu) = k" using 1(7) [OF Some] by simp_all
          have eq: "SetCmd_Set C A now oa ex sp k value sh = map_option (\<lambda>(s, sh2). (s, p, sh2)) (DeleteExpiredKey C now oa k iu sh1)"
            using 1(1) c past Some by (simp add: SetCmd_Set_def)
          show ?thesis
            by (rule DeleteExpiredKey_ready [OF 1(2) ne room1(2) j u]) (use eq 1(3,4) in auto)
        qed
      qed
    qed
  qed
qed

subsection \<open>MSET and DEL\<close>

abbreviation key_lengths :: "key list \<Rightarrow> nat" where
  "key_lengths ks \<equiv> sum_list (map length ks)"

lemma NoteLwwDrop_ready [simp]:
  "ready C now (NoteLwwDrop nm k sh) = ready C now sh" "stamper (NoteLwwDrop nm k sh) = stamper sh"
  "db_at db (NoteLwwDrop nm k sh) = db_at db sh" "entry_of (NoteLwwDrop nm k sh) = entry_of sh" "slot (NoteLwwDrop nm k sh) = slot sh"
  by (simp_all add: NoteLwwDrop_def slot_def [abs_def])

lemma mset_loop_ready:
  fixes sh :: "'v shard"
  assumes "ready C now sh" "access_ok C A n" "arena_used sh + 3 * key_lengths (map fst kvs) + n * length kvs < 2 ^ 32"
    "db_at (cx_db (oa_cx oa)) sh \<noteq> None"
  shows "\<exists>st m surv sh'. mset_loop C A now oa incoming kvs sh = Some (st, m, surv, sh') \<and> ready C now sh' \<and>
    arena_used sh' \<le> arena_used sh + 3 * key_lengths (map fst kvs) + n * length kvs \<and> mints now sh' = mints now sh \<and>
    (st = OK \<or> st = OUT_OF_MEMORY)"
  using assms
proof (induction kvs arbitrary: sh)
  case Nil
  then show ?case by simp
next
  case (Cons kv kvs)
  obtain k v where kv: "kv = (k, v)" by force
  have b: "3 * key_lengths (map fst (kv # kvs)) + n * length (kv # kvs) =
      (3 * length k + n) + (3 * key_lengths (map fst kvs) + n * length kvs)" by (simp add: kv algebra_simps)
  show ?case
  proof (cases "case incoming of Some s \<Rightarrow> LwwShouldDropKey (GetMvcc_at (cx_db (oa_cx oa)) k sh) s | None \<Rightarrow> False")
    case True
    let ?sh = "NoteLwwDrop ''MSET'' k sh"
    have r: "arena_used ?sh + 3 * key_lengths (map fst kvs) + n * length kvs < 2 ^ 32" using Cons.prems(3) b by simp
    from Cons.IH [OF _ Cons.prems(2) r] Cons.prems(1,4) True show ?thesis by (auto simp: kv)
  next
    case False
    have r0: "arena_used sh + 2 * length k + n < 2 ^ 32" using Cons.prems(3) b by linarith
    have eq: "SetCmd_Set C A now oa False set_params_default k v sh = set_insert C A now oa False set_params_default k v sh"
      by (simp add: SetCmd_Set_def IsConditionalSet_def set_params_default_def)
    show ?thesis
    proof (rule set_insert_ready [OF Cons.prems(1,2) r0 Cons.prems(4), of False set_params_default v], goal_cases)
      case (1 st prev sh1)
      have e1: "SetCmd_Set C A now oa False set_params_default k v sh = Some (st, prev, sh1)" using eq 1(1) by simp
      show ?case
      proof (cases "st = OK")
        case True
        then obtain e' where e': "entry_of sh1 (cx_db (oa_cx oa)) k = Some e'" using 1(6) by blast
        have r1: "arena_used sh1 + 3 * key_lengths (map fst kvs) + n * length kvs < 2 ^ 32"
          using Cons.prems(3) b 1(3) by linarith
        from Cons.IH [OF 1(2) Cons.prems(2) r1 entry_db [OF e']] obtain st2 m surv sh2 where
          2: "mset_loop C A now oa incoming kvs sh1 = Some (st2, m, surv, sh2)" "ready C now sh2"
          "arena_used sh2 \<le> arena_used sh1 + 3 * key_lengths (map fst kvs) + n * length kvs" "mints now sh2 = mints now sh1"
          "st2 = OK \<or> st2 = OUT_OF_MEMORY" by blast
        have "arena_used sh2 \<le> arena_used sh + 3 * key_lengths (map fst (kv # kvs)) + n * length (kv # kvs)"
          using 2(3) 1(3) b by linarith
        then show ?thesis using True False e1 2 1(4) by (simp add: kv)
      next
        case nok: False
        have "arena_used sh1 \<le> arena_used sh + 3 * key_lengths (map fst (kv # kvs)) + n * length (kv # kvs)"
          using 1(3) b by linarith
        then show ?thesis using nok False e1 1(2,4,5) by (simp add: kv set_params_default_def)
      qed
    qed
  qed
qed

text \<open>The result of a handler that cannot fail: a ready shard within the budget.\<close>

definition safely :: "slice_cfg \<Rightarrow> u64 \<Rightarrow> nat \<Rightarrow> 'v shard \<Rightarrow> ('a \<times> 'v shard) option \<Rightarrow> bool" where
  "safely C now b sh r = (\<exists>x sh'. r = Some (x, sh') \<and> ready C now sh' \<and> arena_used sh' \<le> arena_used sh + b \<and> mints now sh' = mints now sh)"

lemma safely_journal:
  assumes "ready C now sh1" "arena_used sh1 \<le> arena_used sh + b" "mints now sh1 = mints now sh"
  shows "safely C now b sh (map_option (\<lambda>s. (x, s)) (RecordJournal C now oa cmd args sh1))"
  by (rule RecordJournal_ready [OF assms(1), of oa cmd args]) (use assms in \<open>auto simp: safely_def\<close>)

lemma safely_Some:
  "ready C now sh1 \<Longrightarrow> arena_used sh1 \<le> arena_used sh + b \<Longrightarrow> mints now sh1 = mints now sh \<Longrightarrow> safely C now b sh (Some (x, sh1))"
  by (simp add: safely_def)

lemma ready_ClearBuffer: "ready C now (sh\<lparr>journal := ClearBuffer (journal sh)\<rparr>) = ready C now sh"
proof -
  have "slot (sh\<lparr>journal := ClearBuffer (journal sh)\<rparr>) = slot sh" "primes (sh\<lparr>journal := ClearBuffer (journal sh)\<rparr>) = primes sh"
    by (simp_all add: slot_def fun_eq_iff primes_def)
  then show ?thesis
    by (simp add: ready_def shard_inv_def shard_wf_def key_ok_def entry_of_def mint_ok_def good_tables_def ClearBuffer_def
        ResetRingBuffer_def SetStartingLSN_def Let_def)
qed

lemma OpMSet_safely:
  assumes "ready C now sh" "access_ok C A n" "arena_used sh + 3 * key_lengths (map fst kvs) + n * length kvs < 2 ^ 32"
    "db_at (cx_db (oa_cx oa)) sh \<noteq> None"
  shows "safely C now (3 * key_lengths (map fst kvs) + n * length kvs) sh (OpMSet C A now oa kvs sh)"
    "\<exists>st sh'. OpMSet C A now oa kvs sh = Some (st, sh') \<and> (st = OK \<or> st = OUT_OF_MEMORY)"
proof -
  define incoming where "incoming = (if LwwGuardActive (cx_repl_lww_guard (oa_cx oa)) (cx_repl_mvcc (oa_cx oa))
                      then IncomingStamp (stamper sh) (cx_repl_mvcc (oa_cx oa)) (cx_repl_origin_idx (oa_cx oa)) else None)"
  obtain st m surv sh1 where 1: "mset_loop C A now oa incoming kvs sh = Some (st, m, surv, sh1)" "ready C now sh1"
    "arena_used sh1 \<le> arena_used sh + 3 * key_lengths (map fst kvs) + n * length kvs" "mints now sh1 = mints now sh"
    "st = OK \<or> st = OUT_OF_MEMORY"
    using mset_loop_ready [OF assms, of incoming] by blast
  have b: "arena_used sh1 \<le> arena_used sh + (3 * key_lengths (map fst kvs) + n * length kvs)" using 1(3) by simp
  note jr = safely_journal [OF 1(2) b 1(4), of st oa "''MSET''"] and sm = safely_Some [OF 1(2) b 1(4), of st]
  define body where "body = (if \<not> has_journal C then Some sh1
                else if incoming \<noteq> None
                then (if surv \<noteq> [] then RecordJournal C now oa ''MSET'' (mset_args surv) sh1 else Some sh1)
                else if m = length kvs then RecordJournal C now oa ''MSET'' (mset_args kvs) sh1
                else if m > 0 then RecordJournal C now oa ''MSET'' (mset_args (take m kvs)) sh1
                else Some sh1)"
  have eq: "OpMSet C A now oa kvs sh = map_option (\<lambda>s. (st, s)) body"
    by (simp only: OpMSet_def Let_def incoming_def [symmetric] 1(1) option.case prod.case body_def)
  show s: "safely C now (3 * key_lengths (map fst kvs) + n * length kvs) sh (OpMSet C A now oa kvs sh)"
    unfolding eq body_def using jr sm by simp
  show "\<exists>st sh'. OpMSet C A now oa kvs sh = Some (st, sh') \<and> (st = OK \<or> st = OUT_OF_MEMORY)"
    using s 1(5) unfolding eq by (auto simp: safely_def)
qed

lemma del_loop_ready:
  fixes sh :: "'v shard"
  assumes "ready C now sh" "access_ok C A n" "arena_used sh + 3 * key_lengths ks < 2 ^ 32"
  shows "\<exists>m ja sh'. del_loop C A now oa async incoming ks sh = Some (m, ja, sh') \<and> ready C now sh' \<and>
    arena_used sh' \<le> arena_used sh + 3 * key_lengths ks \<and> mints now sh' = mints now sh"
  using assms
proof (induction ks arbitrary: sh)
  case Nil
  then show ?case by simp
next
  case (Cons k ks)
  let ?db = "cx_db (oa_cx oa)"
  show ?case
  proof (cases "case incoming of Some s \<Rightarrow> LwwShouldDropKey (GetMvcc_at ?db k sh) s | None \<Rightarrow> False")
    case True
    let ?sh = "NoteLwwDrop ''DEL'' k sh"
    have r: "arena_used ?sh + 3 * key_lengths ks < 2 ^ 32" using Cons.prems(3) by simp
    from Cons.IH [OF _ Cons.prems(2) r] Cons.prems(1) True show ?thesis by auto
  next
    case False
    have r0: "arena_used sh + length k < 2 ^ 32" using Cons.prems(3) by simp
    show ?thesis
    proof (rule FindMutable_ready [OF Cons.prems(1,2) r0, of "oa_cx oa"], goal_cases)
      case (1 fo sh1)
      show ?case
      proof (cases fo)
        case None
        have r1: "arena_used sh1 + 3 * key_lengths ks < 2 ^ 32" using 1(3) Cons.prems(3) by simp
        from Cons.IH [OF 1(2) Cons.prems(2) r1] 1 None False show ?thesis by fastforce
      next
        case (Some iu)
        then have ne: "entry_of sh1 ?db k \<noteq> None" using 1(6) by simp
        have u: "up_db (iu_updater iu) = ?db" "up_key (iu_updater iu) = k" using 1(7) [OF Some] by simp_all
        have room1: "arena_used sh1 + length k < 2 ^ 32" using 1(3) Cons.prems(3) by simp
        note es = end_scope_ready [OF ready_imp_but [OF 1(2)] ne room1 u refl]
        let ?sh2 = "end_scope C (Some iu) sh1"
        have 2: "ready C now ?sh2" "entry_of ?sh2 ?db k \<noteq> None" "arena_used ?sh2 = arena_used sh1 + length k" "mints now ?sh2 = mints now sh1"
          using es ne by (simp_all add: end_scope_def)
        have room2: "arena_used ?sh2 + length k < 2 ^ 32" using 1(3) 2(3) Cons.prems(3) by simp
        let ?sh3 = "Del C ?db k async kExplicit ?sh2"
        note d = Del_ready [OF ready_imp_but [OF 2(1)] 2(2) room2, of async kExplicit]
        have r3: "arena_used ?sh3 + 3 * key_lengths ks < 2 ^ 32" using d(2) 2(3) 1(3) Cons.prems(3) by simp
        from Cons.IH [OF d(1) Cons.prems(2) r3] obtain m ja sh' where
          "del_loop C A now oa async incoming ks ?sh3 = Some (m, ja, sh')" "ready C now sh'"
          "arena_used sh' \<le> arena_used ?sh3 + 3 * key_lengths ks" "mints now sh' = mints now ?sh3" by blast
        moreover from this d(2) 2(3) 1(3) have "arena_used sh' \<le> arena_used sh + 3 * key_lengths (k # ks)" by simp
        ultimately show ?thesis using Some 1(1,4) 2(4) d(3) False by simp
      qed
    qed
  qed
qed

lemma OpDelV2_safely:
  assumes "ready C now sh" "access_ok C A n" "arena_used sh + 3 * key_lengths ks < 2 ^ 32"
  shows "safely C now (3 * key_lengths ks) sh (OpDelV2 C A now oa ks async sh)"
proof -
  define incoming where "incoming = (if LwwGuardActive (cx_repl_lww_guard (oa_cx oa)) (cx_repl_mvcc (oa_cx oa))
                      then IncomingStamp (stamper sh) (cx_repl_mvcc (oa_cx oa)) (cx_repl_origin_idx (oa_cx oa)) else None)"
  obtain m ja sh1 where 1: "del_loop C A now oa async incoming ks sh = Some (m, ja, sh1)" "ready C now sh1"
    "arena_used sh1 \<le> arena_used sh + 3 * key_lengths ks" "mints now sh1 = mints now sh"
    using del_loop_ready [OF assms, of oa async incoming] by blast
  note jr = safely_journal [OF 1(2,3,4), of m oa "''DEL''" "map key_bytes ja"] and sm = safely_Some [OF 1(2,3,4), of m]
  let ?c = "sh1\<lparr>journal := ClearBuffer (journal sh1)\<rparr>"
  have cb: "safely C now (3 * key_lengths ks) sh (Some (m, ?c))"
    using 1 by (intro safely_Some) (simp_all add: ready_ClearBuffer)
  have eq: "OpDelV2 C A now oa ks async sh = map_option (\<lambda>s. (m, s))
      (if \<not> has_journal C then Some sh1 else if ja \<noteq> [] then RecordJournal C now oa ''DEL'' (map key_bytes ja) sh1
       else if m > 0 then Some ?c else Some sh1)"
    by (simp only: OpDelV2_def Let_def incoming_def [symmetric] 1(1) option.case prod.case)
  show ?thesis unfolding eq using jr sm cb by auto
qed

subsection \<open>EXPIRE, PERSIST and EXPIRETIME\<close>

lemma RecordFullStateJournal_safely:
  assumes "ready C now sh1" "arena_used sh1 \<le> arena_used sh + b" "mints now sh1 = mints now sh" "entry_of sh1 (cx_db (oa_cx oa)) k = Some e"
  shows "safely C now b sh (map_option (\<lambda>s. (x, s)) (RecordFullStateJournal C A now oa k e sh1))"
  unfolding RecordFullStateJournal_def JournalFullStateSet_def lookup_entry_of assms(4) option.case Let_def
  by (simp add: safely_journal [OF assms(1-3)])

lemma OpExpire_safely:
  fixes sh :: "'v shard"
  assumes r: "ready C now sh" and ok: "access_ok C A n" and room: "arena_used sh + 3 * length k < 2 ^ 32"
  shows "safely C now (3 * length k) sh (OpExpire C A now oa k p sh)"
proof -
  let ?cx = "oa_cx oa" and ?db = "cx_db (oa_cx oa)"
  have r0: "arena_used sh + length k < 2 ^ 32" using room by linarith
  show ?thesis
  proof (rule FindMutable_ready [OF r ok r0, of ?cx], goal_cases)
    case (1 fo sh1)
    show ?case
    proof (cases fo)
      case None
      then have "OpExpire C A now oa k p sh = Some (KEY_NOTFOUND, sh1)" using 1(1) by (simp add: OpExpire_def)
      then show ?thesis using 1(3) by (simp add: safely_Some [OF 1(2) _ 1(4)])
    next
      case (Some iu)
      then obtain e where e: "entry_of sh1 ?db k = Some e" using 1(6) by auto
      have u: "up_db (iu_updater iu) = ?db" "up_key (iu_updater iu) = k" using 1(7) [OF Some] by simp_all
      define nop where "nop = WouldExpireBeNoop e p (cx_time_now_ms ?cx)"
      define sh2 where "sh2 = snd (RunInternal C (\<not> nop) (Some (iu_updater iu)) sh1)"
      have room1: "arena_used sh1 + length k < 2 ^ 32" using 1(3) room by linarith
      have 2: "ready C now sh2 \<and> entry_of sh2 ?db k = Some e \<and> arena_used sh2 \<le> arena_used sh + 2 * length k \<and> mints now sh2 = mints now sh"
      proof (cases nop)
        case True
        have s: "same_tables C sh1 sh2" unfolding sh2_def using True RunInternal_quiet [of sh1 "iu_updater iu" C] e u by simp
        show ?thesis using 1(2-4) e ready_same_tables [OF s] same_tables_inv(3) [OF s] s by (simp add: same_tables_def)
      next
        case False
        then have d: "sh2 = snd (RunInternal C True (Some (iu_updater iu)) sh1)" by (simp add: sh2_def)
        have ne: "entry_of sh1 ?db k \<noteq> None" using e by simp
        note es = end_scope_ready [OF ready_imp_but [OF 1(2)] ne room1 u d]
        then show ?thesis using e 1(3,4) by simp
      qed
      obtain q sh3 where q: "UpdateExpire C ?cx k e p sh2 = (q, sh3)" by force
      have room2: "arena_used sh2 + length k < 2 ^ 32" using 2 room by linarith
      have up: "ready C now sh3" "arena_used sh3 \<le> arena_used sh + 3 * length k" "mints now sh3 = mints now sh"
        using UpdateExpire_ready [OF _ _ room2, of C now ?cx e sh3 e p] q 2 by auto
      have eq0: "OpExpire C A now oa k p sh = (case (q, sh3) of (Inl st, sh3) \<Rightarrow> Some (st, sh3)
          | (Inr v, sh3) \<Rightarrow>
              (case (if \<not> has_journal C then Some sh3
                     else if v = - 1 then RecordJournal C now oa ''DEL'' [key_bytes k] sh3
                     else if IsActiveReplica (flags C)
                     then (case lookup ?db k sh3 of None \<Rightarrow> Some sh3 | Some e3 \<Rightarrow> RecordFullStateJournal C A now oa k e3 sh3)
                     else RecordJournal C now oa ''PEXPIREAT'' [key_bytes k, StrCat v] sh3) of
                 None \<Rightarrow> None
               | Some sh4 \<Rightarrow> Some (OK, if v = - 1 then SendExpiredKeyEvent C ?cx k sh4 else sh4)))"
        by (simp only: OpExpire_def Let_def 1(1) option.case prod.case Some lookup_entry_of e nop_def [symmetric] sh2_def [symmetric] q)
      show ?thesis
      proof (cases q)
        case (Inl st)
        then show ?thesis unfolding eq0 using safely_Some [OF up] by simp
      next
        case (Inr v)
        define body where "body = (if \<not> has_journal C then Some sh3
                     else if v = - 1 then RecordJournal C now oa ''DEL'' [key_bytes k] sh3
                     else if IsActiveReplica (flags C)
                     then (case lookup ?db k sh3 of None \<Rightarrow> Some sh3 | Some e3 \<Rightarrow> RecordFullStateJournal C A now oa k e3 sh3)
                     else RecordJournal C now oa ''PEXPIREAT'' [key_bytes k, StrCat v] sh3)"
        have "safely C now (3 * length k) sh (map_option (\<lambda>s. (OK, s)) body)"
          unfolding body_def lookup_entry_of
          by (simp add: safely_journal [OF up] safely_Some [OF up] RecordFullStateJournal_safely [OF up] split: option.split)
        then obtain sh4 where 4: "body = Some sh4" "ready C now sh4" "arena_used sh4 \<le> arena_used sh + 3 * length k" "mints now sh4 = mints now sh"
          by (auto simp: safely_def)
        have "OpExpire C A now oa k p sh = Some (OK, if v = - 1 then SendExpiredKeyEvent C ?cx k sh4 else sh4)"
          unfolding eq0 Inr prod.case sum.case body_def [symmetric] 4(1) option.case ..
        then show ?thesis using 4 by (intro safely_Some [of C now "if v = - 1 then SendExpiredKeyEvent C ?cx k sh4 else sh4"] | simp add: safely_def)+
      qed
    qed
  qed
qed

lemma OpPersist_safely:
  fixes sh :: "'v shard"
  assumes r: "ready C now sh" and ok: "access_ok C A n" and room: "arena_used sh + 3 * length k < 2 ^ 32"
  shows "safely C now (3 * length k) sh (OpPersist C A now oa k sh)"
proof -
  let ?cx = "oa_cx oa" and ?db = "cx_db (oa_cx oa)"
  have r0: "arena_used sh + length k < 2 ^ 32" using room by linarith
  show ?thesis
  proof (rule FindMutable_ready [OF r ok r0, of ?cx], goal_cases)
    case (1 fo sh1)
    show ?case
    proof (cases fo)
      case None
      then have "OpPersist C A now oa k sh = Some (KEY_NOTFOUND, sh1)" using 1(1) by (simp add: OpPersist_def)
      then show ?thesis using 1(3) by (simp add: safely_Some [OF 1(2) _ 1(4)])
    next
      case (Some iu)
      then obtain e where e: "entry_of sh1 ?db k = Some e" using 1(6) by auto
      have u: "up_db (iu_updater iu) = ?db" "up_key (iu_updater iu) = k" using 1(7) [OF Some] by simp_all
      obtain cleared sh2 where rm: "RemoveExpire C ?db k sh1 = (cleared, sh2)" by force
      obtain e2 where e2: "edits C ?db k e2 sh1 sh2"
        by (rule edits_RemoveExpire [OF e, of C C]) (use rm in auto)
      have 2: "ready C now sh2" "entry_of sh2 ?db k = Some e2" "stamper sh2 = stamper sh1"
        using e2 ready_same_shape [OF _ 1(2)] by (simp_all add: edits_def same_shape_def)
      show ?thesis
      proof (cases cleared)
        case False
        let ?sh3 = "snd (RunInternal C False (Some (iu_updater iu)) sh2)"
        have s: "same_tables C sh2 ?sh3" using RunInternal_quiet [of sh2 "iu_updater iu" C] 2 u by simp
        have "OpPersist C A now oa k sh = Some (SKIPPED, ?sh3)" using 1(1) Some rm False by (simp add: OpPersist_def)
        moreover have "ready C now ?sh3" "arena_used ?sh3 \<le> arena_used sh + 3 * length k" "mints now ?sh3 = mints now sh"
          using ready_same_tables [OF s] s 2 1(3,4) by (simp_all add: same_tables_def)
        ultimately show ?thesis using safely_Some by metis
      next
        case True
        have ne: "entry_of sh2 ?db k \<noteq> None" and room2: "arena_used sh2 + length k < 2 ^ 32" using 2 1(3) room by simp_all
        note es = end_scope_ready [OF ready_imp_but [OF 2(1)] ne room2 u refl]
        let ?sh3 = "end_scope C (Some iu) sh2"
        have 3: "ready C now ?sh3" "arena_used ?sh3 \<le> arena_used sh + 3 * length k" "mints now ?sh3 = mints now sh" "entry_of ?sh3 ?db k = Some e2"
          using es 2 1(3,4) by (simp_all add: end_scope_def)
        have "OpPersist C A now oa k sh = map_option (\<lambda>s. (OK, s))
            (if has_journal C \<and> IsActiveReplica (flags C) then RecordFullStateJournal C A now oa k e2 ?sh3 else Some ?sh3)"
          using 1(1) Some rm True 3(4) by (simp add: OpPersist_def lookup_entry_of Let_def)
        then show ?thesis by (simp add: RecordFullStateJournal_safely [OF 3] safely_Some [OF 3(1-3)])
      qed
    qed
  qed
qed

lemma OpExpireTime_safely:
  fixes sh :: "'v shard"
  assumes r: "ready C now sh" and ok: "access_ok C A n" and room: "arena_used sh + length k < 2 ^ 32"
  shows "safely C now (length k) sh (OpExpireTime C now cx k sh)"
proof -
  have inv: "shard_inv C sh" and en: "js_mvcc_enabled (journal sh)" and mo: "mint_ok now sh" and j: "has_journal C"
    using r ok by (simp_all add: ready_def access_ok_def)
  show ?thesis
  proof (rule FindInternal_inv [OF inv en j room, of now cx None kReadStats], goal_cases)
    case (1 st sh1)
    note m = mints_FindInternal [OF 1(1) mo]
    have r1: "ready C now sh1" using 1 mo mint_ok_mints [OF m] by (simp add: ready_def)
    show ?case using safely_Some [OF r1 1(4) m] 1(1) by (auto simp: OpExpireTime_def split: option.split)
  qed
qed

end
