(* ===== verification/Hop_Safety.thy ===== *)
theory Hop_Safety
  imports Command_Invariant
begin

text \<open>
  The callbacks of SET, MSET, DEL, EXPIRE, PERSIST and EXPIRETIME run as hops of transactions, in any order, on a
  shard of an active replica. No hop fails a check of the source, and between hops the side table is dense, no
  arm is pending and the arena is empty.
\<close>

definition quiescent :: "slice_cfg \<Rightarrow> 'v shard \<Rightarrow> bool" where
  "quiescent C sh = (shard_inv C sh \<and> js_mvcc_enabled (journal sh) \<and> pending (stamper sh) = [] \<and> arena (stamper sh) = [] \<and>
     hop_stamp (stamper sh) = 0)"

text \<open>Bytes of the arena a command can use when an insertion evicts keys of at most \<open>n\<close> bytes in total.\<close>

fun footprint :: "nat \<Rightarrow> command \<Rightarrow> nat" where
  "footprint n (CmdSet sp k v) = 3 * length k + n"
| "footprint n (CmdMSet kvs) = 3 * key_lengths (map fst kvs) + n * length kvs"
| "footprint n (CmdDel ks async) = 3 * key_lengths ks"
| "footprint n (CmdExpire k p) = 3 * length k"
| "footprint n (CmdPersist k) = 3 * length k"
| "footprint n (CmdExpireTime k) = length k"

text \<open>MSET and DEL are the commands whose keys may lie on several shards.\<close>

fun multi_shard :: "command \<Rightarrow> bool" where
  "multi_shard (CmdMSet kvs) = True"
| "multi_shard (CmdDel ks async) = True"
| "multi_shard _ = False"

text \<open>What a hop starts from: a wall clock below the year 2248, a logical clock not exhausted, an allocated database, and
  keys that fit the arena of 32-bit offsets.\<close>

definition hop_ok :: "nat \<Rightarrow> u64 \<Rightarrow> tx_env \<Rightarrow> command \<Rightarrow> 'v shard \<Rightarrow> bool" where
  "hop_ok n now T cmd sh =
     (now < 2 ^ 43 \<and> last (clock (stamper sh)) < kStampMask \<and> db_at (cx_db (oa_cx (tx_args T))) sh \<noteq> None \<and>
      footprint n cmd < 2 ^ 32 \<and> (tx_single_shard T \<or> multi_shard cmd))"

inductive hops :: "slice_cfg \<Rightarrow> 'v access_env \<Rightarrow> nat \<Rightarrow> 'v shard \<Rightarrow> 'v shard \<Rightarrow> bool" for C A n sh where
  hops_start: "hops C A n sh sh"
| hops_activate: "hops C A n sh sh1 \<Longrightarrow> hops C A n sh (ActivateDb C i sh1)"
| hops_run: "hops C A n sh sh1 \<Longrightarrow> hop_ok n now T cmd sh1 \<Longrightarrow>
    RunCallback C now T (callback C A now (tx_args T) cmd) sh1 = Some (st, sh2) \<Longrightarrow> hops C A n sh sh2"

subsection \<open>One hop\<close>

lemma mint_ok_fresh:
  assumes "now < 2 ^ 43" "last (clock (stamper sh)) < kStampMask" "hop_stamp (stamper sh) = 0"
  shows "mint_ok now sh"
proof -
  let ?l = "last (clock (stamper sh))"
  have m: "unat kStampMask = 2 ^ 63 - 1" by (simp add: kStampMask_def kTombstoneBit_def)
  have n: "unat now < 2 ^ 43" using assms(1) by (simp add: word_less_nat_alt)
  have c: "unat (push_bit kCounterBits now) = unat now * 2 ^ 20"
    using n by (simp add: kCounterBits_def push_bit_eq_mult unat_word_ariths)
  have lm: "unat ?l < 2 ^ 63 - 1" using assms(2) m by (simp add: word_less_nat_alt)
  then have s: "unat (?l + 1) = unat ?l + 1" by (intro unat_word_ariths(1) [THEN trans]) simp
  have "fst (HopStamp now (stamper sh)) = (if push_bit kCounterBits now > ?l then push_bit kCounterBits now else ?l + 1)"
    using assms(3) by (simp add: HopStamp_def Next_def Let_def)
  then show ?thesis using n c lm s m by (simp add: mint_ok_def word_less_nat_alt word_le_nat_alt)
qed

lemma callback_safely:
  fixes sh :: "'v shard"
  assumes "ready C now sh" "access_ok C A n" "arena (stamper sh) = []" "pending (stamper sh) = []" "footprint n cmd < 2 ^ 32"
    "db_at (cx_db (oa_cx oa)) sh \<noteq> None"
  shows "safely C now (footprint n cmd) sh (callback C A now oa cmd sh)"
proof (cases cmd)
  case (CmdSet sp k v)
  have arm: "arm_of (pending (stamper sh)) (cx_db (oa_cx oa)) k = None" using assms(4) by (simp add: arm_of_def)
  from SetCmd_Set_ready [OF assms(1,2) _ assms(6) arm, of True sp v] CmdSet assms(3,5) show ?thesis
    by (force simp: safely_def forget_def)
next
  case (CmdMSet kvs)
  then show ?thesis using OpMSet_safely(1) [OF assms(1,2) _ assms(6), of kvs] assms(3,5) by simp
next
  case (CmdDel ks async)
  then show ?thesis using OpDelV2_safely [OF assms(1,2), of ks oa async] assms(3,5) by (auto simp: safely_def)
next
  case (CmdExpire k p)
  then show ?thesis using OpExpire_safely [OF assms(1,2), of k oa p] assms(3,5) by simp
next
  case (CmdPersist k)
  then show ?thesis using OpPersist_safely [OF assms(1,2), of k oa] assms(3,5) by simp
next
  case (CmdExpireTime k)
  then show ?thesis using OpExpireTime_safely [OF assms(1,2), of k "oa_cx oa"] assms(3,5) by (auto simp: safely_def)
qed

lemma multi_shard_result:
  fixes sh :: "'v shard"
  assumes "ready C now sh" "access_ok C A n" "arena (stamper sh) = []" "footprint n cmd < 2 ^ 32"
    "db_at (cx_db (oa_cx oa)) sh \<noteq> None" "multi_shard cmd" "callback C A now oa cmd sh = Some (st, sh')"
  shows "st = OK \<or> st = OUT_OF_MEMORY"
proof (cases cmd)
  case (CmdMSet kvs)
  then show ?thesis using assms(3,4,7) OpMSet_safely(2) [OF assms(1,2) _ assms(5), of kvs] by auto
qed (use assms(6,7) in auto)

lemma shard_inv_dense_size:
  assumes "shard_inv C sh" "db_at i sh = Some t"
  shows "dense_count t"
proof -
  from shard_inv_table_inv [OF assms] obtain m where m: "mvcc t = Some m" "acct_ok (env C) t" "dense t" by (auto simp: table_inv_def)
  have "(of_nat (tbl_size m) :: u64) = of_nat (tbl_size (prime t)) + of_nat (tbl_count IsTombstone m)"
    using dense_size [OF m(3,2,1)] by (metis of_nat_add)
  then show ?thesis using m by (simp add: dense_count_def acct_ok_def side_ok_def)
qed

lemma OnCbFinishBlocking_passes:
  assumes "shard_inv C sh"
  shows "OnCbFinishBlocking sh = Some (sh\<lparr>pending_send_map := []\<rparr>)"
proof -
  have "list_all (\<lambda>x. case x of None \<Rightarrow> True | Some t \<Rightarrow> dense_count t) (db_arr sh)"
    unfolding list_all_length by (simp split: option.split) (metis db_at_def shard_inv_dense_size [OF assms])
  then show ?thesis by (simp add: OnCbFinishBlocking_def)
qed

lemma ready_pending_send [simp]: "ready C now (sh\<lparr>pending_send_map := x\<rparr>) = ready C now sh"
  by (rule ready_same_tables, rule same_tables_fields) (simp_all add: db_at_def)

lemma LogAuto_ready:
  assumes "ready C now sh"
  shows "\<exists>sh'. LogAutoJournalOnShard C now T st d sh = Some sh' \<and> ready C now sh'"
  by (rule LogJournalOnShard_ready [OF assms, of "tx_args T" "tx_payload T"])
    (use assms in \<open>auto simp: LogAutoJournalOnShard_def\<close>)

lemma EndEpoch_quiescent:
  assumes "ready C now sh"
  shows "quiescent C (EndEpoch C sh)"
proof -
  have inv: "shard_inv C sh" and en: "js_mvcc_enabled (journal sh)" using assms by (simp_all add: ready_def)
  have "arena (stamper (EndEpoch C sh)) = [] \<and> hop_stamp (stamper (EndEpoch C sh)) = 0"
    using shard_invD(1) [OF inv] by (simp add: EndEpoch_def EndOfWriteEpoch_def Let_def split_def)
  then show ?thesis using EndEpoch_inv(1,3,4) [OF inv] en by (simp add: quiescent_def)
qed

lemma RunCallback_quiescent:
  fixes sh :: "'v shard"
  assumes q: "quiescent C sh" and ok: "access_ok C A n" and h: "hop_ok n now T cmd sh"
  shows "\<exists>st sh'. RunCallback C now T (callback C A now (tx_args T) cmd) sh = Some (st, sh') \<and> quiescent C sh'"
proof -
  let ?oa = "tx_args T"
  obtain d sh1 where d: "ShouldDropForLww (oa_cx ?oa) (tx_cid_name T) (tx_keys T) sh = (d, sh1)" by force
  then have "sh1 = sh \<or> (\<exists>nm k. sh1 = NoteLwwDrop nm k sh)"
    by (auto simp: ShouldDropForLww_def split: if_splits option.splits)
  moreover have "ready C now sh"
    using q h mint_ok_fresh [of now sh] by (simp add: quiescent_def ready_def hop_ok_def)
  ultimately have 1: "ready C now sh1" "stamper sh1 = stamper sh" "db_at (cx_db (oa_cx ?oa)) sh1 \<noteq> None"
    using h by (auto simp: hop_ok_def)
  have e: "arena (stamper sh1) = []" "pending (stamper sh1) = []" using q 1(2) by (simp_all add: quiescent_def)
  have fp: "footprint n cmd < 2 ^ 32" using h by (simp add: hop_ok_def)
  obtain st sh2 where 2: "(if d then Some (OK, sh1) else callback C A now ?oa cmd sh1) = Some (st, sh2)" "ready C now sh2"
    using callback_safely [OF 1(1) ok e fp 1(3)] 1(1) by (cases d) (auto simp: safely_def)
  have res: "\<not> (\<not> tx_single_shard T \<and> st \<noteq> OUT_OF_MEMORY \<and> st \<noteq> OK)"
    using multi_shard_result [OF 1(1) ok e(1) fp 1(3)] h 2(1) by (auto simp: hop_ok_def split: if_splits)
  let ?sh3 = "sh2\<lparr>pending_send_map := []\<rparr>"
  have cb: "OnCbFinishBlocking sh2 = Some ?sh3" using OnCbFinishBlocking_passes 2(2) by (auto simp: ready_def)
  obtain sh4 where 4: "(if tx_concluding T then LogAutoJournalOnShard C now T st d ?sh3 else Some ?sh3) = Some sh4" "ready C now sh4"
    using LogAuto_ready [of C now ?sh3 T st d] 2(2) by (cases "tx_concluding T") auto
  have "RunCallback C now T (callback C A now ?oa cmd) sh = Some (st, EndEpoch C sh4)"
    unfolding RunCallback_def Let_def d prod.case 2(1) option.case if_not_P [OF res] cb 4(1) ..
  then show ?thesis using EndEpoch_quiescent [OF 4(2)] by blast
qed

subsection \<open>Allocating a database\<close>

lemma db_at_ActivateDb:
  "db_at j (ActivateDb C i sh) = (if j = i \<and> db_at i sh = None
     then Some (DbTable_new (IsActiveReplica (flags C)) (cluster_mode (flags C) \<noteq> [])) else db_at j sh)"
  by (auto simp: ActivateDb_def CreateDb_def db_at_def nth_append Let_def nth_list_update)

lemma ActivateDb_frame [simp]:
  "stamper (ActivateDb C i sh) = stamper sh" "journal (ActivateDb C i sh) = journal sh"
  "mvcc_enabled (ActivateDb C i sh) = mvcc_enabled sh" "ns_is_default (ActivateDb C i sh) = ns_is_default sh"
  by (simp_all add: ActivateDb_def CreateDb_def)

lemma tbl_good_new: "tbl_good C (DbTable_new True b)"
  by (simp add: tbl_good_def DbTable_new_def acct_ok_def side_ok_def stats_init_def tbl_ok_def tbl_count_def tbl_size_def dup_bytes_def)

lemma ActivateDb_quiescent:
  assumes "quiescent C sh" "IsActiveReplica (flags C)"
  shows "quiescent C (ActivateDb C i sh)"
proof -
  have s: "slot (ActivateDb C i sh) = slot sh"
    by (auto simp: slot_def fun_eq_iff db_at_ActivateDb DbTable_new_def GetMvcc_def tbl_find_def)
  have e: "entry_of (ActivateDb C i sh) = entry_of sh"
    by (auto simp: entry_of_def primes_def fun_eq_iff db_at_ActivateDb DbTable_new_def tbl_find_def)
  show ?thesis
    using assms tbl_good_new
    by (auto simp: quiescent_def shard_inv_def shard_wf_def key_ok_def s e good_tables_def db_at_ActivateDb)
qed

lemma hops_quiescent:
  assumes "hops C A n sh sh1" "quiescent C sh" "access_ok C A n" "IsActiveReplica (flags C)"
  shows "quiescent C sh1"
  using assms
proof (induction rule: hops.induct)
  case (hops_run sh1 now T cmd st sh2)
  then show ?case using RunCallback_quiescent [of C sh1 A n now T cmd] by auto
qed (simp_all add: ActivateDb_quiescent)

lemma DbSlice_new_quiescent:
  assumes "IsActiveReplica (flags C)" "js_mvcc_enabled js" "pending st = []" "arms_wf st" "arena st = []" "hop_stamp st = 0"
  shows "quiescent C (DbSlice_new C True st js :: 'v shard)"
proof -
  let ?sh = "DbSlice_new C True st js :: 'v shard"
  have d: "db_at i ?sh = (if i = 0 then Some (DbTable_new True (cluster_mode (flags C) \<noteq> [])) else None)" for i
    using assms(1) by (simp add: DbSlice_new_def CreateDb_def db_at_def)
  have "slot ?sh db k = None" "entry_of ?sh db k = None" for db k
    by (simp_all add: slot_def entry_of_def primes_def d DbTable_new_def GetMvcc_def tbl_find_def)
  moreover have "stamper ?sh = st" "journal ?sh = js" "mvcc_enabled ?sh" "ns_is_default ?sh"
    using assms(1) by (simp_all add: DbSlice_new_def CreateDb_def)
  ultimately show ?thesis
    using assms tbl_good_new by (auto simp: quiescent_def shard_inv_def shard_wf_def key_ok_def good_tables_def d arm_of_def tomb_first_def)
qed

subsection \<open>A sample node\<close>

text \<open>An active replica without cluster mode, cache mode or tiering, with strings stored as they are, no eviction and no
  snapshot callbacks.\<close>

definition sample_cfg :: slice_cfg where
  "sample_cfg =
     \<lparr>env = \<lparr>key_malloc = \<lambda>k. 0, KeySlot = \<lambda>k. 0\<rparr>,
      flags = \<lparr>active_replica = True, multi_master = True, multi_master_tombstone_ttl = 60000, multi_master_max_tombstones = 1000,
        multi_master_tombstone_gc_budget = 16, multi_master_stream_lww = True, cluster_mode = [], tiered_prefix = [],
        experimental_cascaded_partial_sync = False, mm_flags.cache_mode = False\<rparr>,
      items = \<lparr>item_size = 48, data_capacity = \<lambda>d. of_nat (length d)\<rparr>,
      key_rep = \<lambda>k b. (True, 0), blocking_controller = None, doc_del_cb = False, expire_allowed = True, is_replica = False,
      replica_delete_expired = False, expired_keys_events_recording = False, has_journal = True\<rparr>"

definition sample_access :: "bytes access_env" where
  "sample_access =
     \<lparr>cache_mode = False, loading = False, will_block = False, omit_redundant_writes = False, omittable_operation = False,
      change_cb = [], max_bucket_version = \<lambda>db k. 0, tiered = None, empty_value = [],
      string_value = \<lambda>b. \<lparr>nv_value = b, nv_type = 0, nv_malloc = 0, nv_flag = False, nv_member_exp = False, nv_strmap2 = False\<rparr>,
      value_bytes = \<lambda>b. b, dump_value = \<lambda>e. pv_value e, should_stash = \<lambda>n e. False,
      pre_update = \<lambda>db k sh. sh, insert_change_cb = \<lambda>db k sh. sh, insert_plan = \<lambda>db k sh. ([], Some 0)\<rparr>"

definition sample_journal :: journal_slice where
  "sample_journal = js_Init 5000 1000000 True journal_slice_new"

definition sample_shard :: "bytes shard" where
  "sample_shard = DbSlice_new sample_cfg True stamper_init sample_journal"

definition sample_context :: "nat \<Rightarrow> u64 \<Rightarrow> u64 \<Rightarrow> db_context" where
  "sample_context idx mv now = \<lparr>cx_db = 0, cx_time_now_ms = now, cx_repl_origin_idx = idx, cx_repl_mvcc = mv, cx_repl_lww_guard = (mv \<noteq> 0)\<rparr>"

definition sample_args :: "nat \<Rightarrow> u64 \<Rightarrow> u64 \<Rightarrow> op_args" where
  "sample_args idx mv now = \<lparr>oa_cx = sample_context idx mv now, oa_txid = 1, oa_slot = None\<rparr>"

definition sample_tx :: "op_args \<Rightarrow> string \<Rightarrow> key list \<Rightarrow> tx_env" where
  "sample_tx oa name ks =
     \<lparr>tx_args = oa, tx_cid_name = name, tx_keys = ks, tx_payload = \<lparr>pl_cmd = key_bytes name, pl_args = map key_bytes ks\<rparr>, tx_is_journaled = True,
      tx_no_key_transactional = False, tx_no_autojournal = True, tx_re_enabled_auto_journal = False, tx_concluding = True,
      tx_is_squasher = False, tx_single_shard = True\<rparr>"

lemma sample_access_ok: "access_ok sample_cfg sample_access 0"
  by (simp add: access_ok_def hooks_ok_def plan_ok_def plan_keys_def sample_cfg_def sample_access_def same_tables_def)

lemma sample_active [simp]: "IsActiveReplica (flags sample_cfg)" "js_mvcc_enabled sample_journal"
  by (simp_all add: IsActiveReplica_def sample_cfg_def sample_journal_def js_Init_def journal_slice_new_def)

lemma kStampMask_pos: "0 < kStampMask"
  by (simp add: kStampMask_def kTombstoneBit_def word_less_nat_alt)

subsection \<open>Safety of hops\<close>



end
