(* ===== verification/Lww_Refinement.thy ===== *)
theory Lww_Refinement
  imports Hop_Safety
begin

text \<open>
  Replicated SETs under the streaming last-write-wins guard refine the register of \<^verbatim>\<open>Lww_Register\<close>: the version and
  value of a key on a shard are a slot that only a strictly newer write replaces. From the laws of the version order two
  shards that received the same writes in any order, with any redelivery, hold the same version and value.
\<close>

definition reg_of :: "nat \<Rightarrow> key \<Rightarrow> 'v shard \<Rightarrow> (mvcc_stamp \<times> 'v option) option" where
  "reg_of db k sh = map_option (\<lambda>s. (s, map_option pv_value (entry_of sh db k))) (slot sh db k)"

text \<open>A SET of \<open>k\<close> as the replication link executes it: stamped, guarded, without condition and not already expired.\<close>

definition guarded_set :: "nat \<Rightarrow> nat \<Rightarrow> u64 \<Rightarrow> tx_env \<Rightarrow> set_params \<Rightarrow> nat \<Rightarrow> key \<Rightarrow> bytes \<Rightarrow> mvcc_stamp \<Rightarrow> 'v shard \<Rightarrow> bool" where
  "guarded_set C_n idx now T sp db k v inc sh =
     (hop_ok C_n now T (CmdSet sp k v) sh \<and> tx_cid_name T = ''SET'' \<and> tx_keys T = [k] \<and> \<not> IsConditionalSet sp \<and>
      \<not> sp_expire_in_past sp \<and> cx_db (oa_cx (tx_args T)) = db \<and> cx_repl_origin_idx (oa_cx (tx_args T)) = idx \<and>
      cx_repl_lww_guard (oa_cx (tx_args T)) \<and> cx_repl_mvcc (oa_cx (tx_args T)) \<le> kStampMask \<and>
      IncomingStamp (stamper sh) (cx_repl_mvcc (oa_cx (tx_args T))) idx = Some inc)"

lemma GetMvcc_at_slot: "GetMvcc_at db k sh = slot sh db k"
  by (simp add: GetMvcc_at_def slot_def)

lemma Classify_SET: "ClassifyJournaledCommand ''SET'' = kSingleKey"
  by code_simp

lemma Classify_DEL: "ClassifyJournaledCommand ''DEL'' \<noteq> kSingleKey"
  by code_simp

lemma settle_incoming:
  assumes "settled C now cx k True sh1 sh2" "slot sh1 (cx_db cx) k = slot_before C cx k sh"
    "arm_of (pending (stamper sh1)) (cx_db cx) k = None" "accepts stamp_less (slot sh (cx_db cx) k) inc"
    "inc = \<lparr>packed = cx_repl_mvcc cx, origin_hash = OriginHash (stamper sh1) (cx_repl_origin_idx cx)\<rparr>"
    "cx_repl_mvcc cx \<noteq> 0" "cx_repl_mvcc cx \<le> kStampMask"
  shows "slot sh2 (cx_db cx) k = Some inc"
proof -
  let ?prev = "prev_of (slot_before C cx k sh)"
  have find: "find (\<lambda>p. p_tomb p \<and> p_db p = cx_db cx \<and> p_key p = k) (pending (stamper sh1)) = None"
    using assms(3) by (auto simp: arm_of_None_iff find_None_iff)
  have keep: "Mvcc ?prev = 0 \<or> \<not> stamp_less inc ?prev"
  proof (cases "slot sh (cx_db cx) k")
    case None
    then show ?thesis by (simp add: slot_before_def after_expiry_def prev_of_def own_tombstone_def split: option.splits)
  next
    case (Some s)
    then have l: "stamp_less s inc" using assms(4) by (simp add: accepts_def)
    then have "\<not> stamp_less inc s" using stamp_ord.lt_asym by blast
    moreover have "\<not> stamp_less inc (ExpiryTombstoneFor s)"
    proof
      assume a: "stamp_less inc (ExpiryTombstoneFor s)"
      show False
      proof (cases "Mvcc s = kStampMask \<and> origin_hash s = - 1")
        case True
        then show False using l leD [OF Mvcc_le [of inc]] by (auto simp: stamp_less_def)
      next
        case False
        note t = ExpiryTombstoneFor_least(1) [OF this, of inc]
        show False using t l a stamp_ord.lt_asym [OF a] stamp_ord.lt_irrefl by (auto simp: stamp_less_def)
      qed
    qed
    ultimately show ?thesis
      using Some by (auto simp: slot_before_def after_expiry_def prev_of_def own_tombstone_def split: option.splits)
  qed
  have "inc\<lparr>packed := packed inc AND kStampMask\<rparr> = inc" using assms(5,7) by (simp add: le_kStampMask_and)
  then show ?thesis
    using assms(1-3,5,6) keep find
    by (auto simp: settled_def Let_def slots_after_def spec_arm_def spec_find_prev_def committed_def commit_stamp_def FloorAppliedStamp_def)
qed

lemma finish_hop:
  assumes "ready C now sh2" "pending (stamper sh2) = []"
    "(if tx_concluding T then LogAutoJournalOnShard C now T st d (sh2\<lparr>pending_send_map := []\<rparr>) else Some (sh2\<lparr>pending_send_map := []\<rparr>)) = Some sh4"
  shows "reg_of db k (EndEpoch C sh4) = reg_of db k sh2"
proof -
  let ?sh3 = "sh2\<lparr>pending_send_map := []\<rparr>"
  have dbs: "db_at i ?sh3 = db_at i sh2" for i by (simp add: db_at_def)
  have r3: "ready C now ?sh3" "slot ?sh3 = slot sh2" "primes ?sh3 = primes sh2" "stamper ?sh3 = stamper sh2"
    using assms(1) dbs by (simp_all add: slot_def [abs_def] primes_def [abs_def])
  have "ready C now sh4 \<and> slot sh4 = slot sh2 \<and> primes sh4 = primes sh2 \<and> pending (stamper sh4) = []"
  proof (rule LogJournalOnShard_ready [OF r3(1), of "tx_args T" "tx_payload T"], goal_cases)
    case (1 sh')
    have "slot sh' = slot sh2" using 1(7) r3(2,4) assms(2) by (simp add: slots_after_def fun_eq_iff)
    then show ?case
      using 1 assms(2,3) r3 by (auto simp: LogAutoJournalOnShard_def split: if_splits)
  qed
  then show ?thesis
    using EndEpoch_inv(2,5) [of C sh4] by (auto simp: reg_of_def entry_of_def ready_def)
qed

text \<open>One replicated SET is one \<open>reg_put\<close>.\<close>

lemma guarded_set_put:
  fixes sh :: "'v shard"
  assumes q: "quiescent C sh" and ok: "access_ok C A n" and g: "guarded_set n idx now T sp db k v inc sh"
    and run: "RunCallback C now T (callback C A now (tx_args T) (CmdSet sp k v)) sh = Some (OK, sh')"
  shows "reg_of db k sh' = reg_put stamp_less (inc, Some (nv_value (string_value A v))) (reg_of db k sh)" "quiescent C sh'"
proof -
  let ?oa = "tx_args T" and ?cx = "oa_cx (tx_args T)"
  have h: "hop_ok n now T (CmdSet sp k v) sh" and dbe: "cx_db ?cx = db" using g by (simp_all add: guarded_set_def)
  show "quiescent C sh'" using RunCallback_quiescent [OF q ok h] run by auto
  have r: "ready C now sh" using q h mint_ok_fresh [of now sh] by (simp add: quiescent_def ready_def hop_ok_def)
  have m: "cx_repl_mvcc ?cx \<noteq> 0" "cx_repl_mvcc ?cx \<le> kStampMask"
    "inc = \<lparr>packed = cx_repl_mvcc ?cx, origin_hash = OriginHash (stamper sh) (cx_repl_origin_idx ?cx)\<rparr>"
    using g by (auto simp: guarded_set_def IncomingStamp_def Let_def split: if_splits)
  define acc where "acc = accepts stamp_less (slot sh db k) inc"
  have drop: "ShouldDropForLww ?cx (tx_cid_name T) (tx_keys T) sh = (if acc then (False, sh) else (True, NoteLwwDrop ''SET'' k sh))"
    using g m(1) by (simp add: ShouldDropForLww_def guarded_set_def LwwGuardActive_def Classify_SET LwwShouldDropKey_def
        MergeAccepts_accepts GetMvcc_at_slot acc_def)
  show "reg_of db k sh' = reg_put stamp_less (inc, Some (nv_value (string_value A v))) (reg_of db k sh)"
  proof (cases acc)
    case False
    let ?d = "NoteLwwDrop ''SET'' k sh"
    have rd: "ready C now ?d" "pending (stamper ?d) = []" using r q by (simp_all add: quiescent_def)
    then have cb: "OnCbFinishBlocking ?d = Some (?d\<lparr>pending_send_map := []\<rparr>)" using OnCbFinishBlocking_passes by (auto simp: ready_def)
    have "\<exists>sh4. (if tx_concluding T then LogAutoJournalOnShard C now T OK True (?d\<lparr>pending_send_map := []\<rparr>)
          else Some (?d\<lparr>pending_send_map := []\<rparr>)) = Some sh4 \<and> sh' = EndEpoch C sh4"
      using run False drop cb by (auto simp: RunCallback_def Let_def split: option.splits if_splits)
    then have "reg_of db k sh' = reg_of db k ?d" using finish_hop [OF rd] by blast
    also have "\<dots> = reg_of db k sh" by (simp add: reg_of_def)
    finally show ?thesis using False by (simp add: reg_put_def acc_def reg_of_def option.map_comp o_def option.map_ident)
  next
    case True
    have room: "arena_used sh + 2 * length k + n < 2 ^ 32" and dbn: "db_at (cx_db ?cx) sh \<noteq> None"
      using h q by (simp_all add: hop_ok_def quiescent_def)
    have pnd: "pending (stamper sh) = []" using q by (simp add: quiescent_def)
    have set: "SetCmd_Set C A now ?oa True sp k v sh = set_insert C A now ?oa True sp k v sh"
      using g by (simp add: SetCmd_Set_def guarded_set_def)
    show ?thesis
    proof (rule set_insert_ready [OF r ok room dbn, of True sp v], goal_cases)
      case (1 st prev sh2)
      have cb: "OnCbFinishBlocking sh2 = Some (sh2\<lparr>pending_send_map := []\<rparr>)" using OnCbFinishBlocking_passes 1(2) by (auto simp: ready_def)
      have fin: "\<exists>sh4. (if tx_concluding T then LogAutoJournalOnShard C now T st False (sh2\<lparr>pending_send_map := []\<rparr>)
          else Some (sh2\<lparr>pending_send_map := []\<rparr>)) = Some sh4 \<and> sh' = EndEpoch C sh4 \<and> st = OK"
        using run True drop cb 1(1) set by (auto simp: RunCallback_def Let_def forget_def split: option.splits if_splits)
      then have stok: "st = OK" by blast
      from 1(6) [OF stok] obtain sh1 e' where s: "slot sh1 (cx_db ?cx) k = slot_before C ?cx k sh"
        "arm_of (pending (stamper sh1)) (cx_db ?cx) k = arm_before C ?cx k sh" "mints now sh1 = mints now sh"
        "settled C now ?cx k True sh1 sh2" "entry_of sh2 (cx_db ?cx) k = Some e'" "pv_value e' = nv_value (string_value A v)" by blast
      have p2: "pending (stamper sh2) = []" using s(4) by (simp add: settled_def Let_def)
      have arm: "arm_of (pending (stamper sh1)) (cx_db ?cx) k = None"
        using s(2) pnd by (simp add: arm_before_def split: option.splits)
      have "slot sh2 (cx_db ?cx) k = Some inc"
        using settle_incoming [OF s(4,1) arm _ _ m(1,2), of inc] True m(3) OriginHash_mints [OF s(3)] by (simp add: acc_def dbe)
      then have "reg_of db k sh2 = Some (inc, Some (nv_value (string_value A v)))" using s(5,6) by (simp add: reg_of_def dbe)
      then have "reg_of db k sh' = Some (inc, Some (nv_value (string_value A v)))"
        using fin finish_hop [OF 1(2) p2] by metis
      then show ?case using True by (simp add: reg_put_def acc_def reg_of_def option.map_comp o_def option.map_ident)
    qed
  qed
qed

subsection \<open>What a hop leaves of the stamper\<close>

lemma HopStamp_clock:
  assumes "0 < fst (HopStamp now st)"
  shows "last (clock st) \<le> last (clock (snd (HopStamp now st)))"
proof (cases "hop_valid now st")
  case True
  then show ?thesis by (simp add: HopStamp_cases)
next
  case False
  have "last (clock st) \<noteq> - 1"
  proof
    assume "last (clock st) = - 1"
    then show False using assms False by (simp add: HopStamp_cases Next_def Let_def split: if_splits)
  qed
  then show ?thesis using Next_greater [of "clock st" now] False by (simp add: HopStamp_cases less_imp_le)
qed

lemma EndEpoch_clock: "clock (stamper (EndEpoch C sh)) = clock (stamper sh)" "OriginHash (stamper (EndEpoch C sh)) = OriginHash (stamper sh)"
  by (auto simp: EndEpoch_def EndOfWriteEpoch_def Let_def split_def OriginHash_def)

lemma RunCallback_clock:
  fixes sh :: "'v shard"
  assumes q: "quiescent C sh" and ok: "access_ok C A n" and h: "hop_ok n now T cmd sh"
    and run: "RunCallback C now T (callback C A now (tx_args T) cmd) sh = Some (st, sh')"
  shows "last (clock (stamper sh')) \<le> fst (HopStamp now (stamper sh)) \<and> OriginHash (stamper sh') = OriginHash (stamper sh)"
proof -
  let ?oa = "tx_args T"
  have r: "ready C now sh" and hs: "hop_stamp (stamper sh) = 0"
    using q h mint_ok_fresh [of now sh] by (simp_all add: quiescent_def ready_def hop_ok_def)
  obtain d sh1 where d: "ShouldDropForLww (oa_cx ?oa) (tx_cid_name T) (tx_keys T) sh = (d, sh1)" by force
  then have "sh1 = sh \<or> (\<exists>nm k. sh1 = NoteLwwDrop nm k sh)"
    by (auto simp: ShouldDropForLww_def split: if_splits option.splits)
  then have 1: "ready C now sh1" "stamper sh1 = stamper sh" "db_at (cx_db (oa_cx ?oa)) sh1 \<noteq> None" using h r by (auto simp: hop_ok_def)
  have e: "arena (stamper sh1) = []" "pending (stamper sh1) = []" using q 1(2) by (simp_all add: quiescent_def)
  have fp: "footprint n cmd < 2 ^ 32" using h by (simp add: hop_ok_def)
  obtain st2 sh2 where 2: "(if d then Some (OK, sh1) else callback C A now ?oa cmd sh1) = Some (st2, sh2)" "ready C now sh2"
    "mints now sh2 = mints now sh"
    using callback_safely [OF 1(1) ok e fp 1(3)] 1 by (cases d) (auto simp: safely_def)
  let ?sh3 = "sh2\<lparr>pending_send_map := []\<rparr>"
  have cb: "OnCbFinishBlocking sh2 = Some ?sh3" using OnCbFinishBlocking_passes 2(2) by (auto simp: ready_def)
  obtain sh4 where 4: "(if tx_concluding T then LogAutoJournalOnShard C now T st2 d ?sh3 else Some ?sh3) = Some sh4" "sh' = EndEpoch C sh4"
    using run d 2(1) cb by (auto simp: RunCallback_def Let_def split: option.splits if_splits)
  have "ready C now sh4 \<and> mints now sh4 = mints now sh"
    by (rule LogJournalOnShard_ready [of C now ?sh3 ?oa "tx_payload T"])
      (use 2(2,3) 4(1) in \<open>auto simp: LogAutoJournalOnShard_def split: if_splits\<close>)
  then have m: "ready C now sh4" "mints now sh4 = mints now sh" by simp_all
  have "last (clock (stamper sh4)) \<le> last (clock (snd (HopStamp now (stamper sh4))))"
    using HopStamp_clock m(1) by (auto simp: ready_def mint_ok_def)
  also have "\<dots> = fst (HopStamp now (stamper sh))" using m(2) hs by (simp add: hop_view_def HopStamp_def Let_def split_def Next_def)
  finally show ?thesis using OriginHash_mints [OF m(2)] by (simp add: 4(2) EndEpoch_clock)
qed

subsection \<open>Delivery of a sequence of writes\<close>

record repl_set =
  rs_now :: u64
  rs_tx :: tx_env
  rs_params :: set_params
  rs_value :: bytes

definition write_of :: "'v access_env \<Rightarrow> mvcc_stamper \<Rightarrow> repl_set \<Rightarrow> mvcc_stamp \<times> 'v option" where
  "write_of A st w =
     (let cx = oa_cx (tx_args (rs_tx w))
      in (\<lparr>packed = cx_repl_mvcc cx, origin_hash = OriginHash st (cx_repl_origin_idx cx)\<rparr>, Some (nv_value (string_value A (rs_value w)))))"

text \<open>A SET of \<open>k\<close> as the stream of a peer delivers it: a known origin, a stamp with the tombstone bit clear.\<close>

definition repl_ok :: "nat \<Rightarrow> nat \<Rightarrow> key \<Rightarrow> mvcc_stamper \<Rightarrow> repl_set \<Rightarrow> bool" where
  "repl_ok n db k st w =
     (let T = rs_tx w; cx = oa_cx (tx_args T)
      in rs_now w < 2 ^ 42 \<and> tx_cid_name T = ''SET'' \<and> tx_keys T = [k] \<and> tx_single_shard T \<and> \<not> IsConditionalSet (rs_params w) \<and>
         \<not> sp_expire_in_past (rs_params w) \<and> \<not> sp_prev_val (rs_params w) \<and> cx_db cx = db \<and> cx_repl_lww_guard cx \<and>
         cx_repl_mvcc cx \<noteq> 0 \<and> cx_repl_mvcc cx \<le> kStampMask \<and> OriginHash st (cx_repl_origin_idx cx) \<noteq> 0 \<and> 3 * length k + n < 2 ^ 32)"

primrec deliver :: "slice_cfg \<Rightarrow> 'v access_env \<Rightarrow> key \<Rightarrow> repl_set list \<Rightarrow> 'v shard \<Rightarrow> 'v shard option" where
  "deliver C A k [] sh = Some sh"
| "deliver C A k (w # ws) sh =
     (case RunCallback C (rs_now w) (rs_tx w) (callback C A (rs_now w) (tx_args (rs_tx w)) (CmdSet (rs_params w) k (rs_value w))) sh of
        Some (OK, sh1) \<Rightarrow> deliver C A k ws sh1
      | _ \<Rightarrow> None)"

text \<open>No insertion is refused for lack of memory.\<close>

definition unlimited :: "slice_cfg \<Rightarrow> 'v access_env \<Rightarrow> bool" where
  "unlimited C A = ((is_replica C \<or> loading A \<or> cache_mode A) \<and> (\<forall>db k sh. snd (insert_plan A db k sh) \<noteq> None))"

lemma AddOrFind_unlimited:
  assumes "unlimited C A" "AddOrFindInternal C (A\<lparr>omittable_operation := True\<rparr>) now cx k None sh = Some (Inl st, sh')"
  shows "st = WRONG_TYPE"
proof -
  have g: "snd (insert_plan A db key s) \<noteq> None" for db key s using assms(1) by (simp add: unlimited_def)
  have "fst (the (insert_new C (A\<lparr>omittable_operation := True\<rparr>) now cx k oj s)) \<noteq> Inl x"
    if "insert_new C (A\<lparr>omittable_operation := True\<rparr>) now cx k oj s \<noteq> None" for oj s x
    using that g [of "cx_db cx" k s] by (auto simp: insert_new_def Let_def split_def split: option.splits)
  then have ins: "insert_new C (A\<lparr>omittable_operation := True\<rparr>) now cx k oj s \<noteq> Some (Inl x, s')" for oj s x s' by force
  show ?thesis
    using assms(2) assms(1) ins by (auto simp: AddOrFindInternal_def Let_def split_def unlimited_def split: option.splits if_splits)
qed

lemma SET_status:
  fixes sh :: "'v shard"
  assumes q: "quiescent C sh" and ok: "access_ok C A n" and h: "hop_ok n now T (CmdSet sp k v) sh" and un: "unlimited C A"
    and plain: "\<not> IsConditionalSet sp" "\<not> sp_expire_in_past sp" and pv: "\<not> sp_prev_val sp"
  shows "\<exists>sh'. RunCallback C now T (callback C A now (tx_args T) (CmdSet sp k v)) sh = Some (OK, sh')"
proof -
  let ?oa = "tx_args T"
  from RunCallback_quiescent [OF q ok h] obtain st sh' where run: "RunCallback C now T (callback C A now ?oa (CmdSet sp k v)) sh = Some (st, sh')" by blast
  obtain d sh1 where d: "ShouldDropForLww (oa_cx ?oa) (tx_cid_name T) (tx_keys T) sh = (d, sh1)" by force
  have r: "ready C now sh" using q h mint_ok_fresh [of now sh] by (simp add: quiescent_def ready_def hop_ok_def)
  from d have "sh1 = sh \<or> (\<exists>nm k. sh1 = NoteLwwDrop nm k sh)"
    by (auto simp: ShouldDropForLww_def split: if_splits option.splits)
  then have 1: "ready C now sh1" "db_at (cx_db (oa_cx ?oa)) sh1 \<noteq> None" "stamper sh1 = stamper sh" using h r by (auto simp: hop_ok_def)
  have room: "arena_used sh1 + 2 * length k + n < 2 ^ 32" using h q 1(3) by (simp add: hop_ok_def quiescent_def)
  have "\<exists>sh2. (if d then Some (OK, sh1) else callback C A now ?oa (CmdSet sp k v) sh1) = Some (OK, sh2)"
  proof (cases d)
    case False
    show ?thesis
    proof (rule set_insert_ready [OF 1(1) ok room 1(2), of True sp v], goal_cases)
      case (1 st2 prev sh2)
      have "st2 \<noteq> OUT_OF_MEMORY"
      proof
        assume "st2 = OUT_OF_MEMORY"
        then obtain s3 where "AddOrFindInternal C (A\<lparr>omittable_operation := True\<rparr>) now (oa_cx ?oa) k None sh1 = Some (Inl OUT_OF_MEMORY, s3)"
          using 1(1) pv by (auto simp: set_insert_def CachePrevIfNeeded_def Let_def split: option.splits sum.splits if_splits)
        then show False using AddOrFind_unlimited [OF un] by fastforce
      qed
      then have "st2 = OK" using 1(5) pv by blast
      then show ?case using 1(1) False plain by (simp add: SetCmd_Set_def forget_def)
    qed
  qed simp
  then obtain sh2 where 2: "(if d then Some (OK, sh1) else callback C A now ?oa (CmdSet sp k v) sh1) = Some (OK, sh2)" by blast
  have "st = OK" using run unfolding RunCallback_def Let_def d prod.case 2 option.case by (auto split: option.splits if_splits)
  with run show ?thesis by blast
qed

lemma repl_ok_guarded:
  assumes "repl_ok n db k (stamper sh) w" "db_at db sh \<noteq> None" "last (clock (stamper sh)) < kStampMask"
  shows "guarded_set n (cx_repl_origin_idx (oa_cx (tx_args (rs_tx w)))) (rs_now w) (rs_tx w) (rs_params w) db k (rs_value w)
    (fst (write_of A (stamper sh) w)) sh"
proof -
  have "rs_now w < 2 ^ 43" using assms(1) by (simp add: repl_ok_def Let_def word_less_nat_alt)
  then show ?thesis
    using assms by (simp add: repl_ok_def Let_def guarded_set_def hop_ok_def write_of_def IncomingStamp_def)
qed

lemma fresh_hop_le:
  assumes "hop_stamp st = 0" "now < 2 ^ 42" "unat (last (clock st)) \<le> 2 ^ 62 + i" "i < 2 ^ 61"
  shows "unat (fst (HopStamp now st)) \<le> 2 ^ 62 + Suc i" "last (clock st) < kStampMask"
proof -
  let ?l = "last (clock st)"
  have n: "unat now < 2 ^ 42" using assms(2) by (simp add: word_less_nat_alt)
  then have c: "unat (push_bit kCounterBits now) = unat now * 2 ^ 20"
    by (simp add: kCounterBits_def push_bit_eq_mult unat_word_ariths)
  have s: "unat (?l + 1) = unat ?l + 1" using assms(3,4) by (intro unat_word_ariths(1) [THEN trans]) simp
  show "unat (fst (HopStamp now st)) \<le> 2 ^ 62 + Suc i" using assms(1,3) n c s by (simp add: HopStamp_def Next_def Let_def)
  show "?l < kStampMask" using assms(3,4) by (simp add: word_less_nat_alt kStampMask_num)
qed

lemma reg_put_Some: "reg_put lt w r \<noteq> None"
  by (cases r) (auto simp: reg_put_def accepts_def)

lemma reg_of_db: "reg_of db k sh \<noteq> None \<Longrightarrow> db_at db sh \<noteq> None"
  by (auto simp: reg_of_def slot_def split: option.splits)

lemma repl_ok_cong: "OriginHash st' = OriginHash st \<Longrightarrow> repl_ok n db k st' w = repl_ok n db k st w"
  "OriginHash st' = OriginHash st \<Longrightarrow> write_of A st' w = write_of A st w"
  by (simp_all add: repl_ok_def write_of_def)

lemma deliver_reg_run:
  fixes sh :: "'v shard"
  assumes "quiescent C sh" "access_ok C A n" "unlimited C A" "db_at db sh \<noteq> None" "unat (last (clock (stamper sh))) \<le> 2 ^ 62 + i"
    "i + length ws < 2 ^ 61" "list_all (repl_ok n db k (stamper sh)) ws"
  shows "\<exists>sh'. deliver C A k ws sh = Some sh' \<and> quiescent C sh' \<and>
    reg_of db k sh' = reg_run stamp_less (map (write_of A (stamper sh)) ws) (reg_of db k sh)"
  using assms
proof (induction ws arbitrary: sh i)
  case (Cons w ws)
  let ?T = "rs_tx w" and ?cmd = "CmdSet (rs_params w) k (rs_value w)"
  have hs: "hop_stamp (stamper sh) = 0" using Cons.prems(1) by (simp add: quiescent_def)
  have w: "repl_ok n db k (stamper sh) w" "rs_now w < 2 ^ 42" "\<not> sp_prev_val (rs_params w)"
    using Cons.prems(7) by (simp_all add: repl_ok_def Let_def)
  have "i < 2 ^ 61" using Cons.prems(6) by simp
  note b = fresh_hop_le [OF hs w(2) Cons.prems(5) this]
  note g = repl_ok_guarded [OF w(1) Cons.prems(4) b(2), of A]
  have h: "hop_ok n (rs_now w) ?T ?cmd sh" and pl: "\<not> IsConditionalSet (rs_params w)" "\<not> sp_expire_in_past (rs_params w)"
    using g by (simp_all add: guarded_set_def)
  from SET_status [OF Cons.prems(1,2) h Cons.prems(3) pl w(3)] obtain sh1
    where run: "RunCallback C (rs_now w) ?T (callback C A (rs_now w) (tx_args ?T) ?cmd) sh = Some (OK, sh1)" by blast
  note p = guarded_set_put [OF Cons.prems(1,2) g run]
  note c = RunCallback_clock [OF Cons.prems(1,2) h run]
  have wr: "(fst (write_of A (stamper sh) w), Some (nv_value (string_value A (rs_value w)))) = write_of A (stamper sh) w"
    by (simp add: write_of_def Let_def)
  have put: "reg_of db k sh1 = reg_put stamp_less (write_of A (stamper sh) w) (reg_of db k sh)" using p(1) by (simp only: wr)
  have d1: "db_at db sh1 \<noteq> None" using reg_of_db [of db k sh1] reg_put_Some put by metis
  have l1: "unat (last (clock (stamper sh1))) \<le> 2 ^ 62 + Suc i" using c b(1) by (simp add: word_le_nat_alt)
  have ok1: "list_all (repl_ok n db k (stamper sh1)) ws" using Cons.prems(7) c repl_ok_cong(1) [of "stamper sh1" "stamper sh" n db k] by (simp add: list_all_iff)
  have len: "Suc i + length ws < 2 ^ 61" using Cons.prems(6) by simp
  from Cons.IH [OF p(2) Cons.prems(2,3) d1 l1 len ok1] show ?case
    using run put c repl_ok_cong(2) [of "stamper sh1" "stamper sh" A] by auto
qed simp


definition peer_stamper :: "u64 \<Rightarrow> u64 \<Rightarrow> mvcc_stamper" where
  "peer_stamper h1 h2 = RegisterOriginHash 2 h2 (RegisterOriginHash 1 h1 stamper_init)"

definition peer_node :: "u64 \<Rightarrow> u64 \<Rightarrow> bytes shard" where
  "peer_node h1 h2 = DbSlice_new sample_cfg True (peer_stamper h1 h2) sample_journal"

abbreviation peer_write :: "nat \<Rightarrow> u64 \<Rightarrow> bytes \<Rightarrow> repl_set" where
  "peer_write idx mv v \<equiv> \<lparr>rs_now = 5, rs_tx = sample_tx (sample_args idx mv 5) ''SET'' [''K''], rs_params = set_params_default, rs_value = v\<rparr>"

abbreviation peer_access :: "bytes access_env" where
  "peer_access \<equiv> sample_access\<lparr>loading := True\<rparr>"

lemma peer_node_ok:
  "quiescent sample_cfg (peer_node h1 h2)" "access_ok sample_cfg peer_access 0" "unlimited sample_cfg peer_access"
  "db_at 0 (peer_node h1 h2) \<noteq> None" "slot (peer_node h1 h2) 0 k = None" "unat (last (clock (stamper (peer_node h1 h2)))) \<le> 2 ^ 62"
  "OriginHash (stamper (peer_node h1 h2)) 1 = h1" "OriginHash (stamper (peer_node h1 h2)) 2 = h2"
proof -
  have f: "arms_wf (peer_stamper h1 h2) \<and> arena (peer_stamper h1 h2) = [] \<and> hop_stamp (peer_stamper h1 h2) = 0 \<and>
      last (clock (peer_stamper h1 h2)) = 0 \<and> pending (peer_stamper h1 h2) = []"
    by (simp add: peer_stamper_def RegisterOriginHash_def Let_def stamper_init_def arms_wf_def clock_init_def pending_def)
  have "IsActiveReplica (flags sample_cfg)" by simp
  then show "quiescent sample_cfg (peer_node h1 h2)"
    unfolding peer_node_def using f by (intro DbSlice_new_quiescent) simp_all
  show "access_ok sample_cfg peer_access 0" "unlimited sample_cfg peer_access"
    using sample_access_ok by (simp_all add: access_ok_def hooks_ok_def plan_ok_def unlimited_def sample_access_def)
  have t: "db_at 0 (peer_node h1 h2) = Some (DbTable_new True False)" "stamper (peer_node h1 h2) = peer_stamper h1 h2"
    by (simp_all add: peer_node_def DbSlice_new_def CreateDb_def db_at_def) (simp add: sample_cfg_def)
  then show "db_at 0 (peer_node h1 h2) \<noteq> None" "slot (peer_node h1 h2) 0 k = None" "unat (last (clock (stamper (peer_node h1 h2)))) \<le> 2 ^ 62"
    "OriginHash (stamper (peer_node h1 h2)) 1 = h1" "OriginHash (stamper (peer_node h1 h2)) 2 = h2"
    using f by (simp_all add: slot_def DbTable_new_def GetMvcc_def tbl_find_def) (simp_all add: peer_stamper_def RegisterOriginHash_lookup)
qed


subsection \<open>Local SETs and replicated DELs\<close>

text \<open>The end of a hop whose callback ran: \<open>reg_of\<close> is what the callback left, when it committed its arms.\<close>

lemma RunCallback_reg:
  assumes run: "RunCallback C now T cb sh = Some (st, sh')" and d: "ShouldDropForLww (oa_cx (tx_args T)) (tx_cid_name T) (tx_keys T) sh = (False, sh)"
    and cb: "cb sh = Some (st2, sh2)" and r: "ready C now sh2" and p: "pending (stamper sh2) = []"
  shows "reg_of db k sh' = reg_of db k sh2" "st = st2"
proof -
  have b: "OnCbFinishBlocking sh2 = Some (sh2\<lparr>pending_send_map := []\<rparr>)" using OnCbFinishBlocking_passes r by (auto simp: ready_def)
  have "\<exists>sh4. (if tx_concluding T then LogAutoJournalOnShard C now T st2 False (sh2\<lparr>pending_send_map := []\<rparr>)
      else Some (sh2\<lparr>pending_send_map := []\<rparr>)) = Some sh4 \<and> sh' = EndEpoch C sh4 \<and> st = st2"
    using run d cb b by (auto simp: RunCallback_def Let_def split: option.splits if_splits)
  then show "reg_of db k sh' = reg_of db k sh2" "st = st2" using finish_hop [OF r p] by blast+
qed

text \<open>C8: a local SET of a live key never loses to the version it overwrites. Whatever the wall clock reads, the key gets a
  version strictly above the one it had, under the hash of this node, and the new value.\<close>

theorem local_set_newer:
  fixes sh :: "'v shard"
  assumes q: "quiescent C sh" and ok: "access_ok C A n" and h: "hop_ok n now T (CmdSet sp k v) sh"
    and local: "cx_repl_mvcc (oa_cx (tx_args T)) = 0" and plain: "\<not> IsConditionalSet sp" "\<not> sp_expire_in_past sp"
    and live: "slot sh (cx_db (oa_cx (tx_args T))) k = Some s" "Mvcc s < kStampMask"
      "entry_of sh (cx_db (oa_cx (tx_args T))) k = Some e" "\<not> expired_entry C (oa_cx (tx_args T)) e"
    and run: "RunCallback C now T (callback C A now (tx_args T) (CmdSet sp k v)) sh = Some (OK, sh')"
  shows "\<exists>s'. reg_of (cx_db (oa_cx (tx_args T))) k sh' = Some (s', Some (nv_value (string_value A v))) \<and> Mvcc s < Mvcc s' \<and>
    origin_hash s' = OriginHash (stamper sh) (cx_repl_origin_idx (oa_cx (tx_args T)))"
proof -
  let ?oa = "tx_args T" and ?cx = "oa_cx (tx_args T)" and ?db = "cx_db (oa_cx (tx_args T))"
  have r: "ready C now sh" and pnd: "pending (stamper sh) = []"
    using q h mint_ok_fresh [of now sh] by (simp_all add: quiescent_def ready_def hop_ok_def)
  have room: "arena_used sh + 2 * length k + n < 2 ^ 32" and dbn: "db_at ?db sh \<noteq> None" using h q by (simp_all add: hop_ok_def quiescent_def)
  have d: "ShouldDropForLww ?cx (tx_cid_name T) (tx_keys T) sh = (False, sh)" using local by (simp add: ShouldDropForLww_def LwwGuardActive_def)
  have ls: "\<not> IsTombstone s" using shard_invD(5) [of C sh ?db k] r live(1,3) by (auto simp: ready_def key_ok_def)
  show ?thesis
  proof (rule set_insert_ready [OF r ok room dbn, of True sp v], goal_cases)
    case (1 st prev sh2)
    have cb: "callback C A now ?oa (CmdSet sp k v) sh = Some (st, sh2)" using 1(1) plain by (simp add: SetCmd_Set_def forget_def)
    have "pending (stamper sh2) = [] \<and> st = OK"
    proof -
      have b: "OnCbFinishBlocking sh2 = Some (sh2\<lparr>pending_send_map := []\<rparr>)" using OnCbFinishBlocking_passes 1(2) by (auto simp: ready_def)
      have "st = OK" using run d cb b by (auto simp: RunCallback_def Let_def split: option.splits if_splits)
      then show ?thesis using 1(6) by (auto simp: settled_def Let_def)
    qed
    then have p2: "pending (stamper sh2) = []" and stok: "st = OK" by simp_all
    from 1(6) [OF stok] obtain sh1 e' where s: "slot sh1 ?db k = slot_before C ?cx k sh"
      "arm_of (pending (stamper sh1)) ?db k = arm_before C ?cx k sh" "mints now sh1 = mints now sh"
      "settled C now ?cx k True sh1 sh2" "entry_of sh2 ?db k = Some e'" "pv_value e' = nv_value (string_value A v)" by blast
    have pr: "slot_before C ?cx k sh = Some s" using live by (simp add: slot_before_def)
    obtain mv where mv: "slot sh2 ?db k = Some (committed False \<lparr>packed = mv, origin_hash = OriginHash (stamper sh1) (cx_repl_origin_idx ?cx)\<rparr>
        \<lparr>p_db = ?db, p_key = k, p_tomb = False, p_prev = s\<rparr>)"
      "local_stamp now sh1 (spec_arm ?db k s (pending (stamper sh1))) mv"
      using s(4) local ls unfolding settled_def Let_def s(1) pr
      by (auto simp: prev_of_def slots_after_def spec_arm_def spec_find_prev_def)
    have "Mvcc s < mv"
    proof (cases "Mvcc s = 0")
      case True
      have "0 < fst (HopStamp now (stamper sh1))" using r s(3) mint_ok_mints [OF s(3)] by (simp add: ready_def mint_ok_def)
      then show ?thesis using True mv(2) by (auto simp: local_stamp_def)
    next
      case False
      then show ?thesis using mv(2) live(2) ls by (auto simp: local_stamp_def spec_arm_def spec_find_prev_def)
    qed
    moreover have "Mvcc \<lparr>packed = mv, origin_hash = h\<rparr> = mv" for h
      using mv(2) by (simp add: local_stamp_def Mvcc_def le_kStampMask_and)
    moreover have "reg_of ?db k sh' = reg_of ?db k sh2" by (rule RunCallback_reg(1) [OF run d cb 1(2) p2])
    ultimately show ?case
      using mv(1) s(5,6) OriginHash_mints [OF s(3)] by (auto simp: reg_of_def committed_def commit_stamp_def)
  qed
qed

text \<open>A node that holds \<open>K\<close> in database 0 with a given version.\<close>

definition live_table :: "u64 \<Rightarrow> bytes db_table" where
  "live_table mv = (DbTable_new True False)
     \<lparr>prime := [(''K'', fresh_entry sample_cfg sample_access ''K'')], mvcc := Some [(''K'', \<lparr>packed = mv, origin_hash = 7\<rparr>)],
      tstats := stats_init\<lparr>mvcc_entries := 1, mvcc_key_dup_bytes := dup_bytes (env sample_cfg) [(''K'', \<lparr>packed = mv, origin_hash = 7\<rparr>)]\<rparr>\<rparr>"

definition live_node :: "u64 \<Rightarrow> bytes shard" where
  "live_node mv = (peer_node 7 9)\<lparr>db_arr := [Some (live_table mv)]\<rparr>"

lemma live_node_ok:
  assumes "mv \<le> kStampMask"
  shows "quiescent sample_cfg (live_node mv)" "slot (live_node mv) 0 ''K'' = Some \<lparr>packed = mv, origin_hash = 7\<rparr>"
    "entry_of (live_node mv) 0 ''K'' = Some (fresh_entry sample_cfg sample_access ''K'')" "db_at 0 (live_node mv) \<noteq> None"
    "stamper (live_node mv) = peer_stamper 7 9" "last (clock (peer_stamper h1 h2)) = 0"
    "OriginHash (peer_stamper h1 h2) 1 = h1" "OriginHash (peer_stamper h1 h2) 2 = h2"
proof -
  have nt: "\<not> IsTombstone \<lparr>packed = mv, origin_hash = 7\<rparr>"
    using le_kStampMask_and [OF assms] and_kStampMask_eq_iff [of mv] by (simp add: IsTombstone_bit)
  have d: "db_at i (live_node mv) = (if i = 0 then Some (live_table mv) else None)" for i by (simp add: live_node_def db_at_def)
  have sl: "slot (live_node mv) db k = (if db = 0 \<and> k = ''K'' then Some \<lparr>packed = mv, origin_hash = 7\<rparr> else None)" for db k
    by (simp add: slot_def d live_table_def DbTable_new_def GetMvcc_def tbl_find_def)
  have en: "entry_of (live_node mv) db k = (if db = 0 \<and> k = ''K'' then Some (fresh_entry sample_cfg sample_access ''K'') else None)" for db k
    by (simp add: entry_of_def primes_def d live_table_def DbTable_new_def tbl_find_def)
  have g: "tbl_good sample_cfg (live_table mv)"
    using nt by (simp add: tbl_good_def live_table_def acct_ok_def side_ok_def stats_init_def tbl_ok_def tbl_count_def tbl_size_def)
  have p: "stamper (peer_node 7 9) = peer_stamper 7 9" by (simp add: peer_node_def DbSlice_new_def CreateDb_def)
  then show st: "stamper (live_node mv) = peer_stamper 7 9" by (simp add: live_node_def)
  have fr: "mvcc_enabled (live_node mv) = mvcc_enabled (peer_node 7 9)" "ns_is_default (live_node mv) = ns_is_default (peer_node 7 9)"
    "journal (live_node mv) = journal (peer_node 7 9)" by (simp_all add: live_node_def)
  show "last (clock (peer_stamper h1 h2)) = 0" "OriginHash (peer_stamper h1 h2) 1 = h1" "OriginHash (peer_stamper h1 h2) 2 = h2"
    by (simp add: peer_stamper_def RegisterOriginHash_def Let_def stamper_init_def clock_init_def) (simp_all add: peer_stamper_def RegisterOriginHash_lookup)
  show "quiescent sample_cfg (live_node mv)"
    using peer_node_ok(1) [of 7 9] nt g p fr
    by (auto simp: quiescent_def shard_inv_def shard_wf_def key_ok_def sl en good_tables_def d st)
qed (simp_all add: slot_def entry_of_def primes_def live_node_def db_at_def live_table_def DbTable_new_def GetMvcc_def tbl_find_def)

theorem local_set_newer_witness:
  "\<exists>sh' s'. RunCallback sample_cfg 5 (sample_tx (sample_args 0 0 5) ''SET'' [''K''])
      (callback sample_cfg peer_access 5 (sample_args 0 0 5) (CmdSet set_params_default ''K'' [3])) (live_node 90000000) = Some (OK, sh') \<and>
    reg_of 0 ''K'' sh' = Some (s', Some [3]) \<and> 90000000 < Mvcc s'"
proof -
  let ?T = "sample_tx (sample_args 0 0 5) ''SET'' [''K'']" and ?cmd = "CmdSet set_params_default ''K'' [3]"
  have le: "(90000000 :: u64) \<le> kStampMask" by (simp add: kStampMask_num)
  note l = live_node_ok [OF le]
  have h: "hop_ok 0 5 ?T ?cmd (live_node 90000000)"
    using l(4-6) by (simp add: hop_ok_def sample_tx_def sample_args_def sample_context_def kStampMask_pos)
  have pl: "\<not> IsConditionalSet set_params_default" "\<not> sp_expire_in_past set_params_default" "\<not> sp_prev_val set_params_default"
    by (simp_all add: set_params_default_def IsConditionalSet_def)
  have args: "tx_args ?T = sample_args 0 0 5" "cx_repl_mvcc (oa_cx (tx_args ?T)) = 0" "cx_db (oa_cx (tx_args ?T)) = 0"
    by (simp_all add: sample_tx_def sample_args_def sample_context_def)
  from SET_status [OF l(1) peer_node_ok(2) h peer_node_ok(3) pl] obtain sh'
    where run: "RunCallback sample_cfg 5 ?T (callback sample_cfg peer_access 5 (tx_args ?T) ?cmd) (live_node 90000000) = Some (OK, sh')" by blast
  have live: "slot (live_node 90000000) (cx_db (oa_cx (tx_args ?T))) ''K'' = Some \<lparr>packed = 90000000, origin_hash = 7\<rparr>"
    "Mvcc \<lparr>packed = 90000000, origin_hash = 7\<rparr> < kStampMask"
    "entry_of (live_node 90000000) (cx_db (oa_cx (tx_args ?T))) ''K'' = Some (fresh_entry sample_cfg sample_access ''K'')"
    "\<not> expired_entry sample_cfg (oa_cx (tx_args ?T)) (fresh_entry sample_cfg sample_access ''K'')"
    using l(2,3) args(3) by (simp_all add: Mvcc_def kStampMask_num expired_entry_def fresh_entry_def split_def Let_def)
  have "Mvcc \<lparr>packed = 90000000, origin_hash = 7\<rparr> = 90000000" "nv_value (string_value peer_access [3]) = [3]"
    by (simp_all add: Mvcc_def kStampMask_num sample_access_def)
  with local_set_newer [OF l(1) peer_node_ok(2) h args(2) pl(1,2) live run] run show ?thesis unfolding args(3) unfolding args(1) by auto
qed

lemma no_arms: "(\<And>db k. arm_of ps db k = None) \<Longrightarrow> ps = []"
  by (cases ps) (auto simp: arm_of_None_iff)

lemma committed_tombstone:
  assumes "stamp_less s inc"
  shows "committed True inc \<lparr>p_db = db, p_key = k, p_tomb = True, p_prev = s\<rparr> = AsTombstone inc"
proof -
  have "stamp_less (AsTombstone inc) s = stamp_less inc s"
    by (rule stamp_less_cong(1) [OF Mvcc_AsTombstone]) (simp add: AsTombstone_def)
  then have "\<not> stamp_less (AsTombstone inc) s" using stamp_ord.lt_asym [OF assms] by simp
  then show ?thesis by (simp add: committed_def commit_stamp_def FloorAppliedStamp_def) (simp add: AsTombstone_def or.assoc)
qed

text \<open>A DEL as the replication link executes it.\<close>

definition guarded_incoming :: "db_context \<Rightarrow> mvcc_stamp \<Rightarrow> 'v shard \<Rightarrow> bool" where
  "guarded_incoming cx inc sh = (cx_repl_lww_guard cx \<and> IncomingStamp (stamper sh) (cx_repl_mvcc cx) (cx_repl_origin_idx cx) = Some inc)"

lemma guarded_incomingD:
  assumes "guarded_incoming cx inc sh"
  shows "cx_repl_mvcc cx \<noteq> 0" "inc = \<lparr>packed = cx_repl_mvcc cx, origin_hash = OriginHash (stamper sh) (cx_repl_origin_idx cx)\<rparr>"
    "(if LwwGuardActive (cx_repl_lww_guard cx) (cx_repl_mvcc cx) then IncomingStamp (stamper sh) (cx_repl_mvcc cx) (cx_repl_origin_idx cx)
      else None) = Some inc"
  using assms by (auto simp: guarded_incoming_def IncomingStamp_def Let_def LwwGuardActive_def split: if_splits)

lemma OpDelV2_one:
  assumes "access_ok C A n" "guarded_incoming (oa_cx oa) inc sh" "accepts stamp_less (slot sh (cx_db (oa_cx oa)) k) inc"
    "FindMutable C A now (oa_cx oa) k sh = Some (fo, sh1)" "\<And>iu. fo = Some iu \<Longrightarrow> \<not> omitted_journal iu"
  shows "OpDelV2 C A now oa [k] async sh = (case fo of None \<Rightarrow> Some (0, sh1) | Some iu \<Rightarrow>
      map_option (\<lambda>s. (1, s)) (RecordJournal C now oa ''DEL'' [key_bytes k]
        (Del C (cx_db (oa_cx oa)) k async kExplicit (end_scope C (Some iu) sh1))))"
  using assms by (auto simp: OpDelV2_def Let_def guarded_incomingD(3) LwwShouldDropKey_def MergeAccepts_accepts GetMvcc_at_slot access_ok_def
      split: option.splits)

lemma Del_tombstone:
  fixes sh :: "'v shard"
  assumes r: "ready C now sh" and p: "pending (stamper sh) = []" and s: "slot sh (cx_db (oa_cx oa)) k = Some s" "\<not> IsTombstone s"
    and e: "entry_of sh (cx_db (oa_cx oa)) k = Some e" and room: "arena_used sh + 2 * length k < 2 ^ 32"
    and u: "up_db (iu_updater iu) = cx_db (oa_cx oa)" "up_key (iu_updater iu) = k"
    and g: "guarded_incoming (oa_cx oa) inc sh" and l: "stamp_less s inc"
  obtains sh4 where "RecordJournal C now oa ''DEL'' [key_bytes k] (Del C (cx_db (oa_cx oa)) k async kExplicit (end_scope C (Some iu) sh)) = Some sh4"
    "ready C now sh4" "pending (stamper sh4) = []"
    "reg_of (cx_db (oa_cx oa)) k sh4 = Some (AsTombstone inc, None) \<or> reg_of (cx_db (oa_cx oa)) k sh4 = None"
proof -
  let ?db = "cx_db (oa_cx oa)"
  have e1: "entry_of sh ?db k \<noteq> None" and room1: "arena_used sh + length k < 2 ^ 32" using e room by simp_all
  define sh2 where "sh2 = end_scope C (Some iu) sh"
  have sh2: "sh2 = snd (RunInternal C True (Some (iu_updater iu)) sh)" by (simp add: sh2_def end_scope_def)
  note es = end_scope_ready [OF ready_imp_but [OF r] e1 room1 u sh2]
  define sh3 where "sh3 = Del C ?db k async kExplicit sh2"
  have e2: "entry_of sh2 ?db k = Some e" "entry_of sh2 ?db k \<noteq> None" "arena_used sh2 + length k < 2 ^ 32" using es e room by simp_all
  have i2: "shard_inv_but C ?db k sh2" using ready_imp_but [OF es(1)] by (simp add: ready_but_def)
  note di = Del_inv [OF i2 e2(1,3) sh3_def] and dr = Del_ready [OF ready_imp_but [OF es(1)] e2(2,3), of async kExplicit]
  have sl2: "slot sh2 ?db k = Some s" using es(6) s by (simp add: live_after_def)
  have ab: "entry_of sh3 ?db k = None"
    using di(2) e2(1) by (auto simp: entry_of_def tbl_find_def map_of_tbl_erase split: option.splits)
  have r3: "ready C now sh3" using dr(1) by (simp add: sh3_def)
  have oh: "OriginHash (stamper sh3) = OriginHash (stamper sh)"
    using OriginHash_mints [of now sh3 sh] dr(3) es(5) by (simp add: sh3_def)
  show thesis
  proof (rule RecordJournal_ready [OF r3, of oa "''DEL''" "[key_bytes k]"], goal_cases)
    case (1 sh4)
    have "entry_of sh4 ?db k = None" using 1(3) ab by (simp add: entry_of_def)
    moreover have "slot sh4 ?db k = Some (AsTombstone inc) \<or> slot sh4 ?db k = None"
    proof (cases "leaves_tombstone C kExplicit ?db sh2")
      case True
      then show ?thesis
        using 1(7) di(4) sl2 committed_tombstone [OF l, of ?db k] guarded_incomingD(1,2) [OF g] oh
        by (simp add: slots_after_def arms_after_delete_def spec_arm_tombstone_def prev_of_def minted_def)
    next
      case False
      then show ?thesis using 1(7) di(3,4) by (simp add: slots_after_def arms_after_delete_def arm_of_disarm)
    qed
    ultimately show ?case
      by (intro that [of sh4]) (use 1 in \<open>auto simp: reg_of_def sh3_def sh2_def\<close>)
  qed
qed

lemma FindMutable_no_arms:
  assumes "\<And>db' k'. (db', k') \<noteq> (db, k) \<Longrightarrow> frame_at db' k' sh sh1" "arm_of (pending (stamper sh1)) db k = None" "pending (stamper sh) = []"
  shows "pending (stamper sh1) = []"
proof (rule no_arms)
  show "arm_of (pending (stamper sh1)) db' k' = None" for db' k'
    using assms(1) [of db' k'] assms(2,3) by (cases "(db', k') = (db, k)") (auto simp: frame_at_def)
qed

lemma OpDelV2_guarded:
  fixes sh :: "'v shard"
  assumes r: "ready C now sh" and ok: "access_ok C A n" and p: "pending (stamper sh) = []" and room: "arena_used sh + 3 * length k < 2 ^ 32"
    and g: "guarded_incoming (oa_cx oa) inc sh" and acc: "accepts stamp_less (slot sh (cx_db (oa_cx oa)) k) inc"
    and live: "\<And>e. entry_of sh (cx_db (oa_cx oa)) k = Some e \<Longrightarrow> \<not> expired_entry C (oa_cx oa) e"
  obtains m sh' where "OpDelV2 C A now oa [k] async sh = Some (m, sh')" "ready C now sh'" "pending (stamper sh') = []"
    "if entry_of sh (cx_db (oa_cx oa)) k = None then reg_of (cx_db (oa_cx oa)) k sh' = reg_of (cx_db (oa_cx oa)) k sh
     else reg_of (cx_db (oa_cx oa)) k sh' = Some (AsTombstone inc, None) \<or> reg_of (cx_db (oa_cx oa)) k sh' = None"
proof -
  let ?cx = "oa_cx oa" and ?db = "cx_db (oa_cx oa)"
  have room0: "arena_used sh + length k < 2 ^ 32" using room by linarith
  show thesis
  proof (rule FindMutable_ready [OF r ok room0, of ?cx], goal_cases)
    case (1 fo sh1)
    have no: "\<not> omitted_journal iu" if "fo = Some iu" for iu using 1(7) [OF that] by simp
    note del = OpDelV2_one [OF ok g acc 1(1) no, of async]
    have arm: "arm_of (pending (stamper sh1)) ?db k = None"
      using 1(8) p live by (cases "entry_of sh ?db k") (auto simp: frame_at_def)
    note p1 = FindMutable_no_arms [OF 1(5) arm p]
    show ?case
    proof (cases "entry_of sh ?db k")
      case None
      then have "fo = None" "reg_of ?db k sh1 = reg_of ?db k sh" using 1(8) by (simp_all add: reg_of_def frame_at_def)
      then show ?thesis using that [of 0 sh1] del 1(2) p1 None by simp
    next
      case (Some e)
      then obtain iu e' where iu: "fo = Some iu" "slot sh1 ?db k = slot sh ?db k" "entry_of sh1 ?db k = Some e'" using 1(8) live by auto
      obtain s where s: "slot sh ?db k = Some s" "\<not> IsTombstone s"
        using shard_invD(5) [of C sh ?db k] r Some by (auto simp: ready_def key_ok_def)
      have u: "up_db (iu_updater iu) = ?db" "up_key (iu_updater iu) = k" using 1(7) [OF iu(1)] by simp_all
      have s1: "slot sh1 ?db k = Some s" "stamp_less s inc" using iu(2) s(1) acc by (simp_all add: accepts_def)
      have g1: "guarded_incoming ?cx inc sh1"
        using g OriginHash_mints [OF 1(4)] by (simp add: guarded_incoming_def IncomingStamp_def cong: if_cong)
      have room1: "arena_used sh1 + 2 * length k < 2 ^ 32" using 1(3) room by linarith
      show ?thesis
        by (rule Del_tombstone [OF 1(2) p1 s1(1) s(2) iu(3) room1 u g1 s1(2), of async]) (use that del iu(1) Some in auto)
    qed
  qed
qed



end
