(* ===== verification/Tx_Queue.thy ===== *)
theory Tx_Queue
  imports Dfly_Prelude
begin

text \<open>
  The transaction queue of a shard, \<^verbatim>\<open>src/core/tx_queue.h\<close> and \<^verbatim>\<open>tx_queue.cc\<close>: a circular doubly linked list in a
  vector of records, with the free records chained through their \<^verbatim>\<open>next\<close> field. It refines a list of entries ordered
  by score. \<^verbatim>\<open>next\<close> is a bit field of 24 bits, the other indices have 32 bits.
\<close>

datatype qtag = TRANS_TAG | UINT_TAG | FREE_TAG

record qrecord =
  q_val :: nat
  q_tag :: qtag
  q_next :: nat
  q_prev :: nat

record tx_queue =
  vec :: "qrecord list"
  next_free :: nat
  head :: nat
  q_size :: nat

definition kEnd :: nat where "kEnd = 2 ^ 32 - 1"

definition bits24 :: "nat \<Rightarrow> nat" where "bits24 n = n mod 2 ^ 24"

definition QRecord_new :: "nat \<Rightarrow> qrecord" where
  "QRecord_new i = \<lparr>q_val = 0, q_tag = FREE_TAG, q_next = bits24 (i + 1), q_prev = kEnd\<rparr>"

definition TxQueue_new :: tx_queue where
  "TxQueue_new = \<lparr>vec = map QRecord_new [0..<32], next_free = 0, head = kEnd, q_size = 0\<rparr>"

text \<open>Values are the numbers of the tests or the transactions, whose score the function \<open>score_fun\<close> gives.\<close>

definition Rank :: "(nat \<Rightarrow> nat) \<Rightarrow> qrecord \<Rightarrow> nat" where
  "Rank score_fun r = (case q_tag r of UINT_TAG \<Rightarrow> q_val r | TRANS_TAG \<Rightarrow> score_fun (q_val r) | FREE_TAG \<Rightarrow> 0)"

definition upd_rec :: "nat \<Rightarrow> (qrecord \<Rightarrow> qrecord) \<Rightarrow> tx_queue \<Rightarrow> tx_queue" where
  "upd_rec i f q = q\<lparr>vec := (vec q)[i := f (vec q ! i)]\<rparr>"

definition set_next :: "nat \<Rightarrow> nat \<Rightarrow> tx_queue \<Rightarrow> tx_queue" where
  "set_next i n = upd_rec i (\<lambda>r. r\<lparr>q_next := bits24 n\<rparr>)"

definition set_prev :: "nat \<Rightarrow> nat \<Rightarrow> tx_queue \<Rightarrow> tx_queue" where
  "set_prev i n = upd_rec i (\<lambda>r. r\<lparr>q_prev := n\<rparr>)"

definition Link :: "nat \<Rightarrow> nat \<Rightarrow> tx_queue \<Rightarrow> tx_queue" where
  "Link p n q =
     (let nxt = q_next (vec q ! p)
      in set_prev nxt n (set_next p n (set_prev n p (set_next n nxt q))))"

definition Grow :: "tx_queue \<Rightarrow> tx_queue" where
  "Grow q = q\<lparr>vec := vec q @ map QRecord_new [length (vec q)..<length (vec q) * 2]\<rparr>"

text \<open>The walk from the tail towards the head. A walk that never ends is None.\<close>

partial_function (option) link_walk :: "(nat \<Rightarrow> nat) \<Rightarrow> nat \<Rightarrow> nat \<Rightarrow> nat \<Rightarrow> tx_queue \<Rightarrow> tx_queue option" where
  "link_walk score_fun weight taken cur q =
     (if Rank score_fun (vec q ! cur) < weight then Some (Link cur taken q)
      else if cur = head q then Some ((Link (q_prev (vec q ! head q)) taken q)\<lparr>head := taken\<rparr>)
      else link_walk score_fun weight taken (q_prev (vec q ! cur)) q)"

definition LinkFree :: "(nat \<Rightarrow> nat) \<Rightarrow> nat \<Rightarrow> tx_queue \<Rightarrow> tx_queue option" where
  "LinkFree score_fun weight q =
     (let taken = next_free q;
          q1 = q\<lparr>next_free := q_next (vec q ! taken)\<rparr>
      in map_option (\<lambda>q2. q2\<lparr>q_size := q_size q2 + 1\<rparr>)
           (if q_size q1 = 0 then Some (set_prev taken taken (set_next taken taken (q1\<lparr>head := taken\<rparr>)))
            else link_walk score_fun weight taken (q_prev (vec q1 ! head q1)) q1))"

definition Insert :: "(nat \<Rightarrow> nat) \<Rightarrow> nat \<Rightarrow> tx_queue \<Rightarrow> (nat \<times> tx_queue) option" where
  "Insert score_fun t q =
     (let q1 = (if next_free q \<ge> length (vec q) then Grow q else q);
          res = next_free q1;
          q2 = upd_rec res (\<lambda>r. r\<lparr>q_val := t, q_tag := TRANS_TAG\<rparr>) q1
      in map_option (\<lambda>q3. (res, q3)) (LinkFree score_fun (score_fun t) q2))"

definition Remove :: "nat \<Rightarrow> tx_queue \<Rightarrow> tx_queue" where
  "Remove it q =
     (let prv = q_prev (vec q ! it); nxt = q_next (vec q ! it);
          q1 = (if q_size q > 1 then set_prev nxt prv (set_next prv nxt q) else q);
          next_head = (if q_size q > 1 then nxt else kEnd);
          q2 = upd_rec it (\<lambda>r. r\<lparr>q_next := bits24 (next_free q1), q_tag := FREE_TAG\<rparr>) (q1\<lparr>q_size := q_size q1 - 1\<rparr>);
          q3 = q2\<lparr>next_free := it\<rparr>
      in if head q3 = it then q3\<lparr>head := next_head\<rparr> else q3)"

definition At :: "nat \<Rightarrow> tx_queue \<Rightarrow> nat" where
  "At it q = q_val (vec q ! it)"

definition Front :: "tx_queue \<Rightarrow> nat" where
  "Front q = At (head q) q"

definition PopFront :: "tx_queue \<Rightarrow> tx_queue" where
  "PopFront q = Remove (head q) q"

definition Empty :: "tx_queue \<Rightarrow> bool" where
  "Empty q = (q_size q = 0)"

definition TailScore :: "(nat \<Rightarrow> nat) \<Rightarrow> tx_queue \<Rightarrow> nat" where
  "TailScore score_fun q = Rank score_fun (vec q ! q_prev (vec q ! head q))"

definition HeadScore :: "(nat \<Rightarrow> nat) \<Rightarrow> tx_queue \<Rightarrow> nat" where
  "HeadScore score_fun q = Rank score_fun (vec q ! head q)"

definition Next_it :: "nat \<Rightarrow> tx_queue \<Rightarrow> nat" where
  "Next_it it q = q_next (vec q ! it)"

subsection \<open>Circular adjacency\<close>

text \<open>The pairs of neighbours of a list, and of the same list closed to a circle.\<close>

fun chain :: "nat list \<Rightarrow> (nat \<times> nat) set" where
  "chain (a # b # xs) = insert (a, b) (chain (b # xs))"
| "chain _ = {}"

definition adj :: "nat list \<Rightarrow> (nat \<times> nat) set" where
  "adj xs = chain xs \<union> (if xs = [] then {} else {(last xs, hd xs)})"

lemma chain_append: "ys \<noteq> [] \<Longrightarrow> zs \<noteq> [] \<Longrightarrow> chain (ys @ zs) = chain ys \<union> chain zs \<union> {(last ys, hd zs)}"
  by (induction ys rule: chain.induct) (auto simp: neq_Nil_conv)

lemma adj_rotate: "adj (ys @ zs) = adj (zs @ ys)"
  by (cases "ys = []"; cases "zs = []") (auto simp: adj_def chain_append)

lemma chain_set: "(a, b) \<in> chain xs \<Longrightarrow> a \<in> set (butlast xs) \<and> b \<in> set (tl xs)"
  by (induction xs rule: chain.induct) auto

lemma adj_set: "(a, b) \<in> adj xs \<Longrightarrow> a \<in> set xs \<and> b \<in> set xs"
  by (auto simp: adj_def dest!: chain_set split: if_splits) (auto dest: in_set_butlastD list.set_sel(2))

lemma adj_snoc: "xs \<noteq> [] \<Longrightarrow> adj (xs @ [c]) = chain xs \<union> {(last xs, c), (c, hd xs)}"
  by (auto simp: adj_def chain_append)

subsection \<open>Well-formed queues\<close>

text \<open>\<open>xs\<close> are the queued records from the head on, \<open>fs\<close> the free ones in the order they will be taken.\<close>

definition linked :: "qrecord list \<Rightarrow> nat list \<Rightarrow> bool" where
  "linked v xs = (\<forall>a b. (a, b) \<in> adj xs \<longrightarrow> q_next (v ! a) = b \<and> q_prev (v ! b) = a)"

fun free_path :: "qrecord list \<Rightarrow> nat \<Rightarrow> nat list \<Rightarrow> bool" where
  "free_path v n [] = (n = length v)"
| "free_path v n (f # fs) = (n = f \<and> f < length v \<and> free_path v (q_next (v ! f)) fs)"

definition tq_wf :: "tx_queue \<Rightarrow> nat list \<Rightarrow> nat list \<Rightarrow> bool" where
  "tq_wf q xs fs = (length (vec q) < 2 ^ 24 \<and> 0 < length (vec q) \<and> distinct (xs @ fs) \<and> set (xs @ fs) = {..<length (vec q)} \<and>
     linked (vec q) xs \<and> free_path (vec q) (next_free q) fs \<and> q_size q = length xs \<and> (xs \<noteq> [] \<longrightarrow> head q = hd xs) \<and>
     (\<forall>i\<in>set xs. q_tag (vec q ! i) = TRANS_TAG) \<and> (\<forall>i\<in>set fs. q_tag (vec q ! i) = FREE_TAG))"

lemma free_path_cong:
  assumes "\<And>i. i \<in> set fs \<Longrightarrow> q_next (v' ! i) = q_next (v ! i)" "length v' = length v"
  shows "free_path v' n fs = free_path v n fs"
  using assms by (induction fs arbitrary: n) auto

lemma linked_cong:
  assumes "\<And>i. i \<in> set xs \<Longrightarrow> q_next (v' ! i) = q_next (v ! i) \<and> q_prev (v' ! i) = q_prev (v ! i)"
  shows "linked v' xs = linked v xs"
proof -
  have "(q_next (v' ! a) = b \<and> q_prev (v' ! b) = a) = (q_next (v ! a) = b \<and> q_prev (v ! b) = a)" if "(a, b) \<in> adj xs" for a b
    using adj_set [OF that] assms by simp
  then show ?thesis unfolding linked_def by blast
qed

lemma bits24_id: "n < 2 ^ 24 \<Longrightarrow> bits24 n = n"
  by (simp add: bits24_def)

lemma length_upd_rec [simp]: "length (vec (upd_rec i f q)) = length (vec q)"
  by (simp add: upd_rec_def)

lemma nth_upd_rec: "j < length (vec q) \<Longrightarrow> vec (upd_rec i f q) ! j = (if j = i then f (vec q ! j) else vec q ! j)"
  by (auto simp: upd_rec_def nth_list_update)

lemma upd_rec_fields [simp]:
  "next_free (upd_rec i f q) = next_free q" "head (upd_rec i f q) = head q" "q_size (upd_rec i f q) = q_size q"
  by (simp_all add: upd_rec_def)

lemma nth_set_link:
  "j < length (vec q) \<Longrightarrow> n < 2 ^ 24 \<Longrightarrow> vec (set_next i n q) ! j = (if j = i then (vec q ! j)\<lparr>q_next := n\<rparr> else vec q ! j)"
  "j < length (vec q) \<Longrightarrow> vec (set_prev i m q) ! j = (if j = i then (vec q ! j)\<lparr>q_prev := m\<rparr> else vec q ! j)"
  by (simp_all add: set_next_def set_prev_def nth_upd_rec bits24_id)

lemma set_link_fields [simp]:
  "length (vec (set_next i n q)) = length (vec q)" "length (vec (set_prev i n q)) = length (vec q)"
  "next_free (set_next i n q) = next_free q" "head (set_next i n q) = head q" "q_size (set_next i n q) = q_size q"
  "next_free (set_prev i n q) = next_free q" "head (set_prev i n q) = head q" "q_size (set_prev i n q) = q_size q"
  by (simp_all add: set_next_def set_prev_def)

text \<open>Linking a record after \<open>p\<close> of a circle that ends in \<open>p\<close>.\<close>

lemma Link_spec:
  assumes l: "linked (vec q) (ws @ [p])" and d: "distinct (ws @ [p, n])" and b: "set (ws @ [p, n]) \<subseteq> {..<length (vec q)}"
    and len: "length (vec q) < 2 ^ 24"
  shows "linked (vec (Link p n q)) (ws @ [p, n])"
    and "j < length (vec q) \<Longrightarrow> q_val (vec (Link p n q) ! j) = q_val (vec q ! j) \<and> q_tag (vec (Link p n q) ! j) = q_tag (vec q ! j) \<and>
      (j \<notin> set (ws @ [p, n]) \<longrightarrow> vec (Link p n q) ! j = vec q ! j)"
    and "length (vec (Link p n q)) = length (vec q)" "next_free (Link p n q) = next_free q" "head (Link p n q) = head q"
      "q_size (Link p n q) = q_size q"
proof -
  let ?h = "hd (ws @ [p])" and ?v = "vec q"
  have "(p, ?h) \<in> adj (ws @ [p])" by (auto simp: adj_def)
  then have nx: "q_next (?v ! p) = ?h" and ph: "q_prev (?v ! ?h) = p" using l by (auto simp: linked_def)
  have bd: "p < length ?v" "n < length ?v" "?h < length ?v" "n < 2 ^ 24" "?h < 2 ^ 24"
    using b len hd_in_set [of "ws @ [p]"] by auto
  have pn: "p \<noteq> n" "?h \<noteq> n" using d hd_in_set [of "ws @ [p]"] by auto
  have vj: "vec (Link p n q) ! j = (let r = ?v ! j;
      r1 = (if j = n then r\<lparr>q_next := ?h, q_prev := p\<rparr> else r);
      r2 = (if j = p then r1\<lparr>q_next := n\<rparr> else r1)
    in if j = ?h then r2\<lparr>q_prev := n\<rparr> else r2)" if "j < length ?v" for j
    using that bd pn by (simp add: Link_def Let_def nx nth_set_link)
  show "length (vec (Link p n q)) = length (vec q)" "next_free (Link p n q) = next_free q" "head (Link p n q) = head q"
    "q_size (Link p n q) = q_size q" by (simp_all add: Link_def Let_def)
  show "q_val (vec (Link p n q) ! j) = q_val (vec q ! j) \<and> q_tag (vec (Link p n q) ! j) = q_tag (vec q ! j) \<and>
      (j \<notin> set (ws @ [p, n]) \<longrightarrow> vec (Link p n q) ! j = vec q ! j)" if "j < length ?v"
    using vj [OF that] hd_in_set [of "ws @ [p]"] by (auto simp: Let_def)
  show "linked (vec (Link p n q)) (ws @ [p, n])"
  proof -
    have adj: "adj (ws @ [p, n]) = chain (ws @ [p]) \<union> {(p, n), (n, ?h)}"
      using adj_snoc [of "ws @ [p]" n] by simp
    have new: "q_next (vec (Link p n q) ! p) = n" "q_prev (vec (Link p n q) ! n) = p" "q_next (vec (Link p n q) ! n) = ?h"
      "q_prev (vec (Link p n q) ! ?h) = n"
      using vj [OF bd(1)] vj [OF bd(2)] vj [OF bd(3)] pn by (simp_all add: Let_def)
    have old: "q_next (vec (Link p n q) ! a) = b \<and> q_prev (vec (Link p n q) ! b) = a" if ab: "(a, b) \<in> chain (ws @ [p])" for a b
    proof -
      have in': "a \<in> set ws" "b \<in> set (tl (ws @ [p]))" using chain_set [OF ab] by simp_all
      have bs: "b \<in> set (ws @ [p])" using in'(2) by (cases "ws @ [p]") auto
      have "distinct (ws @ [p])" using d by simp
      then have "b \<noteq> ?h" using in'(2) by (cases "ws @ [p]") auto
      moreover have "a \<noteq> p" "a \<noteq> n" "b \<noteq> n" using in' bs d by auto
      moreover have "a < length ?v" "b < length ?v" using in' bs b by auto
      moreover have "q_next (?v ! a) = b \<and> q_prev (?v ! b) = a" using l ab by (auto simp: linked_def adj_def)
      ultimately show ?thesis using vj [of a] vj [of b] by (auto simp: Let_def)
    qed
    show ?thesis unfolding linked_def adj using old new by auto
  qed
qed

text \<open>Taking the last record out of a circle.\<close>

lemma unlink_spec:
  assumes l: "linked v (ws @ [c])" and d: "distinct (ws @ [c])" and ws: "ws \<noteq> []"
    and v': "\<And>j. j \<in> set ws \<Longrightarrow> q_next (v' ! j) = (if j = last ws then hd ws else q_next (v ! j)) \<and>
      q_prev (v' ! j) = (if j = hd ws then last ws else q_prev (v ! j))"
  shows "linked v' ws"
  unfolding linked_def
proof (intro allI impI)
  fix a b
  assume ab: "(a, b) \<in> adj ws"
  then consider "(a, b) \<in> chain ws" | "a = last ws" "b = hd ws" using ws by (auto simp: adj_def)
  then show "q_next (v' ! a) = b \<and> q_prev (v' ! b) = a"
  proof cases
    case 1
    have in': "a \<in> set (butlast ws)" "b \<in> set (tl ws)" using chain_set [OF 1] by simp_all
    have ne: "a \<noteq> last ws" using in'(1) d by (cases ws rule: rev_cases) auto
    have nb: "b \<noteq> hd ws" using in'(2) d by (cases ws) auto
    have "q_next (v ! a) = b \<and> q_prev (v ! b) = a" using l 1 adj_snoc [OF ws, of c] by (auto simp: linked_def)
    then show ?thesis using v' [of a] v' [of b] adj_set [OF ab] ne nb by auto
  next
    case 2
    then show ?thesis using v' [of a] v' [of b] ws by auto
  qed
qed

subsection \<open>Insertion\<close>

text \<open>The place of a weight: behind the last entry of smaller rank, in front of all others.\<close>

definition place :: "('a \<Rightarrow> nat) \<Rightarrow> nat \<Rightarrow> 'a \<Rightarrow> 'a list \<Rightarrow> 'a list" where
  "place rk w x xs = rev (dropWhile (\<lambda>y. \<not> rk y < w) (rev xs)) @ x # rev (takeWhile (\<lambda>y. \<not> rk y < w) (rev xs))"

lemma place_step: "\<not> rk y < w \<Longrightarrow> place rk w x (xs @ [y]) = place rk w x xs @ [y]"
  by (simp add: place_def)

lemma place_here: "rk y < w \<Longrightarrow> place rk w x (xs @ [y]) = xs @ [y, x]"
  by (simp add: place_def)

lemma set_place: "set (place rk w x xs) = insert x (set xs)"
proof -
  have "set xs = set (takeWhile (\<lambda>y. \<not> rk y < w) (rev xs) @ dropWhile (\<lambda>y. \<not> rk y < w) (rev xs))" by simp
  then show ?thesis unfolding place_def by (simp only: set_append set_rev list.set) auto
qed

lemma place_split: "\<exists>ys zs. xs = ys @ zs \<and> place rk w x xs = ys @ x # zs \<and> (\<forall>z\<in>set zs. \<not> rk z < w) \<and> (ys \<noteq> [] \<longrightarrow> rk (last ys) < w)"
proof (induction xs rule: rev_induct)
  case Nil
  then show ?case by (simp add: place_def)
next
  case (snoc y xs)
  show ?case
  proof (cases "rk y < w")
    case True
    then show ?thesis using place_here [of rk y w x xs] by (intro exI [of _ "xs @ [y]"] exI [of _ "[]"]) simp
  next
    case False
    from snoc obtain ys zs where "xs = ys @ zs" "place rk w x xs = ys @ x # zs" "\<forall>z\<in>set zs. \<not> rk z < w" "ys \<noteq> [] \<longrightarrow> rk (last ys) < w" by blast
    then show ?thesis using place_step [of rk y w x xs] False by (intro exI [of _ ys] exI [of _ "zs @ [y]"]) simp
  qed
qed

lemma sorted_place:
  assumes "sorted (map rk xs)" "rk x = w"
  shows "sorted (map rk (place rk w x xs))"
proof -
  obtain ys zs where s: "xs = ys @ zs" "place rk w x xs = ys @ x # zs" "\<forall>z\<in>set zs. \<not> rk z < w" "ys \<noteq> [] \<longrightarrow> rk (last ys) < w"
    using place_split [of xs rk w x] by blast
  have "rk y \<le> w" if "y \<in> set ys" for y
  proof -
    have "rk y \<le> rk (last ys)"
      using assms(1) that s(1) by (cases ys rule: rev_cases) (auto simp: sorted_append)
    moreover have "rk (last ys) < w" using s(4) that by (cases ys) auto
    ultimately show ?thesis by simp
  qed
  then show ?thesis using assms s(1,2,3) by (auto simp: sorted_append linorder_not_less)
qed

lemma link_walk_spec:
  assumes "linked (vec q) (as @ bs)" "distinct (as @ bs @ [n])" "set (as @ bs @ [n]) \<subseteq> {..<length (vec q)}" "length (vec q) < 2 ^ 24"
    and "as \<noteq> []" "head q = hd as"
  shows "\<exists>q'. link_walk sc w n (last as) q = Some q' \<and> linked (vec q') (place (\<lambda>i. Rank sc (vec q ! i)) w n as @ bs) \<and>
    head q' = hd (place (\<lambda>i. Rank sc (vec q ! i)) w n as) \<and> next_free q' = next_free q \<and> q_size q' = q_size q \<and> length (vec q') = length (vec q) \<and>
    (\<forall>j<length (vec q). q_val (vec q' ! j) = q_val (vec q ! j) \<and> q_tag (vec q' ! j) = q_tag (vec q ! j) \<and>
      (j \<notin> set (as @ bs @ [n]) \<longrightarrow> vec q' ! j = vec q ! j))"
  using assms
proof (induction as arbitrary: bs rule: rev_induct)
  case (snoc c as)
  let ?rk = "\<lambda>i. Rank sc (vec q ! i)"
  have rot: "linked (vec q) ((bs @ as) @ [c])"
    using snoc.prems(1) adj_rotate [of "as @ [c]" bs] by (simp add: linked_def)
  have rd: "distinct ((bs @ as) @ [c, n])" "set ((bs @ as) @ [c, n]) \<subseteq> {..<length (vec q)}" using snoc.prems(2,3) by auto
  note lk = Link_spec [OF rot rd snoc.prems(4)]
  show ?case
  proof (cases "?rk c < w")
    case True
    have "linked (vec (Link c n q)) (place ?rk w n (as @ [c]) @ bs)"
      using lk(1) adj_rotate [of "as @ [c, n]" bs] place_here [of ?rk c w n as] True by (simp add: linked_def)
    moreover have "hd (place ?rk w n (as @ [c])) = hd (as @ [c])" using place_here [of ?rk c w n as] True by (cases as) auto
    ultimately show ?thesis
      using True lk(2-6) snoc.prems(6) by (subst link_walk.simps) (auto simp: Un_ac)
  next
    case False
    have pl: "place ?rk w n (as @ [c]) = place ?rk w n as @ [c]" using False by (intro place_step)
    show ?thesis
    proof (cases "as = []")
      case True
      then have hc: "c = head q" using snoc.prems(6) by simp
      have p0: "place ?rk w n [] = [n]" by (simp add: place_def)
      obtain ws p where wp: "c # bs = ws @ [p]" by (cases "c # bs" rule: rev_cases) auto
      have lwp: "linked (vec q) (ws @ [p])" using snoc.prems(1) True wp by simp
      have prv: "q_prev (vec q ! c) = p"
      proof -
        have "(p, c) \<in> adj (c # bs)" using arg_cong [OF wp, of last] by (simp only: adj_def) simp
        then show ?thesis using snoc.prems(1) True by (auto simp: linked_def)
      qed
      have st: "set (ws @ [p]) = set (c # bs)" using wp by (metis)
      have d2: "distinct (ws @ [p, n])" using snoc.prems(2) True arg_cong [OF wp, of distinct] st by auto
      have b2: "set (ws @ [p, n]) \<subseteq> {..<length (vec q)}" using snoc.prems(3) True st by auto
      note l2 = Link_spec [OF lwp d2 b2 snoc.prems(4)]
      have "linked (vec (Link p n q)) (n # c # bs)"
        using l2(1) adj_rotate [of "ws @ [p]" "[n]"] wp by (simp add: linked_def)
      moreover have "set (ws @ [p, n]) = set (c # bs @ [n])" using st by auto
      ultimately show ?thesis
        using False hc prv l2(2-6) True pl p0 by (subst link_walk.simps) (auto simp: linked_def)
    next
      case ne: False
      have chd: "c \<noteq> head q" using snoc.prems(2,6) ne by (cases as) auto
      have prv: "q_prev (vec q ! c) = last as"
      proof -
        have "(last as, c) \<in> adj ((as @ [c]) @ bs)" using ne by (cases "bs = []") (auto simp: adj_def chain_append)
        then show ?thesis using snoc.prems(1) by (auto simp: linked_def)
      qed
      have "\<exists>q'. link_walk sc w n (last as) q = Some q' \<and> linked (vec q') (place ?rk w n as @ c # bs) \<and>
        head q' = hd (place ?rk w n as) \<and> next_free q' = next_free q \<and> q_size q' = q_size q \<and> length (vec q') = length (vec q) \<and>
        (\<forall>j<length (vec q). q_val (vec q' ! j) = q_val (vec q ! j) \<and> q_tag (vec q' ! j) = q_tag (vec q ! j) \<and>
          (j \<notin> set (as @ (c # bs) @ [n]) \<longrightarrow> vec q' ! j = vec q ! j))"
        using snoc.prems ne by (intro snoc.IH) auto
      moreover have "hd (place ?rk w n as @ [c]) = hd (place ?rk w n as)" by (simp add: place_def hd_append)
      ultimately show ?thesis
        using False chd prv pl by (subst link_walk.simps) auto
    qed
  qed
qed simp

lemma Rank_cong: "q_tag r = q_tag r' \<Longrightarrow> q_val r = q_val r' \<Longrightarrow> Rank sc r = Rank sc r'"
  by (simp add: Rank_def split: qtag.split)

lemma place_cong: "(\<And>y. y \<in> set xs \<Longrightarrow> rk y = rk' y) \<Longrightarrow> place rk w x xs = place rk' w x xs"
  by (induction xs rule: rev_induct) (auto simp: place_def)

lemma distinct_place: "distinct xs \<Longrightarrow> x \<notin> set xs \<Longrightarrow> distinct (place rk w x xs)"
  using place_split [of xs rk w x] by auto

lemma length_place [simp]: "length (place rk w x xs) = Suc (length xs)"
  using place_split [of xs rk w x] by auto

text \<open>A full queue doubles; the chain of free records then starts at the old end.\<close>

lemma Grow_wf:
  assumes wf: "tq_wf q xs []" and len: "2 * length (vec q) < 2 ^ 24"
  shows "tq_wf (Grow q) xs [length (vec q)..<2 * length (vec q)]" "\<And>i. i < length (vec q) \<Longrightarrow> vec (Grow q) ! i = vec q ! i"
proof -
  let ?n = "length (vec q)"
  have nth: "vec (Grow q) ! i = (if i < ?n then vec q ! i else QRecord_new i)" if "i < 2 * ?n" for i
    using that by (auto simp: Grow_def nth_append)
  show "vec (Grow q) ! i = vec q ! i" if "i < ?n" for i using that nth [of i] by simp
  have l2: "length (vec (Grow q)) = 2 * ?n" by (simp add: Grow_def)
  have sx: "set xs = {..<?n}" "next_free q = ?n" using wf by (simp_all add: tq_wf_def)
  have "free_path (vec (Grow q)) i [i..<2 * ?n]" if "?n \<le> i" "i \<le> 2 * ?n" for i
    using that
  proof (induction "2 * ?n - i" arbitrary: i)
    case 0
    then show ?case using l2 by simp
  next
    case (Suc d)
    then have i: "i < 2 * ?n" by simp
    then have "q_next (vec (Grow q) ! i) = i + 1" using nth [OF i] Suc.prems len by (simp add: QRecord_new_def bits24_id)
    then show ?case using Suc i l2 by (simp add: upt_conv_Cons)
  qed
  moreover have "linked (vec (Grow q)) xs"
    using wf sx nth by (subst linked_cong [of xs "vec (Grow q)" "vec q"]) (auto simp: tq_wf_def)
  ultimately show "tq_wf (Grow q) xs [?n..<2 * ?n]"
    using wf len sx l2 nth by (auto simp: tq_wf_def Grow_def QRecord_new_def nth_append)
qed

lemma LinkFree_wf:
  assumes wf: "tq_wf q xs fs" and fs: "fs = n # fs'"
    and q2: "q2 = upd_rec n (\<lambda>r. r\<lparr>q_val := t, q_tag := TRANS_TAG\<rparr>) q"
  shows "\<exists>q'. LinkFree sc w q2 = Some q' \<and> tq_wf q' (place (\<lambda>i. Rank sc (vec q ! i)) w n xs) fs' \<and>
    (\<forall>j\<in>insert n (set xs). q_val (vec q' ! j) = (if j = n then t else q_val (vec q ! j))) \<and> length (vec q') = length (vec q)"
proof -
  let ?v = "vec q" and ?rk = "\<lambda>i. Rank sc (vec q ! i)" and ?m = "length (vec q)"
  have n: "n < ?m" "next_free q = n" "n \<notin> set xs" "n \<notin> set fs'" "?m < 2 ^ 24" "distinct xs" "distinct fs'" "set xs \<inter> set fs' = {}"
    "set xs \<union> insert n (set fs') = {..<?m}" "q_tag (?v ! n) = FREE_TAG"
    using wf fs by (auto simp: tq_wf_def)
  have sub: "set xs \<subseteq> {..<?m}" "set fs' \<subseteq> {..<?m}" using n(9) by auto
  have v2: "vec q2 ! j = (if j = n then (?v ! j)\<lparr>q_val := t, q_tag := TRANS_TAG\<rparr> else ?v ! j)" if "j < ?m" for j
    using that by (simp add: q2 nth_upd_rec)
  define q3 where "q3 = q2\<lparr>next_free := q_next (vec q2 ! n)\<rparr>"
  have f3: "vec q3 = vec q2" "length (vec q3) = ?m" "head q3 = head q" "q_size q3 = length xs" "next_free q3 = q_next (?v ! n)"
    using wf n v2 [of n] by (simp_all add: q3_def q2 tq_wf_def)
  have fp: "free_path ?v (next_free q3) fs'" using wf fs f3(5) by (simp add: tq_wf_def)
  have eq: "LinkFree sc w q2 = map_option (\<lambda>q4. q4\<lparr>q_size := q_size q4 + 1\<rparr>)
      (if xs = [] then Some (set_prev n n (set_next n n (q3\<lparr>head := n\<rparr>))) else link_walk sc w n (q_prev (vec q3 ! head q3)) q3)"
    using n(2) f3 by (simp add: LinkFree_def Let_def q3_def q2)
  have "\<exists>q4. (if xs = [] then Some (set_prev n n (set_next n n (q3\<lparr>head := n\<rparr>))) else link_walk sc w n (q_prev (vec q3 ! head q3)) q3) = Some q4 \<and>
      linked (vec q4) (place ?rk w n xs) \<and> head q4 = hd (place ?rk w n xs) \<and> next_free q4 = next_free q3 \<and> q_size q4 = length xs \<and>
      length (vec q4) = ?m \<and> (\<forall>j<?m. q_val (vec q4 ! j) = q_val (vec q3 ! j) \<and> q_tag (vec q4 ! j) = q_tag (vec q3 ! j) \<and>
        (j \<notin> set (xs @ [n]) \<longrightarrow> vec q4 ! j = vec q3 ! j))"
  proof (cases "xs = []")
    case True
    have p: "place ?rk w n [] = [n]" by (simp add: place_def)
    let ?q4 = "set_prev n n (set_next n n (q3\<lparr>head := n\<rparr>))"
    have "vec ?q4 ! j = (if j = n then (vec q3 ! j)\<lparr>q_next := n, q_prev := n\<rparr> else vec q3 ! j)" if "j < ?m" for j
      using that n(1,5) f3(2) by (simp add: nth_set_link)
    then show ?thesis using True p n(1) f3 by (auto simp: linked_def adj_def)
  next
    case False
    have lk: "linked (vec q3) xs"
      using wf v2 n(3) sub f3(1) by (subst linked_cong [of xs "vec q3" ?v]) (auto simp: tq_wf_def)
    have hd3: "head q3 = hd xs" using wf False f3(3) by (simp add: tq_wf_def)
    have tl: "q_prev (vec q3 ! hd xs) = last xs"
      using lk False by (auto simp: linked_def adj_def)
    have rk: "place (\<lambda>i. Rank sc (vec q3 ! i)) w n xs = place ?rk w n xs"
      using v2 sub n(3) f3(1) by (intro place_cong) auto
    from link_walk_spec [of q3 xs "[]" n sc w] lk False hd3 n(1,3,5,6) sub f3(2) show ?thesis
      by (simp add: rk tl hd3 f3(4) conj_ac)
  qed
  then obtain q4 where r4: "(if xs = [] then Some (set_prev n n (set_next n n (q3\<lparr>head := n\<rparr>)))
      else link_walk sc w n (q_prev (vec q3 ! head q3)) q3) = Some q4" and q4: "linked (vec q4) (place ?rk w n xs)"
    "head q4 = hd (place ?rk w n xs)" "next_free q4 = next_free q3" "q_size q4 = length xs" "length (vec q4) = ?m"
    "\<And>j. j < ?m \<Longrightarrow> q_val (vec q4 ! j) = q_val (vec q3 ! j) \<and> q_tag (vec q4 ! j) = q_tag (vec q3 ! j) \<and> (j \<notin> set (xs @ [n]) \<longrightarrow> vec q4 ! j = vec q3 ! j)"
    by auto
  have lf: "LinkFree sc w q2 = Some (q4\<lparr>q_size := q_size q4 + 1\<rparr>)" unfolding eq r4 by simp
  have "q_next (vec q4 ! i) = q_next (?v ! i)" if "i \<in> set fs'" for i
  proof -
    have "i < ?m" "i \<noteq> n" "i \<notin> set xs" using that sub(2) n(4,8) by auto
    then show ?thesis using q4(6) [of i] v2 [of i] f3(1) by simp
  qed
  then have fin: "free_path (vec q4) (next_free q3) fs'" using fp q4(5) free_path_cong [of fs' "vec q4" ?v] by simp
  have wt: "\<And>i. i \<in> set xs \<Longrightarrow> q_tag (?v ! i) = TRANS_TAG" "\<And>i. i \<in> set fs' \<Longrightarrow> q_tag (?v ! i) = FREE_TAG"
    using wf fs by (auto simp: tq_wf_def)
  have tags: "q_tag (vec q4 ! i) = (if i = n then TRANS_TAG else q_tag (?v ! i))" if "i < ?m" for i
    using q4(6) [OF that] v2 [OF that] f3(1) by simp
  have "tq_wf (q4\<lparr>q_size := q_size q4 + 1\<rparr>) (place ?rk w n xs) fs'"
    unfolding tq_wf_def
  proof (intro conjI)
    show "\<forall>i\<in>set (place ?rk w n xs). q_tag (vec (q4\<lparr>q_size := q_size q4 + 1\<rparr>) ! i) = TRANS_TAG"
      using wt(1) tags sub(1) n(1) by (auto simp: set_place)
    show "\<forall>i\<in>set fs'. q_tag (vec (q4\<lparr>q_size := q_size q4 + 1\<rparr>) ! i) = FREE_TAG"
      using wt(2) tags sub(2) n(4) by auto
  qed (use q4 n fin wf in \<open>auto simp: set_place distinct_place tq_wf_def\<close>)
  moreover have "\<forall>j\<in>insert n (set xs). q_val (vec q4 ! j) = (if j = n then t else q_val (?v ! j))"
    using q4(6) v2 sub n(1) f3(1) by auto
  ultimately show ?thesis using lf q4(5) by auto
qed

subsection \<open>The contract\<close>

text \<open>The queue as a list of iterators with their transactions.\<close>

definition entries :: "tx_queue \<Rightarrow> nat list \<Rightarrow> (nat \<times> nat) list" where
  "entries q xs = map (\<lambda>i. (i, At i q)) xs"

lemma Rank_trans: "tq_wf q xs fs \<Longrightarrow> i \<in> set xs \<Longrightarrow> Rank sc (vec q ! i) = sc (At i q)"
  by (simp add: tq_wf_def Rank_def At_def)

lemma place_map: "map f (place (rk \<circ> f) w x xs) = place rk w (f x) (map f xs)"
  by (simp add: place_def rev_map takeWhile_map dropWhile_map o_def)

lemma Insert_wf:
  assumes wf: "tq_wf q xs fs" and room: "length xs < 2 ^ 23"
  shows "\<exists>it q' xs' fs'. Insert sc t q = Some (it, q') \<and> tq_wf q' xs' fs' \<and> it \<notin> set xs \<and>
    entries q' xs' = place (\<lambda>(i, u). sc u) (sc t) (it, t) (entries q xs)"
proof -
  define q1 where "q1 = (if next_free q \<ge> length (vec q) then Grow q else q)"
  have "\<exists>fs1. tq_wf q1 xs fs1 \<and> fs1 \<noteq> [] \<and> (\<forall>i\<in>set xs. vec q1 ! i = vec q ! i)"
  proof (cases fs)
    case Nil
    then have full: "length xs = length (vec q)" "next_free q = length (vec q)"
      using wf distinct_card [of xs] by (simp_all add: tq_wf_def)
    then have g: "q1 = Grow q" by (simp add: q1_def)
    have "2 * length (vec q) < 2 ^ 24" using room full by simp
    note gw = Grow_wf [OF wf [unfolded Nil] this]
    have "[length (vec q)..<2 * length (vec q)] \<noteq> []" using wf by (simp add: tq_wf_def)
    moreover have "\<forall>i\<in>set xs. vec q1 ! i = vec q ! i" using gw(2) wf by (auto simp: g tq_wf_def)
    ultimately show ?thesis using gw(1) g by blast
  next
    case (Cons n fs')
    then have "q1 = q" using wf by (auto simp: q1_def tq_wf_def)
    then show ?thesis using wf Cons by auto
  qed
  then obtain n fs' where w1: "tq_wf q1 xs (n # fs')" and same: "\<forall>i\<in>set xs. vec q1 ! i = vec q ! i" by (metis neq_Nil_conv)
  have nf: "next_free q1 = n" "n \<notin> set xs" using w1 by (auto simp: tq_wf_def)
  let ?q2 = "upd_rec n (\<lambda>r. r\<lparr>q_val := t, q_tag := TRANS_TAG\<rparr>) q1"
  from LinkFree_wf [OF w1 refl refl, of sc "sc t" t] obtain q' where
    l: "LinkFree sc (sc t) ?q2 = Some q'" "tq_wf q' (place (\<lambda>i. Rank sc (vec q1 ! i)) (sc t) n xs) fs'"
      "\<forall>j\<in>insert n (set xs). q_val (vec q' ! j) = (if j = n then t else q_val (vec q1 ! j))" by blast
  let ?f = "\<lambda>i. (i, if i = n then t else At i q)"
  have ins: "Insert sc t q = Some (n, q')" using l(1) nf(1) by (simp add: Insert_def Let_def q1_def [symmetric])
  have pe: "place (\<lambda>i. Rank sc (vec q1 ! i)) (sc t) n xs = place ((\<lambda>(i, u). sc u) \<circ> ?f) (sc t) n xs"
    using Rank_trans [OF w1] same nf(2) by (intro place_cong) (auto simp: At_def)
  have "entries q' (place (\<lambda>i. Rank sc (vec q1 ! i)) (sc t) n xs) = map ?f (place (\<lambda>i. Rank sc (vec q1 ! i)) (sc t) n xs)"
    using l(3) same nf(2) by (auto simp: entries_def At_def set_place)
  also have "\<dots> = place (\<lambda>(i, u). sc u) (sc t) (n, t) (entries q xs)"
    unfolding pe using nf(2) by (subst place_map) (auto simp: entries_def intro!: arg_cong [where f = "place _ _ _"])
  finally show ?thesis using ins l(2) nf(2) by blast
qed

lemma Remove_wf:
  assumes wf: "tq_wf q (ys @ it # zs) fs"
  shows "tq_wf (Remove it q) (ys @ zs) (it # fs)" "entries (Remove it q) (ys @ zs) = entries q (ys @ zs)"
proof -
  let ?xs = "ys @ it # zs" and ?ws = "zs @ ys" and ?m = "length (vec q)"
  have b: "set ?xs \<subseteq> {..<?m}" "set fs \<subseteq> {..<?m}" "?m < 2 ^ 24" "distinct (?xs @ fs)" "q_size q = length ?xs" "it < ?m"
    "next_free q < 2 ^ 24" "head q = hd ?xs" "set ?xs \<union> set fs = {..<?m}" "free_path (vec q) (next_free q) fs"
    using wf by (auto simp: tq_wf_def) (cases fs; auto)
  have lk: "linked (vec q) (?ws @ [it])" using wf adj_rotate [of "ys @ [it]" zs] by (simp add: tq_wf_def linked_def)
  define prv nxt where "prv = q_prev (vec q ! it)" and "nxt = q_next (vec q ! it)"
  have pn: "prv = last ?ws" "nxt = hd ?ws" if "?ws \<noteq> []"
    using lk adj_snoc [OF that, of it] by (auto simp: prv_def nxt_def linked_def)
  have pb: "prv \<in> set ?ws" "nxt \<in> set ?ws" if "?ws \<noteq> []" using pn [OF that] that last_in_set hd_in_set by (metis)+
  define q1 where "q1 = (if q_size q > 1 then set_prev nxt prv (set_next prv nxt q) else q)"
  have big: "q_size q > 1 \<longleftrightarrow> ?ws \<noteq> []" using b(5) by auto
  have v1: "vec q1 ! j = (let r = vec q ! j; r1 = (if ?ws \<noteq> [] \<and> j = prv then r\<lparr>q_next := nxt\<rparr> else r)
      in if ?ws \<noteq> [] \<and> j = nxt then r1\<lparr>q_prev := prv\<rparr> else r1)" if "j < ?m" for j
  proof (cases "?ws = []")
    case True
    then have "q1 = q" using big by (simp add: q1_def)
    then show ?thesis using True by (simp add: Let_def)
  next
    case False
    have "nxt < 2 ^ 24" using pb(2) [OF False] b(1,3) by auto
    then show ?thesis using False big that by (simp add: q1_def Let_def nth_set_link)
  qed
  have f1: "length (vec q1) = ?m" "next_free q1 = next_free q" "head q1 = head q" "q_size q1 = q_size q" by (auto simp: q1_def)
  define r where "r = Remove it q"
  have rm: "r = (let q3 = (upd_rec it (\<lambda>r. r\<lparr>q_next := bits24 (next_free q1), q_tag := FREE_TAG\<rparr>) (q1\<lparr>q_size := q_size q1 - 1\<rparr>))\<lparr>next_free := it\<rparr>
      in if head q3 = it then q3\<lparr>head := if q_size q > 1 then nxt else kEnd\<rparr> else q3)"
    by (simp only: r_def Remove_def Let_def prv_def nxt_def q1_def)
  have vr: "vec r ! j = (if j = it then (vec q1 ! j)\<lparr>q_next := next_free q, q_tag := FREE_TAG\<rparr> else vec q1 ! j)" if "j < ?m" for j
    using that b(7) f1 by (auto simp: rm Let_def upd_rec_def nth_list_update bits24_id)
  have fr: "length (vec r) = ?m" "next_free r = it" "q_size r = length ?ws"
    "head r = (if head q = it then (if ?ws \<noteq> [] then nxt else kEnd) else head q)"
    using f1 b(5) big by (auto simp: rm Let_def)
  have keep: "q_val (vec r ! j) = q_val (vec q ! j) \<and> (j \<noteq> it \<longrightarrow> q_tag (vec r ! j) = q_tag (vec q ! j))" if "j < ?m" for j
    using vr [OF that] v1 [OF that] by (auto simp: Let_def)
  show "entries (Remove it q) (ys @ zs) = entries q (ys @ zs)"
    using keep b(1) by (auto simp: entries_def At_def r_def [symmetric])
  have "linked (vec r) ?ws"
  proof (cases "?ws = []")
    case False
    show ?thesis
    proof (rule unlink_spec [OF lk _ False])
      show "distinct (?ws @ [it])" using b(4) by auto
      fix j
      assume j: "j \<in> set ?ws"
      then have "j \<noteq> it" "j < ?m" using b(1,4) by auto
      then show "q_next (vec r ! j) = (if j = last ?ws then hd ?ws else q_next (vec q ! j)) \<and>
          q_prev (vec r ! j) = (if j = hd ?ws then last ?ws else q_prev (vec q ! j))"
        using vr [of j] v1 [of j] pn [OF False] False by (auto simp: Let_def)
    qed
  qed (simp add: linked_def adj_def)
  then have lr: "linked (vec r) (ys @ zs)" using adj_rotate [of ys zs] by (simp add: linked_def)
  have hr: "head r = hd (ys @ zs)" if "ys @ zs \<noteq> []"
  proof (cases ys)
    case Nil
    then show ?thesis using fr(4) b(8) pn that by simp
  next
    case (Cons y ys')
    then show ?thesis using fr(4) b(4,8) by auto
  qed
  have "q_next (vec r ! i) = q_next (vec q ! i)" if i: "i \<in> set fs" for i
  proof -
    have "i < ?m" "i \<noteq> it" "i \<notin> set ?ws" using i b(2,4) by auto
    then show ?thesis using vr [of i] v1 [of i] pb by (auto simp: Let_def)
  qed
  then have "free_path (vec r) (next_free q) fs" using b(10) fr(1) free_path_cong [of fs "vec r" "vec q"] by simp
  then have fp: "free_path (vec r) (next_free r) (it # fs)"
    using fr(1,2) vr [OF b(6)] b(6) by simp
  have wt: "\<And>i. i \<in> set ?xs \<Longrightarrow> q_tag (vec q ! i) = TRANS_TAG" "\<And>i. i \<in> set fs \<Longrightarrow> q_tag (vec q ! i) = FREE_TAG"
    using wf by (auto simp: tq_wf_def)
  show "tq_wf (Remove it q) (ys @ zs) (it # fs)"
    unfolding r_def [symmetric] tq_wf_def
  proof (intro conjI)
    show "\<forall>i\<in>set (ys @ zs). q_tag (vec r ! i) = TRANS_TAG"
    proof
      fix i
      assume i: "i \<in> set (ys @ zs)"
      then have "i < ?m" "i \<noteq> it" using b(1,4) by auto
      then show "q_tag (vec r ! i) = TRANS_TAG" using keep [of i] wt(1) [of i] i by auto
    qed
    show "\<forall>i\<in>set (it # fs). q_tag (vec r ! i) = FREE_TAG"
    proof
      fix i
      assume i: "i \<in> set (it # fs)"
      then have "i < ?m" using b(2,6) by auto
      then show "q_tag (vec r ! i) = FREE_TAG" using keep [of i] vr [of i] wt(2) [of i] i by (cases "i = it") auto
    qed
    show "set ((ys @ zs) @ it # fs) = {..<length (vec r)}" using b(9) fr(1) by auto
  qed (use b fr lr hr fp in auto)
qed

subsection \<open>Refinement\<close>

text \<open>A client keeps the iterator of each transaction it enqueued, as the shard data of a transaction does.\<close>

datatype q_op = Enq nat | Deq nat

type_synonym q_client = "tx_queue \<times> (nat \<Rightarrow> nat option)"

fun q_step :: "(nat \<Rightarrow> nat) \<Rightarrow> q_op \<Rightarrow> q_client \<Rightarrow> q_client option" where
  "q_step sc (Enq t) (q, pos) = map_option (\<lambda>(it, q'). (q', pos(t \<mapsto> it))) (Insert sc t q)"
| "q_step sc (Deq t) (q, pos) = map_option (\<lambda>it. (Remove it q, pos(t := None))) (pos t)"

primrec q_run :: "(nat \<Rightarrow> nat) \<Rightarrow> q_op list \<Rightarrow> q_client \<Rightarrow> q_client option" where
  "q_run sc [] c = Some c"
| "q_run sc (op # ops) c = (case q_step sc op c of None \<Rightarrow> None | Some c' \<Rightarrow> q_run sc ops c')"

fun spec_step :: "(nat \<Rightarrow> nat) \<Rightarrow> q_op \<Rightarrow> nat list \<Rightarrow> nat list" where
  "spec_step sc (Enq t) ts = place sc (sc t) t ts"
| "spec_step sc (Deq t) ts = remove1 t ts"

fun q_op_ok :: "q_op \<Rightarrow> nat list \<Rightarrow> bool" where
  "q_op_ok (Enq t) ts = (t \<notin> set ts \<and> length ts < 2 ^ 23)"
| "q_op_ok (Deq t) ts = (t \<in> set ts)"

primrec q_ops_ok :: "(nat \<Rightarrow> nat) \<Rightarrow> q_op list \<Rightarrow> nat list \<Rightarrow> bool" where
  "q_ops_ok sc [] ts = True"
| "q_ops_ok sc (op # ops) ts = (q_op_ok op ts \<and> q_ops_ok sc ops (spec_step sc op ts))"

definition q_rep :: "(nat \<Rightarrow> nat) \<Rightarrow> q_client \<Rightarrow> nat list \<Rightarrow> bool" where
  "q_rep sc c ts = (\<exists>xs fs. tq_wf (fst c) xs fs \<and> map (\<lambda>i. At i (fst c)) xs = ts \<and> distinct ts \<and> sorted (map sc ts) \<and>
     (\<forall>t. snd c t = map_of (map prod.swap (entries (fst c) xs)) t))"

lemma swap_entries: "map prod.swap (entries q xs) = zip (map (\<lambda>i. At i q) xs) xs"
  by (simp add: entries_def zip_map1 zip_same_conv_map o_def)

lemma TxQueue_new_vec: "length (vec TxQueue_new) = 32" "i < 32 \<Longrightarrow> vec TxQueue_new ! i = QRecord_new i"
  by (simp_all add: TxQueue_new_def del: upt_rec_numeral)

lemma q_rep_new: "q_rep sc (TxQueue_new, Map.empty) []"
proof -
  have "free_path (vec TxQueue_new) i [i..<32]" if "i \<le> 32" for i
    using that
  proof (induction "32 - i" arbitrary: i)
    case 0
    then show ?case by (simp add: TxQueue_new_vec)
  next
    case (Suc d)
    then have i: "i < 32" by simp
    then have "q_next (vec TxQueue_new ! i) = i + 1" by (simp add: TxQueue_new_vec QRecord_new_def bits24_id)
    then show ?case using Suc i by (simp add: upt_conv_Cons TxQueue_new_vec del: upt_rec_numeral)
  qed
  from this [of 0] have fp: "free_path (vec TxQueue_new) 0 [0..<32]" by blast
  have f: "next_free TxQueue_new = 0" "q_size TxQueue_new = 0" by (simp_all add: TxQueue_new_def del: upt_rec_numeral)
  have "tq_wf TxQueue_new [] [0..<32]"
    unfolding tq_wf_def using fp f by (auto simp: TxQueue_new_vec linked_def adj_def QRecord_new_def simp del: upt_rec_numeral)
  then show ?thesis unfolding q_rep_def by (intro exI [of _ "[]"] exI [of _ "[0..<32]"]) (simp add: entries_def del: upt_rec_numeral)
qed

lemma map_of_place:
  assumes "distinct (map fst es)" "k \<notin> fst ` set es"
  shows "map_of (place rk w (k, v) es) = (map_of es)(k \<mapsto> v)"
proof -
  obtain ys zs where s: "es = ys @ zs" "place rk w (k, v) es = ys @ (k, v) # zs" using place_split [of es rk w "(k, v)"] by blast
  have "map_of ys k = None" using assms(2) s(1) by (auto simp: map_of_eq_None_iff)
  then show ?thesis unfolding s(2) using s(1) by (auto simp: map_add_def fun_eq_iff split: option.splits)
qed

lemma Enq_rep:
  assumes "q_rep sc (q, pos) ts" "q_op_ok (Enq t) ts"
  shows "\<exists>c. q_step sc (Enq t) (q, pos) = Some c \<and> q_rep sc c (spec_step sc (Enq t) ts)"
proof -
  obtain xs fs where r: "tq_wf q xs fs" "map (\<lambda>i. At i q) xs = ts" "distinct ts" "sorted (map sc ts)"
    "\<And>t. pos t = map_of (map prod.swap (entries q xs)) t" using assms(1) by (auto simp: q_rep_def)
  have room: "length xs < 2 ^ 23" using assms(2) arg_cong [OF r(2), of length] by simp
  from Insert_wf [OF r(1) room, of sc t] obtain it q' xs' fs' where i: "Insert sc t q = Some (it, q')" "tq_wf q' xs' fs'" "it \<notin> set xs"
    "entries q' xs' = place (\<lambda>(i, u). sc u) (sc t) (it, t) (entries q xs)" by blast
  have snd: "map (\<lambda>i. At i q') xs' = map snd (entries q' xs')" "map snd (entries q xs) = ts" using r(2) by (simp_all add: entries_def o_def)
  have ts': "map (\<lambda>i. At i q') xs' = place sc (sc t) t ts"
    unfolding snd(1) i(4) using place_map [of snd sc "sc t" "(it, t)" "entries q xs"] snd(2) by (simp add: o_def split_def)
  have sw: "map prod.swap (entries q' xs') = place (sc \<circ> fst) (sc t) (t, it) (map prod.swap (entries q xs))"
    unfolding i(4) using place_map [of prod.swap "sc \<circ> fst" "sc t" "(it, t)" "entries q xs"] by (simp add: o_def split_def)
  have ks: "map fst (map prod.swap (entries q xs)) = ts" using snd(2) by (simp add: o_def)
  have nt: "t \<notin> fst ` set (map prod.swap (entries q xs))" using assms(2) ks by (metis q_op_ok.simps(1) set_map)
  have dk: "distinct (map fst (map prod.swap (entries q xs)))" unfolding ks by (rule r(3))
  have pos': "map_of (map prod.swap (entries q' xs')) = pos(t \<mapsto> it)"
    unfolding sw using map_of_place [OF dk nt, of "sc \<circ> fst" "sc t" it] r(5) by (simp add: fun_eq_iff)
  have "q_rep sc (q', pos(t \<mapsto> it)) (place sc (sc t) t ts)"
    unfolding q_rep_def fst_conv snd_conv
    using i(2) ts' pos' distinct_place [OF r(3)] sorted_place [OF r(4) refl] assms(2) by (intro exI [of _ xs'] exI [of _ fs']) auto
  then show ?thesis using i(1) by simp
qed

lemma Deq_rep:
  assumes "q_rep sc (q, pos) ts" "t \<in> set ts"
  shows "\<exists>c. q_step sc (Deq t) (q, pos) = Some c \<and> q_rep sc c (spec_step sc (Deq t) ts)"
proof -
  obtain xs fs where r: "tq_wf q xs fs" "map (\<lambda>i. At i q) xs = ts" "distinct ts" "sorted (map sc ts)"
    "\<And>t. pos t = map_of (map prod.swap (entries q xs)) t" using assms(1) by (auto simp: q_rep_def)
  from assms(2) r(2) obtain it where it: "it \<in> set xs" "At it q = t" by auto
  then obtain ys zs where xs: "xs = ys @ it # zs" by (meson split_list)
  have ks: "map fst (map prod.swap (entries q xs)) = ts" using r(2) by (simp add: entries_def o_def)
  have "(t, it) \<in> set (map prod.swap (entries q xs))" using it by (force simp: entries_def)
  then have pt: "pos t = Some it" using r(3,5) ks by (simp add: map_of_eq_Some_iff)
  note w = Remove_wf [OF r(1) [unfolded xs]]
  have nt: "t \<notin> set (map (\<lambda>i. At i q) ys)" "t \<notin> set (map (\<lambda>i. At i q) zs)" using r(2,3) it(2) xs by auto
  have at: "map (\<lambda>i. At i (Remove it q)) (ys @ zs) = map (\<lambda>i. At i q) (ys @ zs)"
    using arg_cong [OF w(2), of "map snd"] by (simp add: entries_def o_def)
  have ts': "map (\<lambda>i. At i (Remove it q)) (ys @ zs) = remove1 t ts"
    unfolding at using nt r(2) xs it(2) by (auto simp: remove1_append)
  have m: "map_of (map prod.swap (entries (Remove it q) (ys @ zs))) = pos(t := None)"
  proof
    fix u
    have none: "map_of (map prod.swap (entries q ys)) t = None" "map_of (map prod.swap (entries q zs)) t = None"
      using nt by (auto simp: map_of_eq_None_iff entries_def)
    have "pos u = map_of (map prod.swap (entries q ys) @ (t, it) # map prod.swap (entries q zs)) u"
      using r(5) [of u] it(2) by (simp add: xs entries_def)
    then show "map_of (map prod.swap (entries (Remove it q) (ys @ zs))) u = (pos(t := None)) u"
      using none unfolding w(2) by (auto simp: entries_def map_add_def split: option.splits)
  qed
  have "sorted (map sc (remove1 t ts))" using r(4) by (metis distinct_remove1_removeAll r(3) removeAll_filter_not_eq sorted_filter)
  then have "q_rep sc (Remove it q, pos(t := None)) (remove1 t ts)"
    unfolding q_rep_def fst_conv snd_conv
    using w(1) ts' m r(3) by (intro exI [of _ "ys @ zs"] exI [of _ "it # fs"]) auto
  then show ?thesis using pt by simp
qed

lemma q_run_rep:
  assumes "q_rep sc c ts" "q_ops_ok sc ops ts"
  shows "\<exists>c'. q_run sc ops c = Some c' \<and> q_rep sc c' (fold (spec_step sc) ops ts)"
  using assms
proof (induction ops arbitrary: c ts)
  case (Cons op ops)
  obtain q pos where c: "c = (q, pos)" by force
  have r: "q_rep sc (q, pos) ts" and k: "q_op_ok op ts" using Cons.prems c by simp_all
  have "\<exists>c1. q_step sc op c = Some c1 \<and> q_rep sc c1 (spec_step sc op ts)"
    unfolding c using Enq_rep [OF r] Deq_rep [OF r] k by (cases op) (simp_all only: q_op_ok.simps, blast+)
  then obtain c1 where "q_step sc op c = Some c1" "q_rep sc c1 (spec_step sc op ts)" by blast
  then show ?case using Cons.IH [of c1 "spec_step sc op ts"] Cons.prems(2) by auto
qed simp

lemma q_rep_reads:
  assumes "q_rep sc (q, pos) ts"
  shows "Empty q = (ts = [])" "ts \<noteq> [] \<Longrightarrow> Front q = hd ts \<and> HeadScore sc q = sc (hd ts) \<and> TailScore sc q = sc (last ts)"
    "q_size q = length ts" "(pos t \<noteq> None) = (t \<in> set ts)"
proof -
  obtain xs fs where r: "tq_wf q xs fs" "map (\<lambda>i. At i q) xs = ts" "\<And>t. pos t = map_of (map prod.swap (entries q xs)) t"
    using assms by (auto simp: q_rep_def)
  show "q_size q = length ts" using r(1) arg_cong [OF r(2), of length] by (simp add: tq_wf_def)
  then show "Empty q = (ts = [])" by (auto simp: Empty_def)
  show "(pos t \<noteq> None) = (t \<in> set ts)"
    using r(3) [of t] r(2) by (auto simp: map_of_eq_None_iff entries_def image_iff)
  assume "ts \<noteq> []"
  then have ne: "xs \<noteq> []" using r(2) by auto
  have hd: "head q = hd xs" using r(1) ne by (simp add: tq_wf_def)
  have "(last xs, hd xs) \<in> adj xs" using ne by (simp add: adj_def)
  then have "q_prev (vec q ! hd xs) = last xs" using r(1) by (auto simp: tq_wf_def linked_def)
  then show "Front q = hd ts \<and> HeadScore sc q = sc (hd ts) \<and> TailScore sc q = sc (last ts)"
    using ne hd Rank_trans [OF r(1), of "hd xs" sc] Rank_trans [OF r(1), of "last xs" sc] r(2) [symmetric]
    by (simp add: Front_def HeadScore_def TailScore_def hd_map last_map)
qed

text \<open>C10: the linked records of the queue implement a list of transactions ordered by score. Any sequence of insertions (of
  transactions not in the queue, at most \<open>2 ^ 23\<close> of them at a time) and removals through the iterators the insertions
  returned runs to its end, and the queue then holds exactly the transactions of the ordered list; its head is the
  first of them, its tail score is the score of the last, and the remembered iterators are still valid.\<close>

theorem tx_queue_refines:
  assumes "q_ops_ok sc ops []"
  shows "\<exists>q pos. q_run sc ops (TxQueue_new, Map.empty) = Some (q, pos) \<and>
    (let ts = fold (spec_step sc) ops []
     in sorted (map sc ts) \<and> Empty q = (ts = []) \<and> q_size q = length ts \<and> dom pos = set ts \<and> (\<forall>t it. pos t = Some it \<longrightarrow> At it q = t) \<and>
        (ts \<noteq> [] \<longrightarrow> Front q = hd ts \<and> TailScore sc q = sc (last ts)))"
proof -
  from q_run_rep [OF q_rep_new assms] obtain q pos where c: "q_run sc ops (TxQueue_new, Map.empty) = Some (q, pos)"
    "q_rep sc (q, pos) (fold (spec_step sc) ops [])" by auto
  have "sorted (map sc (fold (spec_step sc) ops []))" "\<And>t it. pos t = Some it \<Longrightarrow> At it q = t"
    using c(2) by (auto simp: q_rep_def entries_def dest!: map_of_SomeD)
  then show ?thesis using c q_rep_reads [OF c(2)] by (auto simp: Let_def dom_def)
qed

theorem tx_queue_refines_witness:
  "\<exists>q pos. q_run (\<lambda>t. t) [Enq 5, Enq 9, Enq 7, Deq 5] (TxQueue_new, Map.empty) = Some (q, pos) \<and> Front q = 7 \<and> TailScore (\<lambda>t. t) q = 9"
proof -
  have "q_ops_ok (\<lambda>t. t) [Enq 5, Enq 9, Enq 7, Deq 5] []" "fold (spec_step (\<lambda>t. t)) [Enq 5, Enq 9, Enq 7, Deq 5] [] = [7, 9]"
    by (simp_all add: place_def)
  from tx_queue_refines [OF this(1), unfolded this(2)] show ?thesis unfolding Let_def by auto
qed

end
