(* ===== verification/Slot_Bitmap.thy ===== *)
theory Slot_Bitmap
  imports Dfly_Prelude
begin

text \<open>
  \<^verbatim>\<open>detail::SlotBitmap\<close> of \<^verbatim>\<open>src/core/dash_internal.h\<close>: which slots of a hash bucket are busy and which of the busy
  ones hold an entry of the previous bucket (a probing entry). Up to 14 slots share one word (busy bits, probe bits
  and a count); up to 28 use two. Both layouts are shown to implement a list of optional flags; the operations that
  the buckets of the table call are then used only through that list.
\<close>

declare upt_rec_numeral [simp del]

subsection \<open>Bit counting\<close>

text \<open>\<^verbatim>\<open>__builtin_ctz\<close> and \<^verbatim>\<open>__builtin_popcount\<close>.\<close>

definition ctz :: "u32 \<Rightarrow> nat" where
  "ctz w = (case find (bit w) [0..<32] of Some i \<Rightarrow> i | None \<Rightarrow> 32)"

definition popcount :: "u32 \<Rightarrow> nat" where
  "popcount w = length (filter (bit w) [0..<32])"

text \<open>The word whose bit \<open>i\<close> is \<open>P i\<close>, for \<open>i < n\<close>.\<close>

definition mask_of :: "nat \<Rightarrow> (nat \<Rightarrow> bool) \<Rightarrow> u32" where
  "mask_of n P = horner_sum of_bool 2 (map P [0..<n])"

lemma bit_mask_of: "bit (mask_of n P) i \<longleftrightarrow> i < 32 \<and> i < n \<and> P i"
  by (auto simp: mask_of_def bit_horner_sum_bit_word_iff)

subsection \<open>The words\<close>

record slot_bitmap =
  val0 :: u32
  val1 :: u32

definition SINGLE :: "nat \<Rightarrow> bool" where "SINGLE n = (n \<le> 14)"

definition kAllocMask :: "nat \<Rightarrow> u32" where "kAllocMask n = push_bit n 1 - 1"

definition kBitmapLenMask :: u32 where "kBitmapLenMask = push_bit 4 1 - 1"

definition SlotBitmap_new :: slot_bitmap where
  "SlotBitmap_new = \<lparr>val0 = 0, val1 = 0\<rparr>"

definition GetProbe :: "nat \<Rightarrow> bool \<Rightarrow> slot_bitmap \<Rightarrow> u32" where
  "GetProbe n probe s =
     (if SINGLE n then (drop_bit 4 (val0 s) AND kAllocMask n) XOR (if probe then 0 else kAllocMask n)
      else (val1 s AND kAllocMask n) XOR (if probe then 0 else kAllocMask n))"

definition GetBusy :: "nat \<Rightarrow> slot_bitmap \<Rightarrow> u32" where
  "GetBusy n s = (if SINGLE n then drop_bit 18 (val0 s) else val0 s)"

definition Size :: "nat \<Rightarrow> slot_bitmap \<Rightarrow> nat" where
  "Size n s = (if SINGLE n then unat (val0 s AND kBitmapLenMask) else popcount (val0 s))"

definition IsFull :: "nat \<Rightarrow> slot_bitmap \<Rightarrow> bool" where
  "IsFull n s = (Size n s = n)"

definition FindEmptySlot :: "nat \<Rightarrow> slot_bitmap \<Rightarrow> nat" where
  "FindEmptySlot n s = ctz (NOT (GetBusy n s))"

definition SlotBitmap_Clear :: "nat \<Rightarrow> slot_bitmap \<Rightarrow> slot_bitmap" where
  "SlotBitmap_Clear n s = (if SINGLE n then s\<lparr>val0 := 0\<rparr> else s\<lparr>val0 := 0, val1 := 0\<rparr>)"

definition SetSlot :: "nat \<Rightarrow> nat \<Rightarrow> bool \<Rightarrow> slot_bitmap \<Rightarrow> slot_bitmap" where
  "SetSlot n index probe s =
     (if SINGLE n then s\<lparr>val0 := (val0 s OR push_bit (index + 18) 1 OR push_bit (index + 4) (of_bool probe)) + 1\<rparr>
      else s\<lparr>val0 := val0 s OR push_bit index 1, val1 := val1 s OR push_bit index (of_bool probe)\<rparr>)"

definition ClearSlot :: "nat \<Rightarrow> nat \<Rightarrow> slot_bitmap \<Rightarrow> slot_bitmap" where
  "ClearSlot n index s =
     (if SINGLE n then s\<lparr>val0 := (val0 s AND NOT (push_bit (index + 18) 1) AND NOT (push_bit (index + 4) 1)) - 1\<rparr>
      else s\<lparr>val0 := val0 s AND NOT (push_bit index 1), val1 := val1 s AND NOT (push_bit index 1)\<rparr>)"

definition ClearSlots :: "nat \<Rightarrow> u32 \<Rightarrow> slot_bitmap \<Rightarrow> slot_bitmap" where
  "ClearSlots n m s =
     (if SINGLE n then
        let count = popcount m; m' = push_bit 4 m OR push_bit 18 m
        in s\<lparr>val0 := (val0 s AND NOT m') - of_nat count\<rparr>
      else s\<lparr>val0 := val0 s AND NOT m, val1 := val1 s AND NOT m\<rparr>)"

definition ShiftLeft :: "nat \<Rightarrow> slot_bitmap \<Rightarrow> bool \<times> slot_bitmap" where
  "ShiftLeft n s =
     (let kBusyLastSlot = drop_bit 1 (kAllocMask n) + 1
      in if SINGLE n then
           let kShlMask = kAllocMask n - 1;
               res = ((val0 s AND push_bit 18 kBusyLastSlot) \<noteq> 0);
               l = push_bit 1 (val0 s) AND push_bit 4 kShlMask;
               p = push_bit 1 (val0 s) AND push_bit 18 kShlMask
           in (res, s\<lparr>val0 := of_nat (popcount p) OR l OR p\<rparr>)
         else
           ((val0 s AND kBusyLastSlot) \<noteq> 0,
            s\<lparr>val0 := push_bit 1 (val0 s) AND kAllocMask n, val1 := push_bit 1 (val1 s) AND kAllocMask n\<rparr>))"

definition swap_bits :: "nat \<Rightarrow> u32 \<Rightarrow> u32 \<Rightarrow> u32" where
  "swap_bits d bm w = (let a = (push_bit d w XOR w) AND bm in w XOR (a OR drop_bit d a))"

definition SlotBitmap_Swap :: "nat \<Rightarrow> nat \<Rightarrow> nat \<Rightarrow> slot_bitmap \<Rightarrow> slot_bitmap" where
  "SlotBitmap_Swap n slot_a slot_b s =
     (let a = min slot_a slot_b; b = max slot_a slot_b; d = b - a
      in if SINGLE n then s\<lparr>val0 := swap_bits d (push_bit (b + 4) 1 OR push_bit (b + 18) 1) (val0 s)\<rparr>
         else s\<lparr>val0 := swap_bits d (push_bit b 1) (val0 s), val1 := swap_bits d (push_bit b 1) (val1 s)\<rparr>)"


subsection \<open>Slots as a list\<close>

definition busy_count :: "bool option list \<Rightarrow> nat" where
  "busy_count ss = length (filter (\<lambda>x. x \<noteq> None) ss)"

text \<open>\<open>ss ! i\<close> is \<^term>\<open>None\<close> for a free slot and the probe flag of a busy one.\<close>

definition sb_rep :: "nat \<Rightarrow> slot_bitmap \<Rightarrow> bool option list \<Rightarrow> bool" where
  "sb_rep n s ss \<longleftrightarrow> length ss = n \<and> n \<le> 28 \<and>
     (if SINGLE n then
        (\<forall>i < 14. (bit (val0 s) (i + 18) \<longleftrightarrow> i < n \<and> ss ! i \<noteq> None) \<and>
                  (bit (val0 s) (i + 4) \<longleftrightarrow> i < n \<and> ss ! i = Some True)) \<and>
        unat (val0 s AND 15) = busy_count ss
      else
        (\<forall>i < 32. (bit (val0 s) i \<longleftrightarrow> i < n \<and> ss ! i \<noteq> None) \<and>
                  (bit (val1 s) i \<longleftrightarrow> i < n \<and> ss ! i = Some True)))"

lemma busy_count_le: "busy_count ss \<le> length ss"
  by (simp add: busy_count_def)

lemma busy_count_update:
  "i < length ss \<Longrightarrow> busy_count (ss[i := x]) + of_bool (ss ! i \<noteq> None) = busy_count ss + of_bool (x \<noteq> None)"
proof (induction ss arbitrary: i)
  case (Cons a ss)
  show ?case
  proof (cases i)
    case 0
    then show ?thesis by (simp add: busy_count_def)
  next
    case (Suc j)
    with Cons.prems Cons.IH [of j] show ?thesis by (simp add: busy_count_def)
  qed
qed simp

lemma busy_count_full_iff: "busy_count ss = length ss \<longleftrightarrow> None \<notin> set ss"
  unfolding busy_count_def by (metis (mono_tags, lifting) filter_True length_filter_less less_irrefl)

lemma bit_15: "bit (15 :: u32) i \<longleftrightarrow> i < 4"
proof -
  have "(15 :: u32) = mask 4" by (simp add: mask_eq_exp_minus_1)
  then show ?thesis unfolding \<open>15 = mask 4\<close> by (auto simp only: bit_mask_iff) auto
qed

lemma bit_small_word:
  assumes "c < 2 ^ k" "bit (of_nat c :: u32) i"
  shows "i < k"
proof -
  have "bit c i" using assms(2) by (simp add: bit_of_nat_iff)
  then show ?thesis using assms(1) bit_take_bit_iff [of k c i] by (simp add: take_bit_nat_eq_self)
qed

lemma nibble_put:
  fixes x :: u32
  assumes "c < 16"
  shows "unat (((x AND NOT 15) + of_nat c) AND 15) = c" "4 \<le> i \<Longrightarrow> bit ((x AND NOT 15) + of_nat c) i = bit x i"
proof -
  have sm: "\<And>j. bit (of_nat c :: u32) j \<Longrightarrow> j < 4" using bit_small_word [of c 4] assms by simp
  have eq: "((x AND NOT 15) + of_nat c) = (x AND NOT 15) OR of_nat c"
    by (rule disjunctive_add) (auto simp only: bit_and_iff bit_not_iff bit_15 dest: sm)
  have "((x AND NOT 15) OR of_nat c) AND 15 = (of_nat c :: u32)"
    by (rule bit_eqI) (auto simp only: bit_and_iff bit_or_iff bit_not_iff bit_15 dest: sm)
  moreover have "unat (of_nat c :: u32) = c" by (rule unat_of_nat_u32) (use assms in simp)
  ultimately show "unat (((x AND NOT 15) + of_nat c) AND 15) = c" using eq by simp
  show "4 \<le> i \<Longrightarrow> bit ((x AND NOT 15) + of_nat c) i = bit x i"
    unfolding eq using sm [of i] bit_imp_le_length [of x i]
    by (auto simp only: bit_and_iff bit_or_iff bit_not_iff bit_15) auto
qed

lemma nibble_split: "(x :: u32) = (x AND NOT 15) + of_nat (unat (x AND 15))"
proof -
  have "(x AND NOT 15) + (x AND 15) = (x AND NOT 15) OR (x AND 15)"
    by (rule disjunctive_add) (auto simp only: bit_and_iff bit_not_iff)
  also have "\<dots> = x"
    by (rule bit_eqI) (auto simp only: bit_and_iff bit_or_iff bit_not_iff possible_bit_word)
  finally show ?thesis by simp
qed

lemma nibble_add:
  fixes x :: u32
  assumes "unat (x AND 15) + d < 16"
  shows "unat ((x + of_nat d) AND 15) = unat (x AND 15) + d" "4 \<le> i \<Longrightarrow> bit (x + of_nat d) i = bit x i"
proof -
  have eq: "x + of_nat d = (x AND NOT 15) + of_nat (unat (x AND 15) + d)"
    by (simp only: of_nat_add add.assoc [symmetric] nibble_split [symmetric])
  show "unat ((x + of_nat d) AND 15) = unat (x AND 15) + d" "4 \<le> i \<Longrightarrow> bit (x + of_nat d) i = bit x i"
    by (simp_all only: eq nibble_put [OF assms])
qed

lemma nibble_diff:
  fixes x :: u32
  assumes "d \<le> unat (x AND 15)"
  shows "unat ((x - of_nat d) AND 15) = unat (x AND 15) - d" "4 \<le> i \<Longrightarrow> bit (x - of_nat d) i = bit x i"
proof -
  have lt: "unat (x AND 15) - d < 16"
    using word_and_le1 [of x 15] by (simp add: word_le_nat_alt)
  have eq: "x - of_nat d = (x AND NOT 15) + of_nat (unat (x AND 15) - d)"
    by (simp only: of_nat_diff [OF assms] add_diff_eq nibble_split [symmetric])
  show "unat ((x - of_nat d) AND 15) = unat (x AND 15) - d" "4 \<le> i \<Longrightarrow> bit (x - of_nat d) i = bit x i"
    by (simp_all only: eq nibble_put [OF lt])
qed

lemma bit_kAllocMask: "bit (kAllocMask n) i \<longleftrightarrow> i < n \<and> i < 32"
proof -
  have "kAllocMask n = mask n" by (simp add: kAllocMask_def mask_eq_exp_minus_1 push_bit_eq_mult)
  then show ?thesis by (auto simp: bit_mask_iff)
qed

lemma kBitmapLenMask_eq: "kBitmapLenMask = 15"
  by (simp add: kBitmapLenMask_def push_bit_eq_mult)

lemma count_index:
  assumes "length ss \<le> m"
  shows "length (filter (\<lambda>i. i < length ss \<and> P (ss ! i)) [0..<m]) = length (filter P ss)"
proof -
  obtain k where m: "m = length ss + k" using assms by (auto simp: le_iff_add)
  have "filter (\<lambda>i. i < length ss \<and> P (ss ! i)) [length ss..<m] = []" by (auto simp: filter_empty_conv)
  moreover have "filter (\<lambda>i. i < length ss \<and> P (ss ! i)) [0..<length ss] = filter (P \<circ> (!) ss) [0..<length ss]"
    by (rule filter_cong) auto
  moreover have "filter P ss = map ((!) ss) (filter (P \<circ> (!) ss) [0..<length ss])"
    by (metis filter_map map_nth)
  ultimately show ?thesis using upt_add_eq_append [of 0 "length ss" k] by (simp add: m)
qed

lemma ctz_bit:
  assumes "w \<noteq> 0"
  shows "bit w (ctz w)" "j < ctz w \<Longrightarrow> \<not> bit w j" "ctz w < 32"
proof -
  obtain i where i: "bit w i" using assms bit_eqI [of w 0] by auto
  then have "i < 32" using bit_imp_le_length [of w i] by simp
  then obtain k where k: "find (bit w) [0..<32] = Some k" using i by (cases "find (bit w) [0..<32]") (auto simp: find_None_iff)
  then have "bit w k \<and> k < 32 \<and> (\<forall>j < k. \<not> bit w j)" by (auto simp: find_Some_iff)
  then show "bit w (ctz w)" "j < ctz w \<Longrightarrow> \<not> bit w j" "ctz w < 32" using k by (auto simp: ctz_def)
qed

subsection \<open>The operations on the list\<close>

lemma sb_repD: "sb_rep n s ss \<Longrightarrow> length ss = n" "sb_rep n s ss \<Longrightarrow> n \<le> 28"
  by (simp_all add: sb_rep_def)

lemma GetBusy_rep:
  assumes "sb_rep n s ss"
  shows "bit (GetBusy n s) i \<longleftrightarrow> i < n \<and> ss ! i \<noteq> None"
proof (cases "SINGLE n")
  case True
  then have n: "n \<le> 14" by (simp add: SINGLE_def)
  show ?thesis
  proof (cases "i < 14")
    case True
    then show ?thesis using \<open>SINGLE n\<close> assms by (simp add: GetBusy_def sb_rep_def bit_drop_bit_eq add.commute [of 18])
  next
    case False
    then have "\<not> bit (val0 s) (18 + i)" using bit_imp_le_length [of "val0 s" "18 + i"] by auto
    then show ?thesis using False n \<open>SINGLE n\<close> by (simp add: GetBusy_def bit_drop_bit_eq)
  qed
next
  case False
  show ?thesis
  proof (cases "i < 32")
    case True
    then show ?thesis using False assms by (simp add: GetBusy_def sb_rep_def)
  next
    case False
    then have "\<not> bit (val0 s) i" using bit_imp_le_length [of "val0 s" i] by auto
    then show ?thesis using False \<open>\<not> SINGLE n\<close> sb_repD(2) [OF assms] by (simp add: GetBusy_def)
  qed
qed

lemma GetProbe_rep:
  assumes "sb_rep n s ss"
  shows "bit (GetProbe n probe s) i \<longleftrightarrow> i < n \<and> (probe \<longleftrightarrow> ss ! i = Some True)"
proof (cases "i < n")
  case True
  have n: "n \<le> 28" using sb_repD(2) [OF assms] .
  have "bit (if SINGLE n then drop_bit 4 (val0 s) else val1 s) i \<longleftrightarrow> ss ! i = Some True"
  proof (cases "SINGLE n")
    case True
    then have "i < 14" using \<open>i < n\<close> by (simp add: SINGLE_def)
    then show ?thesis using True \<open>i < n\<close> assms by (simp add: sb_rep_def bit_drop_bit_eq add.commute [of 4])
  next
    case False
    then show ?thesis using \<open>i < n\<close> assms n by (simp add: sb_rep_def)
  qed
  then show ?thesis using True n by (auto simp: GetProbe_def bit_simps bit_kAllocMask split: if_splits)
next
  case False
  then show ?thesis using sb_repD(2) [OF assms] by (auto simp: GetProbe_def bit_simps bit_kAllocMask)
qed

lemma Size_rep:
  assumes "sb_rep n s ss"
  shows "Size n s = busy_count ss"
proof (cases "SINGLE n")
  case True
  then show ?thesis using assms by (simp add: Size_def sb_rep_def kBitmapLenMask_eq)
next
  case False
  have "filter (bit (val0 s)) [0..<32] = filter (\<lambda>i. i < length ss \<and> ss ! i \<noteq> None) [0..<32]"
    by (rule filter_cong) (use False assms in \<open>auto simp: sb_rep_def\<close>)
  then show ?thesis using False sb_repD [OF assms] count_index [of ss 32 "\<lambda>x. x \<noteq> None"]
    by (simp add: Size_def popcount_def busy_count_def)
qed

lemma IsFull_rep: "sb_rep n s ss \<Longrightarrow> IsFull n s \<longleftrightarrow> None \<notin> set ss"
  using busy_count_full_iff [of ss] by (simp add: IsFull_def Size_rep sb_repD(1))

lemma FindEmptySlot_rep:
  assumes "sb_rep n s ss" "None \<in> set ss"
  shows "FindEmptySlot n s < n" "ss ! FindEmptySlot n s = None" "j < FindEmptySlot n s \<Longrightarrow> ss ! j \<noteq> None"
proof -
  define e where "e = FindEmptySlot n s"
  obtain k where k: "k < n" "ss ! k = None" using assms sb_repD(1) [OF assms(1)] by (auto simp: in_set_conv_nth)
  then have k32: "k < 32" using sb_repD(2) [OF assms(1)] by simp
  have bits: "bit (NOT (GetBusy n s)) i \<longleftrightarrow> i < 32 \<and> \<not> (i < n \<and> ss ! i \<noteq> None)" for i
    by (auto simp: bit_not_iff GetBusy_rep [OF assms(1)])
  then have "NOT (GetBusy n s) \<noteq> 0" using k k32 by (metis bit_0_eq bot_apply bot_bool_def)
  note c = ctz_bit [OF this, folded FindEmptySlot_def, folded e_def]
  have "e \<le> k" using c(2) [of k] bits [of k] k k32 by fastforce
  then show "FindEmptySlot n s < n" "ss ! FindEmptySlot n s = None"
    using c(1) bits [of e] k(1) by (auto simp: e_def)
  show "j < FindEmptySlot n s \<Longrightarrow> ss ! j \<noteq> None"
    using c(2) [of j] bits [of j] \<open>e \<le> k\<close> k32 by (auto simp: e_def)
qed

lemma SINGLE_rep:
  "sb_rep n s ss \<Longrightarrow> SINGLE n \<Longrightarrow> bit (val0 s) (i + 18) \<longleftrightarrow> i < n \<and> ss ! i \<noteq> None"
  "sb_rep n s ss \<Longrightarrow> SINGLE n \<Longrightarrow> i < 14 \<Longrightarrow> bit (val0 s) (i + 4) \<longleftrightarrow> i < n \<and> ss ! i = Some True"
  "sb_rep n s ss \<Longrightarrow> SINGLE n \<Longrightarrow> unat (val0 s AND 15) = busy_count ss"
  using GetBusy_rep [of n s ss i] by (simp_all add: sb_rep_def GetBusy_def bit_drop_bit_eq add.commute [of 18])

lemma DOUBLE_rep:
  assumes "sb_rep n s ss" "\<not> SINGLE n"
  shows "bit (val0 s) i \<longleftrightarrow> i < n \<and> ss ! i \<noteq> None" "bit (val1 s) i \<longleftrightarrow> i < n \<and> ss ! i = Some True"
proof -
  show "bit (val0 s) i \<longleftrightarrow> i < n \<and> ss ! i \<noteq> None" using GetBusy_rep [OF assms(1)] assms(2) by (simp add: GetBusy_def)
  show "bit (val1 s) i \<longleftrightarrow> i < n \<and> ss ! i = Some True"
  proof (cases "i < 32")
    case False
    then have "\<not> bit (val1 s) i" using bit_imp_le_length [of "val1 s" i] by auto
    then show ?thesis using False sb_repD(2) [OF assms(1)] by simp
  qed (use assms in \<open>simp add: sb_rep_def\<close>)
qed

lemma sb_rep_single:
  assumes "length ss = n" "SINGLE n" "\<And>i. i < 14 \<Longrightarrow> bit w (i + 18) \<longleftrightarrow> i < n \<and> ss ! i \<noteq> None"
    "\<And>i. i < 14 \<Longrightarrow> bit w (i + 4) \<longleftrightarrow> i < n \<and> ss ! i = Some True" "unat (w AND 15) = busy_count ss"
  shows "sb_rep n (s\<lparr>val0 := w\<rparr>) ss"
  using assms by (simp add: sb_rep_def SINGLE_def)

lemma sb_rep_double:
  assumes "length ss = n" "n \<le> 28" "\<not> SINGLE n" "\<And>i. bit w i \<longleftrightarrow> i < n \<and> ss ! i \<noteq> None"
    "\<And>i. bit w' i \<longleftrightarrow> i < n \<and> ss ! i = Some True"
  shows "sb_rep n (s\<lparr>val0 := w, val1 := w'\<rparr>) ss"
  using assms by (simp add: sb_rep_def)

lemma SlotBitmap_new_rep: "n \<le> 28 \<Longrightarrow> sb_rep n SlotBitmap_new (replicate n None)"
  by (auto simp: sb_rep_def SlotBitmap_new_def busy_count_def)

lemma SlotBitmap_Clear_rep: "n \<le> 28 \<Longrightarrow> sb_rep n (SlotBitmap_Clear n s) (replicate n None)"
  by (auto simp: sb_rep_def SlotBitmap_Clear_def busy_count_def)

lemma low_bits_kept: "(\<And>i. i < 4 \<Longrightarrow> bit x i = bit y i) \<Longrightarrow> x AND 15 = y AND (15 :: u32)"
  by (rule bit_eqI) (auto simp only: bit_and_iff bit_15)

lemma bit_push_1: "bit (push_bit k (1 :: u32)) i \<longleftrightarrow> i = k \<and> k < 32" "bit (2 ^ k :: u32) i \<longleftrightarrow> i = k \<and> k < 32"
  by (auto simp: bit_exp_iff)

lemma bit_push_of_bool: "bit (push_bit k (of_bool b :: u32)) i \<longleftrightarrow> i = k \<and> k < 32 \<and> b"
  by (cases b) (auto simp: bit_push_1)

lemma SetSlot_rep:
  assumes "sb_rep n s ss" "i < n" "ss ! i = None"
  shows "sb_rep n (SetSlot n i probe s) (ss[i := Some probe])"
proof (cases "SINGLE n")
  case True
  define w where "w = val0 s OR push_bit (i + 18) 1 OR push_bit (i + 4) (of_bool probe)"
  have i: "i < 14" using True assms(2) by (simp add: SINGLE_def)
  have "w AND 15 = val0 s AND 15"
    by (rule low_bits_kept) (auto simp: w_def bit_or_iff bit_push_1 bit_push_of_bool)
  then have low: "unat (w AND 15) = busy_count ss" using SINGLE_rep(3) [OF assms(1) True] by simp
  have cnt: "busy_count (ss[i := Some probe]) = Suc (busy_count ss)"
    using busy_count_update [of i ss "Some probe"] assms sb_repD(1) [OF assms(1)] by simp
  then have lt: "unat (w AND 15) + 1 < 16"
    using busy_count_le [of "ss[i := Some probe]"] low True sb_repD(1) [OF assms(1)] by (simp add: SINGLE_def)
  have "sb_rep n (s\<lparr>val0 := w + of_nat 1\<rparr>) (ss[i := Some probe])"
  proof (rule sb_rep_single)
    show "unat ((w + of_nat 1) AND 15) = busy_count (ss[i := Some probe])" using nibble_add(1) [OF lt] low cnt by simp
    fix j :: nat assume j: "j < 14"
    show "bit (w + of_nat 1) (j + 18) \<longleftrightarrow> j < n \<and> ss[i := Some probe] ! j \<noteq> None"
      using nibble_add(2) [OF lt, of "j + 18"] SINGLE_rep(1) [OF assms(1) True, of j] j i assms(2) sb_repD(1) [OF assms(1)]
      by (auto simp: w_def bit_or_iff bit_push_1 bit_push_of_bool nth_list_update)
    show "bit (w + of_nat 1) (j + 4) \<longleftrightarrow> j < n \<and> ss[i := Some probe] ! j = Some True"
      using nibble_add(2) [OF lt, of "j + 4"] SINGLE_rep(2) [OF assms(1) True, of j] j i assms(2,3) sb_repD(1) [OF assms(1)]
      by (auto simp: w_def bit_or_iff bit_push_1 bit_push_of_bool nth_list_update)
  qed (use sb_repD(1) [OF assms(1)] True in auto)
  then show ?thesis using True by (simp add: SetSlot_def w_def)
next
  case False
  have i: "i < 32" using sb_repD(2) [OF assms(1)] assms(2) by simp
  have "sb_rep n (s\<lparr>val0 := val0 s OR push_bit i 1, val1 := val1 s OR push_bit i (of_bool probe)\<rparr>) (ss[i := Some probe])"
    by (rule sb_rep_double)
       (use False i assms sb_repD [OF assms(1)] DOUBLE_rep [OF assms(1) False]
        in \<open>auto simp: bit_or_iff bit_push_1 bit_push_of_bool nth_list_update\<close>)
  then show ?thesis using False by (simp add: SetSlot_def)
qed

lemma bit_and_not_push: "bit (x AND NOT (push_bit k (1 :: u32))) j \<longleftrightarrow> bit x j \<and> j \<noteq> k"
  using bit_imp_le_length [of x j] by (auto simp only: bit_and_iff bit_not_iff bit_push_1 possible_bit_word) auto

lemma ClearSlot_rep:
  assumes "sb_rep n s ss" "i < n" "ss ! i \<noteq> None"
  shows "sb_rep n (ClearSlot n i s) (ss[i := None])"
proof (cases "SINGLE n")
  case True
  define w where "w = val0 s AND NOT (push_bit (i + 18) 1) AND NOT (push_bit (i + 4) 1)"
  have i: "i < 14" using True assms(2) by (simp add: SINGLE_def)
  have bits: "bit w j \<longleftrightarrow> bit (val0 s) j \<and> j \<noteq> i + 18 \<and> j \<noteq> i + 4" for j
    unfolding w_def by (auto simp only: and.assoc [symmetric] bit_and_not_push)
  have "w AND 15 = val0 s AND 15" by (rule low_bits_kept) (auto simp: bits)
  then have low: "unat (w AND 15) = busy_count ss" using SINGLE_rep(3) [OF assms(1) True] by simp
  have cnt: "Suc (busy_count (ss[i := None])) = busy_count ss"
    using busy_count_update [of i ss None] assms sb_repD(1) [OF assms(1)] by simp
  then have le: "1 \<le> unat (w AND 15)" using low by simp
  have "sb_rep n (s\<lparr>val0 := w - of_nat 1\<rparr>) (ss[i := None])"
  proof (rule sb_rep_single)
    show "unat ((w - of_nat 1) AND 15) = busy_count (ss[i := None])" using nibble_diff(1) [OF le] low cnt by simp
    fix j :: nat assume j: "j < 14"
    show "bit (w - of_nat 1) (j + 18) \<longleftrightarrow> j < n \<and> ss[i := None] ! j \<noteq> None"
      using nibble_diff(2) [OF le, of "j + 18"] SINGLE_rep(1) [OF assms(1) True, of j] j i assms(2) sb_repD(1) [OF assms(1)]
      by (auto simp: bits nth_list_update)
    show "bit (w - of_nat 1) (j + 4) \<longleftrightarrow> j < n \<and> ss[i := None] ! j = Some True"
      using nibble_diff(2) [OF le, of "j + 4"] SINGLE_rep(2) [OF assms(1) True, of j] j i assms(2) sb_repD(1) [OF assms(1)]
      by (auto simp: bits nth_list_update)
  qed (use sb_repD(1) [OF assms(1)] True in auto)
  then show ?thesis by (simp only: ClearSlot_def True if_True w_def of_nat_1)
next
  case False
  have i: "i < 32" using sb_repD(2) [OF assms(1)] assms(2) by simp
  have "sb_rep n (s\<lparr>val0 := val0 s AND NOT (push_bit i 1), val1 := val1 s AND NOT (push_bit i 1)\<rparr>) (ss[i := None])"
  proof (rule sb_rep_double)
    fix j
    show "bit (val0 s AND NOT (push_bit i 1)) j \<longleftrightarrow> j < n \<and> ss[i := None] ! j \<noteq> None"
      unfolding bit_and_not_push DOUBLE_rep [OF assms(1) False] using sb_repD(1) [OF assms(1)] assms(2) by (auto simp: nth_list_update)
    show "bit (val1 s AND NOT (push_bit i 1)) j \<longleftrightarrow> j < n \<and> ss[i := None] ! j = Some True"
      unfolding bit_and_not_push DOUBLE_rep [OF assms(1) False] using sb_repD(1) [OF assms(1)] assms(2) by (auto simp: nth_list_update)
  qed (use False sb_repD [OF assms(1)] in auto)
  then show ?thesis by (simp only: ClearSlot_def False if_False)
qed

lemma busy_count_card: "busy_count ss = card {i. i < length ss \<and> ss ! i \<noteq> None}"
  by (simp add: busy_count_def length_filter_conv_card)

lemma popcount_card: "popcount w = card {i. bit w i}"
proof -
  have "{i. i < length [0..<32] \<and> bit w ([0..<32] ! i)} = {i. bit w i}"
    using bit_imp_le_length [of w] by auto
  then show ?thesis by (simp add: popcount_def length_filter_conv_card)
qed

text \<open>The list after clearing the slots of a mask.\<close>

definition clear_list :: "u32 \<Rightarrow> 'a option list \<Rightarrow> 'a option list" where
  "clear_list m ss = map (\<lambda>i. if bit m i then None else ss ! i) [0..<length ss]"

lemma length_clear_list [simp]: "length (clear_list m ss) = length ss"
  by (simp add: clear_list_def)

lemma nth_clear_list: "i < length ss \<Longrightarrow> clear_list m ss ! i = (if bit m i then None else ss ! i)"
  by (simp add: clear_list_def)

lemma ClearSlots_rep:
  assumes "sb_rep n s ss" "\<And>i. bit m i \<Longrightarrow> i < n \<and> ss ! i \<noteq> None"
  shows "sb_rep n (ClearSlots n m s) (clear_list m ss)"
proof (cases "SINGLE n")
  case True
  note len = sb_repD(1) [OF assms(1)]
  have n: "n \<le> 14" using True by (simp add: SINGLE_def)
  define w where "w = val0 s AND NOT (push_bit 4 m OR push_bit 18 m)"
  have m14: "\<not> bit m i" if "14 \<le> i" for i using assms(2) [of i] n that by auto
  have bits: "bit w j \<longleftrightarrow> bit (val0 s) j \<and> \<not> (4 \<le> j \<and> bit m (j - 4)) \<and> \<not> (18 \<le> j \<and> bit m (j - 18))" for j
    using bit_imp_le_length [of "val0 s" j] by (auto simp only: w_def bit_and_iff bit_or_iff bit_not_iff bit_push_bit_iff possible_bit_word)
  have "w AND 15 = val0 s AND 15" by (rule low_bits_kept) (auto simp: bits)
  then have low: "unat (w AND 15) = busy_count ss" using SINGLE_rep(3) [OF assms(1) True] by simp
  have sub: "{i. bit m i} \<subseteq> {i. i < length ss \<and> ss ! i \<noteq> None}" using assms(2) len by auto
  have "{i. i < length (clear_list m ss) \<and> clear_list m ss ! i \<noteq> None} = {i. i < length ss \<and> ss ! i \<noteq> None} - {i. bit m i}"
    by (auto simp: nth_clear_list split: if_splits)
  then have cnt: "busy_count (clear_list m ss) = busy_count ss - popcount m"
    using sub by (simp add: busy_count_card popcount_card card_Diff_subset finite_subset [OF sub])
  have le: "popcount m \<le> unat (w AND 15)" using card_mono [OF _ sub] low by (simp add: busy_count_card popcount_card)
  have "sb_rep n (s\<lparr>val0 := w - of_nat (popcount m)\<rparr>) (clear_list m ss)"
  proof (rule sb_rep_single)
    show "unat ((w - of_nat (popcount m)) AND 15) = busy_count (clear_list m ss)" using nibble_diff(1) [OF le] low cnt by simp
    fix j :: nat assume j: "j < 14"
    have hi: "bit (w - of_nat (popcount m)) (j + 18) = bit w (j + 18)" "bit (w - of_nat (popcount m)) (j + 4) = bit w (j + 4)"
      using nibble_diff(2) [OF le] by simp_all
    show "bit (w - of_nat (popcount m)) (j + 18) \<longleftrightarrow> j < n \<and> clear_list m ss ! j \<noteq> None"
      unfolding hi bits SINGLE_rep(1) [OF assms(1) True] using len m14 [of "j + 18 - 4"] by (auto simp: nth_clear_list split: if_splits)
    show "bit (w - of_nat (popcount m)) (j + 4) \<longleftrightarrow> j < n \<and> clear_list m ss ! j = Some True"
      unfolding hi bits SINGLE_rep(2) [OF assms(1) True j] using len j by (auto simp: nth_clear_list split: if_splits)
  qed (use len True in auto)
  then show ?thesis by (simp only: ClearSlots_def w_def Let_def True if_True)
next
  case False
  have b: "bit (x AND NOT m) i \<longleftrightarrow> bit x i \<and> \<not> bit m i" for x i
    using bit_imp_le_length [of x i] unfolding bit_and_iff bit_not_iff possible_bit_word by auto
  have "sb_rep n (s\<lparr>val0 := val0 s AND NOT m, val1 := val1 s AND NOT m\<rparr>) (clear_list m ss)"
  proof (rule sb_rep_double)
    fix i
    show "bit (val0 s AND NOT m) i \<longleftrightarrow> i < n \<and> clear_list m ss ! i \<noteq> None"
      unfolding b DOUBLE_rep [OF assms(1) False] using sb_repD(1) [OF assms(1)] by (auto simp: nth_clear_list split: if_splits)
    show "bit (val1 s AND NOT m) i \<longleftrightarrow> i < n \<and> clear_list m ss ! i = Some True"
      unfolding b DOUBLE_rep [OF assms(1) False] using sb_repD(1) [OF assms(1)] by (auto simp: nth_clear_list split: if_splits)
  qed (use False sb_repD [OF assms(1)] in auto)
  then show ?thesis by (simp only: ClearSlots_def False if_False)
qed

lemma and_pow_neq_0: "(w AND 2 ^ k :: u32) \<noteq> 0 \<longleftrightarrow> bit w k"
  by (simp add: bit_iff_and_push_bit_not_eq_0)

lemma kBusyLastSlot_eq:
  assumes "0 < n" "n \<le> 28"
  shows "drop_bit 1 (kAllocMask n) + 1 = 2 ^ (n - 1)"
proof -
  have "drop_bit 1 (kAllocMask n) = mask (n - 1)"
    by (rule bit_eqI) (use assms in \<open>auto simp: bit_drop_bit_eq bit_kAllocMask bit_mask_iff\<close>)
  then show ?thesis by (simp add: mask_eq_exp_minus_1)
qed

lemma bit_kShlMask:
  assumes "0 < n"
  shows "bit (kAllocMask n - 1) i \<longleftrightarrow> 1 \<le> i \<and> i < n \<and> i < 32"
proof -
  have "kAllocMask n - 1 = kAllocMask n AND NOT 1"
    by (rule disjunctive_diff) (use assms in \<open>auto simp: bit_1_iff bit_kAllocMask\<close>)
  then show ?thesis by (auto simp: bit_and_iff bit_not_iff bit_kAllocMask bit_1_iff)
qed

lemma bit_shl_1: "bit (w * 2 :: u32) j \<longleftrightarrow> 0 < j \<and> j < 32 \<and> bit w (j - 1)"
  by (subst mult.commute) (auto simp: bit_double_iff)

lemma ShiftLeft_rep:
  assumes "sb_rep n s ss" "0 < n"
  shows "fst (ShiftLeft n s) \<longleftrightarrow> last ss \<noteq> None" "sb_rep n (snd (ShiftLeft n s)) (None # butlast ss)"
proof -
  note len = sb_repD [OF assms(1)]
  have ne: "ss \<noteq> []" using len assms(2) by auto
  then have lst: "last ss = ss ! (n - 1)" using len by (simp add: last_conv_nth)
  have top: "fst (ShiftLeft n s) \<longleftrightarrow> (val0 s AND (if SINGLE n then push_bit 18 (2 ^ (n - 1)) else 2 ^ (n - 1))) \<noteq> 0"
    unfolding kBusyLastSlot_eq [OF assms(2) len(2), symmetric] by (simp add: ShiftLeft_def Let_def)
  have e: "(if SINGLE n then push_bit 18 (2 ^ (n - 1)) else 2 ^ (n - 1)) = (2 ^ (if SINGLE n then n - 1 + 18 else n - 1) :: u32)"
    by (simp add: push_bit_eq_mult power_add)
  show "fst (ShiftLeft n s) \<longleftrightarrow> last ss \<noteq> None"
  proof (cases "SINGLE n")
    case True
    then show ?thesis unfolding top e and_pow_neq_0 lst using SINGLE_rep(1) [OF assms(1) True, of "n - 1"] assms(2) by simp
  next
    case False
    then show ?thesis unfolding top e and_pow_neq_0 lst using DOUBLE_rep(1) [OF assms(1) False, of "n - 1"] assms(2) by simp
  qed
  show "sb_rep n (snd (ShiftLeft n s)) (None # butlast ss)"
  proof (cases "SINGLE n")
    case True
    define p where "p = push_bit 1 (val0 s) AND push_bit 18 (kAllocMask n - 1)"
    define l where "l = push_bit 1 (val0 s) AND push_bit 4 (kAllocMask n - 1)"
    have n: "n \<le> 14" using True by (simp add: SINGLE_def)
    have p: "bit p j \<longleftrightarrow> 19 \<le> j \<and> j < n + 18 \<and> ss ! (j - 19) \<noteq> None" for j
    proof (cases "19 \<le> j")
      case True
      define i where "i = j - 19"
      then have j: "j = i + 19" using True by simp
      show ?thesis using SINGLE_rep(1) [OF assms(1) \<open>SINGLE n\<close>, of i] n
        by (auto simp: j p_def add.commute [of 18 i] bit_and_iff bit_shl_1 bit_push_bit_iff bit_kShlMask [OF assms(2)])
    qed (auto simp: p_def bit_and_iff bit_shl_1 bit_push_bit_iff bit_kShlMask [OF assms(2)])
    have l: "bit l j \<longleftrightarrow> 5 \<le> j \<and> j < n + 4 \<and> ss ! (j - 5) = Some True" for j
    proof (cases "5 \<le> j")
      case True
      define i where "i = j - 5"
      then have j: "j = i + 5" using True by simp
      show ?thesis using SINGLE_rep(2) [OF assms(1) \<open>SINGLE n\<close>, of i] n
        by (auto simp: j l_def add.commute [of 4 i] bit_and_iff bit_shl_1 bit_push_bit_iff bit_kShlMask [OF assms(2)])
    qed (auto simp: l_def bit_and_iff bit_shl_1 bit_push_bit_iff bit_kShlMask [OF assms(2)])
    have "{j. bit p j} = (\<lambda>i. i + 18) ` {i. i < length (None # butlast ss) \<and> (None # butlast ss) ! i \<noteq> None}" (is "_ = _ ` ?S")
    proof (intro equalityI subsetI)
      fix j assume "j \<in> {j. bit p j}"
      then have "j - 18 \<in> ?S \<and> j = j - 18 + 18" using len ne by (auto simp: p nth_Cons' nth_butlast)
      then show "j \<in> (\<lambda>i. i + 18) ` ?S" by blast
    next
      fix j assume "j \<in> (\<lambda>i. i + 18) ` ?S"
      then obtain i where i: "j = i + 18" "i < n" "(None # butlast ss) ! i \<noteq> None" using ne len by auto
      then show "j \<in> {j. bit p j}" using len by (cases i) (auto simp: p nth_butlast)
    qed
    then have cnt: "popcount p = busy_count (None # butlast ss)"
      by (simp add: popcount_card busy_count_card card_image inj_on_def)
    define c :: u32 where "c = of_nat (popcount p)"
    have c16: "popcount p < 16" using cnt busy_count_le [of "None # butlast ss"] len ne n by simp
    then have c: "\<And>j. bit c j \<Longrightarrow> j < 4" using bit_small_word [of "popcount p" 4] by (simp add: c_def)
    have "(c OR l OR p) AND 15 = c"
    proof (rule bit_eqI)
      fix i
      show "bit ((c OR l OR p) AND 15) i = bit c i"
        unfolding bit_and_iff bit_or_iff bit_15 using c [of i] p [of i] l [of i] by auto
    qed
    moreover have "unat c = popcount p" unfolding c_def by (rule unat_of_nat_u32) (use c16 in simp)
    ultimately have low: "unat ((c OR l OR p) AND 15) = busy_count (None # butlast ss)" using cnt by simp
    have "sb_rep n (s\<lparr>val0 := c OR l OR p\<rparr>) (None # butlast ss)"
    proof (rule sb_rep_single)
      fix j :: nat assume j: "j < 14"
      show "bit (c OR l OR p) (j + 18) \<longleftrightarrow> j < n \<and> (None # butlast ss) ! j \<noteq> None"
        using c [of "j + 18"] len n by (cases j) (auto simp: bit_or_iff p l nth_butlast)
      show "bit (c OR l OR p) (j + 4) \<longleftrightarrow> j < n \<and> (None # butlast ss) ! j = Some True"
        using c [of "j + 4"] len n j by (cases j) (auto simp: bit_or_iff p l nth_butlast)
    qed (use len ne True low in auto)
    then show ?thesis using True by (simp add: ShiftLeft_def Let_def c_def p_def l_def)
  next
    case False
    have "sb_rep n (s\<lparr>val0 := push_bit 1 (val0 s) AND kAllocMask n, val1 := push_bit 1 (val1 s) AND kAllocMask n\<rparr>) (None # butlast ss)"
    proof (rule sb_rep_double)
      fix i
      show "bit (push_bit 1 (val0 s) AND kAllocMask n) i \<longleftrightarrow> i < n \<and> (None # butlast ss) ! i \<noteq> None"
        using DOUBLE_rep(1) [OF assms(1) False, of "i - 1"] len
        by (cases i) (auto simp: bit_and_iff bit_shl_1 bit_kAllocMask nth_butlast)
      show "bit (push_bit 1 (val1 s) AND kAllocMask n) i \<longleftrightarrow> i < n \<and> (None # butlast ss) ! i = Some True"
        using DOUBLE_rep(2) [OF assms(1) False, of "i - 1"] len
        by (cases i) (auto simp: bit_and_iff bit_shl_1 bit_kAllocMask nth_butlast)
    qed (use len ne False in auto)
    then show ?thesis using False by (simp add: ShiftLeft_def Let_def)
  qed
qed

lemma bit_swap_bits:
  "bit (swap_bits d bm w) j \<longleftrightarrow>
     (bit w j \<noteq> ((bit bm j \<and> (d \<le> j \<and> bit w (j - d)) \<noteq> bit w j) \<or> (bit bm (j + d) \<and> bit w j \<noteq> bit w (j + d))))"
  using bit_imp_le_length [of w j] bit_imp_le_length [of bm j] bit_imp_le_length [of bm "j + d"]
  unfolding swap_bits_def Let_def bit_xor_iff bit_and_iff bit_or_iff bit_push_bit_iff bit_drop_bit_eq possible_bit_word comp_apply
  by (auto simp: add.commute [of d])

definition list_swap :: "nat \<Rightarrow> nat \<Rightarrow> 'a list \<Rightarrow> 'a list" where
  "list_swap i j xs = xs[i := xs ! j, j := xs ! i]"

lemma nth_list_swap:
  "i < length xs \<Longrightarrow> j < length xs \<Longrightarrow> k < length xs \<Longrightarrow>
   list_swap i j xs ! k = (if k = i then xs ! j else if k = j then xs ! i else xs ! k)"
  by (simp add: list_swap_def nth_list_update)

lemma length_list_swap [simp]: "length (list_swap i j xs) = length xs"
  by (simp add: list_swap_def)

lemma busy_count_swap: "i < length ss \<Longrightarrow> j < length ss \<Longrightarrow> busy_count (list_swap i j ss) = busy_count ss"
  using busy_count_update [of i ss "ss ! j"] busy_count_update [of j "ss[i := ss ! j]" "ss ! i"]
  by (simp add: list_swap_def nth_list_update split: if_splits)

lemma SlotBitmap_Swap_rep:
  assumes "sb_rep n s ss" "x < n" "y < n"
  shows "sb_rep n (SlotBitmap_Swap n x y s) (list_swap x y ss)"
proof -
  note len = sb_repD [OF assms(1)]
  define a b d where "a = min x y" and "b = max x y" and "d = b - a"
  have ab: "a \<le> b" "b < n" "b = a + d" using assms(2,3) by (auto simp: a_def b_def d_def)
  have sw: "list_swap x y ss = list_swap a b ss"
    by (cases "x \<le> y") (auto simp: a_def b_def list_swap_def list_update_swap)
  define \<pi> where "\<pi> = (\<lambda>k. if k = a then b else if k = b then a else k)"
  have nth: "list_swap a b ss ! k = ss ! \<pi> k" if "k < n" for k
    using that ab len nth_list_swap [of a ss b k] by (simp add: \<pi>_def)
  have pi: "\<pi> k < m \<longleftrightarrow> k < m" if "n \<le> m" for k m using ab that by (auto simp: \<pi>_def)
  show ?thesis
  proof (cases "SINGLE n")
    case True
    have n: "n \<le> 14" using True by (simp add: SINGLE_def)
    have bm: "bit (push_bit (b + 4) 1 OR push_bit (b + 18) 1 :: u32) j \<longleftrightarrow> j = b + 4 \<or> j = b + 18" for j
      using ab n by (auto simp only: bit_or_iff bit_push_1)
    let ?w = "swap_bits d (push_bit (b + 4) 1 OR push_bit (b + 18) 1) (val0 s)"
    have "?w AND 15 = val0 s AND 15"
    proof (rule low_bits_kept)
      fix i :: nat assume "i < 4"
      then show "bit ?w i = bit (val0 s) i" unfolding bit_swap_bits bm using ab by auto
    qed
    then have low: "unat (?w AND 15) = busy_count (list_swap a b ss)"
      using SINGLE_rep(3) [OF assms(1) True] busy_count_swap [of a ss b] ab len by simp
    have "sb_rep n (s\<lparr>val0 := ?w\<rparr>) (list_swap a b ss)"
    proof (rule sb_rep_single)
      fix j :: nat assume j: "j < 14"
      have off: "bit ?w (j + k) = bit (val0 s) (\<pi> j + k)" if "k = 4 \<or> k = 18" for k
        unfolding bit_swap_bits bm \<pi>_def using ab n j that by (cases "d = 0"; cases "j = a"; cases "j = b") (auto simp add: ac_simps)
      show "bit ?w (j + 18) \<longleftrightarrow> j < n \<and> list_swap a b ss ! j \<noteq> None"
        unfolding off [OF disjI2 [OF refl]] SINGLE_rep(1) [OF assms(1) True] pi [OF order_refl] by (metis nth)
      have "\<pi> j < 14" using pi [OF n] j by simp
      from SINGLE_rep(2) [OF assms(1) True this]
      show "bit ?w (j + 4) \<longleftrightarrow> j < n \<and> list_swap a b ss ! j = Some True"
        unfolding off [OF disjI1 [OF refl]] pi [OF order_refl] by (metis nth)
    qed (use len low True in auto)
    then show ?thesis unfolding sw
      by (simp only: SlotBitmap_Swap_def Let_def True if_True a_def [symmetric] b_def [symmetric] d_def [symmetric])
  next
    case False
    have sb: "bit (swap_bits d (push_bit b 1) w) j = bit w (\<pi> j)" for w j
      unfolding bit_swap_bits bit_push_1 \<pi>_def using ab len by (cases "d = 0"; cases "j = a"; cases "j = b") (auto simp: ac_simps)
    have "sb_rep n (s\<lparr>val0 := swap_bits d (push_bit b 1) (val0 s), val1 := swap_bits d (push_bit b 1) (val1 s)\<rparr>) (list_swap a b ss)"
    proof (rule sb_rep_double)
      fix i
      show "bit (swap_bits d (push_bit b 1) (val0 s)) i \<longleftrightarrow> i < n \<and> list_swap a b ss ! i \<noteq> None"
        unfolding sb DOUBLE_rep [OF assms(1) False] pi [OF order_refl] by (metis nth)
      show "bit (swap_bits d (push_bit b 1) (val1 s)) i \<longleftrightarrow> i < n \<and> list_swap a b ss ! i = Some True"
        unfolding sb DOUBLE_rep [OF assms(1) False] pi [OF order_refl] by (metis nth)
    qed (use len False in auto)
    then show ?thesis unfolding sw
      by (simp only: SlotBitmap_Swap_def Let_def False if_False a_def [symmetric] b_def [symmetric] d_def [symmetric])
  qed
qed

end
