(* ===== verification/Dash_Bucket.thy ===== *)
theory Dash_Bucket
  imports Slot_Bitmap "HOL-Library.Multiset"
begin

text \<open>
  \<^verbatim>\<open>detail::BucketBase\<close>, \<^verbatim>\<open>VersionedBB\<close> and \<^verbatim>\<open>Segment::Bucket\<close> of \<^verbatim>\<open>src/core/dash_internal.h\<close>: a bucket of a dash
  table. It holds up to \<^verbatim>\<open>kSlotNum\<close> entries with a fingerprint each, and a small directory of the fingerprints of
  those of its entries that live in a stash bucket: up to four with their position, the others only counted. The
  pair of lists \<open>bucket_rep\<close> and \<open>stash_rep\<close> relate a bucket to is what the segment proofs work with.
\<close>

text \<open>The template parameters of a table: the sizes, whether buckets carry a version, the hash function, and the values a
  slot holds when it is constructed. \<^verbatim>\<open>kBucketNum\<close> counts the regular buckets.\<close>

record ('k, 'v) dash_policy =
  kSlotNum :: nat
  kBucketNum :: nat
  kUseVersion :: bool
  HashFn :: "'k \<Rightarrow> u64"
  key_init :: 'k
  value_init :: 'v

definition kStashFpLen :: nat where "kStashFpLen = 4"

definition kStashPresentBit :: u8 where "kStashPresentBit = push_bit 4 1"

record ('k, 'v) bucket =
  slotb :: slot_bitmap
  finger_arr :: "u8 list"
  stash_arr :: "u8 list"
  stash_busy :: u8
  stash_pos :: u8
  stash_probe_mask :: u8
  overflow_count :: u8
  bversion :: u64
  bkey :: "'k list"
  bvalue :: "'v list"

definition Bucket_new :: "('k, 'v) dash_policy \<Rightarrow> ('k, 'v) bucket" where
  "Bucket_new P =
     \<lparr>slotb = SlotBitmap_new, finger_arr = replicate (kSlotNum P) 0, stash_arr = replicate kStashFpLen 0,
      stash_busy = 0, stash_pos = 0, stash_probe_mask = 0, overflow_count = 0, bversion = 0,
      bkey = replicate (kSlotNum P) (key_init P), bvalue = replicate (kSlotNum P) (value_init P)\<rparr>"

subsection \<open>Slots\<close>

definition bucket_Size :: "('k, 'v) dash_policy \<Rightarrow> ('k, 'v) bucket \<Rightarrow> nat" where
  "bucket_Size P b = Size (kSlotNum P) (slotb b)"

definition bucket_IsFull :: "('k, 'v) dash_policy \<Rightarrow> ('k, 'v) bucket \<Rightarrow> bool" where
  "bucket_IsFull P b = (bucket_Size P b = kSlotNum P)"

definition bucket_Delete :: "('k, 'v) dash_policy \<Rightarrow> nat \<Rightarrow> ('k, 'v) bucket \<Rightarrow> ('k, 'v) bucket" where
  "bucket_Delete P sid b = b\<lparr>slotb := ClearSlot (kSlotNum P) sid (slotb b)\<rparr>"

definition bucket_ClearSlots :: "('k, 'v) dash_policy \<Rightarrow> u32 \<Rightarrow> ('k, 'v) bucket \<Rightarrow> ('k, 'v) bucket" where
  "bucket_ClearSlots P m b = b\<lparr>slotb := ClearSlots (kSlotNum P) m (slotb b)\<rparr>"

definition bucket_GetBusy :: "('k, 'v) dash_policy \<Rightarrow> ('k, 'v) bucket \<Rightarrow> u32" where
  "bucket_GetBusy P b = GetBusy (kSlotNum P) (slotb b)"

definition bucket_GetProbe :: "('k, 'v) dash_policy \<Rightarrow> bool \<Rightarrow> ('k, 'v) bucket \<Rightarrow> u32" where
  "bucket_GetProbe P probe b = GetProbe (kSlotNum P) probe (slotb b)"

text \<open>The vector comparison also reads bytes behind the fingerprints; those bits are masked by \<^verbatim>\<open>GetBusy\<close> wherever the
  result is used.\<close>

definition CompareFP :: "u8 \<Rightarrow> ('k, 'v) bucket \<Rightarrow> u32" where
  "CompareFP fp b = mask_of (length (finger_arr b)) (\<lambda>i. finger_arr b ! i = fp)"

definition bucket_Find :: "('k, 'v) dash_policy \<Rightarrow> u8 \<Rightarrow> bool \<Rightarrow> ('k, 'v) bucket \<Rightarrow> u32" where
  "bucket_Find P fp_hash probe b = (CompareFP fp_hash b AND bucket_GetBusy P b) AND bucket_GetProbe P probe b"

definition Fp :: "nat \<Rightarrow> ('k, 'v) bucket \<Rightarrow> u8" where
  "Fp i b = finger_arr b ! i"

definition SetHash :: "('k, 'v) dash_policy \<Rightarrow> nat \<Rightarrow> u8 \<Rightarrow> bool \<Rightarrow> ('k, 'v) bucket \<Rightarrow> ('k, 'v) bucket" where
  "SetHash P slot_id meta_hash probe b =
     b\<lparr>finger_arr := (finger_arr b)[slot_id := meta_hash], slotb := SetSlot (kSlotNum P) slot_id probe (slotb b)\<rparr>"

definition bucket_Insert :: "('k, 'v) dash_policy \<Rightarrow> nat \<Rightarrow> 'k \<Rightarrow> 'v \<Rightarrow> u8 \<Rightarrow> bool \<Rightarrow> ('k, 'v) bucket \<Rightarrow> ('k, 'v) bucket" where
  "bucket_Insert P sid u v meta_hash probe b =
     SetHash P sid meta_hash probe (b\<lparr>bkey := (bkey b)[sid := u], bvalue := (bvalue b)[sid := v]\<rparr>)"

definition TryInsertToBucket ::
  "('k, 'v) dash_policy \<Rightarrow> 'k \<Rightarrow> 'v \<Rightarrow> u8 \<Rightarrow> bool \<Rightarrow> ('k, 'v) bucket \<Rightarrow> (nat \<times> ('k, 'v) bucket) option" where
  "TryInsertToBucket P k v meta_hash probe b =
     (if bucket_IsFull P b then None
      else let sid = FindEmptySlot (kSlotNum P) (slotb b) in Some (sid, bucket_Insert P sid k v meta_hash probe b))"

definition FindByFp :: "('k, 'v) dash_policy \<Rightarrow> u8 \<Rightarrow> bool \<Rightarrow> ('k \<Rightarrow> bool) \<Rightarrow> ('k, 'v) bucket \<Rightarrow> nat option" where
  "FindByFp P fp_hash probe pred b =
     (let m = bucket_Find P fp_hash probe b
      in if m = 0 then None else find (\<lambda>i. bit m i \<and> pred (bkey b ! i)) [ctz m..<kSlotNum P])"

definition bucket_ShiftRight :: "('k, 'v) dash_policy \<Rightarrow> ('k, 'v) bucket \<Rightarrow> bool \<times> ('k, 'v) bucket" where
  "bucket_ShiftRight P b =
     (let (res, s) = ShiftLeft (kSlotNum P) (slotb b)
      in (res, b\<lparr>slotb := s, finger_arr := hd (finger_arr b) # butlast (finger_arr b),
                 bkey := last (bkey b) # butlast (bkey b), bvalue := last (bvalue b) # butlast (bvalue b)\<rparr>))"

definition bucket_Swap :: "('k, 'v) dash_policy \<Rightarrow> nat \<Rightarrow> nat \<Rightarrow> ('k, 'v) bucket \<Rightarrow> ('k, 'v) bucket" where
  "bucket_Swap P slot_a slot_b b =
     b\<lparr>slotb := SlotBitmap_Swap (kSlotNum P) slot_a slot_b (slotb b), finger_arr := list_swap slot_a slot_b (finger_arr b),
       bkey := list_swap slot_a slot_b (bkey b), bvalue := list_swap slot_a slot_b (bvalue b)\<rparr>"

text \<open>\<^verbatim>\<open>ForEachSlot\<close> reads the two masks once; the busy slots it calls back for, with their probe flags.\<close>

definition ForEachSlot :: "('k, 'v) dash_policy \<Rightarrow> ('k, 'v) bucket \<Rightarrow> (nat \<times> bool) list" where
  "ForEachSlot P b =
     map (\<lambda>j. (j, bit (bucket_GetProbe P True b) j)) (filter (bit (bucket_GetBusy P b)) [0..<kSlotNum P])"

definition UpdateVersion :: "('k, 'v) dash_policy \<Rightarrow> u64 \<Rightarrow> ('k, 'v) bucket \<Rightarrow> ('k, 'v) bucket" where
  "UpdateVersion P ver b = (if kUseVersion P then b\<lparr>bversion := max (bversion b) ver\<rparr> else b)"

definition bucket_Clear :: "('k, 'v) dash_policy \<Rightarrow> ('k, 'v) bucket \<Rightarrow> ('k, 'v) bucket" where
  "bucket_Clear P b =
     (let b1 = b\<lparr>slotb := SlotBitmap_Clear (kSlotNum P) (slotb b)\<rparr> in if kUseVersion P then b1\<lparr>bversion := 0\<rparr> else b1)"

subsection \<open>Stash pointers\<close>

definition HasStash :: "('k, 'v) bucket \<Rightarrow> bool" where
  "HasStash b = ((stash_busy b AND kStashPresentBit) \<noteq> 0)"

definition HasStashOverflow :: "('k, 'v) bucket \<Rightarrow> bool" where
  "HasStashOverflow b = (overflow_count b > 0)"

definition ClearStashPtrs :: "('k, 'v) bucket \<Rightarrow> ('k, 'v) bucket" where
  "ClearStashPtrs b = b\<lparr>stash_busy := 0, stash_pos := 0, stash_probe_mask := 0, overflow_count := 0\<rparr>"

text \<open>The two bits of entry \<open>i\<close> in \<^verbatim>\<open>stash_pos_\<close>.\<close>

definition stash_pos_at :: "nat \<Rightarrow> ('k, 'v) bucket \<Rightarrow> nat" where
  "stash_pos_at i b = unat (drop_bit (i * 2) (stash_pos b) AND 3)"

definition stash_hit :: "u8 \<Rightarrow> bool \<Rightarrow> ('k, 'v) bucket \<Rightarrow> nat \<Rightarrow> bool" where
  "stash_hit fp is_probe b i =
     (bit (stash_busy b) i \<and> stash_arr b ! i = fp \<and> bit (stash_probe_mask b) i = is_probe)"

definition IterateStash ::
  "u8 \<Rightarrow> bool \<Rightarrow> (nat \<Rightarrow> nat \<Rightarrow> nat option) \<Rightarrow> ('k, 'v) bucket \<Rightarrow> (nat \<times> nat) option" where
  "IterateStash fp is_probe func b =
     fold (\<lambda>i res. case res of Some r \<Rightarrow> Some r
                   | None \<Rightarrow> (if stash_hit fp is_probe b i
                              then (case func i (stash_pos_at i b) of Some sid \<Rightarrow> Some (stash_pos_at i b, sid) | None \<Rightarrow> None)
                              else None))
       [0..<kStashFpLen] None"

definition SetStash :: "u8 \<Rightarrow> nat \<Rightarrow> bool \<Rightarrow> ('k, 'v) bucket \<Rightarrow> ('k, 'v) bucket option" where
  "SetStash fp pos probe b =
     (let free_slot = ctz (NOT (ucast (stash_busy b)))
      in if free_slot \<ge> kStashFpLen then None
         else Some (b\<lparr>stash_arr := (stash_arr b)[free_slot := fp],
                      stash_busy := stash_busy b OR push_bit free_slot 1,
                      stash_probe_mask := stash_probe_mask b OR push_bit free_slot (of_bool probe),
                      stash_pos := (stash_pos b AND NOT (push_bit (free_slot * 2) 3)) OR push_bit (free_slot * 2) (of_nat pos)\<rparr>))"

definition ClearStash :: "u8 \<Rightarrow> nat \<Rightarrow> bool \<Rightarrow> ('k, 'v) bucket \<Rightarrow> ('k, 'v) bucket option" where
  "ClearStash fp pos probe b =
     (case find (\<lambda>i. stash_hit fp probe b i \<and> stash_pos_at i b = pos) [0..<kStashFpLen] of
        None \<Rightarrow> None
      | Some i \<Rightarrow> Some (b\<lparr>stash_busy := stash_busy b AND NOT (push_bit i 1),
                          stash_probe_mask := stash_probe_mask b AND NOT (push_bit i 1),
                          stash_pos := stash_pos b AND NOT (push_bit (i * 2) 3)\<rparr>))"

text \<open>The next two act on a bucket and its successor, which the code passes by pointer; the result is the pair.\<close>

definition SetStashPtr :: "nat \<Rightarrow> u8 \<Rightarrow> ('k, 'v) bucket \<Rightarrow> ('k, 'v) bucket \<Rightarrow> ('k, 'v) bucket \<times> ('k, 'v) bucket" where
  "SetStashPtr pos meta_hash b nxt =
     (let (b1, n1) = (case SetStash meta_hash pos False b of
                        Some b' \<Rightarrow> (b', nxt)
                      | None \<Rightarrow> (case SetStash meta_hash pos True nxt of
                                   Some n' \<Rightarrow> (b, n')
                                 | None \<Rightarrow> (b\<lparr>overflow_count := overflow_count b + 1\<rparr>, nxt)))
      in (b1\<lparr>stash_busy := stash_busy b1 OR kStashPresentBit\<rparr>, n1))"

definition UnsetStashPtr ::
  "u8 \<Rightarrow> nat \<Rightarrow> ('k, 'v) bucket \<Rightarrow> ('k, 'v) bucket \<Rightarrow> nat \<times> ('k, 'v) bucket \<times> ('k, 'v) bucket" where
  "UnsetStashPtr fp_hash pos b nxt =
     (let (res, b1, n1) = (case ClearStash fp_hash pos False b of
                             Some b' \<Rightarrow> (0, b', nxt)
                           | None \<Rightarrow> (case ClearStash fp_hash pos True nxt of
                                        Some n' \<Rightarrow> (1, b, n')
                                      | None \<Rightarrow> (0, b\<lparr>overflow_count := overflow_count b - 1\<rparr>, nxt)));
          mask1 = stash_busy b1 AND (kStashPresentBit - 1);
          mask2 = stash_busy n1 AND (kStashPresentBit - 1)
      in (res,
          if (mask1 AND NOT (stash_probe_mask b1)) = 0 \<and> overflow_count b1 = 0 \<and> (mask2 AND stash_probe_mask n1) = 0
          then b1\<lparr>stash_busy := stash_busy b1 AND NOT kStashPresentBit\<rparr> else b1,
          n1))"

subsection \<open>Buckets as lists of cells\<close>

text \<open>A busy slot: key, value, fingerprint and whether the entry belongs to the previous bucket.\<close>

type_synonym ('k, 'v) cell = "'k \<times> 'v \<times> u8 \<times> bool"

fun cell_key :: "('k, 'v) cell \<Rightarrow> 'k" where "cell_key (k, v, fp, probe) = k"

fun cell_fp :: "('k, 'v) cell \<Rightarrow> u8" where "cell_fp (k, v, fp, probe) = fp"

fun cell_probe :: "('k, 'v) cell \<Rightarrow> bool" where "cell_probe (k, v, fp, probe) = probe"

fun cell_item :: "('k, 'v) cell \<Rightarrow> 'k \<times> 'v" where "cell_item (k, v, fp, probe) = (k, v)"

definition bucket_rep :: "('k, 'v) dash_policy \<Rightarrow> ('k, 'v) bucket \<Rightarrow> ('k, 'v) cell option list \<Rightarrow> bool" where
  "bucket_rep P b vs \<longleftrightarrow>
     sb_rep (kSlotNum P) (slotb b) (map (map_option cell_probe) vs) \<and>
     length (finger_arr b) = kSlotNum P \<and> length (bkey b) = kSlotNum P \<and> length (bvalue b) = kSlotNum P \<and>
     (\<forall>i k v fp probe. i < kSlotNum P \<longrightarrow> vs ! i = Some (k, v, fp, probe) \<longrightarrow>
        bkey b ! i = k \<and> bvalue b ! i = v \<and> finger_arr b ! i = fp)"

lemma bucket_repD:
  assumes "bucket_rep P b vs"
  shows "sb_rep (kSlotNum P) (slotb b) (map (map_option cell_probe) vs)" "length vs = kSlotNum P" "kSlotNum P \<le> 28"
    "length (finger_arr b) = kSlotNum P" "length (bkey b) = kSlotNum P" "length (bvalue b) = kSlotNum P"
    "i < kSlotNum P \<Longrightarrow> vs ! i = Some (k, v, fp, probe) \<Longrightarrow> bkey b ! i = k \<and> bvalue b ! i = v \<and> finger_arr b ! i = fp"
  using assms sb_repD [of "kSlotNum P" "slotb b" "map (map_option cell_probe) vs"] by (auto simp: bucket_rep_def)

lemma Bucket_new_rep: "kSlotNum P \<le> 28 \<Longrightarrow> bucket_rep P (Bucket_new P) (replicate (kSlotNum P) None)"
  by (simp add: bucket_rep_def Bucket_new_def SlotBitmap_new_rep)

lemma busy_count_map_option [simp]: "busy_count (map (map_option f) vs) = length (filter (\<lambda>x. x \<noteq> None) vs)"
  by (induction vs) (auto simp: busy_count_def)

lemma bucket_Size_rep: "bucket_rep P b vs \<Longrightarrow> bucket_Size P b = length (filter (\<lambda>x. x \<noteq> None) vs)"
  by (simp add: bucket_Size_def Size_rep [OF bucket_repD(1)])

lemma bucket_IsFull_rep: "bucket_rep P b vs \<Longrightarrow> bucket_IsFull P b \<longleftrightarrow> None \<notin> set vs"
  using IsFull_rep [OF bucket_repD(1), of P b vs] by (auto simp: bucket_IsFull_def bucket_Size_def IsFull_def)

lemma bucket_GetBusy_rep: "bucket_rep P b vs \<Longrightarrow> bit (bucket_GetBusy P b) i \<longleftrightarrow> i < kSlotNum P \<and> vs ! i \<noteq> None"
  using GetBusy_rep [OF bucket_repD(1), of P b vs i] bucket_repD(2) [of P b vs] by (auto simp: bucket_GetBusy_def)

lemma bucket_GetProbe_rep:
  "bucket_rep P b vs \<Longrightarrow>
   bit (bucket_GetProbe P probe b) i \<longleftrightarrow> i < kSlotNum P \<and> (probe \<longleftrightarrow> (\<exists>c. vs ! i = Some c \<and> cell_probe c))"
  using GetProbe_rep [OF bucket_repD(1), of P b vs probe i] bucket_repD(2) [of P b vs] by (auto simp: bucket_GetProbe_def)

lemma bucket_Delete_rep:
  assumes "bucket_rep P b vs" "i < kSlotNum P" "vs ! i \<noteq> None"
  shows "bucket_rep P (bucket_Delete P i b) (vs[i := None])"
  using assms ClearSlot_rep [OF bucket_repD(1) [OF assms(1)], of i] bucket_repD(2) [OF assms(1)]
  by (auto simp: bucket_rep_def bucket_Delete_def map_update nth_list_update split: if_splits)

lemma bucket_ClearSlots_rep:
  assumes "bucket_rep P b vs" "\<And>i. bit m i \<Longrightarrow> i < kSlotNum P \<and> vs ! i \<noteq> None"
  shows "bucket_rep P (bucket_ClearSlots P m b) (clear_list m vs)"
proof -
  note len = bucket_repD(2) [OF assms(1)]
  have "map (map_option cell_probe) (clear_list m vs) = clear_list m (map (map_option cell_probe) vs)"
    by (auto simp: clear_list_def)
  moreover have "sb_rep (kSlotNum P) (ClearSlots (kSlotNum P) m (slotb b)) (clear_list m (map (map_option cell_probe) vs))"
    by (rule ClearSlots_rep [OF bucket_repD(1) [OF assms(1)]]) (use assms(2) len in auto)
  ultimately show ?thesis using assms(1) len
    by (auto simp: bucket_rep_def bucket_ClearSlots_def nth_clear_list split: if_splits)
qed

lemma bucket_Insert_rep:
  assumes "bucket_rep P b vs" "i < kSlotNum P" "vs ! i = None"
  shows "bucket_rep P (bucket_Insert P i k v fp probe b) (vs[i := Some (k, v, fp, probe)])"
  using assms SetSlot_rep [OF bucket_repD(1) [OF assms(1)], of i probe] bucket_repD(2) [OF assms(1)]
  by (auto simp: bucket_rep_def bucket_Insert_def SetHash_def map_update nth_list_update split: if_splits)

text \<open>The first free slot, where \<^verbatim>\<open>TryInsertToBucket\<close> puts a new entry.\<close>

definition first_free :: "'a option list \<Rightarrow> nat" where
  "first_free vs = length (takeWhile (\<lambda>x. x \<noteq> None) vs)"

lemma first_free:
  assumes "None \<in> set vs"
  shows "first_free vs < length vs" "vs ! first_free vs = None" "j < first_free vs \<Longrightarrow> vs ! j \<noteq> None"
proof -
  show l: "first_free vs < length vs" using assms
    by (induction vs) (auto simp: first_free_def)
  then show "vs ! first_free vs = None" using nth_length_takeWhile [of "\<lambda>x. x \<noteq> None" vs] by (simp add: first_free_def)
  assume j: "j < first_free vs"
  then have "takeWhile (\<lambda>x. x \<noteq> None) vs ! j = vs ! j" unfolding first_free_def by (rule takeWhile_nth)
  then show "vs ! j \<noteq> None" using set_takeWhileD nth_mem [OF j [unfolded first_free_def]] by metis
qed

lemma FindEmptySlot_first_free:
  assumes "bucket_rep P b vs" "None \<in> set vs"
  shows "FindEmptySlot (kSlotNum P) (slotb b) = first_free vs"
proof -
  let ?e = "FindEmptySlot (kSlotNum P) (slotb b)"
  have "None \<in> set (map (map_option cell_probe) vs)" using assms(2) by force
  note e = FindEmptySlot_rep [OF bucket_repD(1) [OF assms(1)] this] and f = first_free [OF assms(2)] and len = bucket_repD(2) [OF assms(1)]
  have "\<not> ?e < first_free vs" using e(1,2) f(3) [of ?e] len by auto
  moreover have "\<not> first_free vs < ?e" using e(3) [of "first_free vs"] f(1,2) len by auto
  ultimately show ?thesis by simp
qed

lemma TryInsertToBucket_full: "bucket_rep P b vs \<Longrightarrow> None \<notin> set vs \<Longrightarrow> TryInsertToBucket P k v fp probe b = None"
  by (simp add: TryInsertToBucket_def bucket_IsFull_rep)

lemma TryInsertToBucket_free:
  assumes "bucket_rep P b vs" "None \<in> set vs"
  shows "\<exists>b'. TryInsertToBucket P k v fp probe b = Some (first_free vs, b') \<and>
           bucket_rep P b' (vs[first_free vs := Some (k, v, fp, probe)]) \<and> b' = bucket_Insert P (first_free vs) k v fp probe b"
  using assms first_free [OF assms(2)] bucket_repD(2) [OF assms(1)] bucket_Insert_rep [OF assms(1), of "first_free vs" k v fp probe]
  by (simp add: TryInsertToBucket_def bucket_IsFull_rep FindEmptySlot_first_free Let_def)

lemma bucket_Find_rep:
  assumes "bucket_rep P b vs"
  shows "bit (bucket_Find P fp probe b) i \<longleftrightarrow> i < kSlotNum P \<and> (\<exists>k v. vs ! i = Some (k, v, fp, probe))"
proof (cases "i < kSlotNum P")
  case True
  then have "i < 32" using bucket_repD(3) [OF assms] by simp
  then show ?thesis using True bucket_repD(4) [OF assms] bucket_repD(7) [OF assms True]
    unfolding bucket_Find_def bit_and_iff CompareFP_def bit_mask_of bucket_GetBusy_rep [OF assms] bucket_GetProbe_rep [OF assms]
    by auto
next
  case False
  then show ?thesis
    unfolding bucket_Find_def bit_and_iff CompareFP_def bit_mask_of bucket_GetBusy_rep [OF assms] by auto
qed

lemma FindByFp_Some:
  assumes "bucket_rep P b vs" "FindByFp P fp probe pred b = Some i"
  shows "i < kSlotNum P \<and> (\<exists>k v. vs ! i = Some (k, v, fp, probe) \<and> pred k)"
proof -
  obtain "bit (bucket_Find P fp probe b) i" "pred (bkey b ! i)"
    using assms(2) by (auto simp: FindByFp_def Let_def find_Some_iff split: if_splits)
  then show ?thesis using bucket_Find_rep [OF assms(1)] bucket_repD(7) [OF assms(1)] by blast
qed

lemma FindByFp_None:
  assumes "bucket_rep P b vs" "FindByFp P fp probe pred b = None" "i < kSlotNum P" "vs ! i = Some (k, v, fp, probe)"
  shows "\<not> pred k"
proof -
  let ?m = "bucket_Find P fp probe b"
  have b: "bit ?m i" using bucket_Find_rep [OF assms(1)] assms(3,4) by auto
  then have nz: "?m \<noteq> 0" by auto
  then have "ctz ?m \<le> i" using ctz_bit(2) [OF nz, of i] b by fastforce
  then have "\<not> pred (bkey b ! i)" using assms(2,3) b nz by (auto simp: FindByFp_def find_None_iff Let_def)
  then show ?thesis using bucket_repD(7) [OF assms(1,3,4)] by simp
qed

lemma UpdateVersion_rep [simp]: "bucket_rep P (UpdateVersion P ver b) vs = bucket_rep P b vs"
  by (simp add: bucket_rep_def UpdateVersion_def)

lemma bucket_ShiftRight_rep:
  assumes "bucket_rep P b vs" "0 < kSlotNum P"
  shows "fst (bucket_ShiftRight P b) \<longleftrightarrow> last vs \<noteq> None" "bucket_rep P (snd (bucket_ShiftRight P b)) (None # butlast vs)"
proof -
  have ne: "vs \<noteq> []" using bucket_repD(2) [OF assms(1)] assms(2) by auto
  note sl = ShiftLeft_rep [OF bucket_repD(1) [OF assms(1)] assms(2)]
  show "fst (bucket_ShiftRight P b) \<longleftrightarrow> last vs \<noteq> None"
    using sl(1) ne by (simp add: bucket_ShiftRight_def split_beta last_map)
  have "map (map_option cell_probe) (None # butlast vs) = None # butlast (map (map_option cell_probe) vs)"
    by (simp add: map_butlast)
  then show "bucket_rep P (snd (bucket_ShiftRight P b)) (None # butlast vs)"
    using sl(2) bucket_repD [OF assms(1)]
    by (auto simp: bucket_rep_def bucket_ShiftRight_def split_beta nth_Cons nth_butlast assms(2) split: nat.splits)
qed

lemma map_list_swap: "i < length xs \<Longrightarrow> j < length xs \<Longrightarrow> map f (list_swap i j xs) = list_swap i j (map f xs)"
  by (simp add: list_swap_def map_update)

lemma bucket_Swap_rep:
  assumes "bucket_rep P b vs" "x < kSlotNum P" "y < kSlotNum P"
  shows "bucket_rep P (bucket_Swap P x y b) (list_swap x y vs)"
  using SlotBitmap_Swap_rep [OF bucket_repD(1) [OF assms(1)] assms(2,3)] bucket_repD [OF assms(1)] assms(2,3)
  by (auto simp: bucket_rep_def bucket_Swap_def map_list_swap nth_list_swap split: if_splits)

lemma ForEachSlot_rep:
  assumes "bucket_rep P b vs"
  shows "ForEachSlot P b = map (\<lambda>j. (j, cell_probe (the (vs ! j)))) (filter (\<lambda>j. vs ! j \<noteq> None) [0..<length vs])"
proof -
  note len = bucket_repD(2) [OF assms]
  have "filter (bit (bucket_GetBusy P b)) [0..<kSlotNum P] = filter (\<lambda>j. vs ! j \<noteq> None) [0..<length vs]"
    by (rule filter_cong) (auto simp: bucket_GetBusy_rep [OF assms] len)
  then show ?thesis by (auto simp: ForEachSlot_def bucket_GetProbe_rep [OF assms] len)
qed

lemma bucket_Clear_rep: "kSlotNum P \<le> 28 \<Longrightarrow> bucket_rep P b vs \<Longrightarrow> bucket_rep P (bucket_Clear P b) (replicate (kSlotNum P) None)"
  by (simp add: bucket_rep_def bucket_Clear_def SlotBitmap_Clear_rep Let_def)

subsection \<open>Stash pointers as lists\<close>

text \<open>An entry of the stash directory: fingerprint, position of the stash bucket, and whether it stands for an entry of the
  previous bucket.\<close>

type_synonym stash_ptr = "u8 \<times> nat \<times> bool"

definition stash_rep :: "('k, 'v) bucket \<Rightarrow> stash_ptr option list \<Rightarrow> bool" where
  "stash_rep b st \<longleftrightarrow> length (stash_arr b) = 4 \<and> length st = 4 \<and> (\<forall>i. bit (stash_busy b) i \<longrightarrow> i < 5) \<and>
     (\<forall>i < 4. (bit (stash_busy b) i \<longleftrightarrow> st ! i \<noteq> None) \<and>
              (bit (stash_probe_mask b) i \<longleftrightarrow> (\<exists>fp pos. st ! i = Some (fp, pos, True))) \<and>
              (\<forall>fp pos probe. st ! i = Some (fp, pos, probe) \<longrightarrow> stash_arr b ! i = fp \<and> stash_pos_at i b = pos))"

lemma bit_3: "bit (3 :: u8) i \<longleftrightarrow> i < 2"
proof -
  have e: "(3 :: u8) = mask 2" by (simp add: mask_eq_exp_minus_1)
  show ?thesis unfolding e by (auto simp only: bit_mask_iff) auto
qed

lemma and_3_eqI: "bit (x :: u8) 0 = bit y 0 \<Longrightarrow> bit x 1 = bit y 1 \<Longrightarrow> x AND 3 = y AND 3"
  by (rule bit_eqI) (auto simp only: bit_and_iff bit_3 numeral_2_eq_2 less_Suc_eq less_one One_nat_def)

lemma stash_pos_at_cong:
  assumes "bit (stash_pos b) (i * 2) = bit (stash_pos b') (j * 2)" "bit (stash_pos b) (i * 2 + 1) = bit (stash_pos b') (j * 2 + 1)"
  shows "stash_pos_at i b = stash_pos_at j b'"
proof -
  have "drop_bit (i * 2) (stash_pos b) AND 3 = drop_bit (j * 2) (stash_pos b') AND 3"
    by (rule and_3_eqI) (use assms in \<open>simp_all add: bit_drop_bit_eq\<close>)
  then show ?thesis by (simp add: stash_pos_at_def)
qed

lemma stash_pos_at_set:
  assumes "i < 4" "pos < 4" "stash_pos b = (w AND NOT (push_bit (i * 2) 3)) OR push_bit (i * 2) (of_nat pos)"
  shows "stash_pos_at i b = pos"
proof -
  have "drop_bit (i * 2) (stash_pos b) AND 3 = of_nat pos AND 3"
  proof (rule and_3_eqI)
    show "bit (drop_bit (i * 2) (stash_pos b)) 0 = bit (of_nat pos :: u8) 0"
      "bit (drop_bit (i * 2) (stash_pos b)) 1 = bit (of_nat pos :: u8) 1"
      using assms(1) unfolding assms(3) bit_drop_bit_eq comp_apply bit_or_iff bit_and_iff bit_not_iff bit_push_bit_iff bit_3 possible_bit_word
      by auto
  qed
  moreover have "pos \<in> {0, 1, 2, 3}" using assms(2) by auto
  ultimately show ?thesis by (auto simp: stash_pos_at_def)
qed

lemma stash_pos_at_other:
  assumes "i < 4" "j < 4" "i \<noteq> j" "pos < 4"
    "stash_pos b = (stash_pos b' AND NOT (push_bit (i * 2) 3)) OR push_bit (i * 2) (of_nat pos) \<or>
     stash_pos b = stash_pos b' AND NOT (push_bit (i * 2) 3)"
  shows "stash_pos_at j b = stash_pos_at j b'"
proof -
  have sm: "bit (of_nat pos :: u8) m \<Longrightarrow> m < 2" for m
  proof -
    assume "bit (of_nat pos :: u8) m"
    then have "bit pos m" by (simp add: bit_of_nat_iff)
    then show ?thesis using assms(4) bit_take_bit_iff [of 2 pos m] by (simp add: take_bit_nat_eq_self)
  qed
  have "bit (stash_pos b) m = bit (stash_pos b') m" if "m = j * 2 \<or> m = j * 2 + 1" for m
    using assms(5)
  proof
    assume e: "stash_pos b = (stash_pos b' AND NOT (push_bit (i * 2) 3)) OR push_bit (i * 2) (of_nat pos)"
    show ?thesis using that assms(1-3) sm [of "m - i * 2"]
      unfolding e bit_or_iff bit_and_iff bit_not_iff bit_push_bit_iff bit_3 possible_bit_word by auto
  next
    assume e: "stash_pos b = stash_pos b' AND NOT (push_bit (i * 2) 3)"
    show ?thesis using that assms(1-3)
      unfolding e bit_and_iff bit_not_iff bit_push_bit_iff bit_3 possible_bit_word by auto
  qed
  then show ?thesis by (intro stash_pos_at_cong) auto
qed

lemma ctz_stash:
  assumes "stash_rep b st"
  shows "None \<in> set st \<Longrightarrow> ctz (NOT (ucast (stash_busy b))) = first_free st"
    "None \<notin> set st \<Longrightarrow> 4 \<le> ctz (NOT (ucast (stash_busy b)))"
proof -
  let ?w = "NOT (ucast (stash_busy b)) :: u32"
  have bits: "bit ?w i \<longleftrightarrow> i < 32 \<and> \<not> bit (stash_busy b) i" for i
    using bit_imp_le_length [of "stash_busy b" i] by (auto simp: bit_not_iff bit_unsigned_iff)
  have "bit ?w 31" using assms bits [of 31] by (auto simp: stash_rep_def)
  then have nz: "?w \<noteq> 0" by auto
  note c = ctz_bit [OF nz]
  have b4: "bit (stash_busy b) i \<longleftrightarrow> st ! i \<noteq> None" if "i < 4" for i using assms that by (simp add: stash_rep_def)
  have len: "length st = 4" using assms by (simp add: stash_rep_def)
  show "4 \<le> ctz ?w" if "None \<notin> set st"
  proof (rule ccontr)
    assume lt: "\<not> 4 \<le> ctz ?w"
    then have "st ! ctz ?w = None" using c(1) bits b4 [of "ctz ?w"] by (metis linorder_not_le)
    then show False using that lt len by (metis linorder_not_le nth_mem)
  qed
  assume f: "None \<in> set st"
  note f = first_free [OF f]
  have "\<not> ctz ?w < first_free st" using c(1) f(1) f(3) [of "ctz ?w"] bits [of "ctz ?w"] b4 [of "ctz ?w"] len by auto
  moreover have "\<not> first_free st < ctz ?w" using c(2) [of "first_free st"] f(1,2) bits [of "first_free st"] b4 [of "first_free st"] len by auto
  ultimately show "ctz ?w = first_free st" by simp
qed

definition same_slots :: "('k, 'v) bucket \<Rightarrow> ('k, 'v) bucket \<Rightarrow> bool" where
  "same_slots b b' \<longleftrightarrow> slotb b' = slotb b \<and> finger_arr b' = finger_arr b \<and> bkey b' = bkey b \<and> bvalue b' = bvalue b \<and>
     bversion b' = bversion b"

lemma same_slots_rep: "same_slots b b' \<Longrightarrow> bucket_rep P b' vs = bucket_rep P b vs"
  by (simp add: same_slots_def bucket_rep_def)

lemma HasStash_bit: "HasStash b \<longleftrightarrow> bit (stash_busy b) 4"
  by (simp add: HasStash_def kStashPresentBit_def bit_iff_and_push_bit_not_eq_0)

lemma bit8_push_1: "bit (push_bit k (1 :: u8)) i \<longleftrightarrow> i = k \<and> k < 8"
  by (auto simp: bit_push_bit_iff bit_exp_iff)

lemma bit8_push_of_bool: "bit (push_bit k (of_bool q :: u8)) i \<longleftrightarrow> i = k \<and> k < 8 \<and> q"
  by (cases q) (simp_all only: of_bool_eq bit8_push_1 push_bit_of_0 bit_0_eq bot_apply bot_bool_def simp_thms)

lemma bit8_and_not_push: "bit (x AND NOT (push_bit k (1 :: u8))) j \<longleftrightarrow> bit x j \<and> j \<noteq> k"
  using bit_imp_le_length [of x j] unfolding bit_and_iff bit_not_iff bit8_push_1 possible_bit_word by auto

lemma SetStash_full: "stash_rep b st \<Longrightarrow> None \<notin> set st \<Longrightarrow> SetStash fp pos probe b = None"
  using ctz_stash(2) [of b st] by (simp add: SetStash_def Let_def kStashFpLen_def)

lemma SetStash_free:
  assumes "stash_rep b st" "None \<in> set st" "pos < 4"
  shows "\<exists>b'. SetStash fp pos probe b = Some b' \<and> stash_rep b' (st[first_free st := Some (fp, pos, probe)]) \<and> same_slots b b' \<and>
           HasStash b' = HasStash b \<and> overflow_count b' = overflow_count b"
proof -
  define i where "i = first_free st"
  have len: "length st = 4" "length (stash_arr b) = 4" using assms(1) by (simp_all add: stash_rep_def)
  have i: "i < 4" "st ! i = None" using first_free [OF assms(2)] len by (auto simp: i_def)
  define b' where "b' = b\<lparr>stash_arr := (stash_arr b)[i := fp], stash_busy := stash_busy b OR push_bit i 1,
    stash_probe_mask := stash_probe_mask b OR push_bit i (of_bool probe),
    stash_pos := (stash_pos b AND NOT (push_bit (i * 2) 3)) OR push_bit (i * 2) (of_nat pos)\<rparr>"
  have s: "SetStash fp pos probe b = Some b'"
    using ctz_stash(1) [OF assms(1,2)] i(1) by (simp add: SetStash_def Let_def kStashFpLen_def b'_def i_def)
  have f: "stash_busy b' = stash_busy b OR push_bit i 1" "stash_probe_mask b' = stash_probe_mask b OR push_bit i (of_bool probe)"
    and pos: "stash_pos b' = (stash_pos b AND NOT (push_bit (i * 2) 3)) OR push_bit (i * 2) (of_nat pos)"
    by (simp_all add: b'_def)
  have busy: "bit (stash_busy b') j \<longleftrightarrow> bit (stash_busy b) j \<or> j = i" for j
    using i(1) unfolding f bit_or_iff bit8_push_1 by auto
  have prb: "bit (stash_probe_mask b') j \<longleftrightarrow> bit (stash_probe_mask b) j \<or> (j = i \<and> probe)" for j
    using i(1) unfolding f bit_or_iff bit8_push_of_bool by auto
  have at: "stash_pos_at j b' = (if j = i then pos else stash_pos_at j b)" if "j < 4" for j
    using stash_pos_at_set [OF i(1) assms(3) pos] stash_pos_at_other [OF i(1) that _ assms(3), of b' b] pos by auto
  have arr: "stash_arr b' = (stash_arr b)[i := fp]" by (simp add: b'_def)
  have "stash_rep b' (st[i := Some (fp, pos, probe)])"
    unfolding stash_rep_def
  proof (intro conjI allI impI)
    fix j :: nat assume j: "j < 4"
    have r: "bit (stash_busy b) j \<longleftrightarrow> st ! j \<noteq> None" "bit (stash_probe_mask b) j \<longleftrightarrow> (\<exists>f p. st ! j = Some (f, p, True))"
      "\<And>f p q. st ! j = Some (f, p, q) \<Longrightarrow> stash_arr b ! j = f \<and> stash_pos_at j b = p"
      using assms(1) j by (auto simp: stash_rep_def)
    have n: "st[i := Some (fp, pos, probe)] ! j = (if j = i then Some (fp, pos, probe) else st ! j)" using j i len by simp
    show "bit (stash_busy b') j \<longleftrightarrow> st[i := Some (fp, pos, probe)] ! j \<noteq> None" using r(1) unfolding busy n by auto
    show "bit (stash_probe_mask b') j \<longleftrightarrow> (\<exists>f p. st[i := Some (fp, pos, probe)] ! j = Some (f, p, True))"
      using r(2) i(2) unfolding prb n by auto
    fix f p q assume "st[i := Some (fp, pos, probe)] ! j = Some (f, p, q)"
    then show "stash_arr b' ! j = f" "stash_pos_at j b' = p"
      using r(3) [of f p q] at [OF j] i(1) len(2) unfolding n arr by (auto split: if_splits)
  qed (use len assms(1) i(1) busy in \<open>auto simp: arr stash_rep_def\<close>)
  then show ?thesis using s i(1) busy [of 4]
    by (auto simp: i_def HasStash_bit same_slots_def b'_def)
qed

lemma ClearStash_None:
  assumes "stash_rep b st" "ClearStash fp pos probe b = None"
  shows "Some (fp, pos, probe) \<notin> set st"
proof
  assume "Some (fp, pos, probe) \<in> set st"
  then obtain i where i: "i < 4" "st ! i = Some (fp, pos, probe)" using assms(1) by (auto simp: in_set_conv_nth stash_rep_def)
  then have "bit (stash_busy b) i" "stash_arr b ! i = fp" "stash_pos_at i b = pos" "bit (stash_probe_mask b) i = probe"
    using assms(1) by (auto simp: stash_rep_def)
  then show False using assms(2) i(1)
    by (auto simp: ClearStash_def find_None_iff stash_hit_def kStashFpLen_def split: option.splits)
qed

lemma ClearStash_Some:
  assumes "stash_rep b st" "ClearStash fp pos probe b = Some b'"
  shows "\<exists>i < 4. st ! i = Some (fp, pos, probe) \<and> stash_rep b' (st[i := None]) \<and> same_slots b b' \<and>
           HasStash b' = HasStash b \<and> overflow_count b' = overflow_count b"
proof -
  obtain i where i: "find (\<lambda>i. stash_hit fp probe b i \<and> stash_pos_at i b = pos) [0..<kStashFpLen] = Some i"
    and b': "b' = b\<lparr>stash_busy := stash_busy b AND NOT (push_bit i 1), stash_probe_mask := stash_probe_mask b AND NOT (push_bit i 1),
                  stash_pos := stash_pos b AND NOT (push_bit (i * 2) 3)\<rparr>"
    using assms(2) by (auto simp: ClearStash_def split: option.splits)
  then have hit: "i < 4" "bit (stash_busy b) i" "stash_arr b ! i = fp" "bit (stash_probe_mask b) i = probe" "stash_pos_at i b = pos"
    by (auto simp: find_Some_iff stash_hit_def kStashFpLen_def)
  have len: "length st = 4" "length (stash_arr b) = 4" using assms(1) by (simp_all add: stash_rep_def)
  from hit assms(1) obtain f p q where e: "st ! i = Some (f, p, q)" unfolding stash_rep_def by (metis option.exhaust prod_cases3)
  then have st: "st ! i = Some (fp, pos, probe)" using hit assms(1) by (cases q) (auto simp: stash_rep_def)
  have f: "stash_busy b' = stash_busy b AND NOT (push_bit i 1)" "stash_probe_mask b' = stash_probe_mask b AND NOT (push_bit i 1)"
    "stash_pos b' = stash_pos b AND NOT (push_bit (i * 2) 3)" by (simp_all add: b')
  have busy: "bit (stash_busy b') j \<longleftrightarrow> bit (stash_busy b) j \<and> j \<noteq> i" for j unfolding f by (rule bit8_and_not_push)
  have prb: "bit (stash_probe_mask b') j \<longleftrightarrow> bit (stash_probe_mask b) j \<and> j \<noteq> i" for j unfolding f by (rule bit8_and_not_push)
  have at: "stash_pos_at j b' = stash_pos_at j b" if "j < 4" "j \<noteq> i" for j
    by (rule stash_pos_at_other [of i j 0]) (use hit(1) that f(3) in auto)
  have "stash_rep b' (st[i := None])"
    unfolding stash_rep_def
  proof (intro conjI allI impI)
    fix j :: nat assume j: "j < 4"
    have r: "bit (stash_busy b) j \<longleftrightarrow> st ! j \<noteq> None" "bit (stash_probe_mask b) j \<longleftrightarrow> (\<exists>f p. st ! j = Some (f, p, True))"
      "\<And>f p q. st ! j = Some (f, p, q) \<Longrightarrow> stash_arr b ! j = f \<and> stash_pos_at j b = p"
      using assms(1) j by (auto simp: stash_rep_def)
    have n: "st[i := None] ! j = (if j = i then None else st ! j)" using j hit(1) len by simp
    show "bit (stash_busy b') j \<longleftrightarrow> st[i := None] ! j \<noteq> None" using r(1) unfolding busy n by auto
    show "bit (stash_probe_mask b') j \<longleftrightarrow> (\<exists>f p. st[i := None] ! j = Some (f, p, True))" using r(2) unfolding prb n by auto
    fix f p q assume "st[i := None] ! j = Some (f, p, q)"
    then show "stash_arr b' ! j = f" "stash_pos_at j b' = p" using r(3) [of f p q] at [OF j] unfolding n by (auto simp: b' split: if_splits)
  qed (use len assms(1) busy in \<open>auto simp: b' stash_rep_def\<close>)
  then show ?thesis using hit(1) st busy [of 4] by (auto simp: HasStash_bit same_slots_def b')
qed

lemma fold_first:
  "fold (\<lambda>i res. case res of Some r \<Rightarrow> Some r | None \<Rightarrow> f i) xs z =
   (case z of Some r \<Rightarrow> Some r | None \<Rightarrow> (case find (\<lambda>i. f i \<noteq> None) xs of None \<Rightarrow> None | Some i \<Rightarrow> f i))"
  by (induction xs arbitrary: z) (auto split: option.splits)

lemma first_None: "(case find (\<lambda>i. f i \<noteq> None) xs of None \<Rightarrow> None | Some i \<Rightarrow> f i) = None \<longleftrightarrow> (\<forall>i\<in>set xs. f i = None)"
  by (induction xs) (simp_all del: not_None_eq)

lemma stash_hit_rep:
  assumes "stash_rep b st" "i < 4"
  shows "stash_hit fp probe b i \<longleftrightarrow> st ! i = Some (fp, stash_pos_at i b, probe)"
proof -
  have r: "bit (stash_busy b) i \<longleftrightarrow> st ! i \<noteq> None" "bit (stash_probe_mask b) i \<longleftrightarrow> (\<exists>f p. st ! i = Some (f, p, True))"
    "\<And>f p q. st ! i = Some (f, p, q) \<Longrightarrow> stash_arr b ! i = f \<and> stash_pos_at i b = p"
    using assms by (auto simp: stash_rep_def)
  show ?thesis
  proof (cases "st ! i")
    case None
    then show ?thesis using r(1) by (simp add: stash_hit_def)
  next
    case (Some x)
    then obtain f p q where e: "st ! i = Some (f, p, q)" by (cases x) auto
    then show ?thesis using r(1,2) r(3) [OF e] by (auto simp: stash_hit_def)
  qed
qed

lemma IterateStash_cases:
  assumes "stash_rep b st"
  shows "IterateStash fp probe (\<lambda>_. g) b = Some (pos, sid) \<Longrightarrow> Some (fp, pos, probe) \<in> set st \<and> g pos = Some sid"
    "IterateStash fp probe (\<lambda>_. g) b = None \<Longrightarrow> Some (fp, pos, probe) \<in> set st \<Longrightarrow> g pos = None"
proof -
  define h where "h i = (if stash_hit fp probe b i
    then (case g (stash_pos_at i b) of Some sid \<Rightarrow> Some (stash_pos_at i b, sid) | None \<Rightarrow> None) else None)" for i
  have it: "IterateStash fp probe (\<lambda>_. g) b = (case find (\<lambda>i. h i \<noteq> None) [0..<4] of None \<Rightarrow> None | Some i \<Rightarrow> h i)"
    unfolding IterateStash_def kStashFpLen_def h_def [symmetric] fold_first by simp
  have len: "length st = 4" using assms by (simp add: stash_rep_def)
  show "Some (fp, pos, probe) \<in> set st \<and> g pos = Some sid" if "IterateStash fp probe (\<lambda>_. g) b = Some (pos, sid)"
  proof -
    from that obtain i where i: "i < 4" "h i = Some (pos, sid)"
      by (auto simp: it find_Some_iff split: option.splits)
    then have "st ! i = Some (fp, pos, probe)" "g pos = Some sid"
      using stash_hit_rep [OF assms i(1), of fp probe] by (auto simp: h_def split: if_splits option.splits)
    then show ?thesis using i(1) len by (metis nth_mem)
  qed
  show "g pos = None" if n: "IterateStash fp probe (\<lambda>_. g) b = None" and m: "Some (fp, pos, probe) \<in> set st"
  proof -
    from m obtain i where i: "i < 4" "st ! i = Some (fp, pos, probe)" using len by (auto simp: in_set_conv_nth)
    have "stash_pos_at i b = pos" using assms i by (auto simp: stash_rep_def)
    moreover have "h i = None" using n i(1) unfolding it first_None by simp
    ultimately show ?thesis using stash_hit_rep [OF assms i(1), of fp probe] i(2) by (auto simp: h_def split: option.splits)
  qed
qed

text \<open>The pointers of a bucket for its own entries (\<open>probe\<close> false) or for those of the previous bucket (\<open>probe\<close> true).\<close>

primrec somes :: "'a option list \<Rightarrow> 'a multiset" where
  "somes [] = {#}"
| "somes (x # xs) = (case x of None \<Rightarrow> somes xs | Some y \<Rightarrow> add_mset y (somes xs))"

definition ptrs :: "bool \<Rightarrow> stash_ptr option list \<Rightarrow> (u8 \<times> nat) multiset" where
  "ptrs probe st = image_mset (\<lambda>(fp, pos, _). (fp, pos)) (filter_mset (\<lambda>(_, _, q). q = probe) (somes st))"

lemma somes_split: "i < length xs \<Longrightarrow> somes xs = (case xs ! i of None \<Rightarrow> {#} | Some y \<Rightarrow> {#y#}) + somes (xs[i := None])"
proof (induction xs arbitrary: i)
  case (Cons a xs)
  then show ?case
  proof (cases i)
    case (Suc j)
    then show ?thesis using Cons.IH [of j] Cons.prems by (auto split: option.splits)
  qed (auto split: option.splits)
qed simp

lemma somes_update_Some: "i < length xs \<Longrightarrow> xs ! i = None \<Longrightarrow> somes (xs[i := Some x]) = add_mset x (somes xs)"
  using somes_split [of i xs] somes_split [of i "xs[i := Some x]"] by simp

lemma somes_update_None:
  assumes "i < length xs" "xs ! i = Some x"
  shows "somes xs = add_mset x (somes (xs[i := None]))"
  using somes_split [OF assms(1)] assms(2) by simp

lemma in_somes: "x \<in># somes xs \<longleftrightarrow> Some x \<in> set xs"
  by (induction xs) (auto split: option.splits)

lemma size_somes: "size (somes xs) = length (filter (\<lambda>x. x \<noteq> None) xs)"
  by (induction xs) (auto split: option.splits)

lemma in_ptrs: "(fp, pos) \<in># ptrs probe st \<longleftrightarrow> Some (fp, pos, probe) \<in> set st"
  by (auto simp: ptrs_def in_somes image_iff)

lemma ptrs_add:
  "i < length st \<Longrightarrow> st ! i = None \<Longrightarrow>
   ptrs q (st[i := Some (fp, pos, probe)]) = (if q = probe then add_mset (fp, pos) (ptrs q st) else ptrs q st)"
  by (auto simp: ptrs_def somes_update_Some)

lemma ptrs_remove:
  assumes "i < length st" "st ! i = Some (fp, pos, probe)"
  shows "ptrs q (st[i := None]) = (if q = probe then ptrs q st - {#(fp, pos)#} else ptrs q st)"
  using somes_update_None [OF assms] by (auto simp: ptrs_def)

lemma bit_present: "bit kStashPresentBit i \<longleftrightarrow> i = 4"
  unfolding kStashPresentBit_def bit8_push_1 by simp

lemma stash_rep_present:
  assumes "stash_rep b st"
  shows "stash_rep (b\<lparr>stash_busy := stash_busy b OR kStashPresentBit\<rparr>) st" "HasStash (b\<lparr>stash_busy := stash_busy b OR kStashPresentBit\<rparr>)"
    "stash_rep (b\<lparr>stash_busy := stash_busy b AND NOT kStashPresentBit\<rparr>) st"
    "\<not> HasStash (b\<lparr>stash_busy := stash_busy b AND NOT kStashPresentBit\<rparr>)"
proof -
  have o: "bit (stash_busy b OR kStashPresentBit) i \<longleftrightarrow> bit (stash_busy b) i \<or> i = 4" for i unfolding bit_or_iff bit_present ..
  have a: "bit (stash_busy b AND NOT kStashPresentBit) i \<longleftrightarrow> bit (stash_busy b) i \<and> i \<noteq> 4" for i
    unfolding kStashPresentBit_def by (rule bit8_and_not_push)
  have p: "stash_pos_at i (b\<lparr>stash_busy := w\<rparr>) = stash_pos_at i b" for i w by (simp add: stash_pos_at_def)
  show "stash_rep (b\<lparr>stash_busy := stash_busy b OR kStashPresentBit\<rparr>) st" using assms by (auto simp: stash_rep_def o p)
  show "stash_rep (b\<lparr>stash_busy := stash_busy b AND NOT kStashPresentBit\<rparr>) st" using assms by (auto simp: stash_rep_def a p)
  show "HasStash (b\<lparr>stash_busy := stash_busy b OR kStashPresentBit\<rparr>)" by (simp add: HasStash_bit o)
  show "\<not> HasStash (b\<lparr>stash_busy := stash_busy b AND NOT kStashPresentBit\<rparr>)" by (simp add: HasStash_bit a)
qed

lemma stash_rep_overflow: "stash_rep (b\<lparr>overflow_count := x\<rparr>) st = stash_rep b st"
  by (simp add: stash_rep_def stash_pos_at_def)

lemma same_slots_simps [simp]:
  "same_slots b (b'\<lparr>stash_busy := x\<rparr>) = same_slots b b'" "same_slots b (b'\<lparr>overflow_count := y\<rparr>) = same_slots b b'" "same_slots b b"
  by (simp_all add: same_slots_def)

lemma HasStash_overflow [simp]: "HasStash (b\<lparr>overflow_count := x\<rparr>) = HasStash b"
  by (simp add: HasStash_def)

text \<open>What the pointers of a bucket and of its successor say together about the stashed entries of the bucket.\<close>

definition refs :: "stash_ptr option list \<Rightarrow> stash_ptr option list \<Rightarrow> (u8 \<times> nat) multiset" where
  "refs st sn = ptrs False st + ptrs True sn"

lemma first_free_add:
  "length st = 4 \<Longrightarrow> None \<in> set st \<Longrightarrow>
   ptrs q (st[first_free st := Some (fp, pos, probe)]) = (if q = probe then add_mset (fp, pos) (ptrs q st) else ptrs q st)"
  using first_free(1,2) [of st] by (simp add: ptrs_add)

lemma SetStashPtr_spec:
  assumes st: "stash_rep b st" and sn: "stash_rep nxt sn" and pos: "pos < 4" and ov: "unat (overflow_count b) < 255"
    and res: "SetStashPtr pos fp b nxt = (b', n')"
  shows "\<exists>st' sn'. stash_rep b' st' \<and> stash_rep n' sn' \<and> same_slots b b' \<and> same_slots nxt n' \<and> HasStash b' \<and>
           HasStash n' = HasStash nxt \<and> overflow_count n' = overflow_count nxt \<and>
           ptrs True st' = ptrs True st \<and> ptrs False sn' = ptrs False sn \<and>
           ((refs st' sn' = add_mset (fp, pos) (refs st sn) \<and> overflow_count b' = overflow_count b) \<or>
            (refs st' sn' = refs st sn \<and> unat (overflow_count b') = Suc (unat (overflow_count b))))"
proof -
  have len: "length st = 4" "length sn = 4" using st sn by (simp_all add: stash_rep_def)
  consider (own) "None \<in> set st" | (nxt) "None \<notin> set st" "None \<in> set sn" | (over) "None \<notin> set st" "None \<notin> set sn" by auto
  then show ?thesis
  proof cases
    case own
    obtain b1 where b1: "SetStash fp pos False b = Some b1" "stash_rep b1 (st[first_free st := Some (fp, pos, False)])" "same_slots b b1"
      "overflow_count b1 = overflow_count b" using SetStash_free [OF st own pos, of fp False] by blast
    then have e: "b' = b1\<lparr>stash_busy := stash_busy b1 OR kStashPresentBit\<rparr>" "n' = nxt" using res by (simp_all add: SetStashPtr_def)
    show ?thesis
      by (rule exI [of _ "st[first_free st := Some (fp, pos, False)]"], rule exI [of _ sn])
         (use b1 sn own len stash_rep_present(1,2) [OF b1(2)] in \<open>simp add: e first_free_add refs_def\<close>)
  next
    case nxt
    obtain n1 where n1: "SetStash fp pos True nxt = Some n1" "stash_rep n1 (sn[first_free sn := Some (fp, pos, True)])" "same_slots nxt n1"
      "HasStash n1 = HasStash nxt" "overflow_count n1 = overflow_count nxt" using SetStash_free [OF sn nxt(2) pos, of fp True] by blast
    then have e: "b' = b\<lparr>stash_busy := stash_busy b OR kStashPresentBit\<rparr>" "n' = n1"
      using res SetStash_full [OF st nxt(1)] by (simp_all add: SetStashPtr_def)
    show ?thesis
      by (rule exI [of _ st], rule exI [of _ "sn[first_free sn := Some (fp, pos, True)]"])
         (use n1 st nxt len stash_rep_present(1,2) [OF st] in \<open>simp add: e first_free_add refs_def\<close>)
  next
    case over
    define b1 where "b1 = b\<lparr>overflow_count := overflow_count b + 1\<rparr>"
    have e: "b' = b1\<lparr>stash_busy := stash_busy b1 OR kStashPresentBit\<rparr>" "n' = nxt"
      using res SetStash_full [OF st over(1)] SetStash_full [OF sn over(2)] by (simp_all add: SetStashPtr_def b1_def)
    have r: "stash_rep b1 st" using st by (simp add: b1_def stash_rep_overflow)
    have "overflow_count b \<noteq> - 1" using ov by (auto simp: unsigned_minus_1_eq_mask mask_eq_exp_minus_1)
    then have "unat (overflow_count b + 1) = Suc (unat (overflow_count b))" by (rule unat_Suc_word)
    then show ?thesis
      by (intro exI [of _ st] exI [of _ sn])
         (use r sn stash_rep_present(1,2) [OF r] in \<open>simp add: e b1_def\<close>)
  qed
qed

lemma stash_masks:
  assumes "stash_rep b st"
  shows "(stash_busy b AND (kStashPresentBit - 1)) AND NOT (stash_probe_mask b) = 0 \<longleftrightarrow> ptrs False st = {#}"
    "(stash_busy b AND (kStashPresentBit - 1)) AND stash_probe_mask b = 0 \<longleftrightarrow> ptrs True st = {#}"
proof -
  have "kStashPresentBit - 1 = mask 4" by (simp add: kStashPresentBit_def mask_eq_exp_minus_1)
  then have low: "bit (stash_busy b AND (kStashPresentBit - 1)) i \<longleftrightarrow> i < 4 \<and> (\<exists>x. st ! i = Some x)" for i
    using assms by (auto simp: bit_and_iff bit_mask_iff stash_rep_def)
  have zero: "w = 0 \<longleftrightarrow> (\<forall>i. \<not> bit w i)" for w :: u8 by (auto intro: bit_eqI)
  have mem: "ptrs q st = {#} \<longleftrightarrow> (\<forall>i < 4. \<forall>f p. st ! i \<noteq> Some (f, p, q))" for q
  proof -
    have "ptrs q st = {#} \<longleftrightarrow> (\<forall>f p. Some (f, p, q) \<notin> set st)"
      by (metis in_ptrs multiset_nonemptyE prod.exhaust empty_iff set_mset_empty)
    then show ?thesis using assms by (auto simp: in_set_conv_nth stash_rep_def)
  qed
  have prb: "bit (stash_probe_mask b) i \<longleftrightarrow> (\<exists>f p. st ! i = Some (f, p, True))" if "i < 4" for i
    using assms that by (auto simp: stash_rep_def)
  have ex: "(\<exists>x. st ! i = Some x) \<and> (bit (stash_probe_mask b) i = q) \<longleftrightarrow> (\<exists>f p. st ! i = Some (f, p, q))" if "i < 4" for i q
  proof (cases "st ! i")
    case (Some x)
    then show ?thesis using prb [OF that] by (cases x) auto
  qed simp
  have bits: "(\<exists>i. bit (stash_busy b AND (kStashPresentBit - 1)) i \<and> bit (stash_probe_mask b) i = q) \<longleftrightarrow> ptrs q st \<noteq> {#}" for q
    unfolding low mem using ex [of _ q] by blast
  have neg: "bit ((stash_busy b AND (kStashPresentBit - 1)) AND NOT (stash_probe_mask b)) i \<longleftrightarrow>
      bit (stash_busy b AND (kStashPresentBit - 1)) i \<and> bit (stash_probe_mask b) i = False" for i
    using bit_imp_le_length [of "stash_busy b AND (kStashPresentBit - 1)" i]
    unfolding bit_and_iff [of "_ AND _"] bit_not_iff possible_bit_word by auto
  show "(stash_busy b AND (kStashPresentBit - 1)) AND NOT (stash_probe_mask b) = 0 \<longleftrightarrow> ptrs False st = {#}"
    using bits [of False] unfolding zero neg by blast
  show "(stash_busy b AND (kStashPresentBit - 1)) AND stash_probe_mask b = 0 \<longleftrightarrow> ptrs True st = {#}"
    using bits [of True] unfolding zero bit_and_iff [of "_ AND _"] by blast
qed

lemma ClearStash_ptrs:
  assumes "stash_rep b st" "ClearStash fp pos probe b = Some b'"
  shows "\<exists>st'. stash_rep b' st' \<and> same_slots b b' \<and> HasStash b' = HasStash b \<and> overflow_count b' = overflow_count b \<and>
           (fp, pos) \<in># ptrs probe st \<and> ptrs probe st' = ptrs probe st - {#(fp, pos)#} \<and> ptrs (\<not> probe) st' = ptrs (\<not> probe) st"
proof -
  obtain i where i: "i < 4" "st ! i = Some (fp, pos, probe)" "stash_rep b' (st[i := None])" "same_slots b b'"
    "HasStash b' = HasStash b" "overflow_count b' = overflow_count b" using ClearStash_Some [OF assms] by blast
  have len: "length st = 4" using assms(1) by (simp add: stash_rep_def)
  then have "Some (fp, pos, probe) \<in> set st" using i by (metis nth_mem)
  then show ?thesis using i len by (intro exI [of _ "st[i := None]"]) (simp add: ptrs_remove in_ptrs)
qed

lemma UnsetStashPtr_spec:
  assumes st: "stash_rep b st" and sn: "stash_rep nxt sn" and res: "UnsetStashPtr fp pos b nxt = (r, b', n')"
    and ov: "(fp, pos) \<notin># refs st sn \<Longrightarrow> 0 < overflow_count b"
  shows "\<exists>st' sn'. stash_rep b' st' \<and> stash_rep n' sn' \<and> same_slots b b' \<and> same_slots nxt n' \<and>
           HasStash n' = HasStash nxt \<and> overflow_count n' = overflow_count nxt \<and>
           ptrs True st' = ptrs True st \<and> ptrs False sn' = ptrs False sn \<and>
           refs st' sn' = refs st sn - {#(fp, pos)#} \<and>
           unat (overflow_count b') = unat (overflow_count b) - of_bool ((fp, pos) \<notin># refs st sn) \<and>
           (HasStash b' \<longleftrightarrow> HasStash b \<and> \<not> (refs st' sn' = {#} \<and> overflow_count b' = 0)) \<and>
           r = of_bool ((fp, pos) \<notin># ptrs False st \<and> (fp, pos) \<in># ptrs True sn)"
proof -
  define core where "core = (case ClearStash fp pos False b of
                               Some b' \<Rightarrow> (0 :: nat, b', nxt)
                             | None \<Rightarrow> (case ClearStash fp pos True nxt of
                                        Some n' \<Rightarrow> (1, b, n')
                                      | None \<Rightarrow> (0, b\<lparr>overflow_count := overflow_count b - 1\<rparr>, nxt)))"
  obtain r1 b1 n1 where c: "core = (r1, b1, n1)" by (cases core)
  have "\<exists>st' sn'. stash_rep b1 st' \<and> stash_rep n1 sn' \<and> same_slots b b1 \<and> same_slots nxt n1 \<and>
           HasStash b1 = HasStash b \<and> HasStash n1 = HasStash nxt \<and> overflow_count n1 = overflow_count nxt \<and>
           ptrs True st' = ptrs True st \<and> ptrs False sn' = ptrs False sn \<and>
           refs st' sn' = refs st sn - {#(fp, pos)#} \<and>
           unat (overflow_count b1) = unat (overflow_count b) - of_bool ((fp, pos) \<notin># refs st sn) \<and>
           r1 = of_bool ((fp, pos) \<notin># ptrs False st \<and> (fp, pos) \<in># ptrs True sn)"
  proof (cases "ClearStash fp pos False b")
    case (Some x)
    then have e: "r1 = 0" "b1 = x" "n1 = nxt" using c by (simp_all add: core_def)
    from ClearStash_ptrs [OF st Some] obtain st' where s: "stash_rep x st'" "same_slots b x" "HasStash x = HasStash b"
      "overflow_count x = overflow_count b" "(fp, pos) \<in># ptrs False st" "ptrs False st' = ptrs False st - {#(fp, pos)#}"
      "ptrs True st' = ptrs True st" by auto
    show ?thesis by (intro exI [of _ st'] exI [of _ sn]) (use s sn in \<open>simp add: e refs_def\<close>)
  next
    case None
    have no: "(fp, pos) \<notin># ptrs False st" using ClearStash_None [OF st None] by (simp add: in_ptrs)
    show ?thesis
    proof (cases "ClearStash fp pos True nxt")
      case (Some x)
      then have e: "r1 = 1" "b1 = b" "n1 = x" using c None by (simp_all add: core_def)
      from ClearStash_ptrs [OF sn Some] obtain sn' where s: "stash_rep x sn'" "same_slots nxt x" "HasStash x = HasStash nxt"
        "overflow_count x = overflow_count nxt" "(fp, pos) \<in># ptrs True sn" "ptrs True sn' = ptrs True sn - {#(fp, pos)#}"
        "ptrs False sn' = ptrs False sn" by auto
      show ?thesis by (intro exI [of _ st] exI [of _ sn']) (use s st no in \<open>simp add: e refs_def\<close>)
    next
      case n2: None
      then have e: "r1 = 0" "b1 = b\<lparr>overflow_count := overflow_count b - 1\<rparr>" "n1 = nxt" using c None by (simp_all add: core_def)
      have n3: "(fp, pos) \<notin># ptrs True sn" using ClearStash_None [OF sn n2] by (simp add: in_ptrs)
      then have "0 < overflow_count b" using ov no by (simp add: refs_def)
      then have "unat (overflow_count b - 1) = unat (overflow_count b) - 1" by (intro unat_pred_word) (simp add: word_gt_0)
      then show ?thesis by (intro exI [of _ st] exI [of _ sn])
          (use st sn no n3 in \<open>simp add: e refs_def stash_rep_overflow diff_single_trivial\<close>)
    qed
  qed
  then obtain st' sn' where f: "stash_rep b1 st'" "stash_rep n1 sn'" "same_slots b b1" "same_slots nxt n1"
    "HasStash b1 = HasStash b" "HasStash n1 = HasStash nxt" "overflow_count n1 = overflow_count nxt"
    "ptrs True st' = ptrs True st" "ptrs False sn' = ptrs False sn" "refs st' sn' = refs st sn - {#(fp, pos)#}"
    "unat (overflow_count b1) = unat (overflow_count b) - of_bool ((fp, pos) \<notin># refs st sn)"
    "r1 = of_bool ((fp, pos) \<notin># ptrs False st \<and> (fp, pos) \<in># ptrs True sn)" by blast
  have "UnsetStashPtr fp pos b nxt =
      (r1, if refs st' sn' = {#} \<and> overflow_count b1 = 0
           then b1\<lparr>stash_busy := stash_busy b1 AND NOT kStashPresentBit\<rparr> else b1, n1)"
    unfolding UnsetStashPtr_def core_def [symmetric] c Let_def prod.case stash_masks(1) [OF f(1)] stash_masks(2) [OF f(2)]
    by (simp only: refs_def union_eq_empty) (simp only: conj_ac)
  then have out: "r = r1" "n' = n1" "b' = (if refs st' sn' = {#} \<and> overflow_count b1 = 0
      then b1\<lparr>stash_busy := stash_busy b1 AND NOT kStashPresentBit\<rparr> else b1)"
    using res by (simp_all only: prod.inject)
  have "stash_rep b' st'" "same_slots b b'" "overflow_count b' = overflow_count b1"
    "HasStash b' \<longleftrightarrow> HasStash b \<and> \<not> (refs st' sn' = {#} \<and> overflow_count b' = 0)"
    using f(1,3,5) stash_rep_present(3,4) [OF f(1)] unfolding out(3) by auto
  then show ?thesis using f(2,4,6-12) unfolding out(1,2) by (intro exI [of _ st'] exI [of _ sn'] conjI) simp_all
qed

end
