(* ===== verification/Dash_Segment.thy ===== *)
theory Dash_Segment
  imports Dash_Bucket
begin

text \<open>
  \<^verbatim>\<open>detail::Segment\<close> of \<^verbatim>\<open>src/core/dash_internal.h\<close>: a fixed number of regular buckets and four stash buckets. An entry
  lives in its home bucket, in the next one (then it is a probing entry there), or in a stash bucket; in the last
  case the home bucket and its successor keep pointers to it. The theory models lookup, insertion with displacement,
  deletion, splitting, promotion and the prediction of the buckets an insertion touches. Callbacks that only report
  moved entries are left out. An \<^verbatim>\<open>assert\<close> whose failure loses an entry is modelled by the result \<^term>\<open>None\<close>.
\<close>

definition kStashBucketNum :: nat where "kStashBucketNum = 4"

definition kTotalBuckets :: "('k, 'v) dash_policy \<Rightarrow> nat" where
  "kTotalBuckets P = kBucketNum P + kStashBucketNum"

record ('k, 'v) segment =
  seg_bucket :: "('k, 'v) bucket list"
  local_depth :: nat
  segment_id :: nat

definition Segment_new :: "('k, 'v) dash_policy \<Rightarrow> nat \<Rightarrow> nat \<Rightarrow> ('k, 'v) segment" where
  "Segment_new P depth sid = \<lparr>seg_bucket = replicate (kTotalBuckets P) (Bucket_new P), local_depth = depth, segment_id = sid\<rparr>"

definition GetBucket :: "nat \<Rightarrow> ('k, 'v) segment \<Rightarrow> ('k, 'v) bucket" where
  "GetBucket i seg = seg_bucket seg ! i"

definition put_bucket :: "nat \<Rightarrow> ('k, 'v) bucket \<Rightarrow> ('k, 'v) segment \<Rightarrow> ('k, 'v) segment" where
  "put_bucket i b seg = seg\<lparr>seg_bucket := (seg_bucket seg)[i := b]\<rparr>"

definition HomeIndex :: "('k, 'v) dash_policy \<Rightarrow> u64 \<Rightarrow> nat" where
  "HomeIndex P hash = unat (drop_bit 8 hash) mod kBucketNum P"

definition NextBid :: "('k, 'v) dash_policy \<Rightarrow> nat \<Rightarrow> nat" where
  "NextBid P bid = (if bid < kBucketNum P - 1 then bid + 1 else 0)"

definition PrevBid :: "('k, 'v) dash_policy \<Rightarrow> nat \<Rightarrow> nat" where
  "PrevBid P bid = (if bid \<noteq> 0 then bid - 1 else kBucketNum P - 1)"

text \<open>The fingerprint of a hash, its low byte.\<close>

definition hash_fp :: "u64 \<Rightarrow> u8" where "hash_fp hash = ucast hash"

subsection \<open>Lookup\<close>

text \<open>The search behind the stash pointers of bucket \<open>bidx\<close>: all stash buckets when an entry without a pointer is counted
  there, otherwise the ones the pointers of the bucket and of its successor name.\<close>

definition stash_cb :: "('k, 'v) dash_policy \<Rightarrow> u8 \<Rightarrow> ('k \<Rightarrow> bool) \<Rightarrow> ('k, 'v) segment \<Rightarrow> nat \<Rightarrow> nat \<Rightarrow> nat option" where
  "stash_cb P fp pred seg overflow_index pos = FindByFp P fp False pred (GetBucket (kBucketNum P + pos) seg)"

definition FindInStash :: "('k, 'v) dash_policy \<Rightarrow> u8 \<Rightarrow> ('k \<Rightarrow> bool) \<Rightarrow> nat \<Rightarrow> ('k, 'v) segment \<Rightarrow> (nat \<times> nat) option" where
  "FindInStash P fp pred bidx seg =
     (let target = GetBucket bidx seg; probe = GetBucket (NextBid P bidx) seg
      in if \<not> HasStash target then None
         else if HasStashOverflow target then
           fold (\<lambda>i res. case res of Some r \<Rightarrow> Some r | None \<Rightarrow> map_option (Pair i) (stash_cb P fp pred seg 0 i)) [0..<kStashBucketNum] None
         else
           (case IterateStash fp False (stash_cb P fp pred seg) target of
              Some r \<Rightarrow> Some r
            | None \<Rightarrow> IterateStash fp True (stash_cb P fp pred seg) probe))"

definition FindIt :: "('k, 'v) dash_policy \<Rightarrow> u64 \<Rightarrow> ('k \<Rightarrow> bool) \<Rightarrow> ('k, 'v) segment \<Rightarrow> (nat \<times> nat) option" where
  "FindIt P key_hash pred seg =
     (let bidx = HomeIndex P key_hash; fp = hash_fp key_hash; nid = NextBid P bidx
      in case FindByFp P fp False pred (GetBucket bidx seg) of
           Some sid \<Rightarrow> Some (bidx, sid)
         | None \<Rightarrow>
             (case FindByFp P fp True pred (GetBucket nid seg) of
                Some sid \<Rightarrow> Some (nid, sid)
              | None \<Rightarrow> map_option (\<lambda>(pos, sid). (kBucketNum P + pos, sid)) (FindInStash P fp pred bidx seg)))"

subsection \<open>Insertion\<close>

definition MoveToOther ::
  "('k, 'v) dash_policy \<Rightarrow> bool \<Rightarrow> nat \<Rightarrow> nat \<Rightarrow> ('k, 'v) segment \<Rightarrow> (nat \<times> ('k, 'v) segment) option" where
  "MoveToOther P own_items from_bid to_bid seg =
     (let src = GetBucket from_bid seg; m = bucket_GetProbe P (\<not> own_items) src
      in if m = 0 then None
         else let src_slot = ctz m
              in case TryInsertToBucket P (bkey src ! src_slot) (bvalue src ! src_slot) (Fp src_slot src) own_items (GetBucket to_bid seg) of
                   None \<Rightarrow> None
                 | Some (_, dst) \<Rightarrow>
                     Some (src_slot, put_bucket from_bid (bucket_Delete P src_slot src)
                                       (put_bucket to_bid (UpdateVersion P (bversion src) dst) seg)))"

definition CheckIfMovesToOther :: "('k, 'v) dash_policy \<Rightarrow> bool \<Rightarrow> nat \<Rightarrow> nat \<Rightarrow> ('k, 'v) segment \<Rightarrow> bool" where
  "CheckIfMovesToOther P own_items from_bid to_bid seg =
     (let m = bucket_GetProbe P (\<not> own_items) (GetBucket from_bid seg)
      in if m = 0 then False else \<not> bucket_IsFull P (GetBucket to_bid seg))"

text \<open>The last resort of an insertion: the stash buckets in the given order of positions.\<close>

fun insert_stash ::
  "('k, 'v) dash_policy \<Rightarrow> 'k \<Rightarrow> 'v \<Rightarrow> u8 \<Rightarrow> nat \<Rightarrow> nat list \<Rightarrow> ('k, 'v) segment \<Rightarrow> (nat \<times> nat) option \<times> ('k, 'v) segment" where
  "insert_stash P k v meta_hash bid [] seg = (None, seg)"
| "insert_stash P k v meta_hash bid (pos # rest) seg =
     (case TryInsertToBucket P k v meta_hash False (GetBucket (kBucketNum P + pos) seg) of
        None \<Rightarrow> insert_stash P k v meta_hash bid rest seg
      | Some (stash_slot, sb) \<Rightarrow>
          let seg1 = put_bucket (kBucketNum P + pos) sb seg; nid = NextBid P bid;
              (target, neighbor) = SetStashPtr pos meta_hash (GetBucket bid seg1) (GetBucket nid seg1)
          in (Some (kBucketNum P + pos, stash_slot), put_bucket nid neighbor (put_bucket bid target seg1)))"

definition InsertUniq ::
  "('k, 'v) dash_policy \<Rightarrow> 'k \<Rightarrow> 'v \<Rightarrow> u64 \<Rightarrow> bool \<Rightarrow> ('k, 'v) segment \<Rightarrow> (nat \<times> nat) option \<times> ('k, 'v) segment" where
  "InsertUniq P k v key_hash spread seg =
     (let bid = HomeIndex P key_hash; nid = NextBid P bid; meta_hash = hash_fp key_hash;
          ts = bucket_Size P (GetBucket bid seg); ns = bucket_Size P (GetBucket nid seg);
          probe = (spread \<and> ts > ns); insert_first = (if probe then nid else bid)
      in case TryInsertToBucket P k v meta_hash probe (GetBucket insert_first seg) of
           Some (sid, b) \<Rightarrow> (Some (insert_first, sid), put_bucket insert_first b seg)
         | None \<Rightarrow>
             (case (if spread then None else TryInsertToBucket P k v meta_hash True (GetBucket nid seg)) of
                Some (sid, b) \<Rightarrow> (Some (nid, sid), put_bucket nid b seg)
              | None \<Rightarrow>
                  (case MoveToOther P True nid (NextBid P nid) seg of
                     Some (displace_index, seg1) \<Rightarrow>
                       (Some (nid, displace_index),
                        put_bucket nid (bucket_Insert P displace_index k v meta_hash True (GetBucket nid seg1)) seg1)
                   | None \<Rightarrow>
                       (case MoveToOther P False bid (PrevBid P bid) seg of
                          Some (displace_index, seg1) \<Rightarrow>
                            (Some (bid, displace_index),
                             put_bucket bid (bucket_Insert P displace_index k v meta_hash False (GetBucket bid seg1)) seg1)
                        | None \<Rightarrow>
                            insert_stash P k v meta_hash bid
                              (map (\<lambda>i. (bid + i) mod kStashBucketNum) [0..<kStashBucketNum]) seg))))"

definition segment_Insert ::
  "('k, 'v) dash_policy \<Rightarrow> 'k \<Rightarrow> 'v \<Rightarrow> u64 \<Rightarrow> ('k \<Rightarrow> bool) \<Rightarrow> ('k, 'v) segment \<Rightarrow>
   ((nat \<times> nat) option \<times> bool) \<times> ('k, 'v) segment" where
  "segment_Insert P k v key_hash pred seg =
     (case FindIt P key_hash pred seg of
        Some it \<Rightarrow> ((Some it, False), seg)
      | None \<Rightarrow> (let (it, seg1) = InsertUniq P k v key_hash True seg in ((it, it \<noteq> None), seg1)))"

text \<open>The buckets an insertion of the hash would change; all of them when the segment has to be split.\<close>

definition CVCOnInsert :: "('k, 'v) dash_policy \<Rightarrow> u64 \<Rightarrow> ('k, 'v) segment \<Rightarrow> nat list" where
  "CVCOnInsert P key_hash seg =
     (let bid = HomeIndex P key_hash; nid = NextBid P bid;
          first = (if bucket_Size P (GetBucket bid seg) > bucket_Size P (GetBucket nid seg) then nid else bid);
          after_next = NextBid P nid; prev_bid = PrevBid P bid
      in if \<not> bucket_IsFull P (GetBucket first seg) then [first]
         else if CheckIfMovesToOther P True nid after_next seg then [nid, after_next]
         else if CheckIfMovesToOther P False bid prev_bid seg then [bid, prev_bid]
         else case find (\<lambda>i. \<not> bucket_IsFull P (GetBucket (kBucketNum P + (bid + i) mod kStashBucketNum) seg)) [0..<kStashBucketNum] of
                Some i \<Rightarrow> [kBucketNum P + (bid + i) mod kStashBucketNum]
              | None \<Rightarrow> [0..<kTotalBuckets P])"

subsection \<open>Deletion and moves out of the stash\<close>

definition RemoveStashReference :: "('k, 'v) dash_policy \<Rightarrow> nat \<Rightarrow> u64 \<Rightarrow> ('k, 'v) segment \<Rightarrow> ('k, 'v) segment" where
  "RemoveStashReference P pos key_hash seg =
     (let y = HomeIndex P key_hash; ny = NextBid P y;
          (_, target, nxt) = UnsetStashPtr (hash_fp key_hash) pos (GetBucket y seg) (GetBucket ny seg)
      in put_bucket ny nxt (put_bucket y target seg))"

definition segment_Delete :: "('k, 'v) dash_policy \<Rightarrow> nat \<times> nat \<Rightarrow> u64 \<Rightarrow> ('k, 'v) segment \<Rightarrow> ('k, 'v) segment" where
  "segment_Delete P it key_hash seg =
     (let seg1 = (if fst it \<ge> kBucketNum P then RemoveStashReference P (fst it - kBucketNum P) key_hash seg else seg)
      in put_bucket (fst it) (bucket_Delete P (snd it) (GetBucket (fst it) seg1)) seg1)"

definition segment_ShiftRight :: "('k, 'v) dash_policy \<Rightarrow> nat \<Rightarrow> u64 \<Rightarrow> ('k, 'v) segment \<Rightarrow> bool \<times> ('k, 'v) segment" where
  "segment_ShiftRight P bid right_hashval seg =
     (let seg1 = (if bid \<ge> kBucketNum P \<and> bit (bucket_GetBusy P (GetBucket bid seg)) (kSlotNum P - 1)
                  then RemoveStashReference P (bid - kBucketNum P) right_hashval seg else seg);
          (res, b) = bucket_ShiftRight P (GetBucket bid seg1)
      in (res, put_bucket bid b seg1))"

definition TryMoveFromStash ::
  "('k, 'v) dash_policy \<Rightarrow> nat \<Rightarrow> nat \<Rightarrow> u64 \<Rightarrow> ('k, 'v) segment \<Rightarrow> (nat \<times> nat) option \<times> ('k, 'v) segment" where
  "TryMoveFromStash P stash_id stash_slot_id key_hash seg =
     (let bid = HomeIndex P key_hash; fp = hash_fp key_hash; nid = NextBid P bid;
          stash = GetBucket (kBucketNum P + stash_id) seg; k = bkey stash ! stash_slot_id; v = bvalue stash ! stash_slot_id
      in case TryInsertToBucket P k v fp False (GetBucket bid seg) of
           Some (reg_slot, b) \<Rightarrow>
             (Some (bid, reg_slot),
              RemoveStashReference P stash_id key_hash (put_bucket bid (UpdateVersion P (bversion stash) b) seg))
         | None \<Rightarrow>
             (case TryInsertToBucket P k v fp True (GetBucket nid seg) of
                Some (reg_slot, b) \<Rightarrow>
                  (Some (nid, reg_slot),
                   RemoveStashReference P stash_id key_hash (put_bucket nid (UpdateVersion P (bversion stash) b) seg))
              | None \<Rightarrow> (None, seg)))"

fun unload_slots ::
  "('k, 'v) dash_policy \<Rightarrow> nat \<Rightarrow> ('k, 'v) bucket \<Rightarrow> nat list \<Rightarrow> nat \<times> u32 \<times> ('k, 'v) segment \<Rightarrow> nat \<times> u32 \<times> ('k, 'v) segment" where
  "unload_slots P i stash [] st = st"
| "unload_slots P i stash (sid # rest) (moved, invalid_mask, seg) =
     unload_slots P i stash rest
       (case TryMoveFromStash P i sid (HashFn P (bkey stash ! sid)) seg of
          (Some _, seg1) \<Rightarrow> (moved + 1, invalid_mask OR push_bit sid 1, seg1)
        | (None, seg1) \<Rightarrow> (moved, invalid_mask, seg1))"

definition unload_bucket :: "('k, 'v) dash_policy \<Rightarrow> nat \<Rightarrow> nat \<times> ('k, 'v) segment \<Rightarrow> nat \<times> ('k, 'v) segment" where
  "unload_bucket P i st =
     (let stash = GetBucket (kBucketNum P + i) (snd st);
          (moved, invalid_mask, seg1) = unload_slots P i stash (map fst (ForEachSlot P stash)) (fst st, 0, snd st)
      in (moved, put_bucket (kBucketNum P + i) (bucket_ClearSlots P invalid_mask (GetBucket (kBucketNum P + i) seg1)) seg1))"

definition UnloadStash :: "('k, 'v) dash_policy \<Rightarrow> ('k, 'v) segment \<Rightarrow> nat \<times> ('k, 'v) segment" where
  "UnloadStash P seg = fold (unload_bucket P) [0..<kStashBucketNum] (0, seg)"

subsection \<open>Split\<close>

definition is_mine :: "nat \<Rightarrow> u64 \<Rightarrow> bool" where
  "is_mine depth hash = ((drop_bit (64 - depth) hash AND 1) = 0)"

text \<open>One regular bucket: the entries that leave the segment are inserted into the new one, and their slots are cleared.\<close>

fun split_slots ::
  "('k, 'v) dash_policy \<Rightarrow> nat \<Rightarrow> ('k, 'v) bucket \<Rightarrow> nat list \<Rightarrow> u32 \<times> ('k, 'v) segment \<Rightarrow> (u32 \<times> ('k, 'v) segment) option" where
  "split_slots P depth b [] st = Some st"
| "split_slots P depth b (sid # rest) (invalid_mask, dest) =
     (let k = bkey b ! sid; hash = HashFn P k
      in if is_mine depth hash then split_slots P depth b rest (invalid_mask, dest)
         else case InsertUniq P k (bvalue b ! sid) hash False dest of
                (None, _) \<Rightarrow> None
              | (Some it, dest1) \<Rightarrow>
                  split_slots P depth b rest
                    (invalid_mask OR push_bit sid 1,
                     put_bucket (fst it) (UpdateVersion P (bversion b) (GetBucket (fst it) dest1)) dest1))"

definition split_bucket ::
  "('k, 'v) dash_policy \<Rightarrow> nat \<Rightarrow> ('k, 'v) segment \<times> ('k, 'v) segment \<Rightarrow> (('k, 'v) segment \<times> ('k, 'v) segment) option" where
  "split_bucket P i st =
     (let seg = fst st; b = GetBucket i seg
      in case split_slots P (local_depth seg) b (map fst (ForEachSlot P b)) (0, snd st) of
           None \<Rightarrow> None
         | Some (invalid_mask, dest) \<Rightarrow> Some (put_bucket i (bucket_ClearSlots P invalid_mask b) seg, dest))"

text \<open>One stash bucket: the entries that stay are moved back to a regular bucket when there is room.\<close>

fun split_stash_slots ::
  "('k, 'v) dash_policy \<Rightarrow> nat \<Rightarrow> ('k, 'v) bucket \<Rightarrow> nat list \<Rightarrow>
   u32 \<times> ('k, 'v) segment \<times> ('k, 'v) segment \<Rightarrow> (u32 \<times> ('k, 'v) segment \<times> ('k, 'v) segment) option" where
  "split_stash_slots P i b [] st = Some st"
| "split_stash_slots P i b (sid # rest) (invalid_mask, seg, dest) =
     (let k = bkey b ! sid; hash = HashFn P k
      in if is_mine (local_depth seg) hash then
           split_stash_slots P i b rest
             (case TryMoveFromStash P i sid hash seg of
                (Some _, seg1) \<Rightarrow> (invalid_mask OR push_bit sid 1, seg1, dest)
              | (None, seg1) \<Rightarrow> (invalid_mask, seg1, dest))
         else case InsertUniq P k (bvalue b ! sid) hash False dest of
                (None, _) \<Rightarrow> None
              | (Some it, dest1) \<Rightarrow>
                  split_stash_slots P i b rest
                    (invalid_mask OR push_bit sid 1,
                     RemoveStashReference P i hash seg,
                     put_bucket (fst it) (UpdateVersion P (bversion b) (GetBucket (fst it) dest1)) dest1))"

definition split_stash ::
  "('k, 'v) dash_policy \<Rightarrow> nat \<Rightarrow> ('k, 'v) segment \<times> ('k, 'v) segment \<Rightarrow> (('k, 'v) segment \<times> ('k, 'v) segment) option" where
  "split_stash P i st =
     (let bid = kBucketNum P + i; b = GetBucket bid (fst st)
      in case split_stash_slots P i b (map fst (ForEachSlot P b)) (0, st) of
           None \<Rightarrow> None
         | Some (invalid_mask, seg, dest) \<Rightarrow> Some (put_bucket bid (bucket_ClearSlots P invalid_mask (GetBucket bid seg)) seg, dest))"

primrec opt_fold :: "('a \<Rightarrow> 's \<Rightarrow> 's option) \<Rightarrow> 'a list \<Rightarrow> 's \<Rightarrow> 's option" where
  "opt_fold f [] s = Some s"
| "opt_fold f (x # xs) s = (case f x s of None \<Rightarrow> None | Some s' \<Rightarrow> opt_fold f xs s')"

definition segment_Split ::
  "('k, 'v) dash_policy \<Rightarrow> ('k, 'v) segment \<Rightarrow> ('k, 'v) segment \<Rightarrow> (('k, 'v) segment \<times> ('k, 'v) segment) option" where
  "segment_Split P seg dest_right =
     (let depth = local_depth seg + 1
      in case opt_fold (split_bucket P) [0..<kBucketNum P] (seg\<lparr>local_depth := depth\<rparr>, dest_right\<lparr>local_depth := depth\<rparr>) of
           None \<Rightarrow> None
         | Some st \<Rightarrow> opt_fold (split_stash P) [0..<kStashBucketNum] st)"

subsection \<open>Promotion\<close>

definition BumpUp ::
  "('k, 'v) dash_policy \<Rightarrow> ('k \<Rightarrow> bool) \<Rightarrow> nat \<Rightarrow> nat \<Rightarrow> u64 \<Rightarrow> ('k, 'v) segment \<Rightarrow> (nat \<times> nat) \<times> ('k, 'v) segment" where
  "BumpUp P CanBump bid sid key_hash seg =
     (let from = GetBucket bid seg
      in if \<not> CanBump (bkey from ! sid) then ((bid, sid), seg)
         else if bid < kBucketNum P then
           (if sid > 0 \<and> CanBump (bkey from ! (sid - 1))
            then ((bid, sid - 1), put_bucket bid (bucket_Swap P (sid - 1) sid from) seg)
            else ((bid, sid), seg))
         else
           let pos = bid - kBucketNum P
           in case TryMoveFromStash P pos sid key_hash seg of
                (Some it, seg1) \<Rightarrow> (it, put_bucket bid (bucket_Delete P sid (GetBucket bid seg1)) seg1)
              | (None, _) \<Rightarrow>
                  let target_bid = HomeIndex P key_hash; nid = NextBid P target_bid; fp = hash_fp key_hash;
                      (bucket_offs, target, nxt) = UnsetStashPtr fp pos (GetBucket target_bid seg) (GetBucket nid seg);
                      seg1 = put_bucket nid nxt (put_bucket target_bid target seg);
                      swap_bid = (target_bid + bucket_offs) mod kBucketNum P;
                      swapb = GetBucket swap_bid seg1;
                      kLastSlot = kSlotNum P - 1
                  in if \<not> CanBump (bkey swapb ! kLastSlot) then
                       let (t, n) = SetStashPtr pos fp target nxt in ((bid, sid), put_bucket nid n (put_bucket target_bid t seg1))
                     else
                       let swap_fp = Fp kLastSlot swapb;
                           is_probing = bit (bucket_GetProbe P True swapb) kLastSlot;
                           from_ver = bversion from; swap_ver = bversion swapb;
                           from1 = SetHash P sid swap_fp False (bucket_Delete P sid
                                     (from\<lparr>bkey := (bkey from)[sid := bkey swapb ! kLastSlot],
                                           bvalue := (bvalue from)[sid := bvalue swapb ! kLastSlot]\<rparr>));
                           swap1 = SetHash P kLastSlot fp (bucket_offs = 1) (bucket_Delete P kLastSlot
                                     (swapb\<lparr>bkey := (bkey swapb)[kLastSlot := bkey from ! sid],
                                            bvalue := (bvalue swapb)[kLastSlot := bvalue from ! sid]\<rparr>));
                           from2 = (if kUseVersion P \<and> from_ver < swap_ver then from1\<lparr>bversion := swap_ver\<rparr> else from1);
                           swap2 = (if kUseVersion P \<and> \<not> from_ver < swap_ver then swap1\<lparr>bversion := from_ver\<rparr> else swap1);
                           seg2 = put_bucket swap_bid swap2 (put_bucket bid from2 seg1);
                           owner = (if is_probing then PrevBid P swap_bid else swap_bid);
                           onext = (if is_probing then swap_bid else NextBid P swap_bid);
                           (o1, n1) = SetStashPtr pos swap_fp (GetBucket owner seg2) (GetBucket onext seg2)
                       in ((swap_bid, kLastSlot), put_bucket onext n1 (put_bucket owner o1 seg2)))"

subsection \<open>Traversal\<close>

definition TraverseBucket :: "('k, 'v) dash_policy \<Rightarrow> nat \<Rightarrow> ('k, 'v) segment \<Rightarrow> (nat \<times> nat) list" where
  "TraverseBucket P bid seg = map (\<lambda>(sid, _). (bid, sid)) (ForEachSlot P (GetBucket bid seg))"

definition TraverseLogicalBucket :: "('k, 'v) dash_policy \<Rightarrow> nat \<Rightarrow> ('k, 'v) segment \<Rightarrow> (nat \<times> nat) list" where
  "TraverseLogicalBucket P bid seg =
     (let b = GetBucket bid seg; nid = NextBid P bid; nxt = GetBucket nid seg
      in (if bucket_GetProbe P False b \<noteq> 0
          then map (\<lambda>(sid, _). (bid, sid)) (filter (\<lambda>(_, probe). \<not> probe) (ForEachSlot P b)) else []) @
         (if bucket_GetProbe P True nxt \<noteq> 0
          then map (\<lambda>(sid, _). (nid, sid)) (filter (\<lambda>(_, probe). probe) (ForEachSlot P nxt)) else []) @
         (if HasStash b
          then concat (map (\<lambda>j. map (\<lambda>(sid, _). (j, sid))
                 (filter (\<lambda>(sid, _). HomeIndex P (HashFn P (bkey (GetBucket j seg) ! sid)) = bid) (ForEachSlot P (GetBucket j seg))))
               [kBucketNum P..<kTotalBuckets P])
          else []))"

definition TraverseAll :: "('k, 'v) dash_policy \<Rightarrow> ('k, 'v) segment \<Rightarrow> (nat \<times> nat) list" where
  "TraverseAll P seg = concat (map (\<lambda>i. TraverseBucket P i seg) [0..<kTotalBuckets P])"

definition SlowSize :: "('k, 'v) dash_policy \<Rightarrow> ('k, 'v) segment \<Rightarrow> nat" where
  "SlowSize P seg = sum_list (map (\<lambda>i. bucket_Size P (GetBucket i seg)) [0..<kTotalBuckets P])"

definition segment_Clear :: "('k, 'v) dash_policy \<Rightarrow> ('k, 'v) segment \<Rightarrow> ('k, 'v) segment" where
  "segment_Clear P seg = seg\<lparr>seg_bucket := map (ClearStashPtrs \<circ> bucket_Clear P) (seg_bucket seg)\<rparr>"

end
