(* ===== verification/Dash_Invariant.thy ===== *)
theory Dash_Invariant
  imports Dash_Segment
begin

text \<open>
  The invariant of a dash segment and what its operations do to the entries. Every entry sits where a lookup
  searches for it: in its home bucket, in the next bucket with the probe flag set, or in a stash bucket, and the
  stash pointers of its home bucket cover the stashed entries of that home (the rest is counted in
  \<^verbatim>\<open>overflow_count_\<close>). Operations are described by the multiset of entries they leave.
\<close>

definition policy_ok :: "('k, 'v) dash_policy \<Rightarrow> bool" where
  "policy_ok P \<longleftrightarrow> 0 < kSlotNum P \<and> kSlotNum P \<le> 28 \<and> 3 \<le> kBucketNum P"

definition cells :: "('k, 'v) dash_policy \<Rightarrow> ('k, 'v) bucket \<Rightarrow> ('k, 'v) cell option list" where
  "cells P b = map (\<lambda>i. if bit (bucket_GetBusy P b) i
      then Some (bkey b ! i, bvalue b ! i, finger_arr b ! i, bit (bucket_GetProbe P True b) i) else None) [0..<kSlotNum P]"

definition bucket_ok :: "('k, 'v) dash_policy \<Rightarrow> ('k, 'v) bucket \<Rightarrow> bool" where
  "bucket_ok P b = bucket_rep P b (cells P b)"

definition stash_list :: "('k, 'v) bucket \<Rightarrow> stash_ptr option list" where
  "stash_list b = map (\<lambda>i. if bit (stash_busy b) i
      then Some (stash_arr b ! i, stash_pos_at i b, bit (stash_probe_mask b) i) else None) [0..<4]"

definition stash_ok :: "('k, 'v) bucket \<Rightarrow> bool" where
  "stash_ok b = stash_rep b (stash_list b)"

lemma length_cells [simp]: "length (cells P b) = kSlotNum P"
  by (simp add: cells_def)

lemma bucket_rep_iff: "bucket_rep P b vs \<longleftrightarrow> bucket_ok P b \<and> cells P b = vs"
proof -
  have "cells P b = vs" if r: "bucket_rep P b vs"
  proof (rule nth_equalityI)
    show "length (cells P b) = length vs" using bucket_repD(2) [OF r] by simp
    fix i assume "i < length (cells P b)"
    then have i: "i < kSlotNum P" by simp
    show "cells P b ! i = vs ! i"
    proof (cases "vs ! i")
      case None
      then show ?thesis using i bucket_GetBusy_rep [OF r, of i] by (simp add: cells_def)
    next
      case (Some c)
      obtain k v fp p where c: "c = (k, v, fp, p)" by (cases c) auto
      show ?thesis using Some i bucket_GetBusy_rep [OF r, of i] bucket_GetProbe_rep [OF r, of True i] bucket_repD(7) [OF r i, of k v fp p]
        by (simp add: cells_def c)
    qed
  qed
  then show ?thesis by (auto simp: bucket_ok_def)
qed

lemma stash_rep_iff: "stash_rep b st \<longleftrightarrow> stash_ok b \<and> stash_list b = st"
proof -
  have "stash_list b = st" if r: "stash_rep b st"
  proof (rule nth_equalityI)
    show "length (stash_list b) = length st" using r by (simp add: stash_list_def stash_rep_def)
    fix i assume "i < length (stash_list b)"
    then have i: "i < 4" by (simp add: stash_list_def)
    have f: "bit (stash_busy b) i \<longleftrightarrow> st ! i \<noteq> None" "bit (stash_probe_mask b) i \<longleftrightarrow> (\<exists>f p. st ! i = Some (f, p, True))"
      "\<And>f p q. st ! i = Some (f, p, q) \<Longrightarrow> stash_arr b ! i = f \<and> stash_pos_at i b = p"
      using r i by (auto simp: stash_rep_def)
    show "stash_list b ! i = st ! i"
    proof (cases "st ! i")
      case None
      then show ?thesis using i f(1) by (simp add: stash_list_def)
    next
      case (Some x)
      obtain g p q where x: "st ! i = Some (g, p, q)" using Some by (cases x) auto
      then show ?thesis using i f(1,2) f(3) [OF x] by (simp add: stash_list_def)
    qed
  qed
  then show ?thesis by (auto simp: stash_ok_def)
qed

definition own_ptrs :: "('k, 'v) bucket \<Rightarrow> (u8 \<times> nat) multiset" where "own_ptrs b = ptrs False (stash_list b)"

definition probe_ptrs :: "('k, 'v) bucket \<Rightarrow> (u8 \<times> nat) multiset" where "probe_ptrs b = ptrs True (stash_list b)"

lemma same_slots_cells:
  assumes "same_slots b b'"
  shows "cells P b' = cells P b" "bucket_ok P b' = bucket_ok P b"
proof -
  show c: "cells P b' = cells P b" using assms by (simp add: same_slots_def cells_def bucket_GetBusy_def bucket_GetProbe_def)
  show "bucket_ok P b' = bucket_ok P b" unfolding bucket_ok_def c by (rule same_slots_rep [OF assms])
qed

text \<open>Bucket operations leave the stash pointers alone.\<close>

definition same_stash :: "('k, 'v) bucket \<Rightarrow> ('k, 'v) bucket \<Rightarrow> bool" where
  "same_stash b b' \<longleftrightarrow> stash_arr b' = stash_arr b \<and> stash_busy b' = stash_busy b \<and> stash_pos b' = stash_pos b \<and>
     stash_probe_mask b' = stash_probe_mask b \<and> overflow_count b' = overflow_count b"

lemma same_stash_simps:
  assumes "same_stash b b'"
  shows "stash_list b' = stash_list b" "stash_ok b' = stash_ok b" "HasStash b' = HasStash b" "overflow_count b' = overflow_count b"
    "own_ptrs b' = own_ptrs b" "probe_ptrs b' = probe_ptrs b"
proof -
  have p: "stash_pos_at i b' = stash_pos_at i b" for i using assms by (simp add: same_stash_def stash_pos_at_def)
  show l: "stash_list b' = stash_list b" using assms by (simp add: same_stash_def stash_list_def p)
  show "stash_ok b' = stash_ok b" using assms unfolding stash_ok_def l by (simp add: same_stash_def stash_rep_def p)
  show "HasStash b' = HasStash b" "overflow_count b' = overflow_count b" using assms by (simp_all add: same_stash_def HasStash_def)
  show "own_ptrs b' = own_ptrs b" "probe_ptrs b' = probe_ptrs b" using l by (simp_all add: own_ptrs_def probe_ptrs_def)
qed

lemma same_stash_ops:
  "same_stash b (bucket_Insert P i k v fp probe b)" "same_stash b (bucket_Delete P i b)" "same_stash b (UpdateVersion P ver b)"
  "same_stash b (bucket_ClearSlots P m b)" "same_stash b b" "same_stash b b' \<Longrightarrow> same_stash b' b'' \<Longrightarrow> same_stash b b''"
  "same_stash b (bucket_Swap P x y b)"
  by (simp_all add: same_stash_def bucket_Insert_def SetHash_def bucket_Delete_def UpdateVersion_def bucket_ClearSlots_def bucket_Swap_def)

lemma cells_UpdateVersion [simp]: "cells P (UpdateVersion P ver b) = cells P b"
  by (simp add: cells_def UpdateVersion_def bucket_GetBusy_def bucket_GetProbe_def)

lemma bucket_ok_UpdateVersion [simp]: "bucket_ok P (UpdateVersion P ver b) = bucket_ok P b"
  by (simp add: bucket_ok_def)

lemma cells_Insert:
  assumes "bucket_ok P b" "i < kSlotNum P" "cells P b ! i = None"
  shows "bucket_ok P (bucket_Insert P i k v fp probe b)" "cells P (bucket_Insert P i k v fp probe b) = (cells P b)[i := Some (k, v, fp, probe)]"
  using bucket_Insert_rep [OF assms(1) [unfolded bucket_ok_def] assms(2,3)] unfolding bucket_rep_iff by blast+

lemma cells_Delete:
  assumes "bucket_ok P b" "i < kSlotNum P" "cells P b ! i \<noteq> None"
  shows "bucket_ok P (bucket_Delete P i b)" "cells P (bucket_Delete P i b) = (cells P b)[i := None]"
  using bucket_Delete_rep [OF assms(1) [unfolded bucket_ok_def] assms(2,3)] unfolding bucket_rep_iff by blast+

lemma cells_ClearSlots:
  assumes "bucket_ok P b" "\<And>i. bit m i \<Longrightarrow> i < kSlotNum P \<and> cells P b ! i \<noteq> None"
  shows "bucket_ok P (bucket_ClearSlots P m b)" "cells P (bucket_ClearSlots P m b) = clear_list m (cells P b)"
  using bucket_ClearSlots_rep [OF assms(1) [unfolded bucket_ok_def] assms(2)] unfolding bucket_rep_iff by blast+

lemma cells_Swap:
  assumes "bucket_ok P b" "x < kSlotNum P" "y < kSlotNum P"
  shows "bucket_ok P (bucket_Swap P x y b)" "cells P (bucket_Swap P x y b) = list_swap x y (cells P b)"
  using bucket_Swap_rep [OF assms(1) [unfolded bucket_ok_def] assms(2,3)] unfolding bucket_rep_iff by blast+

lemma TryInsert_cases:
  assumes "bucket_ok P b"
  obtains (full) "None \<notin> set (cells P b)" "TryInsertToBucket P k v fp probe b = None" "bucket_IsFull P b"
  | (free) i b' where "None \<in> set (cells P b)" "TryInsertToBucket P k v fp probe b = Some (i, b')" "i < kSlotNum P" "cells P b ! i = None"
      "bucket_ok P b'" "cells P b' = (cells P b)[i := Some (k, v, fp, probe)]" "same_stash b b'" "bversion b' = bversion b" "\<not> bucket_IsFull P b"
proof (cases "None \<in> set (cells P b)")
  case True
  note r = assms [unfolded bucket_ok_def]
  show ?thesis
    using TryInsertToBucket_free [OF r True, of k v fp probe] first_free [OF True] bucket_IsFull_rep [OF r] True
      same_stash_ops(1) [of b P "first_free (cells P b)" k v fp probe]
    by (intro free [of "first_free (cells P b)" "bucket_Insert P (first_free (cells P b)) k v fp probe b"])
       (auto simp: bucket_rep_iff bucket_Insert_def SetHash_def)
next
  case False
  then show ?thesis using TryInsertToBucket_full [OF assms [unfolded bucket_ok_def]] bucket_IsFull_rep [OF assms [unfolded bucket_ok_def]]
    by (intro full) auto
qed

lemma bucket_IsFull_cells: "bucket_ok P b \<Longrightarrow> bucket_IsFull P b \<longleftrightarrow> None \<notin> set (cells P b)"
  by (simp add: bucket_ok_def bucket_IsFull_rep)

lemma bucket_Size_cells: "bucket_ok P b \<Longrightarrow> bucket_Size P b = size (somes (cells P b))"
  by (simp add: bucket_ok_def bucket_Size_rep size_somes)

subsection \<open>Segments\<close>

definition key_home :: "('k, 'v) dash_policy \<Rightarrow> 'k \<Rightarrow> nat" where
  "key_home P k = HomeIndex P (HashFn P k)"

definition key_fp :: "('k, 'v) dash_policy \<Rightarrow> 'k \<Rightarrow> u8" where
  "key_fp P k = hash_fp (HashFn P k)"

definition cell_ok :: "('k, 'v) dash_policy \<Rightarrow> nat \<Rightarrow> ('k, 'v) cell \<Rightarrow> bool" where
  "cell_ok P i c \<longleftrightarrow> cell_fp c = key_fp P (cell_key c) \<and>
     (if i < kBucketNum P then i = (if cell_probe c then NextBid P (key_home P (cell_key c)) else key_home P (cell_key c))
      else \<not> cell_probe c)"

definition shape_ok :: "('k, 'v) dash_policy \<Rightarrow> ('k, 'v) segment \<Rightarrow> bool" where
  "shape_ok P seg \<longleftrightarrow> length (seg_bucket seg) = kTotalBuckets P \<and>
     (\<forall>i < kTotalBuckets P. bucket_ok P (GetBucket i seg)) \<and> (\<forall>i < kBucketNum P. stash_ok (GetBucket i seg)) \<and>
     (\<forall>i < kTotalBuckets P. \<forall>c. Some c \<in> set (cells P (GetBucket i seg)) \<longrightarrow> cell_ok P i c)"

text \<open>The stashed entries of a home bucket, by fingerprint and position, and the pointers that cover them.\<close>

definition stashed :: "('k, 'v) dash_policy \<Rightarrow> ('k, 'v) segment \<Rightarrow> nat \<Rightarrow> (u8 \<times> nat) multiset" where
  "stashed P seg b = (\<Sum>pos < 4. image_mset (\<lambda>c. (cell_fp c, pos))
     (filter_mset (\<lambda>c. key_home P (cell_key c) = b) (somes (cells P (GetBucket (kBucketNum P + pos) seg)))))"

definition refs_at :: "('k, 'v) dash_policy \<Rightarrow> ('k, 'v) segment \<Rightarrow> nat \<Rightarrow> (u8 \<times> nat) multiset" where
  "refs_at P seg b = own_ptrs (GetBucket b seg) + probe_ptrs (GetBucket (NextBid P b) seg)"

definition acct :: "('k, 'v) dash_policy \<Rightarrow> ('k, 'v) segment \<Rightarrow> (nat \<Rightarrow> (u8 \<times> nat) multiset) \<Rightarrow> bool" where
  "acct P seg S \<longleftrightarrow> (\<forall>b < kBucketNum P. refs_at P seg b \<subseteq># S b \<and>
     size (S b) = size (refs_at P seg b) + unat (overflow_count (GetBucket b seg)) \<and> (HasStash (GetBucket b seg) \<longleftrightarrow> S b \<noteq> {#}))"

definition seg_ok :: "('k, 'v) dash_policy \<Rightarrow> ('k, 'v) segment \<Rightarrow> bool" where
  "seg_ok P seg \<longleftrightarrow> shape_ok P seg \<and> acct P seg (stashed P seg)"

definition all_cells :: "('k, 'v) dash_policy \<Rightarrow> ('k, 'v) segment \<Rightarrow> ('k, 'v) cell multiset" where
  "all_cells P seg = (\<Sum>i < kTotalBuckets P. somes (cells P (GetBucket i seg)))"

definition seg_items :: "('k, 'v) dash_policy \<Rightarrow> ('k, 'v) segment \<Rightarrow> ('k \<times> 'v) multiset" where
  "seg_items P seg = image_mset cell_item (all_cells P seg)"

lemma shape_okD:
  assumes "shape_ok P seg"
  shows "length (seg_bucket seg) = kTotalBuckets P" "i < kTotalBuckets P \<Longrightarrow> bucket_ok P (GetBucket i seg)"
    "i < kBucketNum P \<Longrightarrow> stash_ok (GetBucket i seg)" "i < kBucketNum P \<Longrightarrow> bucket_ok P (GetBucket i seg)"
    "i < kTotalBuckets P \<Longrightarrow> Some c \<in> set (cells P (GetBucket i seg)) \<Longrightarrow> cell_ok P i c"
  using assms unfolding shape_ok_def kTotalBuckets_def kStashBucketNum_def by (simp, simp, simp, simp, blast)

lemma Bid_simps [simp]:
  assumes "policy_ok P" "b < kBucketNum P"
  shows "NextBid P b < kBucketNum P" "PrevBid P b < kBucketNum P" "NextBid P (PrevBid P b) = b" "PrevBid P (NextBid P b) = b"
    "NextBid P b \<noteq> b" "PrevBid P b \<noteq> b" "b \<noteq> NextBid P b" "b \<noteq> PrevBid P b" "NextBid P (NextBid P b) \<noteq> b" "b \<noteq> NextBid P (NextBid P b)"
  using assms by (auto simp: NextBid_def PrevBid_def policy_ok_def)

lemma HomeIndex_lt [simp]: "policy_ok P \<Longrightarrow> HomeIndex P h < kBucketNum P" "policy_ok P \<Longrightarrow> key_home P k < kBucketNum P"
  by (simp_all add: HomeIndex_def key_home_def policy_ok_def)

lemma regular_lt_total [simp]: "i < kBucketNum P \<Longrightarrow> i < kTotalBuckets P"
  by (simp add: kTotalBuckets_def)

lemma stash_lt_total [simp]: "pos < 4 \<Longrightarrow> kBucketNum P + pos < kTotalBuckets P"
  by (simp add: kTotalBuckets_def kStashBucketNum_def)

lemma GetBucket_put: "i < length (seg_bucket seg) \<Longrightarrow> GetBucket j (put_bucket i b seg) = (if j = i then b else GetBucket j seg)"
  by (simp add: GetBucket_def put_bucket_def)

lemma put_bucket_simps [simp]:
  "length (seg_bucket (put_bucket i b seg)) = length (seg_bucket seg)" "local_depth (put_bucket i b seg) = local_depth seg"
  "segment_id (put_bucket i b seg) = segment_id seg" "put_bucket i b (put_bucket i b' seg) = put_bucket i b seg"
  by (simp_all add: put_bucket_def)

lemma all_cells_put:
  assumes "i < kTotalBuckets P" "length (seg_bucket seg) = kTotalBuckets P"
  shows "all_cells P (put_bucket i b seg) + somes (cells P (GetBucket i seg)) = all_cells P seg + somes (cells P b)"
proof -
  have "all_cells P (put_bucket i b seg) = somes (cells P b) + (\<Sum>j \<in> {..<kTotalBuckets P} - {i}. somes (cells P (GetBucket j seg)))"
    using assms by (simp add: all_cells_def sum.remove [of "{..<kTotalBuckets P}" i] GetBucket_put)
  moreover have "all_cells P seg = somes (cells P (GetBucket i seg)) + (\<Sum>j \<in> {..<kTotalBuckets P} - {i}. somes (cells P (GetBucket j seg)))"
    using assms(1) by (simp add: all_cells_def sum.remove [of "{..<kTotalBuckets P}" i])
  ultimately show ?thesis by simp
qed

lemma in_all_cells: "c \<in># all_cells P seg \<longleftrightarrow> (\<exists>i < kTotalBuckets P. Some c \<in> set (cells P (GetBucket i seg)))"
  by (auto simp: all_cells_def in_somes set_mset_sum)

lemma in_stashed:
  "(fp, pos) \<in># stashed P seg b \<longleftrightarrow>
   pos < 4 \<and> (\<exists>c. Some c \<in> set (cells P (GetBucket (kBucketNum P + pos) seg)) \<and> key_home P (cell_key c) = b \<and> cell_fp c = fp)"
  by (auto simp: stashed_def set_mset_sum in_somes image_iff)

lemma stashed_cong:
  "(\<And>pos. pos < 4 \<Longrightarrow> cells P (GetBucket (kBucketNum P + pos) seg') = cells P (GetBucket (kBucketNum P + pos) seg)) \<Longrightarrow>
   stashed P seg' b = stashed P seg b"
  unfolding stashed_def by (rule sum.cong) auto

subsection \<open>Lookup\<close>

lemma stash_pos_at_lt: "stash_pos_at i b < 4"
proof -
  have "unat (drop_bit (i * 2) (stash_pos b) AND 3) \<le> unat (3 :: u8)"
    using word_and_le1 [of "drop_bit (i * 2) (stash_pos b)" 3] by (simp add: word_le_nat_alt)
  then show ?thesis unfolding stash_pos_at_def by simp
qed

lemma stash_cb_simp: "stash_cb P fp pred seg = (\<lambda>_. (\<lambda>pos. FindByFp P fp False pred (GetBucket (kBucketNum P + pos) seg)))"
  by (simp add: stash_cb_def fun_eq_iff)

lemma ptr_pos_lt: "Some (fp, pos, probe) \<in> set (stash_list b) \<Longrightarrow> pos < 4"
  using stash_pos_at_lt by (auto simp: stash_list_def split: if_splits)

lemma FindInStash_Some:
  assumes P: "policy_ok P" and S: "shape_ok P seg" and b: "b < kBucketNum P" and r: "FindInStash P fp pred b seg = Some (pos, sid)"
  shows "pos < 4 \<and> FindByFp P fp False pred (GetBucket (kBucketNum P + pos) seg) = Some sid"
proof -
  note D = shape_okD [OF S]
  let ?g = "\<lambda>pos. FindByFp P fp False pred (GetBucket (kBucketNum P + pos) seg)"
  have it: "pos < 4 \<and> ?g pos = Some sid" if "IterateStash fp probe (\<lambda>_. ?g) (GetBucket c seg) = Some (pos, sid)" "c < kBucketNum P" for probe c
    using IterateStash_cases(1) [OF D(3) [OF that(2), unfolded stash_ok_def] that(1)] ptr_pos_lt by blast
  show ?thesis
  proof (cases "HasStashOverflow (GetBucket b seg)")
    case True
    then have "(case find (\<lambda>i. map_option (Pair i) (?g i) \<noteq> None) [0..<4] of None \<Rightarrow> None | Some i \<Rightarrow> map_option (Pair i) (?g i)) = Some (pos, sid)"
      using r by (simp add: FindInStash_def Let_def fold_first stash_cb_simp kStashBucketNum_def split: if_splits)
    then show ?thesis by (auto simp: find_Some_iff split: option.splits)
  next
    case False
    then show ?thesis using r it [of False b] it [of True "NextBid P b"] b Bid_simps(1) [OF P b]
      by (auto simp: FindInStash_def Let_def stash_cb_simp split: if_splits option.splits)
  qed
qed

lemma FindIt_Some:
  assumes P: "policy_ok P" and S: "shape_ok P seg" and r: "FindIt P h pred seg = Some (i, j)"
  shows "i < kTotalBuckets P \<and> j < kSlotNum P \<and> (\<exists>c. cells P (GetBucket i seg) ! j = Some c \<and> pred (cell_key c))"
proof -
  let ?b = "HomeIndex P h"
  have cell: "i < kTotalBuckets P \<and> j < kSlotNum P \<and> (\<exists>c. cells P (GetBucket i seg) ! j = Some c \<and> pred (cell_key c))"
    if "FindByFp P fp probe pred (GetBucket i seg) = Some j" "i < kTotalBuckets P" for fp probe
    using FindByFp_Some [OF shape_okD(2) [OF S that(2), unfolded bucket_ok_def] that(1)] that(2) by auto
  have hb: "?b < kBucketNum P" using P by simp
  show ?thesis
  proof (cases "FindByFp P (hash_fp h) False pred (GetBucket ?b seg)")
    case (Some s1)
    then have "i = ?b" "j = s1" using r by (simp_all add: FindIt_def Let_def)
    then show ?thesis using cell [of "hash_fp h" False] Some hb by simp
  next
    case n1: None
    show ?thesis
    proof (cases "FindByFp P (hash_fp h) True pred (GetBucket (NextBid P ?b) seg)")
      case (Some s1)
      then have "i = NextBid P ?b" "j = s1" using r n1 by (simp_all add: FindIt_def Let_def)
      then show ?thesis using cell [of "hash_fp h" True] Some Bid_simps(1) [OF P hb] by simp
    next
      case None
      then obtain pos where "FindInStash P (hash_fp h) pred ?b seg = Some (pos, j)" "i = kBucketNum P + pos"
        using r n1 by (auto simp: FindIt_def Let_def)
      then show ?thesis using FindInStash_Some [OF P S hb, of "hash_fp h" pred pos j] cell [of "hash_fp h" False] by simp
    qed
  qed
qed

lemma acct_full: "acct P seg S \<Longrightarrow> b < kBucketNum P \<Longrightarrow> overflow_count (GetBucket b seg) = 0 \<Longrightarrow> refs_at P seg b = S b"
  by (auto simp: acct_def intro: mset_subset_eq_multiset_union_diff_commute dest!: spec [of _ b]) (metis nat_neq_iff subset_mset.le_imp_less_or_eq mset_subset_size)

lemma FindInStash_None:
  assumes P: "policy_ok P" and S: "seg_ok P seg" and b: "b < kBucketNum P" and r: "FindInStash P fp pred b seg = None"
    and m: "(fp, pos) \<in># stashed P seg b"
  shows "FindByFp P fp False pred (GetBucket (kBucketNum P + pos) seg) = None"
proof -
  have S': "shape_ok P seg" and A: "acct P seg (stashed P seg)" using S by (simp_all add: seg_ok_def)
  note D = shape_okD [OF S']
  let ?g = "\<lambda>pos. FindByFp P fp False pred (GetBucket (kBucketNum P + pos) seg)"
  have pos: "pos < 4" using m by (simp add: in_stashed)
  have has: "HasStash (GetBucket b seg)" using A b m by (auto simp: acct_def)
  show ?thesis
  proof (cases "HasStashOverflow (GetBucket b seg)")
    case True
    then have "(case find (\<lambda>i. map_option (Pair i) (?g i) \<noteq> None) [0..<4] of None \<Rightarrow> None | Some i \<Rightarrow> map_option (Pair i) (?g i)) = None"
      using r has by (simp add: FindInStash_def Let_def fold_first stash_cb_simp kStashBucketNum_def)
    then show ?thesis using pos unfolding first_None by simp
  next
    case False
    then have "refs_at P seg b = stashed P seg b" using acct_full [OF A b] by (simp add: HasStashOverflow_def word_gt_0)
    then have "Some (fp, pos, False) \<in> set (stash_list (GetBucket b seg)) \<or> Some (fp, pos, True) \<in> set (stash_list (GetBucket (NextBid P b) seg))"
      using m by (metis in_ptrs own_ptrs_def probe_ptrs_def refs_at_def union_iff)
    moreover have "IterateStash fp False (\<lambda>_. ?g) (GetBucket b seg) = None" "IterateStash fp True (\<lambda>_. ?g) (GetBucket (NextBid P b) seg) = None"
      using r has False by (auto simp: FindInStash_def Let_def stash_cb_simp split: option.splits)
    ultimately show ?thesis
      using IterateStash_cases(2) [OF D(3) [OF b, unfolded stash_ok_def]]
        IterateStash_cases(2) [OF D(3) [OF Bid_simps(1) [OF P b], unfolded stash_ok_def]] by blast
  qed
qed

lemma FindIt_None:
  assumes P: "policy_ok P" and S: "seg_ok P seg" and r: "FindIt P (HashFn P k) (\<lambda>x. x = k) seg = None"
  shows "k \<notin># image_mset cell_key (all_cells P seg)"
proof
  assume "k \<in># image_mset cell_key (all_cells P seg)"
  then obtain i c where i: "i < kTotalBuckets P" "Some c \<in> set (cells P (GetBucket i seg))" "cell_key c = k"
    by (auto simp: in_all_cells)
  have S': "shape_ok P seg" using S by (simp add: seg_ok_def)
  obtain v fp p where c: "c = (k, v, fp, p)" using i(3) by (cases c) auto
  have ok: "cell_ok P i c" using shape_okD(5) [OF S' i(1,2)] .
  then have fp: "fp = hash_fp (HashFn P k)" by (simp add: cell_ok_def c key_fp_def)
  let ?h = "HomeIndex P (HashFn P k)"
  have hb: "?h < kBucketNum P" using P by simp
  obtain j where j: "j < kSlotNum P" "cells P (GetBucket i seg) ! j = Some (k, v, fp, p)" using i(2) by (auto simp: in_set_conv_nth c)
  have miss: "FindByFp P fp p (\<lambda>x. x = k) (GetBucket i seg) \<noteq> None"
    using FindByFp_None [OF shape_okD(2) [OF S' i(1), unfolded bucket_ok_def] _ j] by blast
  have n: "FindByFp P fp False (\<lambda>x. x = k) (GetBucket ?h seg) = None" "FindByFp P fp True (\<lambda>x. x = k) (GetBucket (NextBid P ?h) seg) = None"
    "FindInStash P fp (\<lambda>x. x = k) ?h seg = None"
    using r by (auto simp: FindIt_def Let_def fp split: option.splits)
  show False
  proof (cases "i < kBucketNum P")
    case True
    then show False using ok miss n by (auto simp: cell_ok_def c key_home_def split: if_splits)
  next
    case False
    define pos where "pos = i - kBucketNum P"
    have pos: "i = kBucketNum P + pos" "pos < 4" using False i(1) by (auto simp: pos_def kTotalBuckets_def kStashBucketNum_def)
    then have "(fp, pos) \<in># stashed P seg ?h" using i(2) by (auto simp: in_stashed c key_home_def intro: exI [of _ c])
    then show False using FindInStash_None [OF P S hb n(3)] miss ok pos False by (auto simp: cell_ok_def c)
  qed
qed

subsection \<open>Replacing a bucket\<close>

lemma shape_put:
  assumes "shape_ok P seg" "i < kTotalBuckets P" "bucket_ok P b" "i < kBucketNum P \<Longrightarrow> stash_ok b"
    "\<And>c. Some c \<in> set (cells P b) \<Longrightarrow> cell_ok P i c"
  shows "shape_ok P (put_bucket i b seg)"
  using assms unfolding shape_ok_def by (auto simp: GetBucket_put)

lemma acct_put_same:
  assumes "acct P seg S" "i < length (seg_bucket seg)" "same_stash (GetBucket i seg) b"
  shows "acct P (put_bucket i b seg) S"
  using assms same_stash_simps [OF assms(3)] by (auto simp: acct_def refs_at_def GetBucket_put)

lemma stashed_put_regular: "i < kBucketNum P \<Longrightarrow> length (seg_bucket seg) = kTotalBuckets P \<Longrightarrow> stashed P (put_bucket i b seg) = stashed P seg"
  by (intro ext stashed_cong) (simp add: GetBucket_put)

lemma somes_add_cell: "j < length vs \<Longrightarrow> vs ! j = None \<Longrightarrow> somes (vs[j := Some c]) = add_mset c (somes vs)"
  by (rule somes_update_Some)

lemma set_update_cells: "Some c' \<in> set (vs[j := Some c]) \<Longrightarrow> c' = c \<or> Some c' \<in> set vs"
  using set_update_subset_insert [of vs j "Some c"] by auto

lemma put_add_cell:
  assumes "shape_ok P seg" "acct P seg S" "i < kTotalBuckets P" "bucket_ok P b" "same_stash (GetBucket i seg) b"
    "cells P b = (cells P (GetBucket i seg))[j := Some c]" "j < kSlotNum P" "cells P (GetBucket i seg) ! j = None" "cell_ok P i c"
  shows "shape_ok P (put_bucket i b seg)" "acct P (put_bucket i b seg) S" "all_cells P (put_bucket i b seg) = add_mset c (all_cells P seg)"
proof -
  note D = shape_okD [OF assms(1)]
  show "shape_ok P (put_bucket i b seg)"
    using assms(9) D(5) [OF assms(3)] D(3) same_stash_simps(2) [OF assms(5)]
    by (intro shape_put [OF assms(1,3,4)]) (auto simp: assms(6) dest!: set_update_cells)
  show "acct P (put_bucket i b seg) S" using assms D(1) by (intro acct_put_same) auto
  show "all_cells P (put_bucket i b seg) = add_mset c (all_cells P seg)"
    using all_cells_put [OF assms(3) D(1), of b] assms(6-8) by (simp add: somes_update_Some)
qed

lemma put_del_cell:
  assumes "shape_ok P seg" "acct P seg S" "i < kTotalBuckets P" "bucket_ok P b" "same_stash (GetBucket i seg) b"
    "cells P b = (cells P (GetBucket i seg))[j := None]" "j < kSlotNum P" "cells P (GetBucket i seg) ! j = Some c"
  shows "shape_ok P (put_bucket i b seg)" "acct P (put_bucket i b seg) S" "all_cells P seg = add_mset c (all_cells P (put_bucket i b seg))"
proof -
  note D = shape_okD [OF assms(1)]
  have sub: "Some c' \<in> set (cells P b) \<Longrightarrow> Some c' \<in> set (cells P (GetBucket i seg))" for c'
    using set_update_subset_insert [of "cells P (GetBucket i seg)" j None] by (auto simp: assms(6))
  show "shape_ok P (put_bucket i b seg)"
    using D(5) [OF assms(3)] D(3) same_stash_simps(2) [OF assms(5)] sub by (intro shape_put [OF assms(1,3,4)]) auto
  show "acct P (put_bucket i b seg) S" using assms D(1) by (intro acct_put_same) auto
  show "all_cells P seg = add_mset c (all_cells P (put_bucket i b seg))"
    using all_cells_put [OF assms(3) D(1), of b] assms(6-8) by (simp add: somes_update_None)
qed

lemma size_somes_le: "size (somes (cells P b)) \<le> kSlotNum P"
  using length_filter_le [of "\<lambda>x. x \<noteq> None" "cells P b"] by (simp add: size_somes)

lemma size_stashed_le: "size (stashed P seg b) \<le> 4 * kSlotNum P"
proof -
  have "size (stashed P seg b) \<le> (\<Sum>pos < 4 :: nat. kSlotNum P)"
    unfolding stashed_def size_multiset_sum
  proof (rule sum_mono)
    fix pos :: nat
    have "size (filter_mset (\<lambda>c. key_home P (cell_key c) = b) (somes (cells P (GetBucket (kBucketNum P + pos) seg)))) \<le> kSlotNum P"
      using size_filter_mset_lesseq size_somes_le le_trans by blast
    then show "size (image_mset (\<lambda>c. (cell_fp c, pos)) (filter_mset (\<lambda>c. key_home P (cell_key c) = b)
        (somes (cells P (GetBucket (kBucketNum P + pos) seg))))) \<le> kSlotNum P" by simp
  qed
  then show ?thesis by simp
qed

subsection \<open>Displacement\<close>

lemma ctz_probe_cell:
  assumes ok: "bucket_ok P b" and full: "own \<Longrightarrow> bucket_IsFull P b" and nz: "bucket_GetProbe P (\<not> own) b \<noteq> 0"
  obtains c where "ctz (bucket_GetProbe P (\<not> own) b) < kSlotNum P" "cells P b ! ctz (bucket_GetProbe P (\<not> own) b) = Some c"
    "cell_probe c = (\<not> own)" "c = (bkey b ! ctz (bucket_GetProbe P (\<not> own) b), bvalue b ! ctz (bucket_GetProbe P (\<not> own) b),
       Fp (ctz (bucket_GetProbe P (\<not> own) b)) b, \<not> own)"
proof -
  let ?d = "ctz (bucket_GetProbe P (\<not> own) b)"
  note r = ok [unfolded bucket_ok_def]
  have d: "?d < kSlotNum P" "(\<not> own) \<longleftrightarrow> (\<exists>c. cells P b ! ?d = Some c \<and> cell_probe c)"
    using ctz_bit(1) [OF nz] bucket_GetProbe_rep [OF r] by auto
  have "cells P b ! ?d \<noteq> None"
  proof (cases own)
    case True
    then have "None \<notin> set (cells P b)" using full bucket_IsFull_cells [OF ok] by simp
    then show ?thesis using d(1) by (metis length_cells nth_mem)
  next
    case False
    then show ?thesis using d(2) by auto
  qed
  then obtain k v fp p where c: "cells P b ! ?d = Some (k, v, fp, p)" by (cases "cells P b ! ?d") auto
  show ?thesis using that [of "(k, v, fp, p)"] d c bucket_repD(7) [OF r d(1) c] by (auto simp: Fp_def)
qed

lemma MoveToOther_spec:
  assumes P: "policy_ok P" and S: "shape_ok P seg" and A: "acct P seg S"
    and ft: "frm < kBucketNum P" "to = (if own then NextBid P frm else PrevBid P frm)"
    and full: "own \<Longrightarrow> bucket_IsFull P (GetBucket frm seg)" and r: "MoveToOther P own frm to seg = Some (d, seg')"
  shows "shape_ok P seg' \<and> acct P seg' S \<and> d < kSlotNum P \<and> cells P (GetBucket frm seg') ! d = None \<and>
    seg_items P seg' = seg_items P seg \<and> stashed P seg' = stashed P seg \<and>
    local_depth seg' = local_depth seg \<and> segment_id seg' = segment_id seg"
proof -
  define src where "src = GetBucket frm seg"
  note D = shape_okD [OF S]
  have to: "to < kBucketNum P" "to \<noteq> frm" using P ft by (auto split: if_splits)
  have ok: "bucket_ok P src" "bucket_ok P (GetBucket to seg)" using D(4) ft to by (auto simp: src_def)
  have nz: "bucket_GetProbe P (\<not> own) src \<noteq> 0" using r by (auto simp: MoveToOther_def src_def Let_def split: if_splits)
  obtain c where c: "ctz (bucket_GetProbe P (\<not> own) src) < kSlotNum P" "cells P src ! ctz (bucket_GetProbe P (\<not> own) src) = Some c"
    "cell_probe c = (\<not> own)" "c = (bkey src ! ctz (bucket_GetProbe P (\<not> own) src), bvalue src ! ctz (bucket_GetProbe P (\<not> own) src),
       Fp (ctz (bucket_GetProbe P (\<not> own) src)) src, \<not> own)"
    using ctz_probe_cell [OF ok(1) full [folded src_def] nz] by blast
  define e where "e = ctz (bucket_GetProbe P (\<not> own) src)"
  define c' where "c' = (bkey src ! e, bvalue src ! e, Fp e src, own)"
  obtain i dst where t: "TryInsertToBucket P (bkey src ! e) (bvalue src ! e) (Fp e src) own (GetBucket to seg) = Some (i, dst)"
    and res: "d = e" "seg' = put_bucket frm (bucket_Delete P e src) (put_bucket to (UpdateVersion P (bversion src) dst) seg)"
    using r nz by (auto simp: MoveToOther_def src_def e_def Let_def split: option.splits)
  obtain i: "i < kSlotNum P" "cells P (GetBucket to seg) ! i = None" "bucket_ok P dst"
    "cells P dst = (cells P (GetBucket to seg))[i := Some c']" "same_stash (GetBucket to seg) dst"
    using t by (cases rule: TryInsert_cases [OF ok(2), of "bkey src ! e" "bvalue src ! e" "Fp e src" own]) (auto simp: c'_def)
  have cin: "Some c \<in> set (cells P (GetBucket frm seg))" using c(1,2) by (metis length_cells nth_mem src_def)
  have ck: "cell_ok P frm c" using D(5) [OF _ cin] ft(1) by simp
  then have cell: "cell_ok P to c'" using ft to P c(3,4) by (auto simp: cell_ok_def c'_def e_def split: if_splits)
  define seg1 where "seg1 = put_bucket to (UpdateVersion P (bversion src) dst) seg"
  have st1: "same_stash (GetBucket to seg) (UpdateVersion P (bversion src) dst)" using i(5) same_stash_ops(3,6) by metis
  note p1 = put_add_cell [OF S A _ _ st1 _ i(1) i(2) cell, folded seg1_def]
  have p1: "shape_ok P seg1" "acct P seg1 S" "all_cells P seg1 = add_mset c' (all_cells P seg)"
    using p1 i to by simp_all
  have g: "GetBucket frm seg1 = src" using to D(1) by (simp add: seg1_def GetBucket_put src_def)
  note del = cells_Delete [OF ok(1) c(1), folded e_def]
  have ne: "cells P src ! e \<noteq> None" using c(2) by (simp add: e_def)
  have p2: "shape_ok P seg'" "acct P seg' S" "all_cells P seg1 = add_mset c (all_cells P seg')"
    using put_del_cell [OF p1(1,2), of frm "bucket_Delete P e src" e c] g del [OF ne] ne c(1,2) ft(1)
    unfolding res(2) seg1_def [symmetric] by (simp_all add: e_def same_stash_ops)
  have "add_mset (cell_item c) (seg_items P seg') = add_mset (cell_item c') (seg_items P seg)"
    unfolding seg_items_def image_mset_add_mset [symmetric] p1(3) [symmetric] p2(3) [symmetric] ..
  moreover have "cell_item c' = cell_item c" by (subst c(4)) (simp add: c'_def e_def)
  ultimately have items: "seg_items P seg' = seg_items P seg" by simp
  have "stashed P seg' = stashed P seg" using res(2) D(1) ft(1) to(1) by (simp add: stashed_put_regular)
  moreover have "cells P (GetBucket frm seg') ! e = None"
    using del [OF ne] c(1) D(1) ft(1) by (simp add: res(2) GetBucket_put e_def)
  ultimately show ?thesis using p2 items c(1) res by (simp add: e_def)
qed

subsection \<open>Stash pointers\<close>

text \<open>Two segments that differ in stash pointers only.\<close>

definition same_cells :: "('k, 'v) dash_policy \<Rightarrow> ('k, 'v) segment \<Rightarrow> ('k, 'v) segment \<Rightarrow> bool" where
  "same_cells P seg seg' \<longleftrightarrow> length (seg_bucket seg') = length (seg_bucket seg) \<and> local_depth seg' = local_depth seg \<and>
     segment_id seg' = segment_id seg \<and> (\<forall>i. same_slots (GetBucket i seg) (GetBucket i seg'))"

lemma same_cells_simps:
  assumes "same_cells P seg seg'"
  shows "cells P (GetBucket i seg') = cells P (GetBucket i seg)" "all_cells P seg' = all_cells P seg" "stashed P seg' = stashed P seg"
    "seg_items P seg' = seg_items P seg" "length (seg_bucket seg') = length (seg_bucket seg)" "bversion (GetBucket i seg') = bversion (GetBucket i seg)"
    "local_depth seg' = local_depth seg" "segment_id seg' = segment_id seg"
proof -
  have c: "cells P (GetBucket i seg') = cells P (GetBucket i seg)" for i
    using assms same_slots_cells(1) unfolding same_cells_def by blast
  then show "cells P (GetBucket i seg') = cells P (GetBucket i seg)" "all_cells P seg' = all_cells P seg"
    by (simp_all add: all_cells_def)
  then show "seg_items P seg' = seg_items P seg" by (simp add: seg_items_def)
  show "stashed P seg' = stashed P seg" by (intro ext stashed_cong c)
qed (use assms in \<open>auto simp: same_cells_def same_slots_def\<close>)

lemma ptr_update:
  assumes P: "policy_ok P" and S: "shape_ok P seg" and A: "acct P seg S" and y: "y < kBucketNum P"
    and t: "stash_ok t" "same_slots (GetBucket y seg) t" "probe_ptrs t = probe_ptrs (GetBucket y seg)"
    and n: "stash_ok n" "same_slots (GetBucket (NextBid P y) seg) n" "own_ptrs n = own_ptrs (GetBucket (NextBid P y) seg)"
      "overflow_count n = overflow_count (GetBucket (NextBid P y) seg)" "HasStash n = HasStash (GetBucket (NextBid P y) seg)"
    and new: "own_ptrs t + probe_ptrs n \<subseteq># S'" "size S' = size (own_ptrs t + probe_ptrs n) + unat (overflow_count t)" "HasStash t \<longleftrightarrow> S' \<noteq> {#}"
  shows "shape_ok P (put_bucket (NextBid P y) n (put_bucket y t seg))"
    "acct P (put_bucket (NextBid P y) n (put_bucket y t seg)) (S(y := S'))"
    "same_cells P seg (put_bucket (NextBid P y) n (put_bucket y t seg))"
proof -
  let ?n = "NextBid P y" let ?s = "put_bucket ?n n (put_bucket y t seg)"
  note D = shape_okD [OF S]
  have ny: "?n < kBucketNum P" "?n \<noteq> y" using P y by simp_all
  have g: "GetBucket i ?s = (if i = ?n then n else if i = y then t else GetBucket i seg)" for i
    using D(1) ny y by (simp add: GetBucket_put)
  show sc: "same_cells P seg ?s" using t(2) n(2) by (simp add: same_cells_def g)
  show "shape_ok P ?s"
    using S t(1) n(1) same_slots_cells(2) [OF t(2), of P] same_slots_cells(2) [OF n(2), of P] same_slots_cells(1) [OF t(2), of P]
      same_slots_cells(1) [OF n(2), of P] ny y D unfolding shape_ok_def by (auto simp: g)
  show "acct P ?s (S(y := S'))"
    unfolding acct_def
  proof (intro allI impI)
    fix b assume b: "b < kBucketNum P"
    have nb: "NextBid P b = ?n \<longleftrightarrow> b = y" using Bid_simps(4) [OF P b] Bid_simps(4) [OF P y] by metis
    show "refs_at P ?s b \<subseteq># (S(y := S')) b \<and> size ((S(y := S')) b) = size (refs_at P ?s b) + unat (overflow_count (GetBucket b ?s)) \<and>
      (HasStash (GetBucket b ?s) \<longleftrightarrow> (S(y := S')) b \<noteq> {#})"
    proof (cases "b = y")
      case True
      then show ?thesis using new ny by (simp add: refs_at_def g)
    next
      case False
      have "own_ptrs (GetBucket b ?s) = own_ptrs (GetBucket b seg)" "overflow_count (GetBucket b ?s) = overflow_count (GetBucket b seg)"
        "HasStash (GetBucket b ?s) = HasStash (GetBucket b seg)" "probe_ptrs (GetBucket (NextBid P b) ?s) = probe_ptrs (GetBucket (NextBid P b) seg)"
        using False n t nb by (auto simp: g)
      then show ?thesis using A b False by (simp add: acct_def refs_at_def)
    qed
  qed
qed

lemma SetStashPtr_seg:
  assumes P: "policy_ok P" and S: "shape_ok P seg" and A: "acct P seg S" and y: "y < kBucketNum P" and pos: "pos < 4"
    and sz: "size (S y) < 255" and r: "SetStashPtr pos fp (GetBucket y seg) (GetBucket (NextBid P y) seg) = (t, n)"
  shows "shape_ok P (put_bucket (NextBid P y) n (put_bucket y t seg))"
    "acct P (put_bucket (NextBid P y) n (put_bucket y t seg)) (S(y := add_mset (fp, pos) (S y)))"
    "same_cells P seg (put_bucket (NextBid P y) n (put_bucket y t seg))"
proof -
  note D = shape_okD [OF S]
  have a: "refs_at P seg y \<subseteq># S y" "size (S y) = size (refs_at P seg y) + unat (overflow_count (GetBucket y seg))" using A y by (simp_all add: acct_def)
  have st: "stash_rep (GetBucket y seg) (stash_list (GetBucket y seg))" "stash_rep (GetBucket (NextBid P y) seg) (stash_list (GetBucket (NextBid P y) seg))"
    using D(3) y P by (simp_all add: stash_ok_def [symmetric])
  obtain st' sn' where f: "stash_rep t st'" "stash_rep n sn'" "same_slots (GetBucket y seg) t" "same_slots (GetBucket (NextBid P y) seg) n" "HasStash t"
    "HasStash n = HasStash (GetBucket (NextBid P y) seg)" "overflow_count n = overflow_count (GetBucket (NextBid P y) seg)"
    "ptrs True st' = ptrs True (stash_list (GetBucket y seg))" "ptrs False sn' = ptrs False (stash_list (GetBucket (NextBid P y) seg))"
    "(refs st' sn' = add_mset (fp, pos) (refs (stash_list (GetBucket y seg)) (stash_list (GetBucket (NextBid P y) seg))) \<and> overflow_count t = overflow_count (GetBucket y seg)) \<or>
     (refs st' sn' = refs (stash_list (GetBucket y seg)) (stash_list (GetBucket (NextBid P y) seg)) \<and> unat (overflow_count t) = Suc (unat (overflow_count (GetBucket y seg))))"
    using SetStashPtr_spec [OF st pos _ r] a(2) sz by (auto simp: that)
  have l: "stash_list t = st'" "stash_list n = sn'" "stash_ok t" "stash_ok n" using f(1,2) by (auto simp: stash_rep_iff)
  have R: "refs (stash_list (GetBucket y seg)) (stash_list (GetBucket (NextBid P y) seg)) = refs_at P seg y" "refs st' sn' = own_ptrs t + probe_ptrs n"
    by (simp_all add: refs_def refs_at_def own_ptrs_def probe_ptrs_def l)
  have new: "own_ptrs t + probe_ptrs n \<subseteq># add_mset (fp, pos) (S y)"
    "size (add_mset (fp, pos) (S y)) = size (own_ptrs t + probe_ptrs n) + unat (overflow_count t)"
    using f(10) a unfolding R by (auto intro: subset_mset.order_trans simp del: size_union)
  show "shape_ok P (put_bucket (NextBid P y) n (put_bucket y t seg))"
    "acct P (put_bucket (NextBid P y) n (put_bucket y t seg)) (S(y := add_mset (fp, pos) (S y)))"
    "same_cells P seg (put_bucket (NextBid P y) n (put_bucket y t seg))"
    using ptr_update [OF P S A y l(3) f(3) _ l(4) f(4) _ f(7) f(6) new] f(5,8,9) by (simp_all add: own_ptrs_def probe_ptrs_def l)
qed

lemma subset_minus_absent: "R \<subseteq># M \<Longrightarrow> x \<notin># R \<Longrightarrow> R \<subseteq># M - {#x#}"
  unfolding subseteq_mset_def by (auto simp: not_in_iff)

lemma subset_diff_mono: "R \<subseteq># M \<Longrightarrow> R - T \<subseteq># M - T"
  by (simp add: subseteq_mset_def diff_le_mono)

lemma UnsetStashPtr_seg:
  assumes P: "policy_ok P" and S: "shape_ok P seg" and A: "acct P seg S" and y: "y < kBucketNum P"
    and m: "(fp, pos) \<in># S y" and r: "UnsetStashPtr fp pos (GetBucket y seg) (GetBucket (NextBid P y) seg) = (res, t, n)"
  shows "shape_ok P (put_bucket (NextBid P y) n (put_bucket y t seg))"
    "acct P (put_bucket (NextBid P y) n (put_bucket y t seg)) (S(y := S y - {#(fp, pos)#}))"
    "same_cells P seg (put_bucket (NextBid P y) n (put_bucket y t seg))" "res \<le> 1"
proof -
  note D = shape_okD [OF S]
  let ?R = "refs_at P seg y" and ?ov = "overflow_count (GetBucket y seg)"
  have a: "?R \<subseteq># S y" "size (S y) = size ?R + unat ?ov" "HasStash (GetBucket y seg)" using A y m by (auto simp: acct_def)
  have st: "stash_rep (GetBucket y seg) (stash_list (GetBucket y seg))" "stash_rep (GetBucket (NextBid P y) seg) (stash_list (GetBucket (NextBid P y) seg))"
    using D(3) y P by (simp_all add: stash_ok_def [symmetric])
  have R: "refs (stash_list (GetBucket y seg)) (stash_list (GetBucket (NextBid P y) seg)) = ?R"
    by (simp add: refs_def refs_at_def own_ptrs_def probe_ptrs_def)
  have ov: "0 < ?ov" if "(fp, pos) \<notin># ?R"
  proof -
    have "?R \<subseteq># S y - {#(fp, pos)#}" by (rule subset_minus_absent [OF a(1) that])
    then have "size ?R \<le> size (S y) - 1" using m size_mset_mono [of ?R "S y - {#(fp, pos)#}"] by (simp add: size_Diff_singleton)
    moreover have "0 < size (S y)" using m by (cases "S y") auto
    ultimately have "unat ?ov \<noteq> 0" using a(2) by linarith
    then show ?thesis by (simp add: word_gt_0 unat_eq_zero)
  qed
  obtain st' sn' where f: "stash_rep t st'" "stash_rep n sn'" "same_slots (GetBucket y seg) t" "same_slots (GetBucket (NextBid P y) seg) n"
    "HasStash n = HasStash (GetBucket (NextBid P y) seg)" "overflow_count n = overflow_count (GetBucket (NextBid P y) seg)"
    "ptrs True st' = ptrs True (stash_list (GetBucket y seg))" "ptrs False sn' = ptrs False (stash_list (GetBucket (NextBid P y) seg))"
    "refs st' sn' = ?R - {#(fp, pos)#}" "unat (overflow_count t) = unat ?ov - of_bool ((fp, pos) \<notin># ?R)"
    "HasStash t \<longleftrightarrow> \<not> (refs st' sn' = {#} \<and> overflow_count t = 0)"
    "res = of_bool ((fp, pos) \<notin># ptrs False (stash_list (GetBucket y seg)) \<and> (fp, pos) \<in># ptrs True (stash_list (GetBucket (NextBid P y) seg)))"
    using UnsetStashPtr_spec [OF st r] ov a(3) unfolding R by blast
  have l: "stash_list t = st'" "stash_list n = sn'" "stash_ok t" "stash_ok n" using f(1,2) by (auto simp: stash_rep_iff)
  have R': "refs st' sn' = own_ptrs t + probe_ptrs n" by (simp add: refs_def own_ptrs_def probe_ptrs_def l)
  have sz: "size (S y - {#(fp, pos)#}) = size (S y) - 1" "size (S y) \<noteq> 0" using m by (auto simp: size_Diff_singleton)
  have new: "own_ptrs t + probe_ptrs n \<subseteq># S y - {#(fp, pos)#}"
    "size (S y - {#(fp, pos)#}) = size (own_ptrs t + probe_ptrs n) + unat (overflow_count t)"
  proof -
    show "own_ptrs t + probe_ptrs n \<subseteq># S y - {#(fp, pos)#}"
      using a(1) unfolding R' [symmetric] f(9) by (rule subset_diff_mono)
    show "size (S y - {#(fp, pos)#}) = size (own_ptrs t + probe_ptrs n) + unat (overflow_count t)"
    proof (cases "(fp, pos) \<in># ?R")
      case True
      then have "0 < size ?R" "size (?R - {#(fp, pos)#}) = size ?R - 1" by (cases ?R, simp_all add: size_Diff_singleton)
      then show ?thesis using True unfolding R' [symmetric] f(9) sz(1) f(10) a(2) by simp
    next
      case False
      then have "unat ?ov \<noteq> 0" using ov by (simp add: word_gt_0 unat_eq_zero)
      then show ?thesis using False unfolding R' [symmetric] f(9) sz(1) f(10) a(2) by (simp add: diff_single_trivial)
    qed
  qed
  have has: "HasStash t \<longleftrightarrow> S y - {#(fp, pos)#} \<noteq> {#}"
    using f(11) new(2) unfolding R' by (metis add_is_0 size_eq_0_iff_empty unat_eq_zero)
  show "shape_ok P (put_bucket (NextBid P y) n (put_bucket y t seg))"
    "acct P (put_bucket (NextBid P y) n (put_bucket y t seg)) (S(y := S y - {#(fp, pos)#}))"
    "same_cells P seg (put_bucket (NextBid P y) n (put_bucket y t seg))"
    using ptr_update [OF P S A y l(3) f(3) _ l(4) f(4) _ f(6) f(5) new has] f(7,8) by (simp_all add: own_ptrs_def probe_ptrs_def l)
  show "res \<le> 1" by (simp add: f(12))
qed

lemma RemoveStashReference_spec:
  assumes "policy_ok P" "shape_ok P seg" "acct P seg S" "(hash_fp h, pos) \<in># S (HomeIndex P h)"
  shows "shape_ok P (RemoveStashReference P pos h seg)"
    "acct P (RemoveStashReference P pos h seg) (S(HomeIndex P h := S (HomeIndex P h) - {#(hash_fp h, pos)#}))"
    "same_cells P seg (RemoveStashReference P pos h seg)"
proof -
  let ?y = "HomeIndex P h"
  obtain res t n where u: "UnsetStashPtr (hash_fp h) pos (GetBucket ?y seg) (GetBucket (NextBid P ?y) seg) = (res, t, n)"
    using prod_cases3 by blast
  note U = UnsetStashPtr_seg [OF assms(1-3) HomeIndex_lt(1) [OF assms(1)] assms(4) u]
  show "shape_ok P (RemoveStashReference P pos h seg)"
    "acct P (RemoveStashReference P pos h seg) (S(?y := S ?y - {#(hash_fp h, pos)#}))"
    "same_cells P seg (RemoveStashReference P pos h seg)"
    using U(1-3) by (simp_all add: RemoveStashReference_def Let_def u)
qed

subsection \<open>Insertion\<close>

lemma stashed_put_stash:
  assumes "pos < 4" "length (seg_bucket seg) = kTotalBuckets P"
  shows "stashed P (put_bucket (kBucketNum P + pos) b seg) y +
           image_mset (\<lambda>c. (cell_fp c, pos)) (filter_mset (\<lambda>c. key_home P (cell_key c) = y) (somes (cells P (GetBucket (kBucketNum P + pos) seg)))) =
         stashed P seg y + image_mset (\<lambda>c. (cell_fp c, pos)) (filter_mset (\<lambda>c. key_home P (cell_key c) = y) (somes (cells P b)))"
proof -
  define f where "f q x = image_mset (\<lambda>c. (cell_fp c, q)) (filter_mset (\<lambda>c. key_home P (cell_key c) = y) (somes (cells P x)))" for q :: nat and x
  have g: "GetBucket (kBucketNum P + q) (put_bucket (kBucketNum P + pos) b seg) = (if q = pos then b else GetBucket (kBucketNum P + q) seg)" for q
    using assms by (simp add: GetBucket_put)
  have "stashed P (put_bucket (kBucketNum P + pos) b seg) y = f pos b + (\<Sum>q \<in> {..<4} - {pos}. f q (GetBucket (kBucketNum P + q) seg))"
    using assms(1) by (simp add: stashed_def g f_def [symmetric] sum.remove [of "{..<4}" pos])
  moreover have "stashed P seg y = f pos (GetBucket (kBucketNum P + pos) seg) + (\<Sum>q \<in> {..<4} - {pos}. f q (GetBucket (kBucketNum P + q) seg))"
    using assms(1) by (simp add: stashed_def f_def [symmetric] sum.remove [of "{..<4}" pos])
  ultimately show ?thesis by (simp add: f_def)
qed

lemma stashed_add:
  assumes "pos < 4" "length (seg_bucket seg) = kTotalBuckets P" "somes (cells P b) = add_mset c (somes (cells P (GetBucket (kBucketNum P + pos) seg)))"
  shows "stashed P (put_bucket (kBucketNum P + pos) b seg) =
    (stashed P seg)(key_home P (cell_key c) := add_mset (cell_fp c, pos) (stashed P seg (key_home P (cell_key c))))"
proof (rule ext)
  fix y
  show "stashed P (put_bucket (kBucketNum P + pos) b seg) y =
    ((stashed P seg)(key_home P (cell_key c) := add_mset (cell_fp c, pos) (stashed P seg (key_home P (cell_key c))))) y"
    using stashed_put_stash [OF assms(1,2), of b y] unfolding assms(3) by (auto split: if_splits)
qed

lemma stashed_remove:
  assumes "pos < 4" "length (seg_bucket seg) = kTotalBuckets P" "somes (cells P (GetBucket (kBucketNum P + pos) seg)) = add_mset c (somes (cells P b))"
  shows "stashed P (put_bucket (kBucketNum P + pos) b seg) =
    (stashed P seg)(key_home P (cell_key c) := stashed P seg (key_home P (cell_key c)) - {#(cell_fp c, pos)#})"
proof (rule ext)
  fix y
  show "stashed P (put_bucket (kBucketNum P + pos) b seg) y =
    ((stashed P seg)(key_home P (cell_key c) := stashed P seg (key_home P (cell_key c)) - {#(cell_fp c, pos)#})) y"
    using stashed_put_stash [OF assms(1,2), of b y] unfolding assms(3) by (auto split: if_splits) (metis add_mset_remove_trivial)
qed

definition inserted :: "('k, 'v) dash_policy \<Rightarrow> 'k \<Rightarrow> 'v \<Rightarrow> ('k, 'v) segment \<Rightarrow> ('k, 'v) segment \<Rightarrow> nat \<times> nat \<Rightarrow> bool" where
  "inserted P k v seg seg' it \<longleftrightarrow> seg_ok P seg' \<and> seg_items P seg' = add_mset (k, v) (seg_items P seg) \<and>
     fst it < kTotalBuckets P \<and> snd it < kSlotNum P \<and> (\<exists>fp probe. cells P (GetBucket (fst it) seg') ! snd it = Some (k, v, fp, probe)) \<and>
     local_depth seg' = local_depth seg \<and> segment_id seg' = segment_id seg"

lemma insert_regular:
  assumes "policy_ok P" "seg_ok P seg" "i < kBucketNum P" "bucket_ok P b" "same_stash (GetBucket i seg) b"
    "cells P b = (cells P (GetBucket i seg))[j := Some (k, v, fp, probe)]" "j < kSlotNum P" "cells P (GetBucket i seg) ! j = None"
    "cell_ok P i (k, v, fp, probe)"
  shows "inserted P k v seg (put_bucket i b seg) (i, j)"
proof -
  have S: "shape_ok P seg" "acct P seg (stashed P seg)" using assms(2) by (simp_all add: seg_ok_def)
  have i: "i < kTotalBuckets P" using assms(3) by simp
  note A = put_add_cell [OF S i assms(4-9)]
  show ?thesis using A stashed_put_regular [OF assms(3) shape_okD(1) [OF S(1)], of b] assms(6,7) i shape_okD(1) [OF S(1)]
    by (simp add: inserted_def seg_ok_def seg_items_def GetBucket_put)
qed

lemma insert_stash_spec:
  assumes "policy_ok P" "seg_ok P seg" "set ps \<subseteq> {..<4}"
    "insert_stash P k v (key_fp P k) (key_home P k) ps seg = (r, seg')"
  shows "case r of None \<Rightarrow> seg' = seg \<and> (\<forall>p \<in> set ps. bucket_IsFull P (GetBucket (kBucketNum P + p) seg)) | Some it \<Rightarrow> inserted P k v seg seg' it"
  using assms(3,4)
proof (induction ps)
  case (Cons pos ps)
  have S: "shape_ok P seg" "acct P seg (stashed P seg)" using assms(2) by (simp_all add: seg_ok_def)
  note D = shape_okD [OF S(1)]
  have pos: "pos < 4" "kBucketNum P + pos < kTotalBuckets P" using Cons.prems(1) by simp_all
  let ?i = "kBucketNum P + pos" and ?y = "key_home P k"
  show ?case
  proof (cases rule: TryInsert_cases [OF D(2) [OF pos(2)], of k v "key_fp P k" False, case_names full free])
    case full
    then show ?thesis using Cons by (auto split: option.splits)
  next
    case (free j b)
    define seg1 where "seg1 = put_bucket ?i b seg"
    obtain t n where tn: "SetStashPtr pos (key_fp P k) (GetBucket ?y seg1) (GetBucket (NextBid P ?y) seg1) = (t, n)" by (meson surj_pair)
    have out: "r = Some (?i, j)" "seg' = put_bucket (NextBid P ?y) n (put_bucket ?y t seg1)"
      using Cons.prems(2) free(2) tn by (simp_all add: Let_def seg1_def)
    have "cell_ok P ?i (k, v, key_fp P k, False)" by (simp add: cell_ok_def)
    note A = put_add_cell [OF S pos(2) free(5) free(7) free(6) free(3) free(4) this, folded seg1_def]
    have y: "?y < kBucketNum P" using assms(1) by simp
    have sz: "size (stashed P seg ?y) < 255" using size_stashed_le [of P seg ?y] assms(1) by (simp add: policy_ok_def)
    note B = SetStashPtr_seg [OF assms(1) A(1,2) y pos(1) sz tn, folded out(2)]
    have st: "stashed P seg1 = (stashed P seg)(?y := add_mset (key_fp P k, pos) (stashed P seg ?y))"
      using stashed_add [OF pos(1) D(1), of b "(k, v, key_fp P k, False)"] free(3,4,6) by (simp add: seg1_def somes_update_Some)
    note E = same_cells_simps [OF B(3)]
    have "cells P (GetBucket ?i seg') ! j = Some (k, v, key_fp P k, False)"
      using E(1) [of ?i] free(3,6) D(1) pos(2) by (simp add: seg1_def GetBucket_put)
    moreover have "local_depth seg1 = local_depth seg" "segment_id seg1 = segment_id seg" by (simp_all add: seg1_def)
    ultimately show ?thesis using B E A(3) st pos(2) free(3)
      by (auto simp add: inserted_def seg_ok_def seg_items_def out(1))
  qed
qed simp

lemma full_iff_Size: "bucket_ok P b \<Longrightarrow> bucket_IsFull P b \<longleftrightarrow> bucket_Size P b = kSlotNum P"
  by (simp add: bucket_IsFull_def)

lemma Size_le: "bucket_ok P b \<Longrightarrow> bucket_Size P b \<le> kSlotNum P"
  by (simp add: bucket_Size_cells size_somes_le)

lemma rot4: "set (map (\<lambda>i. (b + i) mod kStashBucketNum) [0..<kStashBucketNum]) = {..<4}"
proof -
  have e: "(b + i) mod 4 = (b mod 4 + i) mod 4" for i by (simp add: mod_add_left_eq)
  have u: "[0..<4] = [0, 1, 2, 3 :: nat]" "{..<4} = {0, 1, 2, 3 :: nat}" by (simp_all add: upt_rec lessThan_nat_numeral lessThan_Suc) auto
  consider "b mod 4 = 0" | "b mod 4 = 1" | "b mod 4 = 2" | "b mod 4 = 3" using mod_less_divisor [of 4 b] by linarith
  then show ?thesis unfolding kStashBucketNum_def e u by cases auto
qed

lemma InsertUniq_spec:
  assumes P: "policy_ok P" and S: "seg_ok P seg" and r: "InsertUniq P k v (HashFn P k) spread seg = (r, seg')"
  shows "case r of None \<Rightarrow> seg' = seg \<and> (\<forall>i. i = key_home P k \<or> i = NextBid P (key_home P k) \<or> kBucketNum P \<le> i \<and> i < kTotalBuckets P \<longrightarrow>
                      bucket_IsFull P (GetBucket i seg))
                 | Some it \<Rightarrow> inserted P k v seg seg' it"
proof -
  have sh: "shape_ok P seg" "acct P seg (stashed P seg)" using S by (simp_all add: seg_ok_def)
  note D = shape_okD [OF sh(1)]
  let ?b = "key_home P k" and ?n = "NextBid P (key_home P k)"
  define probe where "probe \<longleftrightarrow> spread \<and> bucket_Size P (GetBucket ?b seg) > bucket_Size P (GetBucket ?n seg)"
  define f where "f = (if probe then ?n else ?b)"
  have b: "?b < kBucketNum P" "?n < kBucketNum P" using P by simp_all
  then have f: "f < kBucketNum P" by (simp add: f_def)
  have ok: "bucket_ok P (GetBucket ?b seg)" "bucket_ok P (GetBucket ?n seg)" "bucket_ok P (GetBucket f seg)" using D(4) b f by simp_all
  have cell: "cell_ok P ?b (k, v, key_fp P k, False)" "cell_ok P ?n (k, v, key_fp P k, True)" using b by (simp_all add: cell_ok_def)
  have cf: "cell_ok P f (k, v, key_fp P k, probe)" using cell by (simp add: f_def)
  note I = r [unfolded InsertUniq_def Let_def, folded key_home_def key_fp_def, folded probe_def, folded f_def]
  show ?thesis
  proof (cases rule: TryInsert_cases [OF ok(3), of k v "key_fp P k" probe, case_names full free])
    case (free j x)
    then have "r = Some (f, j)" "seg' = put_bucket f x seg" using I by simp_all
    then show ?thesis using insert_regular [OF P S f free(5) free(7) free(6) free(3) free(4) cf] by simp
  next
    case full1: full
    have fn: "bucket_IsFull P (GetBucket ?n seg)" if "spread"
      using full1(3) that Size_le [OF ok(1)] Size_le [OF ok(2)] by (auto simp: f_def probe_def bucket_IsFull_def split: if_splits)
    have fb: "bucket_IsFull P (GetBucket ?b seg)"
      using full1(3) Size_le [OF ok(1)] Size_le [OF ok(2)] by (auto simp: f_def probe_def bucket_IsFull_def split: if_splits)
    show ?thesis
    proof (cases "bucket_IsFull P (GetBucket ?n seg)")
      case False
      then have ns: "\<not> spread" using fn by blast
      then obtain j x where j: "TryInsertToBucket P k v (key_fp P k) True (GetBucket ?n seg) = Some (j, x)" "j < kSlotNum P" "cells P (GetBucket ?n seg) ! j = None"
        "bucket_ok P x" "cells P x = (cells P (GetBucket ?n seg))[j := Some (k, v, key_fp P k, True)]" "same_stash (GetBucket ?n seg) x"
        using False by (cases rule: TryInsert_cases [OF ok(2), of k v "key_fp P k" True]) auto
      then have "r = Some (?n, j)" "seg' = put_bucket ?n x seg" using I full1(2) ns by simp_all
      then show ?thesis using insert_regular [OF P S b(2) j(4,6,5,2,3) cell(2)] by simp
    next
      case True
      have no: "(if spread then None else TryInsertToBucket P k v (key_fp P k) True (GetBucket ?n seg)) = None"
        using True by (simp add: TryInsertToBucket_def)
      show ?thesis
      proof (cases "MoveToOther P True ?n (NextBid P ?n) seg")
        case (Some y)
        then obtain d seg1 where m: "MoveToOther P True ?n (NextBid P ?n) seg = Some (d, seg1)" by (cases y) auto
        note M = MoveToOther_spec [OF P sh b(2) _ _ m, simplified]
        have M: "seg_ok P seg1" "d < kSlotNum P" "cells P (GetBucket ?n seg1) ! d = None" "seg_items P seg1 = seg_items P seg"
          "local_depth seg1 = local_depth seg" "segment_id seg1 = segment_id seg" using M True by (auto simp: seg_ok_def)
        have o1: "bucket_ok P (GetBucket ?n seg1)" using M(1) b(2) by (auto simp: seg_ok_def intro: shape_okD(4))
        have "r = Some (?n, d)" "seg' = put_bucket ?n (bucket_Insert P d k v (key_fp P k) True (GetBucket ?n seg1)) seg1"
          using I full1(2) no m by simp_all
        then show ?thesis
          using insert_regular [OF P M(1) b(2) cells_Insert(1) [OF o1 M(2,3)] same_stash_ops(1) cells_Insert(2) [OF o1 M(2,3)] M(2,3) cell(2)] M(4-6)
          by (simp add: inserted_def)
      next
        case n1: None
        show ?thesis
        proof (cases "MoveToOther P False ?b (PrevBid P ?b) seg")
          case (Some y)
          then obtain d seg1 where m: "MoveToOther P False ?b (PrevBid P ?b) seg = Some (d, seg1)" by (cases y) auto
          note M = MoveToOther_spec [OF P sh b(1) _ _ m, simplified]
          have M: "seg_ok P seg1" "d < kSlotNum P" "cells P (GetBucket ?b seg1) ! d = None" "seg_items P seg1 = seg_items P seg"
            "local_depth seg1 = local_depth seg" "segment_id seg1 = segment_id seg" using M by (auto simp: seg_ok_def)
          have o1: "bucket_ok P (GetBucket ?b seg1)" using M(1) b(1) by (auto simp: seg_ok_def intro: shape_okD(4))
          have "r = Some (?b, d)" "seg' = put_bucket ?b (bucket_Insert P d k v (key_fp P k) False (GetBucket ?b seg1)) seg1"
            using I full1(2) no n1 m by simp_all
          then show ?thesis
            using insert_regular [OF P M(1) b(1) cells_Insert(1) [OF o1 M(2,3)] same_stash_ops(1) cells_Insert(2) [OF o1 M(2,3)] M(2,3) cell(1)] M(4-6)
            by (simp add: inserted_def)
        next
          case n2: None
          let ?ps = "map (\<lambda>i. (?b + i) mod kStashBucketNum) [0..<kStashBucketNum]"
          have "insert_stash P k v (key_fp P k) ?b ?ps seg = (r, seg')" using I full1(2) no n1 n2 by simp
          moreover have "set ?ps = {..<4}" by (rule rot4)
          ultimately show ?thesis using insert_stash_spec [OF P S, of ?ps k v r seg'] fb True
            by (auto split: option.splits simp: kTotalBuckets_def kStashBucketNum_def le_iff_add)
        qed
      qed
    qed
  qed
qed

end
