(* ===== verification/Dash_Moves.thy ===== *)
theory Dash_Moves
  imports Dash_Invariant
begin

text \<open>
  What deletion, the moves out of the stash and the split of a segment do to its entries. A loop over the slots of a
  stash bucket collects the slots it emptied in a mask and clears them at the end; between the two the invariant is
  stated for the segment with those slots already cleared.
\<close>

subsection \<open>The empty segment\<close>

lemma stash_empty:
  assumes "stash_busy b = 0" "stash_probe_mask b = 0" "length (stash_arr b) = 4"
  shows "stash_ok b" "own_ptrs b = {#}" "probe_ptrs b = {#}" "\<not> HasStash b"
proof -
  have l: "stash_list b = replicate 4 None" using assms by (simp add: stash_list_def map_replicate_const)
  show "stash_ok b" using assms unfolding stash_ok_def l by (simp add: stash_rep_def)
  show "own_ptrs b = {#}" "probe_ptrs b = {#}" by (simp_all add: own_ptrs_def probe_ptrs_def l ptrs_def numeral_eq_Suc)
  show "\<not> HasStash b" using assms(1) by (simp add: HasStash_def)
qed

lemma somes_replicate_None [simp]: "somes (replicate n None) = {#}"
  by (induction n) simp_all

lemma empty_seg_ok:
  assumes P: "policy_ok P" and len: "length (seg_bucket seg) = kTotalBuckets P"
    and b: "\<And>i. i < kTotalBuckets P \<Longrightarrow> bucket_rep P (GetBucket i seg) (replicate (kSlotNum P) None)"
    and s: "\<And>i. i < kBucketNum P \<Longrightarrow> stash_busy (GetBucket i seg) = 0 \<and> stash_probe_mask (GetBucket i seg) = 0 \<and>
      length (stash_arr (GetBucket i seg)) = 4 \<and> overflow_count (GetBucket i seg) = 0"
  shows "seg_ok P seg" "seg_items P seg = {#}"
proof -
  have c: "bucket_ok P (GetBucket i seg)" "cells P (GetBucket i seg) = replicate (kSlotNum P) None" if "i < kTotalBuckets P" for i
    using b [OF that] by (simp_all add: bucket_rep_iff)
  have e: "stash_ok (GetBucket i seg)" "own_ptrs (GetBucket i seg) = {#}" "probe_ptrs (GetBucket i seg) = {#}"
    "\<not> HasStash (GetBucket i seg)" "overflow_count (GetBucket i seg) = 0" if "i < kBucketNum P" for i
    using stash_empty [of "GetBucket i seg"] s [OF that] by simp_all
  have "stashed P seg y = {#}" for y by (simp add: stashed_def c)
  then have "acct P seg (stashed P seg)" using P by (simp add: acct_def refs_at_def e)
  moreover have "shape_ok P seg" by (auto simp: shape_ok_def c e len)
  ultimately show "seg_ok P seg" by (simp add: seg_ok_def)
  show "seg_items P seg = {#}" by (simp add: seg_items_def all_cells_def c)
qed

lemma Segment_new_ok:
  assumes "policy_ok P"
  shows "seg_ok P (Segment_new P depth sid)" "seg_items P (Segment_new P depth sid) = {#}"
    "local_depth (Segment_new P depth sid) = depth" "segment_id (Segment_new P depth sid) = sid"
proof -
  have g: "i < kTotalBuckets P \<Longrightarrow> GetBucket i (Segment_new P depth sid) = Bucket_new P" for i
    by (simp add: GetBucket_def Segment_new_def)
  have "kSlotNum P \<le> 28" using assms by (simp add: policy_ok_def)
  note R = Bucket_new_rep [OF this]
  have l: "length (seg_bucket (Segment_new P depth sid)) = kTotalBuckets P" by (simp add: Segment_new_def)
  have s: "stash_busy (Bucket_new P) = 0 \<and> stash_probe_mask (Bucket_new P) = 0 \<and> length (stash_arr (Bucket_new P)) = 4 \<and>
    overflow_count (Bucket_new P) = 0" by (simp add: Bucket_new_def kStashFpLen_def)
  show "seg_ok P (Segment_new P depth sid)" "seg_items P (Segment_new P depth sid) = {#}"
    using empty_seg_ok [OF assms l] R s by (simp_all add: g)
  show "local_depth (Segment_new P depth sid) = depth" "segment_id (Segment_new P depth sid) = sid" by (simp_all add: Segment_new_def)
qed

lemma segment_Clear_ok:
  assumes "policy_ok P" "seg_ok P seg"
  shows "seg_ok P (segment_Clear P seg)" "seg_items P (segment_Clear P seg) = {#}"
    "local_depth (segment_Clear P seg) = local_depth seg" "segment_id (segment_Clear P seg) = segment_id seg"
proof -
  have S: "shape_ok P seg" using assms(2) by (simp add: seg_ok_def)
  note D = shape_okD [OF S]
  have g: "i < kTotalBuckets P \<Longrightarrow> GetBucket i (segment_Clear P seg) = ClearStashPtrs (bucket_Clear P (GetBucket i seg))" for i
    using D(1) by (simp add: GetBucket_def segment_Clear_def)
  have l: "length (seg_bucket (segment_Clear P seg)) = kTotalBuckets P" using D(1) by (simp add: segment_Clear_def)
  have n: "kSlotNum P \<le> 28" using assms(1) by (simp add: policy_ok_def)
  have r: "bucket_rep P (ClearStashPtrs (bucket_Clear P (GetBucket i seg))) (replicate (kSlotNum P) None)" if "i < kTotalBuckets P" for i
  proof -
    have "same_slots (bucket_Clear P (GetBucket i seg)) (ClearStashPtrs (bucket_Clear P (GetBucket i seg)))"
      by (simp add: same_slots_def ClearStashPtrs_def)
    then show ?thesis using same_slots_rep bucket_Clear_rep [OF n D(2) [OF that, unfolded bucket_ok_def]] by blast
  qed
  have s: "stash_busy (ClearStashPtrs b) = 0 \<and> stash_probe_mask (ClearStashPtrs b) = 0 \<and>
    length (stash_arr (ClearStashPtrs b)) = length (stash_arr b) \<and> overflow_count (ClearStashPtrs b) = 0"
    "stash_arr (bucket_Clear P b) = stash_arr b" for b :: "('a, 'b) bucket"
    by (simp_all add: ClearStashPtrs_def bucket_Clear_def Let_def)
  have a: "i < kBucketNum P \<Longrightarrow> length (stash_arr (GetBucket i seg)) = 4" for i
    using D(3) [of i] by (simp add: stash_ok_def stash_rep_def)
  show "seg_ok P (segment_Clear P seg)" "seg_items P (segment_Clear P seg) = {#}"
    using empty_seg_ok [OF assms(1) l] r s a by (simp_all add: g)
  show "local_depth (segment_Clear P seg) = local_depth seg" "segment_id (segment_Clear P seg) = segment_id seg"
    by (simp_all add: segment_Clear_def)
qed

subsection \<open>Deletion\<close>

lemma stashed_memI:
  assumes "shape_ok P seg" "pos < 4" "j < kSlotNum P" "cells P (GetBucket (kBucketNum P + pos) seg) ! j = Some c"
  shows "(key_fp P (cell_key c), pos) \<in># stashed P seg (key_home P (cell_key c))" "cell_fp c = key_fp P (cell_key c)"
proof -
  have c: "Some c \<in> set (cells P (GetBucket (kBucketNum P + pos) seg))" using assms(3,4) by (metis length_cells nth_mem)
  then show "cell_fp c = key_fp P (cell_key c)"
    using shape_okD(5) [OF assms(1), of "kBucketNum P + pos" c] assms(2) by (simp add: cell_ok_def)
  then show "(key_fp P (cell_key c), pos) \<in># stashed P seg (key_home P (cell_key c))" using c assms(2) unfolding in_stashed by blast
qed

lemma segment_Delete_spec:
  assumes P: "policy_ok P" and S: "seg_ok P seg" and i: "i < kTotalBuckets P" and j: "j < kSlotNum P"
    and c: "cells P (GetBucket i seg) ! j = Some c"
  shows "seg_ok P (segment_Delete P (i, j) (HashFn P (cell_key c)) seg)"
    "seg_items P seg = add_mset (cell_item c) (seg_items P (segment_Delete P (i, j) (HashFn P (cell_key c)) seg))"
    "local_depth (segment_Delete P (i, j) (HashFn P (cell_key c)) seg) = local_depth seg"
    "segment_id (segment_Delete P (i, j) (HashFn P (cell_key c)) seg) = segment_id seg"
proof -
  let ?d = "segment_Delete P (i, j) (HashFn P (cell_key c)) seg" and ?y = "key_home P (cell_key c)"
  have sh: "shape_ok P seg" "acct P seg (stashed P seg)" using S by (simp_all add: seg_ok_def)
  note D = shape_okD [OF sh(1)]
  define pos where "pos = i - kBucketNum P"
  define seg1 where "seg1 = (if i \<ge> kBucketNum P then RemoveStashReference P pos (HashFn P (cell_key c)) seg else seg)"
  define S1 where "S1 = (if i \<ge> kBucketNum P then (stashed P seg)(?y := stashed P seg ?y - {#(key_fp P (cell_key c), pos)#}) else stashed P seg)"
  have pos: "i \<ge> kBucketNum P \<Longrightarrow> i = kBucketNum P + pos \<and> pos < 4" using i by (auto simp: pos_def kTotalBuckets_def kStashBucketNum_def)
  have m: "i \<ge> kBucketNum P \<Longrightarrow> (key_fp P (cell_key c), pos) \<in># stashed P seg ?y \<and> cell_fp c = key_fp P (cell_key c)"
    using stashed_memI [OF sh(1) _ j, of pos c] c pos by auto
  have A: "shape_ok P seg1" "acct P seg1 S1" "same_cells P seg seg1"
    using RemoveStashReference_spec [OF P sh, of "HashFn P (cell_key c)" pos] m sh
    by (auto simp: seg1_def S1_def key_fp_def key_home_def same_cells_def same_slots_def)
  note E = same_cells_simps [OF A(3)]
  have d: "?d = put_bucket i (bucket_Delete P j (GetBucket i seg1)) seg1" by (simp add: segment_Delete_def seg1_def pos_def Let_def)
  have ok: "bucket_ok P (GetBucket i seg1)" using shape_okD(2) [OF A(1) i] .
  have c1: "cells P (GetBucket i seg1) ! j = Some c" using E(1) c by simp
  then have "cells P (GetBucket i seg1) ! j \<noteq> None" by simp
  note C = cells_Delete [OF ok j this]
  note B = put_del_cell [OF A(1,2) i C(1) same_stash_ops(2) C(2) j c1, folded d]
  have "stashed P ?d = S1"
  proof (cases "i \<ge> kBucketNum P")
    case True
    have "somes (cells P (GetBucket i seg1)) = add_mset c (somes (cells P (bucket_Delete P j (GetBucket i seg1))))"
      using somes_update_None [of j "cells P (GetBucket i seg1)" c] c1 j C(2) by simp
    then show ?thesis using stashed_remove [of pos seg1 P c "bucket_Delete P j (GetBucket i seg1)"] pos [OF True] m [OF True] shape_okD(1) [OF A(1)] E(3)
      unfolding d by (simp add: S1_def True)
  next
    case False
    then show ?thesis unfolding d using stashed_put_regular [of i P seg1] shape_okD(1) [OF A(1)] E(3) by (simp add: S1_def)
  qed
  then show "seg_ok P ?d" using B by (simp add: seg_ok_def)
  show "seg_items P seg = add_mset (cell_item c) (seg_items P ?d)" using B(3) E(2) by (simp add: seg_items_def)
  show "local_depth ?d = local_depth seg" "segment_id ?d = segment_id seg" using E(7,8) by (simp_all add: d)
qed

subsection \<open>Moves out of the stash\<close>

lemma RemoveStashReference_other:
  assumes "policy_ok P" "length (seg_bucket seg) = kTotalBuckets P" "kBucketNum P \<le> q"
  shows "GetBucket q (RemoveStashReference P pos h seg) = GetBucket q seg"
proof -
  obtain res t n where u: "UnsetStashPtr (hash_fp h) pos (GetBucket (HomeIndex P h) seg) (GetBucket (NextBid P (HomeIndex P h)) seg) = (res, t, n)"
    using prod_cases3 by blast
  have "HomeIndex P h < kBucketNum P" "NextBid P (HomeIndex P h) < kBucketNum P" using assms(1) by simp_all
  then show ?thesis using assms(2,3) by (simp add: RemoveStashReference_def Let_def u GetBucket_put)
qed

lemma TryMove_put:
  assumes P: "policy_ok P" and S: "shape_ok P seg" "acct P seg S" and pos: "pos < 4" and i: "i < kBucketNum P"
    and m: "(key_fp P k, pos) \<in># S (key_home P k)"
    and b: "TryInsertToBucket P k v fp probe (GetBucket i seg) = Some (j, b)" "cell_ok P i (k, v, fp, probe)"
    and r: "seg' = RemoveStashReference P pos (HashFn P k) (put_bucket i (UpdateVersion P ver b) seg)"
  shows "shape_ok P seg'" "acct P seg' (S(key_home P k := S (key_home P k) - {#(key_fp P k, pos)#}))"
    "all_cells P seg' = add_mset (k, v, fp, probe) (all_cells P seg)" "j < kSlotNum P" "cells P (GetBucket i seg') ! j = Some (k, v, fp, probe)"
    "\<And>q. kBucketNum P \<le> q \<Longrightarrow> GetBucket q seg' = GetBucket q seg"
    "local_depth seg' = local_depth seg" "segment_id seg' = segment_id seg"
proof -
  note D = shape_okD [OF S(1)]
  define seg1 where "seg1 = put_bucket i (UpdateVersion P ver b) seg"
  have j: "j < kSlotNum P" "cells P (GetBucket i seg) ! j = None" "bucket_ok P b" "cells P b = (cells P (GetBucket i seg))[j := Some (k, v, fp, probe)]"
    "same_stash (GetBucket i seg) b"
    using b(1) by (cases rule: TryInsert_cases [OF D(4) [OF i], of k v fp probe]; simp)+
  have st: "same_stash (GetBucket i seg) (UpdateVersion P ver b)" using j(5) same_stash_ops(3,6) by metis
  have A: "shape_ok P seg1" "acct P seg1 S" "all_cells P seg1 = add_mset (k, v, fp, probe) (all_cells P seg)"
    using put_add_cell [OF S _ _ st _ j(1,2) b(2)] j i by (simp_all add: seg1_def)
  note R = RemoveStashReference_spec [OF P A(1,2), of "HashFn P k" pos, folded key_home_def key_fp_def, OF m, folded r [folded seg1_def]]
  show "shape_ok P seg'" "acct P seg' (S(key_home P k := S (key_home P k) - {#(key_fp P k, pos)#}))" using R by simp_all
  note E = same_cells_simps [OF R(3)]
  show "all_cells P seg' = add_mset (k, v, fp, probe) (all_cells P seg)" "j < kSlotNum P" using E(2) A(3) j(1) by simp_all
  show "cells P (GetBucket i seg') ! j = Some (k, v, fp, probe)" using E(1) [of i] j D(1) i by (simp add: seg1_def GetBucket_put)
  show "GetBucket q seg' = GetBucket q seg" if "kBucketNum P \<le> q" for q
    using RemoveStashReference_other [OF P shape_okD(1) [OF A(1)] that, of pos "HashFn P k"] that i D(1)
    by (simp add: r seg1_def GetBucket_put)
  show "local_depth seg' = local_depth seg" "segment_id seg' = segment_id seg" using E(7,8) by (simp_all add: seg1_def)
qed

lemma TryMoveFromStash_spec:
  assumes P: "policy_ok P" and S: "shape_ok P seg" "acct P seg S" and pos: "pos < 4" and j: "j < kSlotNum P"
    and c: "cells P (GetBucket (kBucketNum P + pos) seg) ! j = Some c"
    and m: "(key_fp P (cell_key c), pos) \<in># S (key_home P (cell_key c))"
    and r: "TryMoveFromStash P pos j (HashFn P (cell_key c)) seg = (res, seg')"
  shows "case res of None \<Rightarrow> seg' = seg | Some it \<Rightarrow>
      shape_ok P seg' \<and> acct P seg' (S(key_home P (cell_key c) := S (key_home P (cell_key c)) - {#(key_fp P (cell_key c), pos)#})) \<and>
      (\<exists>c'. all_cells P seg' = add_mset c' (all_cells P seg) \<and> cell_item c' = cell_item c \<and>
            cells P (GetBucket (fst it) seg') ! snd it = Some c') \<and>
      fst it < kBucketNum P \<and> snd it < kSlotNum P \<and> (\<forall>q. kBucketNum P \<le> q \<longrightarrow> GetBucket q seg' = GetBucket q seg) \<and>
      local_depth seg' = local_depth seg \<and> segment_id seg' = segment_id seg"
proof -
  let ?h = "key_home P (cell_key c)" and ?fp = "key_fp P (cell_key c)" and ?b = "GetBucket (kBucketNum P + pos) seg"
  obtain k v fp p where ce: "c = (k, v, fp, p)" by (cases c) auto
  have ok: "bucket_ok P ?b" using shape_okD(2) [OF S(1)] pos by simp
  have kv: "bkey ?b ! j = k" "bvalue ?b ! j = v" using bucket_repD(7) [OF ok [unfolded bucket_ok_def] j, of k v fp p] c by (simp_all add: ce)
  have h: "?h < kBucketNum P" "NextBid P ?h < kBucketNum P" using P by simp_all
  note r' = r [unfolded TryMoveFromStash_def Let_def, folded key_home_def key_fp_def, unfolded kv]
  have cell: "cell_ok P ?h (k, v, ?fp, False)" "cell_ok P (NextBid P ?h) (k, v, ?fp, True)" using h by (simp_all add: cell_ok_def ce)
  show ?thesis
  proof (cases "TryInsertToBucket P k v ?fp False (GetBucket ?h seg)")
    case (Some y)
    then obtain i b where t: "TryInsertToBucket P k v ?fp False (GetBucket ?h seg) = Some (i, b)" by (cases y) auto
    then have o: "res = Some (?h, i)" "seg' = RemoveStashReference P pos (HashFn P k) (put_bucket ?h (UpdateVersion P (bversion ?b) b) seg)"
      using r' by (simp_all add: ce)
    note T = TryMove_put [OF P S pos h(1), of k v ?fp False i b, OF _ t cell(1) o(2)]
    show ?thesis using T m h by (auto simp: o(1) ce)
  next
    case n1: None
    show ?thesis
    proof (cases "TryInsertToBucket P k v ?fp True (GetBucket (NextBid P ?h) seg)")
      case (Some y)
      then obtain i b where t: "TryInsertToBucket P k v ?fp True (GetBucket (NextBid P ?h) seg) = Some (i, b)" by (cases y) auto
      then have o: "res = Some (NextBid P ?h, i)" "seg' = RemoveStashReference P pos (HashFn P k) (put_bucket (NextBid P ?h) (UpdateVersion P (bversion ?b) b) seg)"
        using r' n1 by (simp_all add: ce)
      note T = TryMove_put [OF P S pos h(2), of k v ?fp True i b, OF _ t cell(2) o(2)]
      show ?thesis using T m h by (auto simp: o(1) ce)
    next
      case None
      then show ?thesis using r' n1 by simp
    qed
  qed
qed

definition mask_ok :: "('k, 'v) dash_policy \<Rightarrow> ('k, 'v) bucket \<Rightarrow> u32 \<Rightarrow> bool" where
  "mask_ok P b m \<longleftrightarrow> (\<forall>j. bit m j \<longrightarrow> j < kSlotNum P \<and> cells P b ! j \<noteq> None)"

lemma cells_mask: "bucket_ok P b \<Longrightarrow> mask_ok P b m \<Longrightarrow> bucket_ok P (bucket_ClearSlots P m b) \<and> cells P (bucket_ClearSlots P m b) = clear_list m (cells P b)"
  using cells_ClearSlots [of P b m] by (simp add: mask_ok_def del: not_None_eq)

lemma mask_ok_0 [simp]: "mask_ok P b 0"
  by (simp add: mask_ok_def)

lemma mask_ok_add: "mask_ok P b m \<Longrightarrow> j < kSlotNum P \<Longrightarrow> cells P b ! j = Some c \<Longrightarrow> mask_ok P b (m OR push_bit j 1)"
  unfolding mask_ok_def bit_or_iff bit_push_1 by (metis option.distinct(1))

text \<open>A stash bucket some of whose slots are about to be cleared.\<close>

definition clear_view :: "('k, 'v) dash_policy \<Rightarrow> nat \<Rightarrow> u32 \<Rightarrow> ('k, 'v) segment \<Rightarrow> ('k, 'v) segment" where
  "clear_view P pos m seg = put_bucket (kBucketNum P + pos) (bucket_ClearSlots P m (GetBucket (kBucketNum P + pos) seg)) seg"

definition pending :: "('k, 'v) dash_policy \<Rightarrow> nat \<Rightarrow> u32 \<Rightarrow> ('k, 'v) segment \<Rightarrow> bool" where
  "pending P pos m seg \<longleftrightarrow>
     shape_ok P seg \<and> seg_ok P (clear_view P pos m seg) \<and> mask_ok P (GetBucket (kBucketNum P + pos) seg) m"

lemma clear_list_add:
  assumes "j < length vs" "j < 32"
  shows "clear_list (m OR push_bit j 1) vs = (clear_list m vs)[j := None]"
  by (rule nth_equalityI) (use assms in \<open>auto simp: nth_clear_list nth_list_update bit_or_iff bit_push_1\<close>)

lemma clear_view_simps:
  assumes "shape_ok P seg" "pos < 4" "mask_ok P (GetBucket (kBucketNum P + pos) seg) m"
  shows "shape_ok P (clear_view P pos m seg)" "acct P (clear_view P pos m seg) S \<longleftrightarrow> acct P seg S"
    "cells P (GetBucket (kBucketNum P + pos) (clear_view P pos m seg)) = clear_list m (cells P (GetBucket (kBucketNum P + pos) seg))"
    "q \<noteq> kBucketNum P + pos \<Longrightarrow> GetBucket q (clear_view P pos m seg) = GetBucket q seg"
    "local_depth (clear_view P pos m seg) = local_depth seg" "segment_id (clear_view P pos m seg) = segment_id seg"
proof -
  let ?i = "kBucketNum P + pos"
  note D = shape_okD [OF assms(1)]
  have i: "?i < kTotalBuckets P" using assms(2) by simp
  have C: "bucket_ok P (bucket_ClearSlots P m (GetBucket ?i seg))"
    "cells P (bucket_ClearSlots P m (GetBucket ?i seg)) = clear_list m (cells P (GetBucket ?i seg))"
    using cells_mask [OF D(2) [OF i] assms(3)] by simp_all
  have g: "GetBucket q (clear_view P pos m seg) = (if q = ?i then bucket_ClearSlots P m (GetBucket ?i seg) else GetBucket q seg)" for q
    using i D(1) by (simp add: clear_view_def GetBucket_put)
  show "cells P (GetBucket ?i (clear_view P pos m seg)) = clear_list m (cells P (GetBucket ?i seg))" using C by (simp add: g)
  have "Some c \<in> set (clear_list m vs) \<Longrightarrow> Some c \<in> set vs" for c :: "('a, 'b) cell" and vs
    by (auto simp: in_set_conv_nth nth_clear_list split: if_splits)
  then show "shape_ok P (clear_view P pos m seg)" unfolding clear_view_def using C D(5) [OF i] by (intro shape_put [OF assms(1) i]) auto
  have s: "same_stash (GetBucket q seg) (GetBucket q (clear_view P pos m seg))" for q by (simp add: g same_stash_ops)
  then show "acct P (clear_view P pos m seg) S \<longleftrightarrow> acct P seg S"
    using same_stash_simps(3-6) [OF s] by (simp add: acct_def refs_at_def)
  show "q \<noteq> ?i \<Longrightarrow> GetBucket q (clear_view P pos m seg) = GetBucket q seg" by (simp add: g)
  show "local_depth (clear_view P pos m seg) = local_depth seg" "segment_id (clear_view P pos m seg) = segment_id seg"
    by (simp_all add: clear_view_def)
qed

lemma clear_view_0: "shape_ok P seg \<Longrightarrow> pos < 4 \<Longrightarrow> stashed P (clear_view P pos 0 seg) = stashed P seg \<and> all_cells P (clear_view P pos 0 seg) = all_cells P seg"
proof -
  assume a: "shape_ok P seg" "pos < 4"
  note V = clear_view_simps [OF a, of 0, simplified]
  have "clear_list 0 vs = vs" for vs :: "('a, 'b) cell option list" by (rule nth_equalityI) (simp_all add: nth_clear_list)
  then have c: "cells P (GetBucket q (clear_view P pos 0 seg)) = cells P (GetBucket q seg)" for q
    using V by (cases "q = kBucketNum P + pos") simp_all
  then show ?thesis by (auto intro!: stashed_cong simp: all_cells_def)
qed

lemma pending_0: "seg_ok P seg \<Longrightarrow> pos < 4 \<Longrightarrow> pending P pos 0 seg"
  using clear_view_simps [of P seg pos 0] clear_view_0 [of P seg pos] by (simp add: pending_def seg_ok_def)

lemma all_cells_view:
  assumes "shape_ok P seg" "pos < 4" "mask_ok P (GetBucket (kBucketNum P + pos) seg) m"
  shows "all_cells P (clear_view P pos m seg) + somes (cells P (GetBucket (kBucketNum P + pos) seg)) =
    all_cells P seg + somes (clear_list m (cells P (GetBucket (kBucketNum P + pos) seg)))"
proof -
  have C: "cells P (bucket_ClearSlots P m (GetBucket (kBucketNum P + pos) seg)) = clear_list m (cells P (GetBucket (kBucketNum P + pos) seg))"
    using cells_mask [OF shape_okD(2) [OF assms(1) stash_lt_total [OF assms(2)]] assms(3)] by simp
  show ?thesis unfolding clear_view_def all_cells_put [OF stash_lt_total [OF assms(2)] shape_okD(1) [OF assms(1)]] C ..
qed

lemma pending_mem:
  assumes "pending P pos m seg" "pos < 4" "j < kSlotNum P" "\<not> bit m j" "cells P (GetBucket (kBucketNum P + pos) seg) ! j = Some c"
  shows "(key_fp P (cell_key c), pos) \<in># stashed P (clear_view P pos m seg) (key_home P (cell_key c))" "cell_fp c = key_fp P (cell_key c)"
    "acct P seg (stashed P (clear_view P pos m seg))" "shape_ok P seg"
proof -
  have p: "shape_ok P seg" "seg_ok P (clear_view P pos m seg)" "mask_ok P (GetBucket (kBucketNum P + pos) seg) m"
    using assms(1) by (auto simp: pending_def)
  note V = clear_view_simps [OF p(1) assms(2) p(3)]
  have "cells P (GetBucket (kBucketNum P + pos) (clear_view P pos m seg)) ! j = Some c"
    using V(3) assms(3-5) by (simp add: nth_clear_list)
  from stashed_memI [OF V(1) assms(2,3) this]
  show "(key_fp P (cell_key c), pos) \<in># stashed P (clear_view P pos m seg) (key_home P (cell_key c))" "cell_fp c = key_fp P (cell_key c)" .
  show "acct P seg (stashed P (clear_view P pos m seg))" "shape_ok P seg" using p(1,2) V(2) by (simp_all add: seg_ok_def)
qed

lemma pending_step:
  assumes P: "policy_ok P" and p: "pending P pos m seg" and pos: "pos < 4" and j: "j < kSlotNum P" "\<not> bit m j"
    and c: "cells P (GetBucket (kBucketNum P + pos) seg) ! j = Some c" and S: "shape_ok P seg'"
    and A: "acct P seg' ((stashed P (clear_view P pos m seg))(key_home P (cell_key c) :=
              stashed P (clear_view P pos m seg) (key_home P (cell_key c)) - {#(key_fp P (cell_key c), pos)#}))"
    and g: "\<And>q. kBucketNum P \<le> q \<Longrightarrow> GetBucket q seg' = GetBucket q seg"
  shows "pending P pos (m OR push_bit j 1) seg'"
    "all_cells P seg' = X + all_cells P seg \<Longrightarrow>
     add_mset c (all_cells P (clear_view P pos (m OR push_bit j 1) seg')) = X + all_cells P (clear_view P pos m seg)"
proof -
  let ?i = "kBucketNum P + pos" and ?m = "m OR push_bit j 1" and ?v = "clear_view P pos m seg"
  let ?v' = "clear_view P pos ?m seg'"
  have j32: "j < 32" using j P by (simp add: policy_ok_def)
  have q: "shape_ok P seg" "mask_ok P (GetBucket ?i seg) m" using p by (auto simp: pending_def)
  have q': "mask_ok P (GetBucket ?i seg') ?m" using mask_ok_add [OF q(2) j(1) c] g [of ?i] by simp
  note V = clear_view_simps [OF q(1) pos q(2)]
  note V' = clear_view_simps [OF S pos q']
  note cl = clear_list_add [of j "cells P (GetBucket ?i seg)" m, unfolded length_cells, OF j(1) j32]
  have cs: "clear_list m (cells P (GetBucket ?i seg)) ! j = Some c" using j c by (simp add: nth_clear_list)
  have so: "somes (clear_list m (cells P (GetBucket ?i seg))) = add_mset c (somes (clear_list ?m (cells P (GetBucket ?i seg'))))"
    using somes_update_None [OF _ cs] j(1) cl g [of ?i] by simp
  have v3: "somes (cells P (GetBucket ?i ?v)) = add_mset c (somes (cells P (GetBucket ?i ?v')))" using so V(3) V'(3) by simp
  have "stashed P ?v' = stashed P (put_bucket ?i (GetBucket ?i ?v') ?v)"
    using V(4) V'(4) g shape_okD(1) [OF V(1)] pos by (intro ext stashed_cong) (simp add: GetBucket_put)
  also have "\<dots> = (stashed P ?v)(key_home P (cell_key c) := stashed P ?v (key_home P (cell_key c)) - {#(key_fp P (cell_key c), pos)#})"
    using stashed_remove [OF pos shape_okD(1) [OF V(1)] v3] pending_mem(2) [OF p pos j c] by simp
  finally show "pending P pos ?m seg'" using S V'(1,2) A q' by (auto simp: pending_def seg_ok_def)
  show "add_mset c (all_cells P ?v') = X + all_cells P ?v" if a: "all_cells P seg' = X + all_cells P seg"
  proof -
    note e = all_cells_view [OF q(1) pos q(2)] and e' = all_cells_view [OF S pos q']
    have gi: "GetBucket ?i seg' = GetBucket ?i seg" using g by simp
    have "all_cells P ?v + somes (cells P (GetBucket ?i seg)) = all_cells P seg + add_mset c (somes (clear_list ?m (cells P (GetBucket ?i seg))))"
      using e so gi by simp
    moreover have "all_cells P ?v' + somes (cells P (GetBucket ?i seg)) = X + all_cells P seg + somes (clear_list ?m (cells P (GetBucket ?i seg)))"
      using e' a gi by simp
    ultimately have "add_mset c (all_cells P ?v') + somes (cells P (GetBucket ?i seg)) = X + all_cells P ?v + somes (cells P (GetBucket ?i seg))" by simp
    then show ?thesis by (metis add_right_cancel)
  qed
qed

lemma slots_of_bucket:
  assumes "bucket_ok P b"
  shows "set (map fst (ForEachSlot P b)) = {j. j < kSlotNum P \<and> cells P b ! j \<noteq> None}" "distinct (map fst (ForEachSlot P b))"
proof -
  have m: "map fst (ForEachSlot P b) = filter (bit (bucket_GetBusy P b)) [0..<kSlotNum P]" by (simp add: ForEachSlot_def comp_def)
  show "set (map fst (ForEachSlot P b)) = {j. j < kSlotNum P \<and> cells P b ! j \<noteq> None}" "distinct (map fst (ForEachSlot P b))"
    unfolding m using bucket_GetBusy_rep [OF assms [unfolded bucket_ok_def]] by auto
qed

lemma unload_slots_spec:
  assumes "policy_ok P" "pos < 4" "pending P pos m seg" "GetBucket (kBucketNum P + pos) seg = b"
    "\<And>j. j \<in> set sids \<Longrightarrow> j < kSlotNum P \<and> \<not> bit m j \<and> cells P b ! j \<noteq> None" "distinct sids"
    "unload_slots P pos b sids (moved, m, seg) = (moved', m', seg')"
  shows "pending P pos m' seg' \<and> GetBucket (kBucketNum P + pos) seg' = b \<and> local_depth seg' = local_depth seg \<and> segment_id seg' = segment_id seg \<and>
    seg_items P (clear_view P pos m' seg') = seg_items P (clear_view P pos m seg)"
  using assms(3-7)
proof (induction sids arbitrary: moved m seg)
  case (Cons j sids)
  have j: "j < kSlotNum P" "\<not> bit m j" "j \<notin> set sids" using Cons.prems(3) [of j] Cons.prems(4) by auto
  obtain c where c: "cells P (GetBucket (kBucketNum P + pos) seg) ! j = Some c" using Cons.prems(2) Cons.prems(3) [of j] by auto
  note M = pending_mem [OF Cons.prems(1) assms(2) j(1,2) c]
  have ok: "bucket_ok P b" using shape_okD(2) [OF M(4) stash_lt_total [OF assms(2)]] Cons.prems(2) by simp
  obtain k v fp pr where ce: "c = (k, v, fp, pr)" by (cases c) auto
  have kb: "bkey b ! j = cell_key c" using bucket_repD(7) [OF ok [unfolded bucket_ok_def] j(1), of k v fp pr] c Cons.prems(2) by (simp add: ce)
  obtain res seg1 where t: "TryMoveFromStash P pos j (HashFn P (cell_key c)) seg = (res, seg1)" by fastforce
  note T = TryMoveFromStash_spec [OF assms(1) M(4,3) assms(2) j(1) c M(1) t]
  show ?case
  proof (cases res)
    case None
    then show ?thesis using Cons.IH [OF Cons.prems(1,2), of moved] Cons.prems(3-5) T t kb by auto
  next
    case (Some it)
    let ?m = "m OR push_bit j 1"
    obtain c' where T: "shape_ok P seg1" "acct P seg1 ((stashed P (clear_view P pos m seg))(key_home P (cell_key c) :=
        stashed P (clear_view P pos m seg) (key_home P (cell_key c)) - {#(key_fp P (cell_key c), pos)#}))"
      "all_cells P seg1 = add_mset c' (all_cells P seg)" "cell_item c' = cell_item c" "\<And>q. kBucketNum P \<le> q \<Longrightarrow> GetBucket q seg1 = GetBucket q seg"
      "local_depth seg1 = local_depth seg" "segment_id seg1 = segment_id seg"
      using T Some by auto
    note N = pending_step [OF assms(1) Cons.prems(1) assms(2) j(1,2) c T(1,2,5)]
    have "add_mset (cell_item c) (seg_items P (clear_view P pos ?m seg1)) = add_mset (cell_item c) (seg_items P (clear_view P pos m seg))"
      using arg_cong [OF N(2) [of "{#c'#}"], of "image_mset cell_item"] T(3,4) by (simp add: seg_items_def)
    then have it: "seg_items P (clear_view P pos ?m seg1) = seg_items P (clear_view P pos m seg)" by simp
    have sl: "\<And>l. l \<in> set sids \<Longrightarrow> l < kSlotNum P \<and> \<not> bit ?m l \<and> cells P b ! l \<noteq> None"
      using Cons.prems(3) j by (auto simp: bit_or_iff bit_push_1)
    have g: "GetBucket (kBucketNum P + pos) seg1 = b" using T(5) Cons.prems(2) by simp
    show ?thesis using Cons.IH [OF N(1) g sl, of "moved + 1"] Cons.prems(4,5) t kb Some it T(6,7) by simp
  qed
qed simp

lemma pending_slots:
  assumes "seg_ok P seg" "pos < 4"
  shows "bucket_ok P (GetBucket (kBucketNum P + pos) seg)"
    "\<And>j. j \<in> set (map fst (ForEachSlot P (GetBucket (kBucketNum P + pos) seg))) \<Longrightarrow>
       j < kSlotNum P \<and> \<not> bit (0 :: u32) j \<and> cells P (GetBucket (kBucketNum P + pos) seg) ! j \<noteq> None"
    "seg_items P (clear_view P pos 0 seg) = seg_items P seg"
proof -
  have S: "shape_ok P seg" using assms(1) by (simp add: seg_ok_def)
  show ok: "bucket_ok P (GetBucket (kBucketNum P + pos) seg)" using shape_okD(2) [OF S] assms(2) by simp
  show "\<And>j. j \<in> set (map fst (ForEachSlot P (GetBucket (kBucketNum P + pos) seg))) \<Longrightarrow>
    j < kSlotNum P \<and> \<not> bit (0 :: u32) j \<and> cells P (GetBucket (kBucketNum P + pos) seg) ! j \<noteq> None"
    unfolding slots_of_bucket(1) [OF ok] by simp
  show "seg_items P (clear_view P pos 0 seg) = seg_items P seg" using clear_view_0 [OF S assms(2)] by (simp add: seg_items_def)
qed

definition same_content :: "('k, 'v) dash_policy \<Rightarrow> ('k, 'v) segment \<Rightarrow> ('k, 'v) segment \<Rightarrow> bool" where
  "same_content P seg seg' \<longleftrightarrow> seg_ok P seg' \<and> seg_items P seg' = seg_items P seg \<and>
     local_depth seg' = local_depth seg \<and> segment_id seg' = segment_id seg"

lemma unload_bucket_spec:
  assumes P: "policy_ok P" and S: "seg_ok P seg" and pos: "pos < 4"
  shows "same_content P seg (snd (unload_bucket P pos (n, seg)))"
proof -
  let ?b = "GetBucket (kBucketNum P + pos) seg"
  obtain n' m' seg' where u: "unload_slots P pos ?b (map fst (ForEachSlot P ?b)) (n, 0, seg) = (n', m', seg')" using prod_cases3 by blast
  note N = pending_slots [OF S pos]
  have U: "pending P pos m' seg'" "GetBucket (kBucketNum P + pos) seg' = ?b" "local_depth seg' = local_depth seg" "segment_id seg' = segment_id seg"
    "seg_items P (clear_view P pos m' seg') = seg_items P (clear_view P pos 0 seg)"
    using unload_slots_spec [OF P pos pending_0 [OF S pos] refl N(2) slots_of_bucket(2) [OF N(1)] u] by simp_all
  have "snd (unload_bucket P pos (n, seg)) = clear_view P pos m' seg'" by (simp add: unload_bucket_def Let_def u clear_view_def)
  then show ?thesis using U N(3) by (simp add: same_content_def pending_def clear_view_def)
qed

lemma UnloadStash_spec:
  assumes P: "policy_ok P" and S: "seg_ok P seg"
  shows "same_content P seg (snd (UnloadStash P seg))"
proof -
  have "same_content P seg (snd (fold (unload_bucket P) ps (n, seg1)))" if "same_content P seg seg1" "set ps \<subseteq> {..<4}" for ps n seg1
    using that
  proof (induction ps arbitrary: n seg1)
    case (Cons pos ps)
    have "same_content P seg1 (snd (unload_bucket P pos (n, seg1)))"
      using unload_bucket_spec [OF P, of seg1 pos n] Cons.prems by (simp add: same_content_def)
    then show ?case using Cons.IH [of "snd (unload_bucket P pos (n, seg1))" "fst (unload_bucket P pos (n, seg1))"] Cons.prems
      by (auto simp: same_content_def)
  qed simp
  then show ?thesis using S by (simp add: UnloadStash_def same_content_def kStashBucketNum_def atLeast_upt)
qed

end
