(* ===== verification/Dash_Split.thy ===== *)
theory Dash_Split
  imports Dash_Moves
begin

text \<open>
  The split of a segment: the entries whose hash has the new depth bit set leave for the other segment, the others
  stay, and both segments keep the invariant. The lemmas follow the two loops of \<^verbatim>\<open>Segment::Split\<close>, first over the
  regular buckets and then over the stash buckets.
\<close>

lemma UpdateVersion_seg:
  assumes "seg_ok P seg" "i < kTotalBuckets P"
  shows "same_content P seg (put_bucket i (UpdateVersion P ver (GetBucket i seg)) seg)"
proof -
  have S: "shape_ok P seg" "acct P seg (stashed P seg)" using assms(1) by (simp_all add: seg_ok_def)
  note D = shape_okD [OF S(1)]
  let ?s = "put_bucket i (UpdateVersion P ver (GetBucket i seg)) seg"
  have g: "cells P (GetBucket q ?s) = cells P (GetBucket q seg)" for q using assms(2) D(1) by (simp add: GetBucket_put)
  have "shape_ok P ?s"
    using D(2,5) assms(2) D(3) [of i] same_stash_simps(2) [OF same_stash_ops(3) [of "GetBucket i seg" P ver]] by (intro shape_put [OF S(1)]) auto
  moreover have "acct P ?s (stashed P seg)" using S(2) D(1) assms(2) same_stash_ops(3) by (intro acct_put_same) auto
  moreover have "stashed P ?s = stashed P seg" by (intro ext stashed_cong g)
  ultimately show ?thesis by (simp add: same_content_def seg_ok_def seg_items_def all_cells_def g)
qed

lemma split_insert:
  assumes P: "policy_ok P" and S: "seg_ok P dest" and r: "InsertUniq P k v (HashFn P k) False dest = (Some it, dest1)"
  shows "seg_ok P (put_bucket (fst it) (UpdateVersion P ver (GetBucket (fst it) dest1)) dest1)"
    "seg_items P (put_bucket (fst it) (UpdateVersion P ver (GetBucket (fst it) dest1)) dest1) = add_mset (k, v) (seg_items P dest)"
    "local_depth (put_bucket (fst it) (UpdateVersion P ver (GetBucket (fst it) dest1)) dest1) = local_depth dest"
    "segment_id (put_bucket (fst it) (UpdateVersion P ver (GetBucket (fst it) dest1)) dest1) = segment_id dest"
proof -
  have I: "inserted P k v dest dest1 it" using InsertUniq_spec [OF P S r] by simp
  then have "same_content P dest1 (put_bucket (fst it) (UpdateVersion P ver (GetBucket (fst it) dest1)) dest1)"
    using UpdateVersion_seg [of P dest1 "fst it" ver] by (simp add: inserted_def)
  then show "seg_ok P (put_bucket (fst it) (UpdateVersion P ver (GetBucket (fst it) dest1)) dest1)"
    "seg_items P (put_bucket (fst it) (UpdateVersion P ver (GetBucket (fst it) dest1)) dest1) = add_mset (k, v) (seg_items P dest)"
    "local_depth (put_bucket (fst it) (UpdateVersion P ver (GetBucket (fst it) dest1)) dest1) = local_depth dest"
    "segment_id (put_bucket (fst it) (UpdateVersion P ver (GetBucket (fst it) dest1)) dest1) = segment_id dest"
    using I by (simp_all add: same_content_def inserted_def)
qed

lemma bucket_cell:
  assumes "bucket_ok P b" "j < kSlotNum P" "cells P b ! j \<noteq> None"
  obtains c where "cells P b ! j = Some c" "bkey b ! j = cell_key c" "(bkey b ! j, bvalue b ! j) = cell_item c"
proof -
  obtain k v fp p where c: "cells P b ! j = Some (k, v, fp, p)" using assms(3) by (cases "cells P b ! j") auto
  then show ?thesis using that [of "(k, v, fp, p)"] bucket_repD(7) [OF assms(1) [unfolded bucket_ok_def] assms(2) c] by simp
qed

subsection \<open>Regular buckets\<close>

definition somes_items :: "('k, 'v) cell option list \<Rightarrow> ('k \<times> 'v) multiset" where
  "somes_items vs = image_mset cell_item (somes vs)"

lemma somes_items_clear:
  assumes "j < length vs" "j < 32" "vs ! j = Some c" "\<not> bit m j"
  shows "somes_items (clear_list m vs) = add_mset (cell_item c) (somes_items (clear_list (m OR push_bit j 1) vs))"
proof -
  have "clear_list m vs ! j = Some c" using assms by (simp add: nth_clear_list)
  then show ?thesis unfolding somes_items_def clear_list_add [OF assms(1,2)] using somes_update_None [of j "clear_list m vs" c] assms(1) by simp
qed

definition leaving :: "('k, 'v) dash_policy \<Rightarrow> nat \<Rightarrow> ('k \<times> 'v) multiset \<Rightarrow> ('k \<times> 'v) multiset" where
  "leaving P d = filter_mset (\<lambda>x. \<not> is_mine d (HashFn P (fst x)))"

definition staying :: "('k, 'v) dash_policy \<Rightarrow> nat \<Rightarrow> ('k \<times> 'v) multiset \<Rightarrow> ('k \<times> 'v) multiset" where
  "staying P d = filter_mset (\<lambda>x. is_mine d (HashFn P (fst x)))"

lemma fst_cell_item [simp]: "fst (cell_item c) = cell_key c"
  by (cases c) simp

lemma leaving_simps [simp]:
  "leaving P d {#} = {#}" "leaving P d (A + B) = leaving P d A + leaving P d B"
  "leaving P d (add_mset x A) = (if is_mine d (HashFn P (fst x)) then leaving P d A else add_mset x (leaving P d A))"
  "staying P d (add_mset x A) = (if is_mine d (HashFn P (fst x)) then add_mset x (staying P d A) else staying P d A)"
  by (simp_all add: leaving_def staying_def)

lemma split_slots_spec:
  assumes P: "policy_ok P" and b: "bucket_ok P b"
    and "seg_ok P dest" "mask_ok P b m" "\<And>j. j \<in> set sids \<Longrightarrow> j < kSlotNum P \<and> \<not> bit m j \<and> cells P b ! j \<noteq> None" "distinct sids"
    "split_slots P d b sids (m, dest) = Some (m', dest')"
  shows "seg_ok P dest' \<and> local_depth dest' = local_depth dest \<and> segment_id dest' = segment_id dest \<and> mask_ok P b m' \<and>
    (\<forall>j. bit m' j \<longleftrightarrow> bit m j \<or> j \<in> set sids \<and> \<not> is_mine d (HashFn P (bkey b ! j))) \<and>
    seg_items P dest' + somes_items (clear_list m' (cells P b)) = seg_items P dest + somes_items (clear_list m (cells P b)) \<and>
    staying P d (seg_items P dest') = staying P d (seg_items P dest)"
  using assms(3-)
proof (induction sids arbitrary: m dest)
  case (Cons j sids)
  have j: "j < kSlotNum P" "\<not> bit m j" "j \<notin> set sids" "j < 32" using Cons.prems(3) [of j] Cons.prems(4) P by (auto simp: policy_ok_def)
  have ne: "cells P b ! j \<noteq> None" using Cons.prems(3) [of j] by simp
  obtain c where c: "cells P b ! j = Some c" "(bkey b ! j, bvalue b ! j) = cell_item c"
    using bucket_cell [OF b j(1) ne] by blast
  have sl: "\<And>l. l \<in> set sids \<Longrightarrow> l < kSlotNum P \<and> \<not> bit m l \<and> cells P b ! l \<noteq> None" "distinct sids" using Cons.prems(3,4) by auto
  show ?case
  proof (cases "is_mine d (HashFn P (bkey b ! j))")
    case True
    then have "split_slots P d b sids (m, dest) = Some (m', dest')" using Cons.prems(5) by (simp add: Let_def)
    note H = Cons.IH [OF Cons.prems(1,2) sl this]
    have "\<forall>l. bit m' l \<longleftrightarrow> bit m l \<or> l \<in> set (j # sids) \<and> \<not> is_mine d (HashFn P (bkey b ! l))" using H True by auto
    then show ?thesis using H by blast
  next
    case False
    let ?m = "m OR push_bit j 1"
    obtain it dest1 where i: "InsertUniq P (bkey b ! j) (bvalue b ! j) (HashFn P (bkey b ! j)) False dest = (Some it, dest1)"
      using Cons.prems(5) False by (auto simp: Let_def split: prod.splits option.splits)
    define dest2 where "dest2 = put_bucket (fst it) (UpdateVersion P (bversion b) (GetBucket (fst it) dest1)) dest1"
    note I = split_insert [OF P Cons.prems(1) i, of "bversion b", folded dest2_def]
    have r: "split_slots P d b sids (?m, dest2) = Some (m', dest')" using Cons.prems(5) False i by (simp add: Let_def dest2_def)
    have sl': "\<And>l. l \<in> set sids \<Longrightarrow> l < kSlotNum P \<and> \<not> bit ?m l \<and> cells P b ! l \<noteq> None" using sl(1) j(3) by (auto simp: bit_or_iff bit_push_1)
    note H = Cons.IH [OF I(1) mask_ok_add [OF Cons.prems(2) j(1) c(1)] sl' sl(2) r]
    have b': "bit ?m l \<longleftrightarrow> bit m l \<or> l = j" for l using j(4) by (auto simp: bit_or_iff bit_push_1)
    have "somes_items (clear_list m (cells P b)) = add_mset (cell_item c) (somes_items (clear_list ?m (cells P b)))"
      using somes_items_clear [of j "cells P b" c m] j c by simp
    then have "seg_items P dest' + somes_items (clear_list m' (cells P b)) = seg_items P dest + somes_items (clear_list m (cells P b))"
      using H I(2) c(2) by simp
    moreover have "\<forall>l. bit m' l \<longleftrightarrow> bit m l \<or> l \<in> set (j # sids) \<and> \<not> is_mine d (HashFn P (bkey b ! l))" using H False b' by auto
    moreover have "staying P d (seg_items P dest2) = staying P d (seg_items P dest)" using I(2) False by simp
    ultimately show ?thesis using H I(3,4) by simp
  qed
qed simp

definition mine_at :: "('k, 'v) dash_policy \<Rightarrow> nat \<Rightarrow> nat \<Rightarrow> ('k, 'v) segment \<Rightarrow> bool" where
  "mine_at P d i seg \<longleftrightarrow> (\<forall>c. Some c \<in> set (cells P (GetBucket i seg)) \<longrightarrow> is_mine d (HashFn P (cell_key c)))"

lemma clear_keeps_mine:
  assumes "bucket_ok P b" "\<And>j. bit m j \<longleftrightarrow> j < kSlotNum P \<and> cells P b ! j \<noteq> None \<and> \<not> is_mine d (HashFn P (bkey b ! j))"
    "Some c \<in> set (clear_list m (cells P b))"
  shows "is_mine d (HashFn P (cell_key c))"
proof -
  obtain j where j: "j < kSlotNum P" "\<not> bit m j" "cells P b ! j = Some c"
    using assms(3) by (auto simp: in_set_conv_nth nth_clear_list split: if_splits)
  have "cells P b ! j \<noteq> None" using j(3) by simp
  then obtain c' where "cells P b ! j = Some c'" "bkey b ! j = cell_key c'" using bucket_cell [OF assms(1) j(1)] by blast
  then show ?thesis using assms(2) [of j] j by auto
qed

lemma clear_regular:
  assumes S: "seg_ok P seg" and i: "i < kBucketNum P" and m: "mask_ok P (GetBucket i seg) m"
  shows "seg_ok P (put_bucket i (bucket_ClearSlots P m (GetBucket i seg)) seg)"
    "seg_items P (put_bucket i (bucket_ClearSlots P m (GetBucket i seg)) seg) + somes_items (cells P (GetBucket i seg)) =
     seg_items P seg + somes_items (clear_list m (cells P (GetBucket i seg)))"
proof -
  let ?b = "GetBucket i seg" let ?s = "put_bucket i (bucket_ClearSlots P m ?b) seg"
  have sh: "shape_ok P seg" "acct P seg (stashed P seg)" using S by (simp_all add: seg_ok_def)
  note D = shape_okD [OF sh(1)]
  have C: "bucket_ok P (bucket_ClearSlots P m ?b)" "cells P (bucket_ClearSlots P m ?b) = clear_list m (cells P ?b)"
    using cells_mask [OF D(4) [OF i] m] by simp_all
  have sub: "Some c \<in> set (clear_list m vs) \<Longrightarrow> Some c \<in> set vs" for c :: "('a, 'b) cell" and vs
    by (auto simp: in_set_conv_nth nth_clear_list split: if_splits)
  have "shape_ok P ?s" using C D(3,5) i sub same_stash_simps(2) [OF same_stash_ops(4) [of ?b P m]]
    by (intro shape_put [OF sh(1)]) auto
  moreover have "acct P ?s (stashed P seg)" using sh(2) D(1) i same_stash_ops(4) by (intro acct_put_same) auto
  ultimately show "seg_ok P ?s" using stashed_put_regular [OF i D(1)] by (simp add: seg_ok_def)
  show "seg_items P ?s + somes_items (cells P ?b) = seg_items P seg + somes_items (clear_list m (cells P ?b))"
    using all_cells_put [of i P seg "bucket_ClearSlots P m ?b"] i D(1) C(2)
    unfolding seg_items_def somes_items_def image_mset_union [symmetric] by simp
qed

lemma split_bucket_spec:
  assumes P: "policy_ok P" and S: "seg_ok P seg" "seg_ok P dest" and i: "i < kBucketNum P"
    and r: "split_bucket P i (seg, dest) = Some (seg', dest')"
  shows "seg_ok P seg'" "seg_ok P dest'" "seg_items P seg' + seg_items P dest' = seg_items P seg + seg_items P dest"
    "mine_at P (local_depth seg) i seg'" "\<And>q. q \<noteq> i \<Longrightarrow> GetBucket q seg' = GetBucket q seg"
    "local_depth seg' = local_depth seg" "segment_id seg' = segment_id seg" "local_depth dest' = local_depth dest" "segment_id dest' = segment_id dest"
    "staying P (local_depth seg) (seg_items P dest') = staying P (local_depth seg) (seg_items P dest)"
proof -
  let ?b = "GetBucket i seg" and ?d = "local_depth seg"
  have sh: "shape_ok P seg" using S(1) by (simp add: seg_ok_def)
  note D = shape_okD [OF sh]
  note N = slots_of_bucket [OF D(4) [OF i]]
  obtain m where sl: "split_slots P ?d ?b (map fst (ForEachSlot P ?b)) (0, dest) = Some (m, dest')"
    and s': "seg' = put_bucket i (bucket_ClearSlots P m ?b) seg"
    using r by (auto simp: split_bucket_def Let_def split: option.splits)
  have "\<And>j. j \<in> set (map fst (ForEachSlot P ?b)) \<Longrightarrow> j < kSlotNum P \<and> \<not> bit (0 :: u32) j \<and> cells P ?b ! j \<noteq> None"
    unfolding N(1) by simp
  note X = split_slots_spec [OF P D(4) [OF i] S(2) mask_ok_0 this N(2) sl, unfolded N(1)]
  have c0: "clear_list 0 (cells P ?b) = cells P ?b" by (rule nth_equalityI) (simp_all add: nth_clear_list)
  have mo: "mask_ok P ?b m" using X by blast
  note R = clear_regular [OF S(1) i mo, folded s']
  show "seg_ok P seg'" by (rule R(1))
  show "seg_ok P dest'" "local_depth dest' = local_depth dest" "segment_id dest' = segment_id dest"
    "staying P ?d (seg_items P dest') = staying P ?d (seg_items P dest)" using X by simp_all
  have "(seg_items P seg' + seg_items P dest') + somes_items (cells P ?b) = (seg_items P seg' + somes_items (cells P ?b)) + seg_items P dest'" by simp
  also have "\<dots> = seg_items P seg + (seg_items P dest' + somes_items (clear_list m (cells P ?b)))" unfolding R(2) by simp
  also have "\<dots> = (seg_items P seg + seg_items P dest) + somes_items (cells P ?b)" using X c0 by simp
  finally show "seg_items P seg' + seg_items P dest' = seg_items P seg + seg_items P dest" by (metis add_right_cancel)
  show g: "GetBucket q seg' = GetBucket q seg" if "q \<noteq> i" for q using that D(1) i by (simp add: s' GetBucket_put)
  show "local_depth seg' = local_depth seg" "segment_id seg' = segment_id seg" by (simp_all add: s')
  have mb: "\<And>j. bit m j \<longleftrightarrow> j < kSlotNum P \<and> cells P ?b ! j \<noteq> None \<and> \<not> is_mine ?d (HashFn P (bkey ?b ! j))" using X by auto
  have "cells P (GetBucket i seg') = clear_list m (cells P ?b)"
    using cells_mask [OF D(4) [OF i] mo] D(1) i by (simp add: s' GetBucket_put)
  then show "mine_at P ?d i seg'" unfolding mine_at_def using clear_keeps_mine [OF D(4) [OF i] mb] by metis
qed

definition split_inv :: "('k, 'v) dash_policy \<Rightarrow> ('k, 'v) segment \<Rightarrow> ('k, 'v) segment \<Rightarrow> ('k, 'v) segment \<times> ('k, 'v) segment \<Rightarrow> bool" where
  "split_inv P seg0 dest0 st \<longleftrightarrow> (case st of (seg, dest) \<Rightarrow> seg_ok P seg \<and> seg_ok P dest \<and>
     seg_items P seg + seg_items P dest = seg_items P seg0 + seg_items P dest0 \<and>
     local_depth seg = local_depth seg0 \<and> segment_id seg = segment_id seg0 \<and> local_depth dest = local_depth dest0 \<and> segment_id dest = segment_id dest0 \<and>
     staying P (local_depth seg0) (seg_items P dest) = staying P (local_depth seg0) (seg_items P dest0))"

lemma opt_fold_regular:
  assumes P: "policy_ok P" and "split_inv P seg0 dest0 st" "opt_fold (split_bucket P) is st = Some st'" "set is \<subseteq> {..<kBucketNum P}" "distinct is"
  shows "split_inv P seg0 dest0 st' \<and> (\<forall>i \<in> set is. mine_at P (local_depth seg0) i (fst st')) \<and>
    (\<forall>q. q \<notin> set is \<longrightarrow> GetBucket q (fst st') = GetBucket q (fst st))"
  using assms(2-)
proof (induction "is" arbitrary: st)
  case (Cons i "is")
  obtain seg dest where st: "st = (seg, dest)" by (cases st)
  obtain seg1 dest1 where b: "split_bucket P i (seg, dest) = Some (seg1, dest1)" "opt_fold (split_bucket P) is (seg1, dest1) = Some st'"
    using Cons.prems(2) by (auto simp: st split: option.splits)
  have ok: "seg_ok P seg" "seg_ok P dest" "i < kBucketNum P" using Cons.prems(1,3) by (simp_all add: st split_inv_def)
  note B = split_bucket_spec [OF P ok b(1)]
  have I: "split_inv P seg0 dest0 (seg1, dest1)" using Cons.prems(1) B by (simp add: st split_inv_def)
  note H = Cons.IH [OF I b(2)]
  have "mine_at P (local_depth seg0) i (fst st')"
    using H Cons.prems(3,4) B(4) Cons.prems(1) by (simp add: mine_at_def st split_inv_def)
  then show ?case using H Cons.prems(3,4) B(5) by (auto simp: st)
qed simp

subsection \<open>Stash buckets\<close>

lemma slots_items: "mset (map (\<lambda>j. (bkey b ! j, bvalue b ! j)) (map fst (ForEachSlot P b))) = somes_items (cells P b)"
proof -
  have m: "map fst (ForEachSlot P b) = filter (bit (bucket_GetBusy P b)) [0..<kSlotNum P]" by (simp add: ForEachSlot_def comp_def)
  have "mset (map (\<lambda>j. (bkey b ! j, bvalue b ! j)) (filter (bit (bucket_GetBusy P b)) xs)) =
    image_mset cell_item (somes (map (\<lambda>i. if bit (bucket_GetBusy P b) i
      then Some (bkey b ! i, bvalue b ! i, finger_arr b ! i, bit (bucket_GetProbe P True b) i) else None) xs))" for xs
    by (induction xs) simp_all
  then show ?thesis unfolding m somes_items_def cells_def .
qed

lemma split_stash_slots_spec:
  assumes P: "policy_ok P" and pos: "pos < 4" and "pending P pos m seg" "GetBucket (kBucketNum P + pos) seg = b" "seg_ok P dest"
    "\<And>j. j \<in> set sids \<Longrightarrow> j < kSlotNum P \<and> \<not> bit m j \<and> cells P b ! j \<noteq> None" "distinct sids"
    "split_stash_slots P pos b sids (m, seg, dest) = Some (m', seg', dest')"
  shows "pending P pos m' seg' \<and> seg_ok P dest' \<and> (\<forall>q. kBucketNum P \<le> q \<longrightarrow> GetBucket q seg' = GetBucket q seg) \<and>
    (local_depth seg' = local_depth seg \<and> segment_id seg' = segment_id seg \<and> local_depth dest' = local_depth dest \<and> segment_id dest' = segment_id dest) \<and>
    seg_items P (clear_view P pos m' seg') + seg_items P dest' = seg_items P (clear_view P pos m seg) + seg_items P dest \<and>
    staying P (local_depth seg) (seg_items P dest') = staying P (local_depth seg) (seg_items P dest) \<and>
    leaving P (local_depth seg) (seg_items P (clear_view P pos m' seg')) +
      leaving P (local_depth seg) (mset (map (\<lambda>j. (bkey b ! j, bvalue b ! j)) sids)) = leaving P (local_depth seg) (seg_items P (clear_view P pos m seg))"
  using assms(3-)
proof (induction sids arbitrary: m seg dest)
  case (Cons j sids)
  let ?i = "kBucketNum P + pos" and ?d = "local_depth seg"
  have j: "j < kSlotNum P" "\<not> bit m j" "j \<notin> set sids" and ne: "cells P b ! j \<noteq> None" using Cons.prems(4) [of j] Cons.prems(5) by auto
  have ok: "bucket_ok P b" using Cons.prems(1,2) shape_okD(2) [of P seg ?i] pos by (auto simp: pending_def)
  obtain c where c': "cells P b ! j = Some c" "bkey b ! j = cell_key c" "(bkey b ! j, bvalue b ! j) = cell_item c"
    using bucket_cell [OF ok j(1) ne] by blast
  have c: "cells P (GetBucket ?i seg) ! j = Some c" using c'(1) Cons.prems(2) by simp
  note M = pending_mem [OF Cons.prems(1) pos j(1,2) c]
  have sl: "\<And>l. l \<in> set sids \<Longrightarrow> l < kSlotNum P \<and> \<not> bit m l \<and> cells P b ! l \<noteq> None" "distinct sids" using Cons.prems(4,5) by auto
  let ?m = "m OR push_bit j 1"
  have sl': "\<And>l. l \<in> set sids \<Longrightarrow> l < kSlotNum P \<and> \<not> bit ?m l \<and> cells P b ! l \<noteq> None" using sl(1) j(3) by (auto simp: bit_or_iff bit_push_1)
  note r = Cons.prems(6) [unfolded split_stash_slots.simps Let_def c'(2)]
  show ?case
  proof (cases "is_mine ?d (HashFn P (cell_key c))")
    case True
    obtain res seg1 where t: "TryMoveFromStash P pos j (HashFn P (cell_key c)) seg = (res, seg1)" by fastforce
    note T = TryMoveFromStash_spec [OF P M(4,3) pos j(1) c M(1) t]
    show ?thesis
    proof (cases res)
      case None
      then have "split_stash_slots P pos b sids (m, seg, dest) = Some (m', seg', dest')" using r True t T by simp
      from Cons.IH [OF Cons.prems(1,2,3) sl this] show ?thesis using True c'(3) by simp
    next
      case (Some it)
      obtain c2 where T: "shape_ok P seg1" "acct P seg1 ((stashed P (clear_view P pos m seg))(key_home P (cell_key c) :=
          stashed P (clear_view P pos m seg) (key_home P (cell_key c)) - {#(key_fp P (cell_key c), pos)#}))"
        "all_cells P seg1 = add_mset c2 (all_cells P seg)" "cell_item c2 = cell_item c" "\<And>q. kBucketNum P \<le> q \<Longrightarrow> GetBucket q seg1 = GetBucket q seg"
        "local_depth seg1 = local_depth seg" "segment_id seg1 = segment_id seg"
        using T Some by auto
      note N = pending_step [OF P Cons.prems(1) pos j(1,2) c T(1,2,5)]
      have "add_mset (cell_item c) (seg_items P (clear_view P pos ?m seg1)) = add_mset (cell_item c) (seg_items P (clear_view P pos m seg))"
        using arg_cong [OF N(2) [of "{#c2#}"], of "image_mset cell_item"] T(3,4) by (simp add: seg_items_def)
      then have it: "seg_items P (clear_view P pos ?m seg1) = seg_items P (clear_view P pos m seg)" by simp
      have g: "GetBucket ?i seg1 = b" using T(5) Cons.prems(2) by simp
      have "split_stash_slots P pos b sids (?m, seg1, dest) = Some (m', seg', dest')" using r True t Some by simp
      from Cons.IH [OF N(1) g Cons.prems(3) sl' sl(2) this] show ?thesis using True c'(3) it T(5-7) by simp
    qed
  next
    case False
    obtain at dest1 where i: "InsertUniq P (bkey b ! j) (bvalue b ! j) (HashFn P (bkey b ! j)) False dest = (Some at, dest1)"
      using r False by (auto simp: c'(2) split: prod.splits option.splits)
    define dest2 where "dest2 = put_bucket (fst at) (UpdateVersion P (bversion b) (GetBucket (fst at) dest1)) dest1"
    note I = split_insert [OF P Cons.prems(3) i, of "bversion b", folded dest2_def, unfolded c'(3)]
    define seg1 where "seg1 = RemoveStashReference P pos (HashFn P (cell_key c)) seg"
    note R = RemoveStashReference_spec [OF P M(4,3), of "HashFn P (cell_key c)" pos, folded key_home_def key_fp_def, OF M(1), folded seg1_def]
    have g1: "\<And>q. kBucketNum P \<le> q \<Longrightarrow> GetBucket q seg1 = GetBucket q seg"
      using RemoveStashReference_other [OF P shape_okD(1) [OF M(4)]] by (simp add: seg1_def)
    note N = pending_step [OF P Cons.prems(1) pos j(1,2) c R(1,2) g1]
    have it: "seg_items P (clear_view P pos m seg) = add_mset (cell_item c) (seg_items P (clear_view P pos ?m seg1))"
      using arg_cong [OF N(2) [of "{#}"], of "image_mset cell_item"] same_cells_simps(2) [OF R(3)] by (simp add: seg_items_def)
    have g: "GetBucket ?i seg1 = b" using g1 Cons.prems(2) by simp
    have "split_stash_slots P pos b sids (?m, seg1, dest2) = Some (m', seg', dest')" using r False i by (simp add: c'(2) seg1_def dest2_def)
    from Cons.IH [OF N(1) g I(1) sl' sl(2) this] show ?thesis
      using False c'(3) it g1 I same_cells_simps(7,8) [OF R(3)] by simp
  qed
qed simp

lemma split_stash_spec:
  assumes P: "policy_ok P" and S: "seg_ok P seg" "seg_ok P dest" and pos: "pos < 4" and r: "split_stash P pos (seg, dest) = Some (seg', dest')"
  shows "split_inv P seg dest (seg', dest')" "\<And>q. kBucketNum P \<le> q \<Longrightarrow> q \<noteq> kBucketNum P + pos \<Longrightarrow> GetBucket q seg' = GetBucket q seg"
    "leaving P (local_depth seg) (seg_items P seg') + leaving P (local_depth seg) (somes_items (cells P (GetBucket (kBucketNum P + pos) seg))) =
     leaving P (local_depth seg) (seg_items P seg)"
proof -
  let ?b = "GetBucket (kBucketNum P + pos) seg"
  obtain m seg1 where sl: "split_stash_slots P pos ?b (map fst (ForEachSlot P ?b)) (0, seg, dest) = Some (m, seg1, dest')"
    and s': "seg' = clear_view P pos m seg1"
    using r by (auto simp: split_stash_def Let_def clear_view_def split: option.splits)
  note N = pending_slots [OF S(1) pos]
  note X = split_stash_slots_spec [OF P pos pending_0 [OF S(1) pos] refl S(2) N(2) slots_of_bucket(2) [OF N(1)] sl, unfolded N(3) slots_items]
  have p: "shape_ok P seg1" "seg_ok P seg'" "mask_ok P (GetBucket (kBucketNum P + pos) seg1) m" using X unfolding pending_def s' by blast+
  note V = clear_view_simps [OF p(1) pos p(3), folded s']
  show "split_inv P seg dest (seg', dest')" unfolding split_inv_def prod.case s' using X p(2) V(5,6) unfolding s' by simp
  show "\<And>q. kBucketNum P \<le> q \<Longrightarrow> q \<noteq> kBucketNum P + pos \<Longrightarrow> GetBucket q seg' = GetBucket q seg" using V(4) X by simp
  show "leaving P (local_depth seg) (seg_items P seg') + leaving P (local_depth seg) (somes_items (cells P ?b)) = leaving P (local_depth seg) (seg_items P seg)"
    using X by (simp add: s')
qed

lemma opt_fold_stash:
  assumes P: "policy_ok P" and "split_inv P seg0 dest0 st" "opt_fold (split_stash P) ps st = Some st'" "set ps \<subseteq> {..<4}" "distinct ps"
  shows "split_inv P seg0 dest0 st' \<and>
    leaving P (local_depth seg0) (seg_items P (fst st')) +
      (\<Sum>p\<leftarrow>ps. leaving P (local_depth seg0) (somes_items (cells P (GetBucket (kBucketNum P + p) (fst st))))) =
    leaving P (local_depth seg0) (seg_items P (fst st))"
  using assms(2-)
proof (induction ps arbitrary: st)
  case (Cons p ps)
  obtain seg dest where st: "st = (seg, dest)" by (cases st)
  obtain seg1 dest1 where b: "split_stash P p (seg, dest) = Some (seg1, dest1)" "opt_fold (split_stash P) ps (seg1, dest1) = Some st'"
    using Cons.prems(2) by (auto simp: st split: option.splits)
  have ok: "seg_ok P seg" "seg_ok P dest" "p < 4" "local_depth seg = local_depth seg0" using Cons.prems(1,3) by (simp_all add: st split_inv_def)
  note B = split_stash_spec [OF P ok(1-3) b(1)]
  have I: "split_inv P seg0 dest0 (seg1, dest1)" using Cons.prems(1) B(1) by (simp add: st split_inv_def)
  have e: "(\<Sum>q\<leftarrow>ps. leaving P (local_depth seg0) (somes_items (cells P (GetBucket (kBucketNum P + q) seg1)))) =
    (\<Sum>q\<leftarrow>ps. leaving P (local_depth seg0) (somes_items (cells P (GetBucket (kBucketNum P + q) seg))))"
  proof -
    have "GetBucket (kBucketNum P + q) seg1 = GetBucket (kBucketNum P + q) seg" if "q \<in> set ps" for q
      using B(2) [of "kBucketNum P + q"] that Cons.prems(4) by auto
    then show ?thesis by (simp cong: map_cong)
  qed
  have H: "split_inv P seg0 dest0 st'" "leaving P (local_depth seg0) (seg_items P (fst st')) +
      (\<Sum>q\<leftarrow>ps. leaving P (local_depth seg0) (somes_items (cells P (GetBucket (kBucketNum P + q) seg)))) = leaving P (local_depth seg0) (seg_items P seg1)"
    using Cons.IH [OF I b(2)] Cons.prems(3,4) e by simp_all
  have "A + (T + R) = L" if "A + R = L1" "L1 + T = L" for A T R L1 L :: "('a \<times> 'b) multiset" using that by (auto simp: ac_simps)
  from this [OF H(2) B(3) [unfolded ok(4)]] show ?case using H(1) by (simp add: st)
qed simp

lemma sum_tail: "(\<Sum>i < n + k. f i) = (\<Sum>i < n. f i) + (\<Sum>p\<leftarrow>[0..<k]. f (n + p) :: 'x :: comm_monoid_add)" for n k :: nat
  by (induction k) (simp_all add: add.assoc)

lemma seg_items_split:
  "seg_items P seg = (\<Sum>i < kBucketNum P. somes_items (cells P (GetBucket i seg))) + (\<Sum>p\<leftarrow>[0..<4]. somes_items (cells P (GetBucket (kBucketNum P + p) seg)))"
proof -
  have i: "image_mset cell_item (\<Sum>i < k. f i) = (\<Sum>i < k. image_mset cell_item (f i))" for k :: nat and f :: "nat \<Rightarrow> ('a, 'b) cell multiset"
    by (induction k) simp_all
  show ?thesis unfolding seg_items_def all_cells_def i somes_items_def kTotalBuckets_def kStashBucketNum_def by (rule sum_tail)
qed

lemma leaving_sums:
  "leaving P d (\<Sum>i < n. f i) = (\<Sum>i < n. leaving P d (f i))" "leaving P d (\<Sum>p\<leftarrow>xs. g p) = (\<Sum>p\<leftarrow>xs. leaving P d (g p))" for n :: nat
proof -
  show "leaving P d (\<Sum>i < n. f i) = (\<Sum>i < n. leaving P d (f i))" by (induction n) simp_all
  show "leaving P d (\<Sum>p\<leftarrow>xs. g p) = (\<Sum>p\<leftarrow>xs. leaving P d (g p))" by (induction xs) simp_all
qed

lemma leaving_mine: "mine_at P d i seg \<Longrightarrow> leaving P d (somes_items (cells P (GetBucket i seg))) = {#}"
  unfolding leaving_def somes_items_def filter_mset_eq_mempty_iff mine_at_def by (force simp: in_somes)

text \<open>The split distributes the entries of the segment by the new depth bit of their hash.\<close>

lemma segment_Split_spec:
  assumes P: "policy_ok P" and S: "seg_ok P seg" "seg_ok P dest" and empty: "seg_items P dest = {#}"
    and r: "segment_Split P seg dest = Some (seg', dest')"
  shows "seg_ok P seg'" "seg_ok P dest'" "local_depth seg' = local_depth seg + 1" "local_depth dest' = local_depth seg + 1"
    "segment_id seg' = segment_id seg" "segment_id dest' = segment_id dest"
    "seg_items P seg' + seg_items P dest' = seg_items P seg"
    "leaving P (local_depth seg + 1) (seg_items P seg') = {#}" "staying P (local_depth seg + 1) (seg_items P dest') = {#}"
proof -
  let ?d = "local_depth seg + 1"
  define s0 where "s0 = seg\<lparr>local_depth := ?d\<rparr>"
  define d0 where "d0 = dest\<lparr>local_depth := ?d\<rparr>"
  have g: "GetBucket i (x\<lparr>local_depth := n\<rparr>) = GetBucket i x" for i n and x :: "('a, 'b) segment" by (simp add: GetBucket_def)
  have st: "stashed P (x\<lparr>local_depth := n\<rparr>) = stashed P x" for n and x :: "('a, 'b) segment" by (intro ext stashed_cong) (simp add: g)
  have i0: "seg_items P s0 = seg_items P seg" "seg_items P d0 = {#}" using empty by (simp_all add: seg_items_def all_cells_def s0_def d0_def g)
  have ok0: "seg_ok P s0" "seg_ok P d0" using S by (simp_all add: seg_ok_def shape_ok_def acct_def refs_at_def s0_def d0_def g st)
  have inv0: "split_inv P s0 d0 (s0, d0)" using ok0 by (simp add: split_inv_def)
  obtain st1 where f: "opt_fold (split_bucket P) [0..<kBucketNum P] (s0, d0) = Some st1" "opt_fold (split_stash P) [0..<4] st1 = Some (seg', dest')"
    using r by (auto simp: segment_Split_def Let_def s0_def d0_def kStashBucketNum_def split: option.splits)
  have sub: "set [0..<n] \<subseteq> {..<n}" for n by auto
  have R: "split_inv P s0 d0 st1" "\<forall>i < kBucketNum P. mine_at P ?d i (fst st1)"
    using opt_fold_regular [OF P inv0 f(1) sub] by (auto simp: s0_def)
  have T: "split_inv P s0 d0 (seg', dest')"
    "leaving P ?d (seg_items P seg') + (\<Sum>p\<leftarrow>[0..<4]. leaving P ?d (somes_items (cells P (GetBucket (kBucketNum P + p) (fst st1))))) =
     leaving P ?d (seg_items P (fst st1))"
    using opt_fold_stash [OF P R(1) f(2) sub] by (auto simp: s0_def)
  have "leaving P ?d (seg_items P (fst st1)) = (\<Sum>p\<leftarrow>[0..<4]. leaving P ?d (somes_items (cells P (GetBucket (kBucketNum P + p) (fst st1)))))"
    unfolding seg_items_split [of P "fst st1"] leaving_simps leaving_sums using R(2) by (simp add: leaving_mine)
  from T(2) [unfolded this] show "leaving P ?d (seg_items P seg') = {#}" by (simp only: add_cancel_left_left)
  show "seg_ok P seg'" "seg_ok P dest'" "local_depth seg' = ?d" "local_depth dest' = ?d" "segment_id seg' = segment_id seg"
    "segment_id dest' = segment_id dest" "seg_items P seg' + seg_items P dest' = seg_items P seg" "staying P ?d (seg_items P dest') = {#}"
    using T(1) i0 by (simp_all add: split_inv_def s0_def d0_def staying_def)
qed

end
