(* ===== verification/Dash_Views.thy ===== *)
theory Dash_Views
  imports Dash_Split
begin

text \<open>
  What the read-only operations of a segment see: a logical bucket visits exactly the entries of its home, and the
  buckets announced before an insertion are the ones whose slots the insertion changes.
\<close>

subsection \<open>Traversal of a logical bucket\<close>

definition home_slots :: "('k, 'v) dash_policy \<Rightarrow> nat \<Rightarrow> ('k, 'v) segment \<Rightarrow> (nat \<times> nat) set" where
  "home_slots P bid seg = {(i, j). i < kTotalBuckets P \<and> j < kSlotNum P \<and>
     (\<exists>c. cells P (GetBucket i seg) ! j = Some c \<and> key_home P (cell_key c) = bid)}"

definition slot_list :: "nat \<Rightarrow> (nat \<times> bool) list \<Rightarrow> (nat \<times> nat) list" where
  "slot_list i xs = map (\<lambda>(sid, _). (i, sid)) xs"

lemma set_ForEachSlot:
  assumes "bucket_ok P b"
  shows "set (ForEachSlot P b) = {(j, p). j < kSlotNum P \<and> (\<exists>c. cells P b ! j = Some c \<and> cell_probe c = p)}"
  unfolding ForEachSlot_rep [OF assms [unfolded bucket_ok_def]] by (auto simp: image_iff)

lemma slot_list_props:
  "set (slot_list i (filter Q xs)) = {(i, j) | j. \<exists>p. (j, p) \<in> set xs \<and> Q (j, p)}" "distinct (map fst xs) \<Longrightarrow> distinct (slot_list i (filter Q xs))"
proof -
  show "set (slot_list i (filter Q xs)) = {(i, j) | j. \<exists>p. (j, p) \<in> set xs \<and> Q (j, p)}" by (force simp: slot_list_def)
  show "distinct (slot_list i (filter Q xs))" if "distinct (map fst xs)"
    using that by (induction xs) (auto simp: slot_list_def image_iff split: prod.splits)
qed

lemma own_slots:
  assumes "bucket_ok P b" "bucket_GetProbe P q b = 0" "j < kSlotNum P" "cells P b ! j = Some c"
  shows "cell_probe c \<noteq> q"
  using bucket_GetProbe_rep [OF assms(1) [unfolded bucket_ok_def], of q j] assms(2-4) by auto

lemma probe_part:
  assumes "bucket_ok P b"
  shows "set (if bucket_GetProbe P q b \<noteq> 0 then slot_list i (filter (\<lambda>(_, probe). probe = q) (ForEachSlot P b)) else []) =
    {(i, j) | j. j < kSlotNum P \<and> (\<exists>c. cells P b ! j = Some c \<and> cell_probe c = q)}"
proof (cases "bucket_GetProbe P q b = 0")
  case True
  then have "{(i, j) | j. j < kSlotNum P \<and> (\<exists>c. cells P b ! j = Some c \<and> cell_probe c = q)} = {}" using own_slots [OF assms True] by blast
  then show ?thesis using True by simp
next
  case False
  then show ?thesis by (auto simp: slot_list_props(1) set_ForEachSlot [OF assms])
qed

lemma stash_part:
  assumes "bucket_ok P b"
  shows "set (slot_list i (filter (\<lambda>(sid, _). HomeIndex P (HashFn P (bkey b ! sid)) = bid) (ForEachSlot P b))) =
    {(i, j) | j. j < kSlotNum P \<and> (\<exists>c. cells P b ! j = Some c \<and> key_home P (cell_key c) = bid)}"
proof -
  have "HomeIndex P (HashFn P (bkey b ! j)) = key_home P (cell_key c)" if "j < kSlotNum P" "cells P b ! j = Some c" for j c
    using bucket_cell [OF assms that(1)] that(2) by (metis key_home_def option.distinct(1) option.inject)
  then show ?thesis by (auto simp: slot_list_props(1) set_ForEachSlot [OF assms])
qed

lemma TraverseLogicalBucket_eq:
  "TraverseLogicalBucket P bid seg =
    (if bucket_GetProbe P False (GetBucket bid seg) \<noteq> 0
     then slot_list bid (filter (\<lambda>(_, probe). probe = False) (ForEachSlot P (GetBucket bid seg))) else []) @
    (if bucket_GetProbe P True (GetBucket (NextBid P bid) seg) \<noteq> 0
     then slot_list (NextBid P bid) (filter (\<lambda>(_, probe). probe = True) (ForEachSlot P (GetBucket (NextBid P bid) seg))) else []) @
    (if HasStash (GetBucket bid seg)
     then concat (map (\<lambda>j. slot_list j (filter (\<lambda>(sid, _). HomeIndex P (HashFn P (bkey (GetBucket j seg) ! sid)) = bid) (ForEachSlot P (GetBucket j seg))))
       [kBucketNum P..<kTotalBuckets P]) else [])"
  by (simp add: TraverseLogicalBucket_def Let_def slot_list_def)

lemma set_TraverseLogicalBucket:
  assumes P: "policy_ok P" and S: "seg_ok P seg" and b: "bid < kBucketNum P"
  shows "set (TraverseLogicalBucket P bid seg) = home_slots P bid seg"
proof -
  have sh: "shape_ok P seg" "acct P seg (stashed P seg)" using S by (simp_all add: seg_ok_def)
  note D = shape_okD [OF sh(1)]
  let ?n = "NextBid P bid"
  have n: "?n < kBucketNum P" using P b by simp
  let ?cell = "\<lambda>i j c. j < kSlotNum P \<and> cells P (GetBucket i seg) ! j = Some c"
  have ok: "?cell i j c \<Longrightarrow> i < kTotalBuckets P \<Longrightarrow> cell_ok P i c" for i j c using D(5) by (metis length_cells nth_mem)
  have inj: "NextBid P (key_home P k) = ?n \<longleftrightarrow> key_home P k = bid" for k
    using Bid_simps(4) [OF P b] Bid_simps(4) [OF P HomeIndex_lt(2) [OF P], of k] by metis
  have at: "key_home P (cell_key c) = bid \<longleftrightarrow> i = (if cell_probe c then ?n else bid)" if "?cell i j c" "i < kBucketNum P" for i j c
    using ok [OF that(1)] that(2) inj [of "cell_key c"] by (auto simp: cell_ok_def)
  have st: "HasStash (GetBucket bid seg)" if "?cell i j c" "kBucketNum P \<le> i" "i < kTotalBuckets P" "key_home P (cell_key c) = bid" for i j c
  proof -
    have "i = kBucketNum P + (i - kBucketNum P)" "i - kBucketNum P < 4" using that by (auto simp: kTotalBuckets_def kStashBucketNum_def)
    then have "stashed P seg bid \<noteq> {#}" using stashed_memI(1) [OF sh(1), of "i - kBucketNum P" j c] that by auto
    then show ?thesis using sh(2) b by (auto simp: acct_def)
  qed
  let ?f = "\<lambda>j. slot_list j (filter (\<lambda>(sid, _). HomeIndex P (HashFn P (bkey (GetBucket j seg) ! sid)) = bid) (ForEachSlot P (GetBucket j seg)))"
  have "set (concat (map ?f [kBucketNum P..<kTotalBuckets P])) = (\<Union>i \<in> {kBucketNum P..<kTotalBuckets P}. set (?f i))" by simp
  also have "\<dots> = (\<Union>i \<in> {kBucketNum P..<kTotalBuckets P}. {(i, j) | j. j < kSlotNum P \<and> (\<exists>c. cells P (GetBucket i seg) ! j = Some c \<and> key_home P (cell_key c) = bid)})"
    using D(2) by (intro SUP_cong refl stash_part) auto
  finally have p3: "(i, j) \<in> set (concat (map ?f [kBucketNum P..<kTotalBuckets P])) \<longleftrightarrow>
      kBucketNum P \<le> i \<and> i < kTotalBuckets P \<and> (\<exists>c. ?cell i j c \<and> key_home P (cell_key c) = bid)" for i j by auto
  have "x \<in> set (TraverseLogicalBucket P bid seg) \<longleftrightarrow> x \<in> home_slots P bid seg" for x
  proof -
    obtain i j where x: "x = (i, j)" by (cases x)
    have "(i, j) \<in> set (TraverseLogicalBucket P bid seg) \<longleftrightarrow>
        i = bid \<and> (\<exists>c. ?cell i j c \<and> cell_probe c = False) \<or> i = ?n \<and> (\<exists>c. ?cell i j c \<and> cell_probe c = True) \<or>
        HasStash (GetBucket bid seg) \<and> kBucketNum P \<le> i \<and> i < kTotalBuckets P \<and> (\<exists>c. ?cell i j c \<and> key_home P (cell_key c) = bid)"
      unfolding TraverseLogicalBucket_eq set_append Un_iff probe_part [OF D(4) [OF b]] probe_part [OF D(4) [OF n]] using p3 [of i j] by simp blast
    also have "\<dots> \<longleftrightarrow> (i, j) \<in> home_slots P bid seg"
    proof (cases "i < kBucketNum P")
      case True
      then have "(i, j) \<in> home_slots P bid seg \<longleftrightarrow> (\<exists>c. ?cell i j c \<and> key_home P (cell_key c) = bid)" by (auto simp: home_slots_def)
      also have "\<dots> \<longleftrightarrow> (\<exists>c. ?cell i j c \<and> i = (if cell_probe c then ?n else bid))" using at [OF _ True] by blast
      finally show ?thesis using True by (cases "cells P (GetBucket i seg) ! j") (simp_all, fastforce)
    next
      case False
      then show ?thesis using st b n by (auto simp: home_slots_def)
    qed
    finally show ?thesis by (simp add: x)
  qed
  then show ?thesis by blast
qed

subsection \<open>Buckets changed by an insertion\<close>

definition changed :: "('k, 'v) dash_policy \<Rightarrow> ('k, 'v) segment \<Rightarrow> ('k, 'v) segment \<Rightarrow> nat set" where
  "changed P seg seg' = {i. i < kTotalBuckets P \<and> cells P (GetBucket i seg') \<noteq> cells P (GetBucket i seg)}"

lemma MoveToOther_changes:
  assumes S: "shape_ok P seg" and b: "frm < kBucketNum P" "to < kBucketNum P" "to \<noteq> frm"
    and full: "own \<Longrightarrow> bucket_IsFull P (GetBucket frm seg)"
  shows "MoveToOther P own frm to seg = None \<longleftrightarrow> \<not> CheckIfMovesToOther P own frm to seg"
    "MoveToOther P own frm to seg = Some (d, seg') \<Longrightarrow> d < kSlotNum P \<and> (\<exists>c. cells P (GetBucket frm seg) ! d = Some c \<and> cell_probe c = (\<not> own)) \<and>
       cells P (GetBucket frm seg') = (cells P (GetBucket frm seg))[d := None] \<and> bucket_ok P (GetBucket frm seg') \<and>
       cells P (GetBucket to seg') \<noteq> cells P (GetBucket to seg) \<and>
       length (seg_bucket seg') = length (seg_bucket seg) \<and> (\<forall>q. q \<noteq> frm \<longrightarrow> q \<noteq> to \<longrightarrow> GetBucket q seg' = GetBucket q seg)"
proof -
  note D = shape_okD [OF S]
  let ?src = "GetBucket frm seg" and ?t = "GetBucket to seg"
  let ?m = "bucket_GetProbe P (\<not> own) ?src"
  let ?e = "ctz ?m"
  have ok: "bucket_ok P ?src" "bucket_ok P ?t" using D(4) b by simp_all
  show "MoveToOther P own frm to seg = None \<longleftrightarrow> \<not> CheckIfMovesToOther P own frm to seg"
    by (cases rule: TryInsert_cases [OF ok(2), of "bkey ?src ! ?e" "bvalue ?src ! ?e" "Fp ?e ?src" own, case_names full free])
       (auto simp: MoveToOther_def CheckIfMovesToOther_def Let_def)
  assume r: "MoveToOther P own frm to seg = Some (d, seg')"
  then have nz: "?m \<noteq> 0" by (auto simp: MoveToOther_def Let_def split: if_splits)
  obtain c where c: "?e < kSlotNum P" "cells P ?src ! ?e = Some c" "cell_probe c = (\<not> own)" using ctz_probe_cell [OF ok(1) full nz] by blast
  obtain i dst where t: "TryInsertToBucket P (bkey ?src ! ?e) (bvalue ?src ! ?e) (Fp ?e ?src) own ?t = Some (i, dst)"
    and out: "d = ?e" "seg' = put_bucket frm (bucket_Delete P ?e ?src) (put_bucket to (UpdateVersion P (bversion ?src) dst) seg)"
    using r nz by (auto simp: MoveToOther_def Let_def split: option.splits)
  have i: "i < kSlotNum P" "cells P ?t ! i = None" "cells P dst = (cells P ?t)[i := Some (bkey ?src ! ?e, bvalue ?src ! ?e, Fp ?e ?src, own)]"
    using t by (cases rule: TryInsert_cases [OF ok(2), of "bkey ?src ! ?e" "bvalue ?src ! ?e" "Fp ?e ?src" own]; simp)+
  have ne: "cells P dst \<noteq> cells P ?t" using i by (metis length_cells nth_list_update_eq option.distinct(1))
  have "cells P ?src ! ?e \<noteq> None" using c(2) by simp
  note C = cells_Delete [OF ok(1) c(1) this]
  have l: "to < length (seg_bucket seg)" "frm < length (seg_bucket seg)" using D(1) b by simp_all
  show "d < kSlotNum P \<and> (\<exists>c. cells P ?src ! d = Some c \<and> cell_probe c = (\<not> own)) \<and>
       cells P (GetBucket frm seg') = (cells P ?src)[d := None] \<and> bucket_ok P (GetBucket frm seg') \<and> cells P (GetBucket to seg') \<noteq> cells P ?t \<and>
       length (seg_bucket seg') = length (seg_bucket seg) \<and> (\<forall>q. q \<noteq> frm \<longrightarrow> q \<noteq> to \<longrightarrow> GetBucket q seg' = GetBucket q seg)"
    using c C ne b(3) l by (auto simp: out GetBucket_put)
qed

lemma insert_displaced:
  assumes S: "shape_ok P seg" and b: "frm < kBucketNum P" "to < kBucketNum P" "to \<noteq> frm"
    and full: "own \<Longrightarrow> bucket_IsFull P (GetBucket frm seg)" and r: "MoveToOther P own frm to seg = Some (d, seg1)"
  shows "changed P seg (put_bucket frm (bucket_Insert P d k v fp own (GetBucket frm seg1)) seg1) = {frm, to}"
proof -
  note M = MoveToOther_changes(2) [OF S b full r]
  obtain c where c: "cells P (GetBucket frm seg) ! d = Some c" "cell_probe c = (\<not> own)" "d < kSlotNum P" using M by auto
  have o: "bucket_ok P (GetBucket frm seg1)" "cells P (GetBucket frm seg1) ! d = None" using M c(3) by simp_all
  have e: "cells P (bucket_Insert P d k v fp own (GetBucket frm seg1)) = (cells P (GetBucket frm seg))[d := Some (k, v, fp, own)]"
    using cells_Insert(2) [OF o(1) c(3) o(2)] M by simp
  have "Some c \<noteq> Some (k, v, fp, own)" using c(2) by auto
  then have "cells P (bucket_Insert P d k v fp own (GetBucket frm seg1)) \<noteq> cells P (GetBucket frm seg)"
    using c(1,3) e by (metis length_cells nth_list_update_eq)
  then show ?thesis using M b shape_okD(1) [OF S] by (auto simp: changed_def GetBucket_put)
qed

lemma insert_free:
  assumes "shape_ok P seg" "i < kTotalBuckets P" "cells P b = (cells P (GetBucket i seg))[j := Some c]" "j < kSlotNum P" "cells P (GetBucket i seg) ! j = None"
  shows "changed P seg (put_bucket i b seg) = {i}"
proof -
  have "cells P b \<noteq> cells P (GetBucket i seg)" using assms(3-5) by (metis length_cells nth_list_update_eq option.distinct(1))
  then show ?thesis using assms(1,2) shape_okD(1) [OF assms(1)] by (auto simp: changed_def GetBucket_put)
qed

lemma SetStash_same_slots: "SetStash fp pos probe b = Some b' \<Longrightarrow> same_slots b b'"
  by (auto simp: SetStash_def same_slots_def Let_def split: if_splits)

lemma SetStashPtr_same_slots: "SetStashPtr pos fp t n = (t', n') \<Longrightarrow> same_slots t t' \<and> same_slots n n'"
  using SetStash_same_slots [of fp pos False t] SetStash_same_slots [of fp pos True n]
  by (auto simp: SetStashPtr_def same_slots_def Let_def split: option.splits)

lemma insert_stash_changes:
  assumes P: "policy_ok P" and S: "shape_ok P seg" and h: "bid < kBucketNum P"
    and "\<And>i. i \<in> set xs \<Longrightarrow> g i < 4" "insert_stash P k v fp bid (map g xs) seg = (r, seg')"
  shows "case find (\<lambda>i. \<not> bucket_IsFull P (GetBucket (kBucketNum P + g i) seg)) xs of
      None \<Rightarrow> r = None | Some i \<Rightarrow> r \<noteq> None \<and> changed P seg seg' = {kBucketNum P + g i}"
  using assms(4-)
proof (induction xs)
  case (Cons x xs)
  have x: "kBucketNum P + g x < kTotalBuckets P" using Cons.prems(1) [of x] by simp
  show ?case
  proof (cases rule: TryInsert_cases [OF shape_okD(2) [OF S x], of k v fp False, case_names full free])
    case full
    then show ?thesis using Cons by auto
  next
    case (free j b)
    define seg1 where "seg1 = put_bucket (kBucketNum P + g x) b seg"
    obtain t n where tn: "SetStashPtr (g x) fp (GetBucket bid seg1) (GetBucket (NextBid P bid) seg1) = (t, n)" by (meson surj_pair)
    have out: "r = Some (kBucketNum P + g x, j)" "seg' = put_bucket (NextBid P bid) n (put_bucket bid t seg1)"
      using Cons.prems(2) free(2) tn by (simp_all add: Let_def seg1_def)
    have c: "changed P seg seg1 = {kBucketNum P + g x}" unfolding seg1_def by (rule insert_free [OF S x free(6) free(3) free(4)])
    have l: "length (seg_bucket seg1) = kTotalBuckets P" using shape_okD(1) [OF S] by (simp add: seg1_def)
    have "cells P (GetBucket i seg') = cells P (GetBucket i seg1)" for i
      using SetStashPtr_same_slots [OF tn] same_slots_cells(1) h P l by (auto simp: out(2) GetBucket_put)
    then have "changed P seg seg' = changed P seg seg1" by (simp add: changed_def)
    then show ?thesis using free(9) out(1) c by simp
  qed
qed simp

text \<open>C11: The buckets that \<^verbatim>\<open>CVCOnInsert\<close> announces before an insertion are exactly the buckets whose entries the insertion with
  spreading changes, and it announces every bucket when the segment has no room and will be split.\<close>

theorem CVCOnInsert_exact:
  assumes P: "policy_ok P" and S: "seg_ok P seg" and r: "InsertUniq P k v h True seg = (r, seg')"
  shows "case r of None \<Rightarrow> CVCOnInsert P h seg = [0..<kTotalBuckets P] | Some _ \<Rightarrow> set (CVCOnInsert P h seg) = changed P seg seg'"
proof -
  have sh: "shape_ok P seg" using S by (simp add: seg_ok_def)
  note D = shape_okD [OF sh]
  let ?b = "HomeIndex P h" and ?n = "NextBid P (HomeIndex P h)" and ?fp = "hash_fp h"
  define probe where "probe \<longleftrightarrow> bucket_Size P (GetBucket ?b seg) > bucket_Size P (GetBucket ?n seg)"
  define f where "f = (if probe then ?n else ?b)"
  have b: "?b < kBucketNum P" "?n < kBucketNum P" using P by simp_all
  have nn: "NextBid P ?n < kBucketNum P" "NextBid P ?n \<noteq> ?n" "PrevBid P ?b < kBucketNum P" "PrevBid P ?b \<noteq> ?b"
    using Bid_simps(1,5) [OF P b(2)] Bid_simps(2,6) [OF P b(1)] by simp_all
  have f: "f < kBucketNum P" using b by (simp add: f_def)
  have ok: "bucket_ok P (GetBucket ?b seg)" "bucket_ok P (GetBucket ?n seg)" "bucket_ok P (GetBucket f seg)" using D(4) b f by simp_all
  note I = r [unfolded InsertUniq_def Let_def simp_thms, folded probe_def, folded f_def]
  note C = CVCOnInsert_def [of P h seg, unfolded Let_def, folded probe_def, folded f_def]
  show ?thesis
  proof (cases rule: TryInsert_cases [OF ok(3), of k v ?fp probe, case_names full free])
    case (free j x)
    then have "r = Some (f, j)" "seg' = put_bucket f x seg" "CVCOnInsert P h seg = [f]" using I C by simp_all
    then show ?thesis using insert_free [OF sh regular_lt_total [OF f] free(6) free(3) free(4)] by simp
  next
    case full
    have fn: "bucket_IsFull P (GetBucket ?n seg)"
      using full(3) Size_le [OF ok(1)] Size_le [OF ok(2)] by (auto simp: f_def probe_def bucket_IsFull_def split: if_splits)
    note M1 = MoveToOther_changes(1) [OF sh b(2) nn(1,2), of True, OF fn] and M2 = MoveToOther_changes(1) [OF sh b(1) nn(3,4), of False, simplified]
    show ?thesis
    proof (cases "MoveToOther P True ?n (NextBid P ?n) seg")
      case (Some y)
      then obtain d seg1 where m: "MoveToOther P True ?n (NextBid P ?n) seg = Some (d, seg1)" by (cases y) auto
      then have "r = Some (?n, d)" "seg' = put_bucket ?n (bucket_Insert P d k v ?fp True (GetBucket ?n seg1)) seg1"
        "CVCOnInsert P h seg = [?n, NextBid P ?n]" using I C full M1 by simp_all
      then show ?thesis using insert_displaced [OF sh b(2) nn(1,2) fn m, of k v ?fp] by simp
    next
      case n1: None
      show ?thesis
      proof (cases "MoveToOther P False ?b (PrevBid P ?b) seg")
        case (Some y)
        then obtain d seg1 where m: "MoveToOther P False ?b (PrevBid P ?b) seg = Some (d, seg1)" by (cases y) auto
        then have "r = Some (?b, d)" "seg' = put_bucket ?b (bucket_Insert P d k v ?fp False (GetBucket ?b seg1)) seg1"
          "CVCOnInsert P h seg = [?b, PrevBid P ?b]" using I C full M1 M2 n1 by simp_all
        then show ?thesis using insert_displaced [OF sh b(1) nn(3,4) _ m, of k v ?fp] by simp
      next
        case n2: None
        have i: "insert_stash P k v ?fp ?b (map (\<lambda>i. (?b + i) mod kStashBucketNum) [0..<kStashBucketNum]) seg = (r, seg')"
          using I full n1 n2 by simp
        show ?thesis
          using insert_stash_changes [OF P sh b(1) _ i] C full M1 M2 n1 n2 by (auto simp: kStashBucketNum_def split: option.splits)
      qed
    qed
  qed
qed

definition view_policy :: "(u64, nat) dash_policy" where
  "view_policy = \<lparr>kSlotNum = 1, kBucketNum = 3, kUseVersion = True, HashFn = id, key_init = 0, value_init = 0\<rparr>"

theorem CVCOnInsert_exact_witness:
  "set (CVCOnInsert view_policy 1 (Segment_new view_policy 0 0)) =
     changed view_policy (Segment_new view_policy 0 0) (snd (InsertUniq view_policy 1 10 1 True (Segment_new view_policy 0 0)))"
proof -
  let ?s = "Segment_new view_policy 0 0"
  have P: "policy_ok view_policy" by code_simp
  have "fst (InsertUniq view_policy 1 10 1 True ?s) = Some (0, 0)" by code_simp
  then have "InsertUniq view_policy 1 10 1 True ?s = (Some (0, 0), snd (InsertUniq view_policy 1 10 1 True ?s))" by (metis prod.collapse)
  from CVCOnInsert_exact [OF P Segment_new_ok(1) [OF P] this] show ?thesis by simp
qed

end
