(* ===== verification/Dash_Table.thy ===== *)
theory Dash_Table
  imports Dash_Views
begin

text \<open>
  \<^verbatim>\<open>DashTable\<close> of \<^verbatim>\<open>src/core/dash.h\<close>: a directory of \<open>2\<close> to the global depth pointers to segments, several of which may
  point to the same segment. The segments live in an explicit store of addresses, so that sharing and freed segments
  are visible; a directory access is total here and is in range by the invariant of \<^verbatim>\<open>Dash_Directory\<close>. The insertion loop
  takes the eviction policy as an argument; it has fuel, because nothing bounds the number of splits when hashes agree on many
  bits. Pinned iterators, the counters that are only reported and the callbacks that only tell of moved entries are left out.
\<close>

record ('k, 'v) dash_table =
  dir :: "nat list"
  heap :: "nat \<Rightarrow> ('k, 'v) segment option"
  next_addr :: nat
  global_depth :: nat
  initial_depth :: nat
  unique_segments :: nat
  bucket_count :: nat
  tsize :: nat

definition GetSegment :: "nat \<Rightarrow> ('k, 'v) dash_table \<Rightarrow> ('k, 'v) segment" where
  "GetSegment sid t = the (heap t (dir t ! sid))"

definition put_segment :: "nat \<Rightarrow> ('k, 'v) segment \<Rightarrow> ('k, 'v) dash_table \<Rightarrow> ('k, 'v) dash_table" where
  "put_segment a s t = t\<lparr>heap := (heap t)(a := Some s)\<rparr>"

definition ConstructSegment ::
  "('k, 'v) dash_policy \<Rightarrow> nat \<Rightarrow> nat \<Rightarrow> ('k, 'v) dash_table \<Rightarrow> nat \<times> ('k, 'v) dash_table" where
  "ConstructSegment P depth sid t =
     (next_addr t, t\<lparr>heap := (heap t)(next_addr t := Some (Segment_new P depth sid)), next_addr := next_addr t + 1,
                     bucket_count := bucket_count t + kTotalBuckets P\<rparr>)"

definition DashTable_new :: "('k, 'v) dash_policy \<Rightarrow> nat \<Rightarrow> ('k, 'v) dash_table" where
  "DashTable_new P capacity_log =
     (let t0 = \<lparr>dir = replicate (2 ^ capacity_log) 0, heap = (\<lambda>_. None), next_addr = 0, global_depth = capacity_log,
                initial_depth = capacity_log, unique_segments = 2 ^ capacity_log, bucket_count = 0, tsize = 0\<rparr>
      in fold (\<lambda>i t. let (a, t1) = ConstructSegment P (global_depth t) i t in t1\<lparr>dir := (dir t1)[i := a]\<rparr>) [0..<2 ^ capacity_log] t0)"

definition SegmentId :: "u64 \<Rightarrow> ('k, 'v) dash_table \<Rightarrow> nat" where
  "SegmentId hash t = (if global_depth t \<noteq> 0 then unat (drop_bit (64 - global_depth t) hash) else 0)"

definition NextSeg :: "nat \<Rightarrow> ('k, 'v) dash_table \<Rightarrow> nat" where
  "NextSeg sid t = sid + 2 ^ (global_depth t - local_depth (GetSegment sid t))"

lemma NextSeg_gt: "sid < NextSeg sid t"
  by (simp add: NextSeg_def)

lemma NextSeg_diff: "sid < n \<or> NextSeg sid t < n \<Longrightarrow> n - NextSeg sid t < n - sid"
  using NextSeg_gt [of sid t] by auto

subsection \<open>Lookup and deletion\<close>

definition Find :: "('k, 'v) dash_policy \<Rightarrow> 'k \<Rightarrow> ('k, 'v) dash_table \<Rightarrow> (nat \<times> nat \<times> nat) option" where
  "Find P key t =
     (let key_hash = HashFn P key; seg_id = SegmentId key_hash t
      in map_option (\<lambda>(index, slot). (seg_id, index, slot)) (FindIt P key_hash (\<lambda>k. k = key) (GetSegment seg_id t)))"

definition Erase_key :: "('k, 'v) dash_policy \<Rightarrow> 'k \<Rightarrow> ('k, 'v) dash_table \<Rightarrow> nat \<times> ('k, 'v) dash_table" where
  "Erase_key P key t =
     (let key_hash = HashFn P key; x = SegmentId key_hash t; target = GetSegment x t
      in case FindIt P key_hash (\<lambda>k. k = key) target of
           None \<Rightarrow> (0, t)
         | Some it \<Rightarrow> (1, (put_segment (dir t ! x) (segment_Delete P it key_hash target) t)\<lparr>tsize := tsize t - 1\<rparr>))"

definition Erase_it :: "('k, 'v) dash_policy \<Rightarrow> nat \<times> nat \<times> nat \<Rightarrow> ('k, 'v) dash_table \<Rightarrow> ('k, 'v) dash_table" where
  "Erase_it P it t =
     (case it of (seg_id, index, slot) \<Rightarrow>
        let target = GetSegment seg_id t; key_hash = HashFn P (bkey (GetBucket index target) ! slot)
        in (put_segment (dir t ! seg_id) (segment_Delete P (index, slot) key_hash target) t)\<lparr>tsize := tsize t - 1\<rparr>)"

subsection \<open>Growth\<close>

text \<open>One step of the loop of \<^verbatim>\<open>IncreaseDepth\<close>: the directory entry \<open>i\<close> is replicated to its place in the larger directory.\<close>

definition spread_entry :: "nat \<Rightarrow> nat \<Rightarrow> ('k, 'v) dash_table \<Rightarrow> ('k, 'v) dash_table" where
  "spread_entry repl_cnt i t =
     (let offs = i * repl_cnt; a = dir t ! i
      in (put_segment a ((the (heap t a))\<lparr>segment_id := offs\<rparr>) t)
           \<lparr>dir := take offs (dir t) @ replicate repl_cnt a @ drop (offs + repl_cnt) (dir t)\<rparr>)"

definition IncreaseDepth :: "nat \<Rightarrow> ('k, 'v) dash_table \<Rightarrow> ('k, 'v) dash_table" where
  "IncreaseDepth new_depth t =
     (let prev_sz = length (dir t); repl_cnt = 2 ^ (new_depth - global_depth t);
          t1 = t\<lparr>dir := dir t @ replicate (2 ^ new_depth - prev_sz) 0\<rparr>
      in (fold (spread_entry repl_cnt) (rev [0..<prev_sz]) t1)\<lparr>global_depth := new_depth\<rparr>)"

text \<open>The result \<^term>\<open>None\<close> stands for the failed assertion inside \<^verbatim>\<open>Segment::Split\<close>.\<close>

definition table_Split :: "('k, 'v) dash_policy \<Rightarrow> nat \<Rightarrow> ('k, 'v) dash_table \<Rightarrow> ('k, 'v) dash_table option" where
  "table_Split P seg_id t =
     (let sa = dir t ! seg_id; source = GetSegment seg_id t;
          chunk_size = 2 ^ (global_depth t - local_depth source);
          start_idx = seg_id - seg_id mod chunk_size;
          target_id = start_idx + chunk_size div 2;
          (ta, t1) = ConstructSegment P (local_depth source + 1) target_id t
      in case segment_Split P source (the (heap t1 ta)) of
           None \<Rightarrow> None
         | Some (source', target') \<Rightarrow>
             Some ((put_segment ta target' (put_segment sa source' t1))
                     \<lparr>unique_segments := unique_segments t1 + 1,
                      dir := take target_id (dir t1) @ replicate (start_idx + chunk_size - target_id) ta @ drop (start_idx + chunk_size) (dir t1)\<rparr>))"

datatype insert_mode = kInsertIfNotFound | kForceInsert

text \<open>
  What an insertion offers to the eviction policy: the regular buckets around the home of the key and the stash buckets of a
  segment. A policy is asked once per iteration of the insertion loop; its answers may depend on the iteration, the first
  argument, which stands for the state it keeps and for the memory statistics it reads.
\<close>

record hot_buckets =
  hot_segment :: nat
  regular_buckets :: "nat list"
  stash_buckets :: "nat list"
  hot_hash :: u64

definition FillProbeArray :: "('k, 'v) dash_policy \<Rightarrow> u64 \<Rightarrow> nat list" where
  "FillProbeArray P key_hash =
     (let home = HomeIndex P key_hash in [PrevBid P home, home, NextBid P home, NextBid P (NextBid P home)])"

definition hotspot :: "('k, 'v) dash_policy \<Rightarrow> u64 \<Rightarrow> nat \<Rightarrow> hot_buckets" where
  "hotspot P key_hash seg_id =
     \<lparr>hot_segment = seg_id, regular_buckets = FillProbeArray P key_hash,
      stash_buckets = map (\<lambda>i. kBucketNum P + i) [0..<kStashBucketNum], hot_hash = key_hash\<rparr>"

record ('k, 'v) eviction_policy =
  can_gc :: bool
  can_evict :: bool
  CanGrow :: "nat \<Rightarrow> ('k, 'v) dash_table \<Rightarrow> bool"
  GarbageCollect :: "nat \<Rightarrow> hot_buckets \<Rightarrow> ('k, 'v) dash_table \<Rightarrow> nat \<times> ('k, 'v) dash_table"
  Evict :: "nat \<Rightarrow> hot_buckets \<Rightarrow> ('k, 'v) dash_table \<Rightarrow> nat \<times> ('k, 'v) dash_table"

definition DefaultEvictionPolicy :: "('k, 'v) eviction_policy" where
  "DefaultEvictionPolicy =
     \<lparr>can_gc = False, can_evict = False, CanGrow = (\<lambda>_ _. True), GarbageCollect = (\<lambda>_ _ t. (0, t)), Evict = (\<lambda>_ _ t. (0, t))\<rparr>"

text \<open>
  What the loop does when the segment is full: collect garbage, unload the stash, evict, and otherwise grow or give up.
\<close>

datatype ('k, 'v) room =
  Retry (room_table: "('k, 'v) dash_table") | Grow (room_table: "('k, 'v) dash_table") | NoRoom (room_table: "('k, 'v) dash_table")

definition grow_or_throw :: "('k, 'v) eviction_policy \<Rightarrow> nat \<Rightarrow> ('k, 'v) dash_table \<Rightarrow> ('k, 'v) room" where
  "grow_or_throw ev n t = (if CanGrow ev n t then Grow t else NoRoom t)"

definition make_room :: "('k, 'v) dash_policy \<Rightarrow> ('k, 'v) eviction_policy \<Rightarrow> nat \<Rightarrow> u64 \<Rightarrow> nat \<Rightarrow> ('k, 'v) dash_table \<Rightarrow> ('k, 'v) room" where
  "make_room P ev n key_hash seg_id t =
     (if \<not> can_evict ev \<and> \<not> can_gc ev then grow_or_throw ev n t
      else let hot = hotspot P key_hash seg_id; a = dir t ! seg_id;
               (collected, t1) = (if can_gc ev then GarbageCollect ev n hot t else (0, t))
           in if collected \<noteq> 0 then Retry t1
              else let (moved, target) = UnloadStash P (the (heap t1 a)); t2 = put_segment a target t1
                   in if moved > 0 then Retry t2
                      else if can_evict ev then
                        (if CanGrow ev n t2 then Grow t2
                         else let (evicted, t3) = Evict ev n hot t2
                              in if evicted \<noteq> 0 then Retry t3 else grow_or_throw ev n t3)
                      else grow_or_throw ev n t2)"

text \<open>An insertion returns an iterator and whether the entry is new, or throws \<^verbatim>\<open>std::bad_alloc\<close>.\<close>

datatype insert_exit = Returned "nat \<times> nat \<times> nat" bool | BadAlloc

text \<open>
  The iterations of the insertion loop; \<open>target_seg_id\<close> is recomputed after the directory has grown. There is no result when
  the fuel is spent or an assertion fails.
\<close>

fun insert_loop ::
  "('k, 'v) dash_policy \<Rightarrow> ('k, 'v) eviction_policy \<Rightarrow> 'k \<Rightarrow> 'v \<Rightarrow> insert_mode \<Rightarrow> nat \<Rightarrow> nat \<Rightarrow> ('k, 'v) dash_table \<Rightarrow>
   (insert_exit \<times> ('k, 'v) dash_table) option" where
  "insert_loop P ev key val mode 0 target_seg_id t = None"
| "insert_loop P ev key val mode (Suc fuel) target_seg_id t =
     (let key_hash = HashFn P key; a = dir t ! target_seg_id; target = GetSegment target_seg_id t;
          ((it, res), target1) =
            (if mode = kForceInsert then let (it, s) = InsertUniq P key val key_hash True target in ((it, it \<noteq> None), s)
             else segment_Insert P key val key_hash (\<lambda>k. k = key) target);
          t1 = put_segment a target1 t
      in case it of
           Some (index, slot) \<Rightarrow>
             if res then Some (Returned (target_seg_id, index, slot) True, t1\<lparr>tsize := tsize t1 + 1\<rparr>)
             else Some (Returned (target_seg_id, index, slot) False, t1)
         | None \<Rightarrow>
             (case make_room P ev fuel key_hash target_seg_id t1 of
                Retry t2 \<Rightarrow> insert_loop P ev key val mode fuel target_seg_id t2
              | NoRoom t2 \<Rightarrow> Some (BadAlloc, t2)
              | Grow t2 \<Rightarrow>
                  (let (sid3, t3) = (if local_depth (the (heap t2 a)) = global_depth t2
                                     then let t' = IncreaseDepth (global_depth t2 + 1) t2 in (SegmentId key_hash t', t')
                                     else (target_seg_id, t2))
                   in case table_Split P sid3 t3 of None \<Rightarrow> None | Some t4 \<Rightarrow> insert_loop P ev key val mode fuel sid3 t4)))"

definition InsertInternal ::
  "('k, 'v) dash_policy \<Rightarrow> ('k, 'v) eviction_policy \<Rightarrow> 'k \<Rightarrow> 'v \<Rightarrow> insert_mode \<Rightarrow> nat \<Rightarrow> ('k, 'v) dash_table \<Rightarrow>
   (insert_exit \<times> ('k, 'v) dash_table) option" where
  "InsertInternal P ev key val mode fuel t = insert_loop P ev key val mode fuel (SegmentId (HashFn P key) t) t"

text \<open>\<^verbatim>\<open>63 ^ __builtin_clzll(x)\<close>, the position of the highest bit.\<close>

fun floor_log2 :: "nat \<Rightarrow> nat" where
  "floor_log2 n = (if n \<le> 1 then 0 else 1 + floor_log2 (n div 2))"

declare floor_log2.simps [simp del]

definition Reserve :: "('k, 'v) dash_policy \<Rightarrow> nat \<Rightarrow> ('k, 'v) dash_table \<Rightarrow> ('k, 'v) dash_table" where
  "Reserve P n t =
     (if n \<le> bucket_count t * kSlotNum P then t
      else let sg_floor = (n - 1) div (kTotalBuckets P * kSlotNum P)
           in if sg_floor < length (dir t) then t else IncreaseDepth (1 + floor_log2 sg_floor) t)"

subsection \<open>Clearing and shrinking\<close>

text \<open>\<^verbatim>\<open>IterateDistinct\<close> hops over the directory segment by segment.\<close>

function distinct_from :: "nat \<Rightarrow> ('k, 'v) dash_table \<Rightarrow> nat list" where
  "distinct_from i t = (if i < length (dir t) then dir t ! i # distinct_from (NextSeg i t) t else [])"
  by pat_completeness auto
termination by (relation "measure (\<lambda>(i, t). length (dir t) - i)") (auto intro: NextSeg_diff)

declare distinct_from.simps [simp del]

text \<open>The collapsing loop of \<^verbatim>\<open>Clear\<close>: the first segments keep a directory entry, the others are freed.\<close>

function collapse :: "('k, 'v) dash_policy \<Rightarrow> nat \<Rightarrow> nat \<Rightarrow> nat \<Rightarrow> ('k, 'v) dash_table \<Rightarrow> ('k, 'v) dash_table" where
  "collapse P new_size dest src t =
     (if src < length (dir t) then
        let a = dir t ! src; next_src = NextSeg src t
        in if dest < new_size then
             collapse P new_size (dest + 1) next_src
               ((put_segment a ((the (heap t a))\<lparr>local_depth := initial_depth t\<rparr>) t)
                  \<lparr>bucket_count := bucket_count t + kTotalBuckets P, dir := (dir t)[dest := a]\<rparr>)
           else collapse P new_size dest next_src (t\<lparr>heap := (heap t)(a := None)\<rparr>)
      else t)"
  by pat_completeness auto
termination by (relation "measure (\<lambda>(P, n, d, i, t). length (dir t) - i)") (auto simp: put_segment_def intro: NextSeg_diff)

declare collapse.simps [simp del]

definition table_Clear :: "('k, 'v) dash_policy \<Rightarrow> ('k, 'v) dash_table \<Rightarrow> ('k, 'v) dash_table" where
  "table_Clear P t =
     (let t1 = (fold (\<lambda>a u. put_segment a (segment_Clear P (the (heap u a))) u) (distinct_from 0 t) t)\<lparr>tsize := 0\<rparr>
      in if global_depth t1 > initial_depth t1 then
           let new_size = 2 ^ initial_depth t1; t2 = collapse P new_size 0 0 (t1\<lparr>bucket_count := 0\<rparr>)
           in t2\<lparr>global_depth := initial_depth t2, unique_segments := new_size, dir := take new_size (dir t2)\<rparr>
         else t1)"

text \<open>Dropping the last entry of a bucket and shifting the others by one slot.\<close>

definition table_ShiftRight :: "('k, 'v) dash_policy \<Rightarrow> nat \<Rightarrow> nat \<Rightarrow> ('k, 'v) dash_table \<Rightarrow> bool \<times> ('k, 'v) dash_table" where
  "table_ShiftRight P seg_id bid t =
     (let seg = GetSegment seg_id t; b = GetBucket bid seg;
          hash_val = (if bit (bucket_GetBusy P b) (kSlotNum P - 1) then HashFn P (bkey b ! (kSlotNum P - 1)) else 0);
          (deleted, seg1) = segment_ShiftRight P bid hash_val seg
      in (deleted, (put_segment (dir t ! seg_id) seg1 t)\<lparr>tsize := tsize t - (if deleted then 1 else 0)\<rparr>))"

definition FindBuddyId :: "nat \<Rightarrow> ('k, 'v) dash_table \<Rightarrow> nat" where
  "FindBuddyId seg_id t =
     (let depth = local_depth (GetSegment seg_id t)
      in if depth \<le> 1 then seg_id
         else let bit_pos = global_depth t - depth; buddy_idx = seg_id XOR 2 ^ bit_pos
              in if local_depth (GetSegment buddy_idx t) \<noteq> depth then seg_id else buddy_idx)"

text \<open>Moving the entries of the buddy. The loop stops at the first entry that does not fit; its slot stays busy.\<close>

fun merge_slots ::
  "('k, 'v) dash_policy \<Rightarrow> (nat \<times> nat) list \<Rightarrow> ('k, 'v) segment \<times> ('k, 'v) segment \<Rightarrow> bool \<times> ('k, 'v) segment \<times> ('k, 'v) segment" where
  "merge_slots P [] (keep, buddy) = (False, keep, buddy)"
| "merge_slots P ((index, slot) # rest) (keep, buddy) =
     (let b = GetBucket index buddy; k = bkey b ! slot
      in case InsertUniq P k (bvalue b ! slot) (HashFn P k) False keep of
           (None, keep1) \<Rightarrow> (True, keep1, buddy)
         | (Some _, keep1) \<Rightarrow> merge_slots P rest (keep1, put_bucket index (bucket_Delete P slot b) buddy))"

datatype merge_result = Merged | DeclinedDepthGuard | RolledBack

definition Merge :: "('k, 'v) dash_policy \<Rightarrow> nat \<Rightarrow> nat \<Rightarrow> ('k, 'v) dash_table \<Rightarrow> (merge_result \<times> ('k, 'v) dash_table) option" where
  "Merge P keep_id buddy_id t =
     (let ka = dir t ! keep_id; ba = dir t ! buddy_id; keep = GetSegment keep_id t; buddy = GetSegment buddy_id t
      in if local_depth keep - 1 < initial_depth t then Some (DeclinedDepthGuard, t)
         else case merge_slots P (TraverseAll P buddy) (keep\<lparr>local_depth := local_depth keep - 1\<rparr>, buddy) of
                (True, keep1, buddy1) \<Rightarrow>
                  (case segment_Split P keep1 buddy1 of
                     None \<Rightarrow> None
                   | Some (keep2, buddy2) \<Rightarrow> Some (RolledBack, put_segment ba buddy2 (put_segment ka keep2 t)))
              | (False, keep1, buddy1) \<Rightarrow>
                  let chunk = 2 ^ (global_depth t - local_depth buddy1); start = buddy_id - buddy_id mod chunk
                  in Some (Merged,
                       (put_segment ka keep1 t)
                         \<lparr>dir := take start (dir t) @ replicate chunk ka @ drop (start + chunk) (dir t),
                          heap := (heap (put_segment ka keep1 t))(ba := None),
                          unique_segments := unique_segments t - 1, bucket_count := bucket_count t - kTotalBuckets P\<rparr>))"

text \<open>Moving a segment to a fresh address; \<open>safe\<close> is \<^verbatim>\<open>IsSafeToDefragment\<close> of the segment.\<close>

definition TryRelocateSegment :: "bool \<Rightarrow> nat \<Rightarrow> ('k, 'v) dash_table \<Rightarrow> bool \<times> ('k, 'v) dash_table" where
  "TryRelocateSegment safe sid t =
     (let a = dir t ! sid; s = GetSegment sid t; chunk = 2 ^ (global_depth t - local_depth s); start = segment_id s; na = next_addr t
      in if \<not> safe then (False, t)
         else (True, t\<lparr>heap := (heap t)(na := Some s, a := None), next_addr := na + 1,
                       dir := take start (dir t) @ replicate chunk na @ drop (start + chunk) (dir t)\<rparr>))"

subsection \<open>Cursors\<close>

text \<open>A cursor is a 64-bit token: the segment id left-aligned in bits 8 to 39, and the bucket id below.\<close>

type_synonym dash_cursor = u64

definition Cursor :: "nat \<Rightarrow> nat \<Rightarrow> nat \<Rightarrow> dash_cursor" where
  "Cursor depth seg_id bid = push_bit (40 - depth) (of_nat seg_id) OR of_nat bid"

definition cursor_end :: dash_cursor where "cursor_end = 0"

definition bucket_id :: "dash_cursor \<Rightarrow> nat" where
  "bucket_id c = unat (c AND 0xFF)"

definition cursor_segment :: "nat \<Rightarrow> dash_cursor \<Rightarrow> nat" where
  "cursor_segment depth c = unat (ucast (drop_bit (40 - depth) c) :: u32)"

text \<open>The loop of \<^verbatim>\<open>Traverse\<close> from segment \<open>sid\<close> and bucket \<open>bid\<close>: the visited slots and the cursor to continue with.\<close>

function traverse_loop ::
  "('k, 'v) dash_policy \<Rightarrow> ('k, 'v) dash_table \<Rightarrow> nat \<Rightarrow> nat \<Rightarrow> (nat \<times> nat \<times> nat) list \<times> dash_cursor" where
  "traverse_loop P t bid sid =
     (let its = TraverseLogicalBucket P bid (GetSegment sid t); out = map (\<lambda>(index, slot). (sid, index, slot)) its;
          sid1 = NextSeg sid t;
          sid2 = (if sid1 \<ge> length (dir t) then 0 else sid1);
          bid2 = (if sid1 \<ge> length (dir t) then bid + 1 else bid)
      in if bid2 \<ge> kBucketNum P then (out, cursor_end)
         else if its \<noteq> [] then (out, Cursor (global_depth t) sid2 bid2)
         else traverse_loop P t bid2 sid2)"
  by pat_completeness auto
termination
  by (relation "measures [\<lambda>(P, t, bid, sid). kBucketNum P - bid, \<lambda>(P, t, bid, sid). length (dir t) - sid]") (auto simp: not_le intro: NextSeg_diff)

declare traverse_loop.simps [simp del]

definition Traverse :: "('k, 'v) dash_policy \<Rightarrow> dash_cursor \<Rightarrow> ('k, 'v) dash_table \<Rightarrow> (nat \<times> nat \<times> nat) list \<times> dash_cursor" where
  "Traverse P curs t =
     (let sid = cursor_segment (global_depth t) curs; bid = bucket_id curs
      in if bid \<ge> kBucketNum P \<or> sid \<ge> length (dir t) then ([], cursor_end) else traverse_loop P t bid sid)"

definition TraverseBySegmentOrder :: "('k, 'v) dash_policy \<Rightarrow> dash_cursor \<Rightarrow> ('k, 'v) dash_table \<Rightarrow> (nat \<times> nat \<times> nat) list \<times> dash_cursor" where
  "TraverseBySegmentOrder P curs t =
     (let sid = cursor_segment (global_depth t) curs; bid = bucket_id curs;
          out = map (\<lambda>(index, slot). (sid, index, slot)) (TraverseBucket P bid (GetSegment sid t))
      in if bid + 1 \<ge> kTotalBuckets P then
           (if NextSeg sid t \<ge> length (dir t) then (out, cursor_end) else (out, Cursor (global_depth t) (NextSeg sid t) 0))
         else (out, Cursor (global_depth t) sid (bid + 1)))"

definition AdvanceCursorBucketOrder :: "('k, 'v) dash_policy \<Rightarrow> dash_cursor \<Rightarrow> ('k, 'v) dash_table \<Rightarrow> dash_cursor" where
  "AdvanceCursorBucketOrder P curs t =
     (let sid = NextSeg (cursor_segment (global_depth t) curs) t; bid = bucket_id curs
      in if sid \<ge> length (dir t) then (if bid + 1 \<ge> kTotalBuckets P then cursor_end else Cursor (global_depth t) 0 (bid + 1))
         else Cursor (global_depth t) sid bid)"

fun buckets_loop :: "('k, 'v) dash_policy \<Rightarrow> bool \<Rightarrow> nat \<Rightarrow> dash_cursor \<Rightarrow> ('k, 'v) dash_table \<Rightarrow> (nat \<times> nat) option \<times> dash_cursor" where
  "buckets_loop P visit_empty 0 curs t = (None, curs)"
| "buckets_loop P visit_empty (Suc n) curs t =
     (let sid = cursor_segment (global_depth t) curs; bid = bucket_id curs; s = GetSegment sid t;
          invoked = (bid < kTotalBuckets P \<and> (visit_empty \<or> bucket_GetBusy P (GetBucket bid s) \<noteq> 0));
          curs1 = AdvanceCursorBucketOrder P curs t
      in if invoked then (Some (sid, bid), curs1)
         else if curs1 = 0 then (None, curs1)
         else buckets_loop P visit_empty n curs1 t)"

definition TraverseBuckets :: "('k, 'v) dash_policy \<Rightarrow> bool \<Rightarrow> dash_cursor \<Rightarrow> ('k, 'v) dash_table \<Rightarrow> (nat \<times> nat) option \<times> dash_cursor" where
  "TraverseBuckets P visit_empty curs t =
     (if bucket_id curs \<ge> kTotalBuckets P then (None, cursor_end) else buckets_loop P visit_empty 8 curs t)"

definition VisitSegment :: "dash_cursor \<Rightarrow> ('k, 'v) dash_table \<Rightarrow> dash_cursor \<times> (nat \<times> nat) option" where
  "VisitSegment curs t =
     (let sid = cursor_segment (global_depth t) curs
      in if sid \<ge> length (dir t) then (cursor_end, None)
         else let sid1 = segment_id (GetSegment sid t); nid = NextSeg sid1 t
              in (if nid < length (dir t) then Cursor (global_depth t) nid 0 else cursor_end, Some (sid1, dir t ! sid)))"

definition CVCUponInsert :: "('k, 'v) dash_policy \<Rightarrow> 'k \<Rightarrow> ('k, 'v) dash_table \<Rightarrow> nat \<times> nat list" where
  "CVCUponInsert P key t =
     (let key_hash = HashFn P key; seg_id = SegmentId key_hash t in (seg_id, CVCOnInsert P key_hash (GetSegment seg_id t)))"

end
