(* ===== verification/Dash_Directory.thy ===== *)
theory Dash_Directory
  imports Dash_Table
begin

text \<open>
  The invariant of the directory: the entries that share a segment form an aligned block whose size is given by the depth
  of the segment, every key of a segment has the hash prefix of that block, a segment is live exactly when the
  directory refers to it, and the counters agree with the segments. Growth, insertion and deletion keep it and act on
  the entries as the operations of a map.
\<close>

definition pfx :: "u64 \<Rightarrow> nat \<Rightarrow> nat" where
  "pfx h n = unat h div 2 ^ (64 - n)"

lemma pfx_shift: "n \<le> m \<Longrightarrow> m \<le> 64 \<Longrightarrow> pfx h n = pfx h m div 2 ^ (m - n)"
proof -
  assume a: "n \<le> m" "m \<le> 64"
  then have e: "(2 :: nat) ^ (64 - n) = 2 ^ (64 - m) * 2 ^ (m - n)" by (simp flip: power_add)
  show ?thesis unfolding pfx_def e by (rule div_mult2_eq)
qed

lemma pfx_less: "n \<le> 64 \<Longrightarrow> pfx h n < 2 ^ n"
proof -
  assume "n \<le> 64"
  then have "(2 :: nat) ^ 64 = 2 ^ n * 2 ^ (64 - n)" by (simp flip: power_add)
  moreover have "unat h < 2 ^ 64" using unsigned_less [of h, where 'a = nat] by simp
  ultimately show ?thesis by (simp add: pfx_def less_mult_imp_div_less)
qed

lemma SegmentId_pfx: "global_depth t \<le> 64 \<Longrightarrow> SegmentId h t = pfx h (global_depth t)"
proof -
  have "unat (drop_bit n h) = unat h div 2 ^ n" for n unfolding unat_drop_bit_eq by (simp add: drop_bit_eq_div)
  then show ?thesis using unsigned_less [of h, where 'a = nat] by (simp add: SegmentId_def pfx_def)
qed

lemma is_mine_pfx: "0 < d \<Longrightarrow> d \<le> 64 \<Longrightarrow> is_mine d h \<longleftrightarrow> even (pfx h d)"
proof -
  assume "0 < d" "d \<le> 64"
  then have "unat (drop_bit (64 - d) h) = pfx h d" unfolding unat_drop_bit_eq by (simp add: pfx_def drop_bit_eq_div)
  moreover have "even w \<longleftrightarrow> even (unat w)" for w :: u64 by transfer (simp add: even_nat_iff even_take_bit_eq)
  ultimately show ?thesis by (simp add: is_mine_def and_one_eq even_iff_mod_2_eq_zero)
qed

subsection \<open>The invariant\<close>

definition seg_keys :: "('k, 'v) dash_policy \<Rightarrow> ('k, 'v) segment \<Rightarrow> 'k multiset" where
  "seg_keys P s = image_mset fst (seg_items P s)"

definition chunk :: "('k, 'v) dash_table \<Rightarrow> ('k, 'v) segment \<Rightarrow> nat" where
  "chunk t s = 2 ^ (global_depth t - local_depth s)"

definition entry_ok :: "('k, 'v) dash_policy \<Rightarrow> ('k, 'v) dash_table \<Rightarrow> nat \<Rightarrow> ('k, 'v) segment \<Rightarrow> bool" where
  "entry_ok P t i s \<longleftrightarrow> seg_ok P s \<and> local_depth s \<le> global_depth t \<and>
     (\<forall>j < length (dir t). dir t ! j = dir t ! i \<longleftrightarrow> j div chunk t s = i div chunk t s) \<and>
     (\<forall>k \<in># seg_keys P s. pfx (HashFn P k) (local_depth s) = i div chunk t s) \<and> (\<forall>k. count (seg_keys P s) k \<le> 1)"

definition dir_ok :: "('k, 'v) dash_policy \<Rightarrow> ('k, 'v) dash_table \<Rightarrow> bool" where
  "dir_ok P t \<longleftrightarrow> length (dir t) = 2 ^ global_depth t \<and> global_depth t \<le> 32 \<and>
     (\<forall>i < length (dir t). \<exists>s. heap t (dir t ! i) = Some s \<and> entry_ok P t i s) \<and>
     (\<forall>a. heap t a \<noteq> None \<longleftrightarrow> a \<in> set (dir t)) \<and> (\<forall>a \<in> set (dir t). a < next_addr t)"

definition ids_ok :: "('k, 'v) dash_table \<Rightarrow> bool" where
  "ids_ok t \<longleftrightarrow> (\<forall>i < length (dir t). segment_id (GetSegment i t) = i - i mod chunk t (GetSegment i t))"

definition table_items :: "('k, 'v) dash_policy \<Rightarrow> ('k, 'v) dash_table \<Rightarrow> ('k \<times> 'v) multiset" where
  "table_items P t = (\<Sum>a \<in> set (dir t). seg_items P (the (heap t a)))"

definition counts_ok :: "('k, 'v) dash_policy \<Rightarrow> ('k, 'v) dash_table \<Rightarrow> bool" where
  "counts_ok P t \<longleftrightarrow> unique_segments t = card (set (dir t)) \<and> bucket_count t = card (set (dir t)) * kTotalBuckets P \<and>
     tsize t = size (table_items P t)"

lemma dir_okD:
  assumes "dir_ok P t"
  shows "length (dir t) = 2 ^ global_depth t" "global_depth t \<le> 32" "i < length (dir t) \<Longrightarrow> heap t (dir t ! i) = Some (GetSegment i t)"
    "i < length (dir t) \<Longrightarrow> entry_ok P t i (GetSegment i t)" "heap t (next_addr t) = None" "next_addr t \<notin> set (dir t)"
    "heap t a \<noteq> None \<longleftrightarrow> a \<in> set (dir t)"
proof -
  show "length (dir t) = 2 ^ global_depth t" "global_depth t \<le> 32" "heap t a \<noteq> None \<longleftrightarrow> a \<in> set (dir t)" using assms by (simp_all add: dir_ok_def)
  show "next_addr t \<notin> set (dir t)" using assms by (auto simp: dir_ok_def)
  then show "heap t (next_addr t) = None" using assms unfolding dir_ok_def by blast
  show "heap t (dir t ! i) = Some (GetSegment i t)" "entry_ok P t i (GetSegment i t)" if "i < length (dir t)"
    using assms that by (auto simp: dir_ok_def GetSegment_def)
qed

lemma entry_okD:
  assumes "entry_ok P t i s"
  shows "seg_ok P s" "local_depth s \<le> global_depth t" "j < length (dir t) \<Longrightarrow> dir t ! j = dir t ! i \<longleftrightarrow> j div chunk t s = i div chunk t s"
    "k \<in># seg_keys P s \<Longrightarrow> pfx (HashFn P k) (local_depth s) = i div chunk t s" "count (seg_keys P s) k \<le> 1"
  using assms by (simp_all add: entry_ok_def)

lemma SegmentId_in:
  assumes "dir_ok P t"
  shows "SegmentId h t < length (dir t)" "SegmentId h t div chunk t (GetSegment (SegmentId h t) t) = pfx h (local_depth (GetSegment (SegmentId h t) t))"
proof -
  have g: "global_depth t \<le> 64" using dir_okD(2) [OF assms] by simp
  show l: "SegmentId h t < length (dir t)" using pfx_less [OF g] SegmentId_pfx [OF g] dir_okD(1) [OF assms] by simp
  let ?s = "GetSegment (SegmentId h t) t"
  have "local_depth ?s \<le> global_depth t" using entry_okD(2) [OF dir_okD(4) [OF assms l]] .
  then show "SegmentId h t div chunk t ?s = pfx h (local_depth ?s)"
    using pfx_shift [of "local_depth ?s" "global_depth t" h] g SegmentId_pfx [OF g, of h] by (simp add: chunk_def)
qed

text \<open>A key is stored in the segment its hash selects, and nowhere else.\<close>

lemma key_segment:
  assumes D: "dir_ok P t" and i: "i < length (dir t)" and k: "k \<in># seg_keys P (GetSegment i t)"
  shows "dir t ! i = dir t ! SegmentId (HashFn P k) t"
proof -
  let ?s = "GetSegment i t" and ?h = "HashFn P k"
  have g: "global_depth t \<le> 64" using dir_okD(2) [OF D] by simp
  note E = entry_okD [OF dir_okD(4) [OF D i]]
  have "SegmentId ?h t div chunk t ?s = pfx ?h (local_depth ?s)"
    using pfx_shift [of "local_depth ?s" "global_depth t" ?h] E(2) g SegmentId_pfx [OF g, of ?h] by (simp add: chunk_def)
  then show ?thesis using E(3) [OF SegmentId_in(1) [OF D, of ?h]] E(4) [OF k] by simp
qed

lemma in_table_items:
  assumes D: "dir_ok P t"
  shows "(k, v) \<in># table_items P t \<longleftrightarrow> (k, v) \<in># seg_items P (GetSegment (SegmentId (HashFn P k) t) t)"
proof
  let ?x = "SegmentId (HashFn P k) t"
  assume "(k, v) \<in># table_items P t"
  then obtain i where i: "i < length (dir t)" "(k, v) \<in># seg_items P (the (heap t (dir t ! i)))"
    by (auto simp: table_items_def set_mset_sum in_set_conv_nth)
  then have kv: "(k, v) \<in># seg_items P (GetSegment i t)" by (simp add: GetSegment_def)
  then have "k \<in># seg_keys P (GetSegment i t)" by (force simp: seg_keys_def)
  then show "(k, v) \<in># seg_items P (GetSegment ?x t)" using key_segment [OF D i(1)] kv by (simp add: GetSegment_def)
next
  let ?x = "SegmentId (HashFn P k) t"
  assume "(k, v) \<in># seg_items P (GetSegment ?x t)"
  then show "(k, v) \<in># table_items P t" using SegmentId_in(1) [OF D, of "HashFn P k"]
    by (auto simp: table_items_def set_mset_sum GetSegment_def intro!: bexI [of _ "dir t ! ?x"])
qed

subsection \<open>Replacing a segment\<close>

lemma put_segment_simps [simp]:
  "dir (put_segment a s t) = dir t" "global_depth (put_segment a s t) = global_depth t" "next_addr (put_segment a s t) = next_addr t"
  "initial_depth (put_segment a s t) = initial_depth t" "unique_segments (put_segment a s t) = unique_segments t"
  "bucket_count (put_segment a s t) = bucket_count t" "tsize (put_segment a s t) = tsize t"
  "heap (put_segment a s t) = (heap t)(a := Some s)" "chunk (put_segment a s t) = chunk t"
  by (simp_all add: put_segment_def chunk_def fun_eq_iff)

lemma counter_upd_simps [simp]:
  "GetSegment j (t\<lparr>tsize := n\<rparr>) = GetSegment j t" "chunk (t\<lparr>tsize := n\<rparr>) = chunk t" "table_items P (t\<lparr>tsize := n\<rparr>) = table_items P t"
  "dir_ok P (t\<lparr>tsize := n\<rparr>) = dir_ok P t" "ids_ok (t\<lparr>tsize := n\<rparr>) = ids_ok t"
proof -
  show c: "chunk (t\<lparr>tsize := n\<rparr>) = chunk t" and g: "GetSegment j (t\<lparr>tsize := n\<rparr>) = GetSegment j t" for j by (simp_all add: chunk_def fun_eq_iff GetSegment_def)
  show "table_items P (t\<lparr>tsize := n\<rparr>) = table_items P t" by (simp add: table_items_def)
  show "dir_ok P (t\<lparr>tsize := n\<rparr>) = dir_ok P t" by (simp add: dir_ok_def entry_ok_def c)
  show "ids_ok (t\<lparr>tsize := n\<rparr>) = ids_ok t" by (simp add: ids_ok_def c g)
qed

lemma GetSegment_put: "GetSegment j (put_segment a s t) = (if dir t ! j = a then s else GetSegment j t)"
  by (simp add: GetSegment_def)

lemma put_segment_ok:
  assumes D: "dir_ok P t" and i: "i < length (dir t)" and s': "seg_ok P s'" "local_depth s' = local_depth (GetSegment i t)"
    and k: "\<forall>k \<in># seg_keys P s'. pfx (HashFn P k) (local_depth s') = i div chunk t (GetSegment i t)" "\<forall>k. count (seg_keys P s') k \<le> 1"
  shows "dir_ok P (put_segment (dir t ! i) s' t)"
    "table_items P (put_segment (dir t ! i) s' t) + seg_items P (GetSegment i t) = table_items P t + seg_items P s'"
proof -
  let ?t = "put_segment (dir t ! i) s' t"
  have ch: "chunk t s' = chunk t (GetSegment i t)" by (simp add: chunk_def s'(2))
  note E = entry_okD [OF dir_okD(4) [OF D i]]
  have "\<exists>s. heap ?t (dir ?t ! j) = Some s \<and> entry_ok P ?t j s" if j: "j < length (dir t)" for j
  proof (cases "dir t ! j = dir t ! i")
    case True
    then have "j div chunk t s' = i div chunk t s'" using E(3) [OF j] ch by simp
    then show ?thesis using True s' k E(2,3) ch by (simp add: entry_ok_def)
  next
    case False
    then show ?thesis using dir_okD(3,4) [OF D j] by (auto simp: entry_ok_def)
  qed
  then show "dir_ok P ?t" using D i by (auto simp: dir_ok_def)
  have a: "dir t ! i \<in> set (dir t)" using i by simp
  have r: "(\<Sum>a \<in> set (dir t) - {dir t ! i}. seg_items P (the (heap ?t a))) = (\<Sum>a \<in> set (dir t) - {dir t ! i}. seg_items P (the (heap t a)))"
    by (rule sum.cong) auto
  have "table_items P ?t = seg_items P s' + (\<Sum>a \<in> set (dir t) - {dir t ! i}. seg_items P (the (heap t a)))"
    unfolding table_items_def put_segment_simps(1) sum.remove [OF finite_set a] r by simp
  moreover have "table_items P t = seg_items P (GetSegment i t) + (\<Sum>a \<in> set (dir t) - {dir t ! i}. seg_items P (the (heap t a)))"
    unfolding table_items_def sum.remove [OF finite_set a] by (simp add: GetSegment_def)
  ultimately show "table_items P ?t + seg_items P (GetSegment i t) = table_items P t + seg_items P s'" by (simp add: ac_simps)
qed

lemma put_segment_ids:
  assumes "dir_ok P t" "ids_ok t" "i < length (dir t)" "local_depth s' = local_depth (GetSegment i t)" "segment_id s' = segment_id (GetSegment i t)"
  shows "ids_ok (put_segment (dir t ! i) s' t)"
  using assms unfolding ids_ok_def by (auto simp: GetSegment_put chunk_def) (metis GetSegment_def)+

subsection \<open>The table as a map\<close>

definition table_rep :: "('k, 'v) dash_policy \<Rightarrow> ('k, 'v) dash_table \<Rightarrow> ('k \<Rightarrow> 'v option) \<Rightarrow> bool" where
  "table_rep P t m \<longleftrightarrow> dir_ok P t \<and> counts_ok P t \<and> (\<forall>k v. (k, v) \<in># table_items P t \<longleftrightarrow> m k = Some v)"

text \<open>The entry an iterator points to.\<close>

definition entry_at :: "('k, 'v) dash_policy \<Rightarrow> ('k, 'v) dash_table \<Rightarrow> nat \<times> nat \<times> nat \<Rightarrow> ('k \<times> 'v) option" where
  "entry_at P t it = (case it of (sid, i, j) \<Rightarrow>
     if sid < length (dir t) \<and> i < kTotalBuckets P \<and> j < kSlotNum P
     then map_option cell_item (cells P (GetBucket i (GetSegment sid t)) ! j) else None)"

lemma entry_in_items:
  assumes "i < kTotalBuckets P" "j < kSlotNum P" "cells P (GetBucket i s) ! j = Some c"
  shows "cell_item c \<in># seg_items P s"
proof -
  have "Some c \<in> set (cells P (GetBucket i s))" using assms(2,3) by (metis length_cells nth_mem)
  then have "c \<in># all_cells P s" using assms(1) unfolding in_all_cells by blast
  then show ?thesis by (simp add: seg_items_def)
qed

lemma keys_distinct_items:
  assumes "\<And>k. count (seg_keys P s) k \<le> 1" "(k, v) \<in># seg_items P s" "(k, v') \<in># seg_items P s"
  shows "v' = v"
proof (rule ccontr)
  assume n: "v' \<noteq> v"
  obtain A where A: "seg_items P s = add_mset (k, v) A" using assms(2) by (metis mset_add)
  then have "(k, v') \<in># A" using assms(3) n by auto
  then obtain B where "A = add_mset (k, v') B" by (metis mset_add)
  then have "count (seg_keys P s) k \<ge> 2" using A by (simp add: seg_keys_def)
  then show False using assms(1) [of k] by simp
qed

lemma Find_spec:
  assumes P: "policy_ok P" and D: "dir_ok P t"
  shows "Find P k t = None \<Longrightarrow> (k, v) \<notin># table_items P t"
    "Find P k t = Some it \<Longrightarrow> fst it = SegmentId (HashFn P k) t \<and> (\<exists>v. entry_at P t it = Some (k, v) \<and> (k, v) \<in># table_items P t)"
proof -
  let ?x = "SegmentId (HashFn P k) t" let ?s = "GetSegment ?x t"
  note x = SegmentId_in(1) [OF D, of "HashFn P k"]
  have S: "seg_ok P ?s" "shape_ok P ?s" using entry_okD(1) [OF dir_okD(4) [OF D x]] by (simp_all add: seg_ok_def)
  show "(k, v) \<notin># table_items P t" if "Find P k t = None"
  proof -
    have "FindIt P (HashFn P k) (\<lambda>x. x = k) ?s = None" using that by (simp add: Find_def Let_def)
    then have "k \<notin># image_mset cell_key (all_cells P ?s)" by (rule FindIt_None [OF P S(1)])
    then show ?thesis unfolding in_table_items [OF D] by (force simp: seg_items_def)
  qed
  show "fst it = ?x \<and> (\<exists>v. entry_at P t it = Some (k, v) \<and> (k, v) \<in># table_items P t)" if fd: "Find P k t = Some it"
  proof -
    obtain i j where f: "FindIt P (HashFn P k) (\<lambda>x. x = k) ?s = Some (i, j)" "it = (?x, i, j)"
      using fd by (cases "FindIt P (HashFn P k) (\<lambda>x. x = k) ?s") (auto simp: Find_def Let_def)
    obtain c where c: "i < kTotalBuckets P" "j < kSlotNum P" "cells P (GetBucket i ?s) ! j = Some c" "cell_key c = k"
      using FindIt_Some [OF P S(2) f(1)] by blast
    obtain v where v: "cell_item c = (k, v)" using c(4) by (cases c) auto
    then show ?thesis using c x f(2) entry_in_items [OF c(1-3)] in_table_items [OF D, of k v] by (auto simp: entry_at_def)
  qed
qed

subsection \<open>Deletion\<close>

lemma delete_entry:
  assumes P: "policy_ok P" and T: "table_rep P t m" and x: "x < length (dir t)" and c: "i < kTotalBuckets P" "j < kSlotNum P"
    "cells P (GetBucket i (GetSegment x t)) ! j = Some c" and v: "cell_item c = (k, v)"
    and t': "t' = (put_segment (dir t ! x) (segment_Delete P (i, j) (HashFn P k) (GetSegment x t)) t)\<lparr>tsize := tsize t - 1\<rparr>"
  shows "m k = Some v" "table_rep P t' (m(k := None))" "ids_ok t \<Longrightarrow> ids_ok t'"
proof -
  let ?s = "GetSegment x t" let ?d = "segment_Delete P (i, j) (HashFn P k) ?s" let ?u = "put_segment (dir t ! x) ?d t"
  have D: "dir_ok P t" and cnt: "counts_ok P t" and m: "\<And>k v. (k, v) \<in># table_items P t \<longleftrightarrow> m k = Some v" using T by (auto simp: table_rep_def)
  note E = entry_okD [OF dir_okD(4) [OF D x]]
  have ck: "cell_key c = k" using v by (cases c) auto
  note S = segment_Delete_spec [OF P E(1) c, unfolded ck v]
  have kk: "seg_keys P ?s = add_mset k (seg_keys P ?d)" using S(2) by (simp add: seg_keys_def)
  have k1: "\<forall>q \<in># seg_keys P ?d. pfx (HashFn P q) (local_depth ?d) = x div chunk t ?s" using E(4) kk S(3) by simp
  have "count (seg_keys P ?d) q \<le> 1" for q using E(5) [of q] kk by (auto split: if_splits)
  then have k2: "\<forall>q. count (seg_keys P ?d) q \<le> 1" by blast
  note R = put_segment_ok [OF D x S(1,3) k1 k2]
  have "table_items P ?u + add_mset (k, v) (seg_items P ?d) = table_items P t + seg_items P ?d" using R(2) S(2) by simp
  then have it: "table_items P t = add_mset (k, v) (table_items P ?u)" by simp
  have t'u: "table_items P t' = table_items P ?u" "dir_ok P t'" "set (dir t') = set (dir t)"
    using R(1) by (simp_all add: t')
  show mk: "m k = Some v" using m [of k v] it by simp
  have "k \<notin># seg_keys P ?d" using E(5) [of k] kk by (auto simp: not_in_iff)
  moreover have "GetSegment (SegmentId (HashFn P k) ?u) ?u = ?d"
  proof -
    have "k \<in># seg_keys P ?s" using kk by simp
    then show ?thesis using key_segment [OF D x] by (simp add: GetSegment_put SegmentId_def)
  qed
  ultimately have nk: "(k, w) \<notin># table_items P ?u" for w unfolding in_table_items [OF R(1)] by (force simp: seg_keys_def)
  have "(q, w) \<in># table_items P t' \<longleftrightarrow> (m(k := None)) q = Some w" for q w
    using m [of q w] nk [of w] unfolding t'u(1) it by (cases "q = k") auto
  moreover have "counts_ok P t'" using cnt t'u it by (simp add: counts_ok_def t')
  ultimately show "table_rep P t' (m(k := None))" using t'u by (simp add: table_rep_def)
  show "ids_ok t'" if "ids_ok t"
    using put_segment_ids [OF D that x, of ?d] S(3,4) by (simp add: t')
qed

lemma Erase_key_spec:
  assumes P: "policy_ok P" and T: "table_rep P t m"
  shows "case Erase_key P k t of (n, t') \<Rightarrow> n = (if m k = None then 0 else 1) \<and> table_rep P t' (m(k := None)) \<and> (ids_ok t \<longrightarrow> ids_ok t')"
proof -
  let ?x = "SegmentId (HashFn P k) t" let ?s = "GetSegment ?x t"
  have D: "dir_ok P t" and m: "\<And>k v. (k, v) \<in># table_items P t \<longleftrightarrow> m k = Some v" using T by (auto simp: table_rep_def)
  note F = Find_spec [OF P D, of k]
  show ?thesis
  proof (cases "FindIt P (HashFn P k) (\<lambda>x. x = k) ?s")
    case None
    then have "m k = None" using F(1) m by (cases "m k") (auto simp: Find_def Let_def)
    then have "m(k := None) = m" by (simp add: fun_upd_idem)
    then show ?thesis using None T \<open>m k = None\<close> by (simp add: Erase_key_def Let_def)
  next
    case (Some it)
    obtain i j where ij: "it = (i, j)" by (cases it)
    then have "Find P k t = Some (?x, i, j)" using Some by (simp add: Find_def Let_def)
    from F(2) [OF this] obtain v c where c: "i < kTotalBuckets P" "j < kSlotNum P" "cells P (GetBucket i ?s) ! j = Some c" "cell_item c = (k, v)"
      by (auto simp: entry_at_def split: if_splits)
    from delete_entry [OF P T SegmentId_in(1) [OF D] c refl] show ?thesis using Some ij by (simp add: Erase_key_def Let_def)
  qed
qed

end
