(* ===== verification/Dash_Growth.thy ===== *)
theory Dash_Growth
  imports Dash_Directory
begin

text \<open>
  Growth of the directory: doubling it keeps every entry and every aligned block, a split halves the block of one segment and
  distributes its entries over the two halves.
\<close>

subsection \<open>Increasing the depth\<close>

definition new_id :: "nat list \<Rightarrow> nat \<Rightarrow> nat \<Rightarrow> nat \<Rightarrow> nat \<Rightarrow> nat" where
  "new_id ds repl m a old = (case find (\<lambda>i. ds ! i = a) [m..<length ds] of None \<Rightarrow> old | Some i \<Rightarrow> i * repl)"

definition renumber :: "nat list \<Rightarrow> nat \<Rightarrow> nat \<Rightarrow> (nat \<Rightarrow> ('k, 'v) segment option) \<Rightarrow> nat \<Rightarrow> ('k, 'v) segment option" where
  "renumber ds repl m h a = map_option (\<lambda>s. s\<lparr>segment_id := new_id ds repl m a (segment_id s)\<rparr>) (h a)"

lemma nth_fill:
  "offs + n \<le> length xs \<Longrightarrow> x < length xs \<Longrightarrow>
   (take offs xs @ replicate n a @ drop (offs + n) xs) ! x = (if offs \<le> x \<and> x < offs + n then a else xs ! x)"
  by (auto simp: nth_append)

lemma length_fill: "offs + n \<le> length xs \<Longrightarrow> length (take offs xs @ replicate n a @ drop (offs + n) xs) = length xs"
  by auto

lemma renumber_step:
  assumes "m < length ds" "h (ds ! m) = Some s"
  shows "(renumber ds repl (Suc m) h)(ds ! m := Some ((the (renumber ds repl (Suc m) h (ds ! m)))\<lparr>segment_id := m * repl\<rparr>)) = renumber ds repl m h"
proof (rule ext)
  fix b
  have up: "[m..<length ds] = m # [Suc m..<length ds]" using assms(1) by (simp add: upt_conv_Cons)
  show "((renumber ds repl (Suc m) h)(ds ! m := Some ((the (renumber ds repl (Suc m) h (ds ! m)))\<lparr>segment_id := m * repl\<rparr>))) b = renumber ds repl m h b"
    using assms(2) by (auto simp: renumber_def new_id_def up)
qed

lemma spread_fold:
  assumes r: "0 < repl" and m: "m \<le> length (dir t0)" and t: "t = t0\<lparr>dir := dir t0 @ replicate (length (dir t0) * repl - length (dir t0)) 0\<rparr>"
    and h: "\<forall>a \<in> set (dir t0). heap t0 a \<noteq> None" and u: "u = fold (spread_entry repl) (rev [m..<length (dir t0)]) t"
  shows "length (dir u) = length (dir t0) * repl \<and> (\<forall>x < length (dir t0) * repl. dir u ! x = (if m * repl \<le> x then dir t0 ! (x div repl) else dir t ! x)) \<and>
    heap u = renumber (dir t0) repl m (heap t0) \<and> u = t0\<lparr>dir := dir u, heap := heap u\<rparr>"
  using m u
proof (induction arbitrary: u rule: inc_induct)
  case base
  have "length (dir t0) \<le> length (dir t0) * repl" using r by (metis One_nat_def Suc_leI mult.right_neutral mult_le_mono2)
  moreover have "renumber (dir t0) repl (length (dir t0)) (heap t0) = heap t0"
    by (auto simp: renumber_def new_id_def fun_eq_iff option.map_ident intro: option.map_ident)
  ultimately show ?case using base by (simp add: t)
next
  case (step m)
  let ?n = "length (dir t0)" let ?w = "fold (spread_entry repl) (rev [Suc m..<?n]) t" let ?a = "dir t0 ! m"
  have up: "[m..<?n] = m # [Suc m..<?n]" using step.hyps(2) by (simp add: upt_conv_Cons)
  have u: "u = spread_entry repl m ?w" unfolding step.prems up by simp
  note W = step.IH [OF refl]
  have le: "Suc m * repl \<le> ?n * repl" using step.hyps(2) by (intro mult_le_mono1) simp
  have "m * 1 \<le> m * repl" using r by (intro mult_le_mono2) simp
  then have mr: "m < Suc m * repl" using r unfolding mult_Suc mult_1_right by linarith
  then have mr2: "m < ?n * repl" using le by linarith
  have wm: "dir ?w ! m = ?a" using W mr mr2 step.hyps(2) by (simp add: t nth_append)
  let ?d = "take (m * repl) (dir ?w) @ replicate repl ?a @ drop (m * repl + repl) (dir ?w)"
  obtain s where s: "heap t0 ?a = Some s" using h step.hyps(2) by (meson nth_mem option.exhaust)
  have du: "dir u = ?d" "heap u = (heap ?w)(?a := Some ((the (heap ?w ?a))\<lparr>segment_id := m * repl\<rparr>))" "u = ?w\<lparr>dir := dir u, heap := heap u\<rparr>"
    unfolding u by (simp_all add: spread_entry_def Let_def wm put_segment_def)
  have f: "m * repl + repl \<le> length (dir ?w)" using W le by simp
  have "dir u ! x = (if m * repl \<le> x then dir t0 ! (x div repl) else dir t ! x)" if x: "x < ?n * repl" for x
  proof -
    have xl: "x < length (dir ?w)" using x W by simp
    have "x div repl = m" if "m * repl \<le> x" "x < m * repl + repl" using that r by (auto intro!: div_nat_eqI simp: mult.commute)
    then show ?thesis using nth_fill [OF f xl, of ?a] W x unfolding du(1) by auto
  qed
  moreover have "heap u = renumber (dir t0) repl m (heap t0)"
    using renumber_step [OF step.hyps(2), of "heap t0" s repl] s W unfolding du(2) by simp
  moreover have "length (dir u) = ?n * repl" unfolding du(1) length_fill [OF f] using W by simp
  moreover have "u = t0\<lparr>dir := dir u, heap := heap u\<rparr>" using du(3) W by (metis (no_types, lifting) dash_table.surjective dash_table.update_convs(1,2))
  ultimately show ?case by blast
qed

lemma segment_id_upd [simp]:
  "seg_ok P (s\<lparr>segment_id := n\<rparr>) = seg_ok P s" "seg_items P (s\<lparr>segment_id := n\<rparr>) = seg_items P s" "seg_keys P (s\<lparr>segment_id := n\<rparr>) = seg_keys P s"
proof -
  have g: "GetBucket i (s\<lparr>segment_id := n\<rparr>) = GetBucket i s" for i by (simp add: GetBucket_def)
  have st: "stashed P (s\<lparr>segment_id := n\<rparr>) = stashed P s" by (intro ext stashed_cong) (simp add: g)
  show "seg_ok P (s\<lparr>segment_id := n\<rparr>) = seg_ok P s" by (simp add: seg_ok_def shape_ok_def acct_def refs_at_def g st)
  show i: "seg_items P (s\<lparr>segment_id := n\<rparr>) = seg_items P s" by (simp add: seg_items_def all_cells_def g)
  show "seg_keys P (s\<lparr>segment_id := n\<rparr>) = seg_keys P s" by (simp add: seg_keys_def i)
qed

lemma first_of_block:
  assumes D: "dir_ok P t" and i: "i < length (dir t)"
  shows "find (\<lambda>j. dir t ! j = dir t ! i) [0..<length (dir t)] = Some (i - i mod chunk t (GetSegment i t))"
proof -
  let ?c = "chunk t (GetSegment i t)" let ?f = "i - i mod ?c"
  have c: "0 < ?c" by (simp add: chunk_def)
  note E = entry_okD(3) [OF dir_okD(4) [OF D i]]
  have f: "?f = i div ?c * ?c" by (simp add: minus_mod_eq_div_mult)
  have fl: "?f < length (dir t)" using i by simp
  moreover have "dir t ! ?f = dir t ! i" using E [OF fl] c by (simp add: f)
  moreover have "dir t ! j \<noteq> dir t ! i" if j: "j < ?f" for j
  proof -
    have "j div ?c < i div ?c" using j by (simp add: f less_mult_imp_div_less)
    then show ?thesis using E [of j] j fl by simp
  qed
  ultimately show ?thesis unfolding find_Some_iff by (intro exI [of _ ?f]) simp
qed

lemma IncreaseDepth_shape:
  assumes D: "dir_ok P t" and n: "global_depth t < n"
  shows "length (dir (IncreaseDepth n t)) = 2 ^ n" "x < 2 ^ n \<Longrightarrow> dir (IncreaseDepth n t) ! x = dir t ! (x div 2 ^ (n - global_depth t))"
    "heap (IncreaseDepth n t) = renumber (dir t) (2 ^ (n - global_depth t)) 0 (heap t)"
    "IncreaseDepth n t = t\<lparr>dir := dir (IncreaseDepth n t), heap := heap (IncreaseDepth n t), global_depth := n\<rparr>"
proof -
  let ?r = "2 ^ (n - global_depth t) :: nat" let ?l = "length (dir t)"
  have l: "?l * ?r = 2 ^ n" using dir_okD(1) [OF D] n by (simp flip: power_add)
  have r0: "0 < ?r" by simp
  define t1 where "t1 = t\<lparr>dir := dir t @ replicate (?l * ?r - ?l) 0\<rparr>"
  define u where "u = fold (spread_entry ?r) (rev [0..<?l]) t1"
  have h: "\<forall>a \<in> set (dir t). heap t a \<noteq> None" using dir_okD(7) [OF D] by blast
  have F: "length (dir u) = ?l * ?r" "\<forall>x < ?l * ?r. dir u ! x = (if 0 * ?r \<le> x then dir t ! (x div ?r) else dir t1 ! x)"
    "heap u = renumber (dir t) ?r 0 (heap t)" "u = t\<lparr>dir := dir u, heap := heap u\<rparr>"
    using spread_fold [OF r0 le0 t1_def h u_def] by blast+
  have U: "IncreaseDepth n t = u\<lparr>global_depth := n\<rparr>" by (simp add: IncreaseDepth_def Let_def l u_def t1_def)
  show "length (dir (IncreaseDepth n t)) = 2 ^ n" "heap (IncreaseDepth n t) = renumber (dir t) ?r 0 (heap t)" using F(1,3) l by (simp_all add: U)
  show "x < 2 ^ n \<Longrightarrow> dir (IncreaseDepth n t) ! x = dir t ! (x div ?r)" using F(2) l by (simp add: U)
  show "IncreaseDepth n t = t\<lparr>dir := dir (IncreaseDepth n t), heap := heap (IncreaseDepth n t), global_depth := n\<rparr>"
    unfolding U by (subst F(4)) simp
qed

lemma IncreaseDepth_spec:
  assumes D: "dir_ok P t" and n: "global_depth t < n" "n \<le> 32"
  shows "dir_ok P (IncreaseDepth n t)" "ids_ok (IncreaseDepth n t)" "table_items P (IncreaseDepth n t) = table_items P t"
    "counts_ok P t \<Longrightarrow> counts_ok P (IncreaseDepth n t)" "set (dir (IncreaseDepth n t)) = set (dir t)" "global_depth (IncreaseDepth n t) = n"
    "initial_depth (IncreaseDepth n t) = initial_depth t"
    "x < 2 ^ n \<Longrightarrow> x div 2 ^ (n - global_depth t) < length (dir t) \<and>
       local_depth (GetSegment x (IncreaseDepth n t)) = local_depth (GetSegment (x div 2 ^ (n - global_depth t)) t) \<and>
       chunk (IncreaseDepth n t) (GetSegment x (IncreaseDepth n t)) = 2 ^ (n - global_depth t) * chunk t (GetSegment (x div 2 ^ (n - global_depth t)) t)"
proof -
  let ?r = "2 ^ (n - global_depth t) :: nat" and ?u = "IncreaseDepth n t"
  note S = IncreaseDepth_shape [OF D n(1)]
  have fields: "global_depth ?u = n" "initial_depth ?u = initial_depth t" "next_addr ?u = next_addr t" "unique_segments ?u = unique_segments t"
    "bucket_count ?u = bucket_count t" "tsize ?u = tsize t"
    by (subst S(4), simp)+
  have l: "length (dir t) * ?r = 2 ^ n" using dir_okD(1) [OF D] n by (simp flip: power_add)
  have idx: "x div ?r < length (dir t)" if "x < 2 ^ n" for x using that l by (simp add: less_mult_imp_div_less)
  show st: "set (dir ?u) = set (dir t)"
  proof -
    have "dir t ! i \<in> set (dir ?u)" if "i < length (dir t)" for i
    proof -
      have "i * ?r < 2 ^ n" using that l by (metis mult_less_mono1 zero_less_numeral zero_less_power)
      then show ?thesis using S(1) S(2) [of "i * ?r"] nth_mem [of "i * ?r" "dir ?u"] by simp
    qed
    then show ?thesis using S(1,2) idx by (auto simp: in_set_conv_nth) (metis nth_mem)+
  qed
  have seg: "GetSegment x ?u = (GetSegment (x div ?r) t)\<lparr>segment_id := (x div ?r - x div ?r mod chunk t (GetSegment (x div ?r) t)) * ?r\<rparr>"
    "heap ?u (dir ?u ! x) = Some (GetSegment x ?u)" if x: "x < 2 ^ n" for x
  proof -
    have h: "heap ?u (dir ?u ! x) = Some ((GetSegment (x div ?r) t)\<lparr>segment_id := (x div ?r - x div ?r mod chunk t (GetSegment (x div ?r) t)) * ?r\<rparr>)"
      using dir_okD(3) [OF D idx [OF x]] first_of_block [OF D idx [OF x]] S(2) [OF x] by (simp add: S(3) renumber_def new_id_def)
    then show "GetSegment x ?u = (GetSegment (x div ?r) t)\<lparr>segment_id := (x div ?r - x div ?r mod chunk t (GetSegment (x div ?r) t)) * ?r\<rparr>"
      "heap ?u (dir ?u ! x) = Some (GetSegment x ?u)" by (simp_all add: GetSegment_def)
  qed
  have ch: "chunk ?u (GetSegment x ?u) = ?r * chunk t (GetSegment (x div ?r) t)" if "x < 2 ^ n" for x
    using entry_okD(2) [OF dir_okD(4) [OF D idx [OF that]]] n by (simp add: chunk_def fields seg [OF that] flip: power_add)
  have ent: "entry_ok P ?u x (GetSegment x ?u)" if x: "x < 2 ^ n" for x
  proof -
    note E = entry_okD [OF dir_okD(4) [OF D idx [OF x]]]
    have "dir ?u ! y = dir ?u ! x \<longleftrightarrow> y div chunk ?u (GetSegment x ?u) = x div chunk ?u (GetSegment x ?u)" if "y < 2 ^ n" for y
      using E(3) [OF idx [OF that]] S(2) x that by (simp add: ch div_mult2_eq)
    then show ?thesis using E(1,2,4,5) n S(1) by (simp add: entry_ok_def ch [OF x] div_mult2_eq) (simp add: seg [OF x] fields)
  qed
  have "heap ?u a \<noteq> None \<longleftrightarrow> a \<in> set (dir t)" for a using dir_okD(7) [OF D, of a] by (simp add: S(3) renumber_def)
  then show "dir_ok P ?u" using S(1) n ent seg(2) D st by (auto simp: dir_ok_def fields)
  show "ids_ok ?u" unfolding ids_ok_def S(1)
  proof (intro allI impI)
    fix x :: nat assume x: "x < 2 ^ n"
    show "segment_id (GetSegment x ?u) = x - x mod chunk ?u (GetSegment x ?u)"
      unfolding ch [OF x] minus_mod_eq_div_mult div_mult2_eq by (simp add: seg(1) [OF x] minus_mod_eq_div_mult)
  qed
  have "seg_items P (the (heap ?u a)) = seg_items P (the (heap t a))" if "a \<in> set (dir t)" for a
    using dir_okD(7) [OF D, of a] that by (auto simp: S(3) renumber_def)
  then show ti: "table_items P ?u = table_items P t" by (simp add: table_items_def st)
  show "counts_ok P t \<Longrightarrow> counts_ok P ?u" by (simp add: counts_ok_def st ti fields)
  show "global_depth ?u = n" "initial_depth ?u = initial_depth t" by (rule fields)+
  show "x < 2 ^ n \<Longrightarrow> x div ?r < length (dir t) \<and> local_depth (GetSegment x ?u) = local_depth (GetSegment (x div ?r) t) \<and>
    chunk ?u (GetSegment x ?u) = ?r * chunk t (GetSegment (x div ?r) t)"
    using idx ch seg(1) by simp
qed

subsection \<open>Splitting a segment\<close>

lemma div_range: "0 < (h :: nat) \<Longrightarrow> x div h = n \<longleftrightarrow> n * h \<le> x \<and> x < n * h + h"
proof
  assume h: "0 < h" "x div h = n"
  then have "x = n * h + x mod h" by (metis div_mult_mod_eq)
  then show "n * h \<le> x \<and> x < n * h + h" using mod_less_divisor [OF h(1), of x] by linarith
next
  assume "0 < h" "n * h \<le> x \<and> x < n * h + h"
  then show "x div h = n" by (intro div_nat_eqI) (simp_all add: mult.commute)
qed

lemma pfx_half:
  assumes "d < 64" "pfx h d = q"
  shows "pfx h (d + 1) = (if is_mine (d + 1) h then 2 * q else 2 * q + 1)"
proof -
  have "pfx h d = pfx h (d + 1) div 2" using pfx_shift [of d "d + 1" h] assms(1) by simp
  moreover have "is_mine (d + 1) h \<longleftrightarrow> even (pfx h (d + 1))" using is_mine_pfx [of "d + 1" h] assms(1) by simp
  ultimately show ?thesis using assms(2) by (auto elim!: evenE oddE)
qed

text \<open>The directory after a split: the second half of the block of \<open>i\<close> belongs to the new segment.\<close>

definition split_dir :: "('k, 'v) dash_table \<Rightarrow> nat \<Rightarrow> nat \<Rightarrow> nat \<Rightarrow> nat list" where
  "split_dir t q h ta = take (q * (2 * h) + h) (dir t) @ replicate h ta @ drop (q * (2 * h) + 2 * h) (dir t)"

lemma split_layout:
  assumes D: "dir_ok P t" and i: "i < length (dir t)" and ld: "local_depth (GetSegment i t) < global_depth t"
    and h: "h = 2 ^ (global_depth t - local_depth (GetSegment i t) - 1)" and q: "q = i div (2 * h)"
  shows "chunk t (GetSegment i t) = 2 * h" "0 < h" "q * (2 * h) + 2 * h \<le> length (dir t)" "length (split_dir t q h ta) = length (dir t)"
    "x < length (dir t) \<Longrightarrow> split_dir t q h ta ! x = (if x div h = 2 * q + 1 then ta else dir t ! x)"
    "x < length (dir t) \<Longrightarrow> dir t ! x = dir t ! i \<longleftrightarrow> x div h = 2 * q \<or> x div h = 2 * q + 1"
proof -
  have e: "global_depth t - local_depth (GetSegment i t) = Suc (global_depth t - local_depth (GetSegment i t) - 1)" using ld by simp
  show c: "chunk t (GetSegment i t) = 2 * h" unfolding chunk_def h by (subst e) (simp only: power_Suc)
  show h0: "0 < h" by (simp add: h)
  have "\<exists>m. 2 ^ global_depth t = m * (2 * h)"
  proof -
    have "(2 :: nat) ^ global_depth t = 2 ^ local_depth (GetSegment i t) * (2 * h)"
      unfolding c [symmetric] chunk_def using ld by (simp flip: power_add)
    then show ?thesis by blast
  qed
  then obtain m where m: "length (dir t) = m * (2 * h)" using dir_okD(1) [OF D] by metis
  have "q < m" using i m by (simp add: q less_mult_imp_div_less)
  then have "Suc q * (2 * h) \<le> m * (2 * h)" by (intro mult_le_mono1) simp
  then show l: "q * (2 * h) + 2 * h \<le> length (dir t)" by (simp add: m)
  then have f: "q * (2 * h) + h + h \<le> length (dir t)" by simp
  have sd: "split_dir t q h ta = take (q * (2 * h) + h) (dir t) @ replicate h ta @ drop (q * (2 * h) + h + h) (dir t)"
    by (simp add: split_dir_def mult_2 add.assoc)
  show "length (split_dir t q h ta) = length (dir t)" unfolding sd by (rule length_fill [OF f])
  show "split_dir t q h ta ! x = (if x div h = 2 * q + 1 then ta else dir t ! x)" if "x < length (dir t)"
  proof -
    have "x div h = 2 * q + 1 \<longleftrightarrow> q * (2 * h) + h \<le> x \<and> x < q * (2 * h) + h + h" unfolding div_range [OF h0] by (simp add: algebra_simps)
    then show ?thesis unfolding sd nth_fill [OF f that] by simp
  qed
  show "dir t ! x = dir t ! i \<longleftrightarrow> x div h = 2 * q \<or> x div h = 2 * q + 1" if "x < length (dir t)"
  proof -
    have "dir t ! x = dir t ! i \<longleftrightarrow> x div h div 2 = q" using entry_okD(3) [OF dir_okD(4) [OF D i] that] unfolding c q by (simp add: div_mult2_eq mult.commute)
    then show ?thesis by auto
  qed
qed

lemma half_keys:
  "leaving P d (seg_items P s) = {#} \<Longrightarrow> k \<in># seg_keys P s \<Longrightarrow> is_mine d (HashFn P k)"
  "staying P d (seg_items P s) = {#} \<Longrightarrow> k \<in># seg_keys P s \<Longrightarrow> \<not> is_mine d (HashFn P k)"
  by (auto simp: leaving_def staying_def filter_mset_eq_mempty_iff seg_keys_def)

lemma split_entries:
  assumes D: "dir_ok P t" and i: "i < length (dir t)" and ld: "local_depth (GetSegment i t) < global_depth t"
    and h: "h = 2 ^ (global_depth t - local_depth (GetSegment i t) - 1)" and q: "q = i div (2 * h)"
    and s': "seg_ok P s'" "local_depth s' = local_depth (GetSegment i t) + 1" "seg_ok P d'" "local_depth d' = local_depth (GetSegment i t) + 1"
    and items: "seg_items P s' + seg_items P d' = seg_items P (GetSegment i t)"
    and mine: "leaving P (local_depth (GetSegment i t) + 1) (seg_items P s') = {#}" "staying P (local_depth (GetSegment i t) + 1) (seg_items P d') = {#}"
    and t': "dir t' = split_dir t q h (next_addr t)" "heap t' = (heap t)(dir t ! i := Some s', next_addr t := Some d')"
      "next_addr t' = next_addr t + 1" "global_depth t' = global_depth t"
  shows "dir_ok P t'" "table_items P t' = table_items P t" "set (dir t') = insert (next_addr t) (set (dir t))"
    "x < length (dir t) \<Longrightarrow> GetSegment x t' = (if x div h = 2 * q + 1 then d' else if x div h = 2 * q then s' else GetSegment x t)"
proof -
  let ?s = "GetSegment i t" and ?ta = "next_addr t" and ?sa = "dir t ! i" and ?l = "length (dir t)"
  note L = split_layout [OF D i ld h q]
  note E = entry_okD [OF dir_okD(4) [OF D i]]
  have new: "?ta \<notin> set (dir t)" "?sa \<noteq> ?ta" using dir_okD(6) [OF D] i by (auto simp: in_set_conv_nth)
  have dx: "dir t' ! x = (if x div h = 2 * q + 1 then ?ta else dir t ! x)" if "x < ?l" for x using L(5) [OF that] t'(1) by simp
  have old: "dir t ! x \<noteq> ?ta" if "x < ?l" for x using new(1) that by (metis nth_mem)
  have hx: "heap t' (dir t' ! x) = Some (if x div h = 2 * q + 1 then d' else if x div h = 2 * q then s' else GetSegment x t)" if x: "x < ?l" for x
    using dx [OF x] L(6) [OF x] old [OF x] new(2) dir_okD(3) [OF D x] by (auto simp: t'(2))
  then show gx: "x < ?l \<Longrightarrow> GetSegment x t' = (if x div h = 2 * q + 1 then d' else if x div h = 2 * q then s' else GetSegment x t)" for x
    by (simp add: GetSegment_def)
  have c': "chunk t' s' = h" "chunk t' d' = h" "chunk t' (GetSegment x t) = chunk t (GetSegment x t)" for x
    using s' h ld by (simp_all add: chunk_def t'(4))
  have keys: "seg_keys P s' + seg_keys P d' = seg_keys P ?s" using items by (metis image_mset_union seg_keys_def)
  have d64: "local_depth ?s < 64" using E(2) dir_okD(2) [OF D] by simp
  have pq: "pfx (HashFn P k) (local_depth ?s) = q" if "k \<in># seg_keys P ?s" for k using E(4) [OF that] L(1) q by simp
  have ks: "\<forall>k \<in># seg_keys P s'. pfx (HashFn P k) (local_depth s') = 2 * q"
  proof
    fix k assume k: "k \<in># seg_keys P s'"
    then have "k \<in># seg_keys P ?s" unfolding keys [symmetric] by simp
    from pfx_half [OF d64 pq [OF this]] show "pfx (HashFn P k) (local_depth s') = 2 * q" using half_keys(1) [OF mine(1) k] s'(2) by simp
  qed
  have kd: "\<forall>k \<in># seg_keys P d'. pfx (HashFn P k) (local_depth d') = 2 * q + 1"
  proof
    fix k assume k: "k \<in># seg_keys P d'"
    then have "k \<in># seg_keys P ?s" unfolding keys [symmetric] by simp
    from pfx_half [OF d64 pq [OF this]] show "pfx (HashFn P k) (local_depth d') = 2 * q + 1" using half_keys(2) [OF mine(2) k] s'(4) by simp
  qed
  have cn: "\<forall>k. count (seg_keys P s') k \<le> 1" "\<forall>k. count (seg_keys P d') k \<le> 1" using E(5) keys by (metis count_union le_add1 le_add2 le_trans)+
  have len: "length (dir t') = ?l" using L(4) t'(1) by simp
  have i2: "i div h = 2 * q \<or> i div h = 2 * q + 1" using L(6) [OF i] by simp
  have lo: "2 * q * h < ?l" "(2 * q + 1) * h < ?l" using L(2,3) by (simp_all add: algebra_simps)
  show st: "set (dir t') = insert ?ta (set (dir t))"
  proof
    have "dir t' ! x \<in> insert ?ta (set (dir t))" if "x < ?l" for x using dx [OF that] that by simp
    then show "set (dir t') \<subseteq> insert ?ta (set (dir t))" using len by (metis in_set_conv_nth subsetI)
    have "dir t' ! ((2 * q + 1) * h) = ?ta" using dx [OF lo(2)] L(2) by simp
    then have "?ta \<in> set (dir t')" using lo(2) len by (metis nth_mem)
    moreover have "dir t ! x \<in> set (dir t')" if x: "x < ?l" for x
    proof (cases "x div h = 2 * q + 1")
      case True
      have "dir t ! x = dir t ! (2 * q * h)" using L(6) [OF x] L(6) [OF lo(1)] True L(2) by simp
      also have "\<dots> = dir t' ! (2 * q * h)" using dx [OF lo(1)] L(2) by simp
      finally show ?thesis using lo(1) len by (metis nth_mem)
    next
      case False
      then show ?thesis using dx [OF x] x len by (metis nth_mem)
    qed
    ultimately show "insert ?ta (set (dir t)) \<subseteq> set (dir t')" by (auto simp: in_set_conv_nth)
  qed
  have ent: "entry_ok P t' x (GetSegment x t')" if x: "x < ?l" for x
  proof -
    consider (d) "x div h = 2 * q + 1" | (s) "x div h = 2 * q" | (o) "x div h \<noteq> 2 * q + 1" "x div h \<noteq> 2 * q" by blast
    then show ?thesis
    proof cases
      case d
      then show ?thesis using gx [OF x] s' kd cn ld dx old x by (auto simp: entry_ok_def c' len t'(4))
    next
      case s
      have "dir t' ! y = dir t' ! x \<longleftrightarrow> y div h = x div h" if y: "y < ?l" for y
        using dx [OF x] dx [OF y] L(6) [OF x] L(6) [OF y] s old [OF x] by auto
      then show ?thesis using s gx [OF x] s' ks cn ld by (simp add: entry_ok_def c' len t'(4))
    next
      case o
      note Ex = entry_okD [OF dir_okD(4) [OF D x]]
      have ne: "dir t ! x \<noteq> ?sa" using L(6) [OF x] o by simp
      have "dir t' ! y = dir t' ! x \<longleftrightarrow> y div chunk t (GetSegment x t) = x div chunk t (GetSegment x t)" if y: "y < ?l" for y
        using Ex(3) [OF y] dx [OF x] dx [OF y] o ne L(6) [OF y] old [OF x] by auto
      then show ?thesis using o gx [OF x] Ex by (simp add: entry_ok_def c' len t'(4))
    qed
  qed
  have sa: "?sa \<in> set (dir t)" using i by simp
  have "heap t' a \<noteq> None \<longleftrightarrow> a \<in> set (dir t')" for a using dir_okD(7) [OF D, of a] sa unfolding st by (simp add: t'(2))
  moreover have "\<forall>a \<in> set (dir t'). a < next_addr t'" using D unfolding st by (auto simp: t'(3) dir_ok_def)
  moreover have "\<forall>x < ?l. \<exists>s. heap t' (dir t' ! x) = Some s \<and> entry_ok P t' x s" using ent hx gx by simp
  ultimately show "dir_ok P t'" using dir_okD(1,2) [OF D] len unfolding dir_ok_def by (simp add: t'(4))
  have r: "(\<Sum>a \<in> set (dir t) - {?sa}. seg_items P (the (heap t' a))) = (\<Sum>a \<in> set (dir t) - {?sa}. seg_items P (the (heap t a)))"
    using new(1) by (intro sum.cong refl) (auto simp: t'(2))
  have "table_items P t' = seg_items P d' + (\<Sum>a \<in> set (dir t). seg_items P (the (heap t' a)))"
    unfolding table_items_def st using new(1) by (simp add: t'(2))
  also have "\<dots> = seg_items P d' + (seg_items P s' + (\<Sum>a \<in> set (dir t) - {?sa}. seg_items P (the (heap t a))))"
    unfolding sum.remove [OF finite_set sa] r using new(2) by (simp add: t'(2))
  also have "\<dots> = seg_items P ?s + (\<Sum>a \<in> set (dir t) - {?sa}. seg_items P (the (heap t a)))" using items by (simp add: ac_simps)
  also have "\<dots> = table_items P t" unfolding table_items_def sum.remove [OF finite_set sa] by (simp add: GetSegment_def)
  finally show "table_items P t' = table_items P t" .
qed

lemma table_Split_spec:
  assumes P: "policy_ok P" and D: "dir_ok P t" and i: "i < length (dir t)" and ld: "local_depth (GetSegment i t) < global_depth t"
    and r: "table_Split P i t = Some t'"
  shows "dir_ok P t'" "table_items P t' = table_items P t" "counts_ok P t \<Longrightarrow> counts_ok P t'" "ids_ok t \<Longrightarrow> ids_ok t'"
    "global_depth t' = global_depth t" "initial_depth t' = initial_depth t"
    "x < length (dir t) \<Longrightarrow> x mod chunk t (GetSegment x t) = 0 \<Longrightarrow> x mod chunk t' (GetSegment x t') = 0"
proof -
  let ?s = "GetSegment i t" and ?ta = "next_addr t" and ?sa = "dir t ! i"
  define h where "h = (2 :: nat) ^ (global_depth t - local_depth ?s - 1)"
  define q where "q = i div (2 * h)"
  note L = split_layout [OF D i ld h_def q_def]
  have ch: "2 ^ (global_depth t - local_depth ?s) = 2 * h" using L(1) by (simp add: chunk_def)
  have stx: "i - i mod (2 * h) = q * (2 * h)" by (simp add: q_def minus_mod_eq_div_mult)
  have ar: "q * (2 * h) + 2 * h - (q * (2 * h) + h) = h" "2 * h div 2 = h" "i + h - i mod (2 * h) = q * (2 * h) + h"
    using mod_less_eq_dividend [of i "2 * h"] unfolding stx [symmetric] by linarith+
  let ?new = "Segment_new P (local_depth ?s + 1) (q * (2 * h) + h)"
  obtain s' d' where sp: "segment_Split P ?s ?new = Some (s', d')"
    and t': "t' = t\<lparr>next_addr := ?ta + 1, bucket_count := bucket_count t + kTotalBuckets P,
                     heap := (heap t)(?sa := Some s', ?ta := Some d'), unique_segments := unique_segments t + 1, dir := split_dir t q h ?ta\<rparr>"
    using r by (auto simp: table_Split_def Let_def ConstructSegment_def ch stx ar put_segment_def split_dir_def split: option.splits)
  note S = segment_Split_spec [OF P entry_okD(1) [OF dir_okD(4) [OF D i]] Segment_new_ok(1) [OF P] Segment_new_ok(2) [OF P] sp]
  have sa: "?sa \<noteq> ?ta" using dir_okD(6) [OF D] i by (auto simp: in_set_conv_nth)
  have hp: "heap t' = (heap t)(?sa := Some s', ?ta := Some d')" by (simp add: t')
  have f: "dir t' = split_dir t q h ?ta" "next_addr t' = ?ta + 1" by (simp_all add: t')
  show gd: "global_depth t' = global_depth t" "initial_depth t' = initial_depth t" by (simp_all add: t')
  note R = split_entries [OF D i ld h_def q_def S(1,3,2,4,7,8,9) f(1) hp f(2) gd(1)]
  show "dir_ok P t'" "table_items P t' = table_items P t" by (rule R)+
  show "counts_ok P t \<Longrightarrow> counts_ok P t'" using dir_okD(6) [OF D] R(2,3) by (simp add: counts_ok_def t')
  have c': "chunk t' s' = h" "chunk t' d' = h" using S(3,4) ld by (simp_all add: chunk_def gd h_def)
  have len: "length (dir t') = length (dir t)" using L(4) by (simp add: f)
  have ids: "segment_id s' = segment_id ?s" "segment_id d' = q * (2 * h) + h" using S(5,6) by (simp_all add: Segment_new_def)
  show "ids_ok t'" if I: "ids_ok t"
    unfolding ids_ok_def len
  proof (intro allI impI)
    fix x assume x: "x < length (dir t)"
    have "segment_id ?s = q * (2 * h)" using I i L(1) stx by (simp add: ids_ok_def)
    then show "segment_id (GetSegment x t') = x - x mod chunk t' (GetSegment x t')"
      using R(4) [OF x] c' ids I x by (auto simp: minus_mod_eq_div_mult ids_ok_def chunk_def gd)
  qed
  show "x mod chunk t' (GetSegment x t') = 0" if x: "x < length (dir t)" "x mod chunk t (GetSegment x t) = 0"
  proof (cases "x div h = 2 * q \<or> x div h = 2 * q + 1")
    case True
    then have "GetSegment x t = ?s" using L(6) [OF x(1)] by (simp add: GetSegment_def)
    then have "x mod (2 * h) = 0" using x(2) L(1) by simp
    then have "x mod h = 0" by (metis dvd_imp_mod_0 dvd_mult_right mod_0_imp_dvd mult.commute)
    then show ?thesis using R(4) [OF x(1)] True c' by auto
  next
    case False
    then show ?thesis using R(4) [OF x(1)] x(2) by (simp add: chunk_def gd)
  qed
qed

end
