(* ===== verification/Dash_Insert.thy ===== *)
theory Dash_Insert
  imports Dash_Growth
begin

text \<open>
  The insertion loop of \<^verbatim>\<open>DashTable::InsertInternal\<close>, for every eviction policy that only drops entries. What the loop relies on
  of the policy is the locale \<open>eviction\<close>; the default policy and the policy of the prime table are instances.
\<close>

subsection \<open>Insertion\<close>

definition insert_attempt :: "('k, 'v) dash_policy \<Rightarrow> 'k \<Rightarrow> 'v \<Rightarrow> insert_mode \<Rightarrow> ('k, 'v) segment \<Rightarrow> ((nat \<times> nat) option \<times> bool) \<times> ('k, 'v) segment" where
  "insert_attempt P key val mode target =
     (if mode = kForceInsert then let (it, s) = InsertUniq P key val (HashFn P key) True target in ((it, it \<noteq> None), s)
      else segment_Insert P key val (HashFn P key) (\<lambda>k. k = key) target)"

lemma insert_attempt_spec:
  assumes P: "policy_ok P" and S: "seg_ok P s" and r: "insert_attempt P k v mode s = ((it, res), s1)"
  shows "it = None \<Longrightarrow> \<not> res \<and> s1 = s \<and> (mode = kInsertIfNotFound \<longrightarrow> FindIt P (HashFn P k) (\<lambda>x. x = k) s = None)"
    "it = Some at \<Longrightarrow> res \<Longrightarrow> inserted P k v s s1 at \<and> (mode = kInsertIfNotFound \<longrightarrow> FindIt P (HashFn P k) (\<lambda>x. x = k) s = None)"
    "it = Some at \<Longrightarrow> \<not> res \<Longrightarrow> mode = kInsertIfNotFound \<and> FindIt P (HashFn P k) (\<lambda>x. x = k) s = Some at \<and> s1 = s"
proof -
  obtain u s2 where u: "InsertUniq P k v (HashFn P k) True s = (u, s2)" by fastforce
  note I = InsertUniq_spec [OF P S u]
  have "it = u \<and> res = (u \<noteq> None) \<and> s1 = s2 \<and> (mode = kInsertIfNotFound \<longrightarrow> FindIt P (HashFn P k) (\<lambda>x. x = k) s = None) \<or>
      mode = kInsertIfNotFound \<and> (\<exists>a. FindIt P (HashFn P k) (\<lambda>x. x = k) s = Some a \<and> it = Some a) \<and> \<not> res \<and> s1 = s"
  proof (cases mode)
    case kInsertIfNotFound
    then have seg: "((it, res), s1) = segment_Insert P k v (HashFn P k) (\<lambda>x. x = k) s" using r by (simp add: insert_attempt_def)
    show ?thesis
    proof (cases "FindIt P (HashFn P k) (\<lambda>x. x = k) s")
      case None
      then show ?thesis using seg u by (simp add: segment_Insert_def del: not_None_eq)
    next
      case (Some a)
      then have "it = Some a" "\<not> res" "s1 = s" using seg by (simp_all add: segment_Insert_def)
      then show ?thesis using Some kInsertIfNotFound by blast
    qed
  next
    case kForceInsert
    then show ?thesis using r u by (auto simp add: insert_attempt_def Let_def simp del: not_None_eq)
  qed
  then consider (uniq) "it = u" "res = (u \<noteq> None)" "s1 = s2" "mode = kInsertIfNotFound \<longrightarrow> FindIt P (HashFn P k) (\<lambda>x. x = k) s = None"
    | (dup) a where "mode = kInsertIfNotFound" "FindIt P (HashFn P k) (\<lambda>x. x = k) s = Some a" "it = Some a" "\<not> res" "s1 = s" by blast
  then have "(it = None \<longrightarrow> \<not> res \<and> s1 = s \<and> (mode = kInsertIfNotFound \<longrightarrow> FindIt P (HashFn P k) (\<lambda>x. x = k) s = None)) \<and>
    (it = Some at \<longrightarrow> res \<longrightarrow> inserted P k v s s1 at \<and> (mode = kInsertIfNotFound \<longrightarrow> FindIt P (HashFn P k) (\<lambda>x. x = k) s = None)) \<and>
    (it = Some at \<longrightarrow> \<not> res \<longrightarrow> mode = kInsertIfNotFound \<and> FindIt P (HashFn P k) (\<lambda>x. x = k) s = Some at \<and> s1 = s)"
  proof cases
    case uniq
    then show ?thesis using I by (cases u) auto
  next
    case dup
    then show ?thesis by simp
  qed
  then show "it = None \<Longrightarrow> \<not> res \<and> s1 = s \<and> (mode = kInsertIfNotFound \<longrightarrow> FindIt P (HashFn P k) (\<lambda>x. x = k) s = None)"
    "it = Some at \<Longrightarrow> res \<Longrightarrow> inserted P k v s s1 at \<and> (mode = kInsertIfNotFound \<longrightarrow> FindIt P (HashFn P k) (\<lambda>x. x = k) s = None)"
    "it = Some at \<Longrightarrow> \<not> res \<Longrightarrow> mode = kInsertIfNotFound \<and> FindIt P (HashFn P k) (\<lambda>x. x = k) s = Some at \<and> s1 = s" by blast+
qed

definition grow_at :: "('k, 'v) dash_policy \<Rightarrow> 'k \<Rightarrow> nat \<Rightarrow> nat \<Rightarrow> ('k, 'v) dash_table \<Rightarrow> nat \<times> ('k, 'v) dash_table" where
  "grow_at P k a x t = (if local_depth (the (heap t a)) = global_depth t
                        then let t' = IncreaseDepth (global_depth t + 1) t in (SegmentId (HashFn P k) t', t') else (x, t))"

lemma insert_loop_Suc:
  "insert_loop P ev k v mode (Suc n) x t =
     (case insert_attempt P k v mode (GetSegment x t) of ((it, res), s1) \<Rightarrow>
        let t1 = put_segment (dir t ! x) s1 t
        in case it of
             Some (i, j) \<Rightarrow> if res then Some (Returned (x, i, j) True, t1\<lparr>tsize := tsize t1 + 1\<rparr>) else Some (Returned (x, i, j) False, t1)
           | None \<Rightarrow>
               (case make_room P ev n (HashFn P k) x t1 of
                  Retry t2 \<Rightarrow> insert_loop P ev k v mode n x t2
                | NoRoom t2 \<Rightarrow> Some (BadAlloc, t2)
                | Grow t2 \<Rightarrow>
                    (case table_Split P (fst (grow_at P k (dir t ! x) x t2)) (snd (grow_at P k (dir t ! x) x t2)) of
                       None \<Rightarrow> None | Some t4 \<Rightarrow> insert_loop P ev k v mode n (fst (grow_at P k (dir t ! x) x t2)) t4)))"
  unfolding insert_loop.simps insert_attempt_def grow_at_def Let_def split_beta by (cases mode) simp_all

declare insert_loop.simps(2) [simp del]

text \<open>
  What the loop relies on of an eviction policy: collecting and evicting only drop entries, never those that \<open>keep\<close> selects, and
  the directory and the layout of the segments stay.
\<close>

definition sheds :: "('k \<Rightarrow> 'v \<Rightarrow> bool) \<Rightarrow> ('k \<Rightarrow> 'v option) \<Rightarrow> ('k \<Rightarrow> 'v option) \<Rightarrow> bool" where
  "sheds keep m m' \<longleftrightarrow> m' \<subseteq>\<^sub>m m \<and> (\<forall>k v. m k = Some v \<longrightarrow> keep k v \<longrightarrow> m' k = Some v)"

lemma sheds_refl [simp]: "sheds keep m m"
  by (simp add: sheds_def)

lemma sheds_trans: "sheds keep m m1 \<Longrightarrow> sheds keep m1 m2 \<Longrightarrow> sheds keep m m2"
  unfolding sheds_def by (blast intro: map_le_trans)

lemma sheds_None: "sheds keep m m' \<Longrightarrow> m k = None \<Longrightarrow> m' k = None"
  by (metis domIff map_le_implies_dom_le sheds_def subsetD)

lemma sheds_all [simp]: "sheds (\<lambda>_ _. True) m m' \<longleftrightarrow> m' = m"
proof
  assume a: "sheds (\<lambda>_ _. True) m m'"
  show "m' = m"
  proof
    fix k
    show "m' k = m k" using a sheds_None [OF a, of k] by (cases "m k") (auto simp: sheds_def)
  qed
qed simp

definition pruned :: "('k, 'v) dash_policy \<Rightarrow> ('k \<Rightarrow> 'v \<Rightarrow> bool) \<Rightarrow> ('k, 'v) dash_table \<Rightarrow> ('k, 'v) dash_table \<Rightarrow> bool" where
  "pruned P keep t t' \<longleftrightarrow> dir t' = dir t \<and> global_depth t' = global_depth t \<and>
     (\<forall>i < length (dir t). local_depth (GetSegment i t') = local_depth (GetSegment i t) \<and> segment_id (GetSegment i t') = segment_id (GetSegment i t)) \<and>
     (\<forall>m. table_rep P t m \<longrightarrow> (\<exists>m'. sheds keep m m' \<and> table_rep P t' m'))"

lemma prunedD:
  assumes "pruned P keep t t'"
  shows "dir t' = dir t" "global_depth t' = global_depth t" "i < length (dir t) \<Longrightarrow> local_depth (GetSegment i t') = local_depth (GetSegment i t)"
    "i < length (dir t) \<Longrightarrow> segment_id (GetSegment i t') = segment_id (GetSegment i t)"
    "table_rep P t m \<Longrightarrow> \<exists>m'. sheds keep m m' \<and> table_rep P t' m'"
  using assms by (auto simp: pruned_def)

lemma pruned_refl [simp]: "pruned P keep t t"
  unfolding pruned_def using sheds_refl by blast

lemma pruned_trans: "pruned P keep t u \<Longrightarrow> pruned P keep u w \<Longrightarrow> pruned P keep t w"
  unfolding pruned_def by (metis sheds_trans)

lemma pruned_ids: "pruned P keep t t' \<Longrightarrow> ids_ok t \<Longrightarrow> ids_ok t'"
  using prunedD(1-4) [of P keep t t'] by (simp add: ids_ok_def chunk_def)

lemma pruned_same_content:
  assumes T: "table_rep P t m" and x: "x < length (dir t)" and s: "same_content P (GetSegment x t) s"
  shows "pruned P keep t (put_segment (dir t ! x) s t)"
proof -
  let ?u = "put_segment (dir t ! x) s t"
  have D: "dir_ok P t" using T by (simp add: table_rep_def)
  have S: "seg_ok P s" "seg_items P s = seg_items P (GetSegment x t)" "local_depth s = local_depth (GetSegment x t)" "segment_id s = segment_id (GetSegment x t)"
    using s by (simp_all add: same_content_def)
  have k: "seg_keys P s = seg_keys P (GetSegment x t)" by (simp add: seg_keys_def S(2))
  note E = entry_okD [OF dir_okD(4) [OF D x]]
  have O: "dir_ok P ?u" "table_items P ?u + seg_items P (GetSegment x t) = table_items P t + seg_items P s"
    using put_segment_ok [OF D x S(1,3)] E(4,5) k S(3) by simp_all
  have "table_rep P ?u q" if "table_rep P t q" for q
    using that O S(2) by (simp add: table_rep_def counts_ok_def)
  moreover have "local_depth (GetSegment i ?u) = local_depth (GetSegment i t)" "segment_id (GetSegment i ?u) = segment_id (GetSegment i t)" for i
    using S(3,4) by (simp_all add: GetSegment_put) (simp_all add: GetSegment_def)
  moreover have "dir ?u = dir t" "global_depth ?u = global_depth t" by simp_all
  ultimately show ?thesis unfolding pruned_def using sheds_refl by blast
qed

lemma room_cases: "P' (Grow t) \<Longrightarrow> P' (NoRoom t) \<Longrightarrow> P' (grow_or_throw ev n t)"
  by (simp add: grow_or_throw_def)

lemma put_segment_same: "dir_ok P t \<Longrightarrow> x < length (dir t) \<Longrightarrow> put_segment (dir t ! x) (GetSegment x t) t = t"
  using dir_okD(3) [of P t x] by (simp add: put_segment_def fun_upd_idem)

lemma global_depth_fold: "global_depth (fold (spread_entry r) xs t) = global_depth t"
  by (induction xs arbitrary: t) (simp_all add: spread_entry_def Let_def)

lemma IncreaseDepth_depth: "global_depth (IncreaseDepth n t) = n"
  by (simp add: IncreaseDepth_def Let_def)

lemma table_Split_depth: "table_Split P x t = Some t' \<Longrightarrow> global_depth t' = global_depth t"
  by (auto simp: table_Split_def Let_def ConstructSegment_def split: option.splits)

text \<open>Directory entries at which a segment starts still start one after growth.\<close>

definition starts_kept :: "('k, 'v) dash_table \<Rightarrow> ('k, 'v) dash_table \<Rightarrow> bool" where
  "starts_kept t t' \<longleftrightarrow> global_depth t \<le> global_depth t' \<and>
     (\<forall>x < length (dir t). x mod chunk t (GetSegment x t) = 0 \<longrightarrow>
        x * 2 ^ (global_depth t' - global_depth t) < length (dir t') \<and>
        x * 2 ^ (global_depth t' - global_depth t) mod chunk t' (GetSegment (x * 2 ^ (global_depth t' - global_depth t)) t') = 0)"

lemma starts_keptD:
  assumes "starts_kept t u"
  shows "global_depth t \<le> global_depth u"
    "x < length (dir t) \<Longrightarrow> x mod chunk t (GetSegment x t) = 0 \<Longrightarrow> x * 2 ^ (global_depth u - global_depth t) < length (dir u)"
    "x < length (dir t) \<Longrightarrow> x mod chunk t (GetSegment x t) = 0 \<Longrightarrow>
       x * 2 ^ (global_depth u - global_depth t) mod chunk u (GetSegment (x * 2 ^ (global_depth u - global_depth t)) u) = 0"
  using assms by (simp_all add: starts_kept_def)

lemma starts_kept_trans:
  assumes "starts_kept t u" "starts_kept u w"
  shows "starts_kept t w"
proof -
  have g: "global_depth t \<le> global_depth u" "global_depth u \<le> global_depth w" using assms by (simp_all add: starts_kept_def)
  then have "global_depth w - global_depth t = (global_depth u - global_depth t) + (global_depth w - global_depth u)" by simp
  then have e: "x * 2 ^ (global_depth w - global_depth t) = x * 2 ^ (global_depth u - global_depth t) * 2 ^ (global_depth w - global_depth u)" for x :: nat
    by (simp only: power_add mult.assoc)
  show ?thesis unfolding starts_kept_def e
  proof (intro conjI allI impI)
    fix x assume "x < length (dir t)" "x mod chunk t (GetSegment x t) = 0"
    note X = starts_keptD(2,3) [OF assms(1) this]
    show "x * 2 ^ (global_depth u - global_depth t) * 2 ^ (global_depth w - global_depth u) < length (dir w)"
      "x * 2 ^ (global_depth u - global_depth t) * 2 ^ (global_depth w - global_depth u) mod
        chunk w (GetSegment (x * 2 ^ (global_depth u - global_depth t) * 2 ^ (global_depth w - global_depth u)) w) = 0"
      by (rule starts_keptD(2,3) [OF assms(2) X])+
  qed (use g in simp)
qed

lemma starts_kept_same: "dir t' = dir t \<Longrightarrow> global_depth t' = global_depth t \<Longrightarrow>
    (\<forall>i < length (dir t). local_depth (GetSegment i t') = local_depth (GetSegment i t)) \<Longrightarrow> starts_kept t t'"
  by (auto simp: starts_kept_def chunk_def)

lemma starts_kept_refl [simp]: "starts_kept t t"
  by (simp add: starts_kept_same)

lemma pruned_starts: "pruned P keep t t' \<Longrightarrow> starts_kept t t'"
  using prunedD(1-3) [of P keep t t'] by (intro starts_kept_same) auto

lemma IncreaseDepth_starts:
  assumes D: "dir_ok P t" and n: "global_depth t < n" "n \<le> 32"
  shows "starts_kept t (IncreaseDepth n t)"
  unfolding starts_kept_def IncreaseDepth_depth
proof (intro conjI allI impI)
  fix x assume x: "x < length (dir t)" "x mod chunk t (GetSegment x t) = 0"
  let ?r = "2 ^ (n - global_depth t) :: nat"
  have "length (dir t) * ?r = 2 ^ n" using dir_okD(1) [OF D] n by (simp flip: power_add)
  then have l: "x * ?r < 2 ^ n" using x(1) by (metis mult_less_cancel2 zero_less_numeral zero_less_power)
  then show "x * ?r < length (dir (IncreaseDepth n t))" using dir_okD(1) [OF IncreaseDepth_spec(1) [OF D n]] by (simp add: IncreaseDepth_depth)
  show "x * ?r mod chunk (IncreaseDepth n t) (GetSegment (x * ?r) (IncreaseDepth n t)) = 0"
    using IncreaseDepth_spec(8) [OF D n l] x(2) by (simp add: mult.commute)
qed (use n in simp)

lemma table_Split_starts:
  assumes "policy_ok P" "dir_ok P t" "i < length (dir t)" "local_depth (GetSegment i t) < global_depth t" "table_Split P i t = Some t'"
  shows "starts_kept t t'"
  using table_Split_spec(1,5,7) [OF assms] dir_okD(1) [OF assms(2)] dir_okD(1) by (fastforce simp: starts_kept_def)

lemma insert_entry:
  assumes P: "policy_ok P" and T: "table_rep P t m" and new: "m k = None" and x: "x = SegmentId (HashFn P k) t"
    and I: "inserted P k v (GetSegment x t) s1 (i, j)" and t': "t' = (put_segment (dir t ! x) s1 t)\<lparr>tsize := tsize t + 1\<rparr>"
  shows "table_rep P t' (m(k \<mapsto> v))" "entry_at P t' (x, i, j) = Some (k, v)" "ids_ok t \<Longrightarrow> ids_ok t'"
proof -
  let ?s = "GetSegment x t"
  have D: "dir_ok P t" and cnt: "counts_ok P t" and m: "\<And>k v. (k, v) \<in># table_items P t \<longleftrightarrow> m k = Some v" using T by (auto simp: table_rep_def)
  have xl: "x < length (dir t)" and xd: "x div chunk t ?s = pfx (HashFn P k) (local_depth ?s)" using SegmentId_in [OF D, of "HashFn P k"] x by simp_all
  note E = entry_okD [OF dir_okD(4) [OF D xl]]
  have I: "seg_ok P s1" "seg_items P s1 = add_mset (k, v) (seg_items P ?s)" "i < kTotalBuckets P" "j < kSlotNum P"
    "\<exists>fp probe. cells P (GetBucket i s1) ! j = Some (k, v, fp, probe)" "local_depth s1 = local_depth ?s" "segment_id s1 = segment_id ?s"
    using I by (auto simp: inserted_def)
  have ks: "seg_keys P s1 = add_mset k (seg_keys P ?s)" using I(2) by (simp add: seg_keys_def)
  have "k \<notin># seg_keys P ?s"
  proof
    assume "k \<in># seg_keys P ?s"
    then obtain w where "(k, w) \<in># seg_items P ?s" by (auto simp: seg_keys_def)
    then show False using in_table_items [OF D, of k w] m new x by simp
  qed
  then have c1: "\<forall>q. count (seg_keys P s1) q \<le> 1" using E(5) ks by (auto simp: not_in_iff)
  have p1: "\<forall>q \<in># seg_keys P s1. pfx (HashFn P q) (local_depth s1) = x div chunk t ?s" using E(4) ks xd I(6) by auto
  note R = put_segment_ok [OF D xl I(1,6) p1 c1]
  have "table_items P (put_segment (dir t ! x) s1 t) + seg_items P ?s = add_mset (k, v) (table_items P t) + seg_items P ?s" using R(2) I(2) by simp
  then have it: "table_items P t' = add_mset (k, v) (table_items P t)" unfolding t' counter_upd_simps add_right_cancel .
  have "(q, w) \<in># table_items P t' \<longleftrightarrow> (m(k \<mapsto> v)) q = Some w" for q w using m [of q w] new unfolding it by auto
  moreover have "counts_ok P t'" using cnt it unfolding counts_ok_def by (simp add: t')
  ultimately show "table_rep P t' (m(k \<mapsto> v))" using R(1) by (simp add: table_rep_def t')
  show "entry_at P t' (x, i, j) = Some (k, v)" using xl I(3-5) by (auto simp: entry_at_def t' GetSegment_put)
  show "ids_ok t'" if "ids_ok t" using put_segment_ids [OF D that xl I(6,7)] by (simp add: t')
qed

text \<open>What an insertion leaves behind, \<open>m\<close> being the content before it.\<close>

definition insert_post ::
  "('k, 'v) dash_policy \<Rightarrow> ('k \<Rightarrow> 'v \<Rightarrow> bool) \<Rightarrow> 'k \<Rightarrow> 'v \<Rightarrow> ('k \<Rightarrow> 'v option) \<Rightarrow> ('k, 'v) dash_table \<Rightarrow> insert_exit \<Rightarrow> ('k, 'v) dash_table \<Rightarrow> bool" where
  "insert_post P keep k v m t r t' \<longleftrightarrow> (ids_ok t \<longrightarrow> ids_ok t') \<and> starts_kept t t' \<and>
     (\<exists>m'. sheds keep m m' \<and>
        (case r of
           BadAlloc \<Rightarrow> m k = None \<and> table_rep P t' m'
         | Returned it True \<Rightarrow> m k = None \<and> table_rep P t' (m'(k \<mapsto> v)) \<and> entry_at P t' it = Some (k, v)
         | Returned it False \<Rightarrow> m' = m \<and> table_rep P t' m \<and> (\<exists>w. m k = Some w \<and> entry_at P t' it = Some (k, w))))"

lemma insert_post_step:
  assumes "insert_post P keep k v m1 t1 r t'" "sheds keep m m1" "m k = None" "ids_ok t \<longrightarrow> ids_ok t1" "starts_kept t t1"
  shows "insert_post P keep k v m t r t'"
proof -
  have k: "m1 k = None" by (rule sheds_None [OF assms(2,3)])
  obtain m' where m': "sheds keep m1 m'" "case r of BadAlloc \<Rightarrow> m1 k = None \<and> table_rep P t' m'
      | Returned it True \<Rightarrow> m1 k = None \<and> table_rep P t' (m'(k \<mapsto> v)) \<and> entry_at P t' it = Some (k, v)
      | Returned it False \<Rightarrow> m' = m1 \<and> table_rep P t' m1 \<and> (\<exists>w. m1 k = Some w \<and> entry_at P t' it = Some (k, w))"
    using assms(1) by (auto simp: insert_post_def)
  have "sheds keep m m'" by (rule sheds_trans [OF assms(2) m'(1)])
  moreover have "ids_ok t \<longrightarrow> ids_ok t'" "starts_kept t t'" using assms(1,4,5) starts_kept_trans by (auto simp: insert_post_def)
  ultimately show ?thesis using m'(2) assms(3) k unfolding insert_post_def
    by (intro conjI exI [of _ m']) (auto split: insert_exit.splits bool.splits)
qed

locale eviction =
  fixes P :: "('k, 'v) dash_policy" and keep :: "'k \<Rightarrow> 'v \<Rightarrow> bool" and ev :: "('k, 'v) eviction_policy"
  assumes gc: "policy_ok P \<Longrightarrow> table_rep P t m \<Longrightarrow> sid < length (dir t) \<Longrightarrow> pruned P keep t (snd (GarbageCollect ev n (hotspot P h sid) t))"
    and evict: "policy_ok P \<Longrightarrow> table_rep P t m \<Longrightarrow> sid < length (dir t) \<Longrightarrow> pruned P keep t (snd (Evict ev n (hotspot P h sid) t))"
    and gc_depth: "global_depth (snd (GarbageCollect ev n hot t)) = global_depth t"
    and evict_depth: "global_depth (snd (Evict ev n hot t)) = global_depth t"
begin

lemma make_room_pruned:
  assumes policy: "policy_ok P" and T: "table_rep P t m" and x: "x < length (dir t)"
  shows "pruned P keep t (room_table (make_room P ev n h x t))"
proof (cases "can_gc ev \<or> can_evict ev")
  case False
  then show ?thesis by (simp add: make_room_def grow_or_throw_def)
next
  case True
  let ?hot = "hotspot P h x"
  obtain c t1 where g: "(if can_gc ev then GarbageCollect ev n ?hot t else (0, t)) = (c, t1)" by fastforce
  have p1: "pruned P keep t t1" using g gc [OF policy T x, of n h] by (cases "can_gc ev") auto
  then obtain m1 where T1: "table_rep P t1 m1" using prunedD(5) [OF p1 T] by blast
  have x1: "x < length (dir t1)" "dir t1 ! x = dir t ! x" using x prunedD(1) [OF p1] by simp_all
  obtain k s where u: "UnloadStash P (the (heap t1 (dir t ! x))) = (k, s)" by fastforce
  let ?t2 = "put_segment (dir t ! x) s t1"
  have "same_content P (GetSegment x t1) s"
    using UnloadStash_spec [OF policy, of "GetSegment x t1"] u T1 entry_okD(1) [OF dir_okD(4) [OF _ x1(1)]] x1(2)
    by (simp add: GetSegment_def table_rep_def)
  then have p2: "pruned P keep t ?t2" using pruned_trans [OF p1 pruned_same_content [OF T1 x1(1)], of s] x1(2) by simp
  then obtain m2 where T2: "table_rep P ?t2 m2" using prunedD(5) [OF p2 T] by blast
  obtain e t3 where v: "Evict ev n ?hot ?t2 = (e, t3)" by fastforce
  have "pruned P keep ?t2 t3" using evict [OF policy T2, of x n h] x1 v by simp
  then have p3: "pruned P keep t t3" by (rule pruned_trans [OF p2])
  show ?thesis using True g u v p1 p2 p3 by (auto simp: make_room_def grow_or_throw_def Let_def)
qed

lemma make_room_depth: "global_depth (room_table (make_room P ev n h x t)) = global_depth t"
  by (simp add: make_room_def grow_or_throw_def Let_def split_beta gc_depth evict_depth)

lemma insert_loop_depth: "insert_loop P ev k v mode n x t = Some (r, t') \<Longrightarrow> global_depth t \<le> global_depth t'"
proof (induction n arbitrary: x t)
  case (Suc n)
  obtain it res s1 where a: "insert_attempt P k v mode (GetSegment x t) = ((it, res), s1)" by (metis surj_pair)
  define t1 where "t1 = put_segment (dir t ! x) s1 t"
  show ?case
  proof (cases it)
    case (Some at)
    then show ?thesis using Suc.prems a by (cases at) (auto simp: insert_loop_Suc Let_def split: if_splits)
  next
    case None
    let ?rm = "make_room P ev n (HashFn P k) x t1"
    have g: "global_depth (room_table ?rm) = global_depth t" using make_room_depth by (simp add: t1_def)
    note L = Suc.prems [unfolded insert_loop_Suc a None Let_def prod.case option.case, folded t1_def]
    show ?thesis
    proof (cases ?rm)
      case (Grow t2)
      let ?y = "grow_at P k (dir t ! x) x t2"
      have "global_depth t2 \<le> global_depth (snd ?y)" by (simp add: grow_at_def Let_def IncreaseDepth_depth)
      moreover obtain t4 where "table_Split P (fst ?y) (snd ?y) = Some t4" "insert_loop P ev k v mode n (fst ?y) t4 = Some (r, t')"
        using L Grow by (auto split: option.splits)
      ultimately show ?thesis using Suc.IH table_Split_depth g Grow by fastforce
    qed (use L g Suc.IH in fastforce)+
  qed
qed simp

lemma insert_loop_grow:
  assumes policy: "policy_ok P" and T: "table_rep P t m" and x: "x = SegmentId (HashFn P k) t" and r: "table_Split P (fst (grow_at P k (dir t ! x) x t)) (snd (grow_at P k (dir t ! x) x t)) = Some t4"
    and g: "global_depth t4 \<le> 32"
  shows "table_rep P t4 m" "fst (grow_at P k (dir t ! x) x t) = SegmentId (HashFn P k) t4" "ids_ok t \<Longrightarrow> ids_ok t4" "starts_kept t t4"
proof -
  let ?y = "grow_at P k (dir t ! x) x t"
  have D: "dir_ok P t" and cnt: "counts_ok P t" and m: "\<And>k v. (k, v) \<in># table_items P t \<longleftrightarrow> m k = Some v" using T by (auto simp: table_rep_def)
  have xl: "x < length (dir t)" using SegmentId_in [OF D] x by simp
  have g3: "global_depth (snd ?y) \<le> 32" using table_Split_depth [OF r] g by simp
  have y: "table_rep P (snd ?y) m" "fst ?y = SegmentId (HashFn P k) (snd ?y)" "ids_ok t \<longrightarrow> ids_ok (snd ?y)"
    using IncreaseDepth_spec [OF D, of "global_depth t + 1"] g3 T x cnt m by (auto simp: grow_at_def Let_def IncreaseDepth_depth table_rep_def)
  have sy: "starts_kept t (snd ?y)" using IncreaseDepth_starts [OF D, of "global_depth t + 1"] g3 by (auto simp: grow_at_def Let_def IncreaseDepth_depth)
  have Dy: "dir_ok P (snd ?y)" using y(1) by (simp add: table_rep_def)
  have xy: "fst ?y < length (dir (snd ?y))" using SegmentId_in(1) [OF Dy] y(2) by simp
  have ldy: "local_depth (GetSegment (fst ?y) (snd ?y)) < global_depth (snd ?y)"
  proof (cases "local_depth (GetSegment x t) = global_depth t")
    case True
    let ?u = "IncreaseDepth (global_depth t + 1) t" and ?z = "SegmentId (HashFn P k) (IncreaseDepth (global_depth t + 1) t)"
    have "?y = (?z, ?u)" using True by (simp add: grow_at_def Let_def GetSegment_def)
    then have z: "?z < 2 ^ (global_depth t + 1)" "global_depth t + 1 \<le> 32" using xy dir_okD(1) [OF Dy] g3 by (simp_all add: IncreaseDepth_depth)
    note W = IncreaseDepth_spec(8) [OF D less_add_one [of "global_depth t"] z(2,1)]
    then show ?thesis using entry_okD(2) [OF dir_okD(4) [OF D]] \<open>?y = (?z, ?u)\<close> by (fastforce simp: IncreaseDepth_depth)
  next
    case False
    then have "?y = (x, t)" by (simp add: grow_at_def GetSegment_def)
    then show ?thesis using False entry_okD(2) [OF dir_okD(4) [OF D xl]] by simp
  qed
  note S = table_Split_spec [OF policy Dy xy ldy r]
  show "table_rep P t4 m" using S(1-3) y(1) by (simp add: table_rep_def)
  show "fst ?y = SegmentId (HashFn P k) t4" using y(2) S(5) by (simp add: SegmentId_def)
  show "ids_ok t4" if "ids_ok t" using that y(3) S(4) by blast
  show "starts_kept t t4" using starts_kept_trans [OF sy table_Split_starts [OF policy Dy xy ldy r]] .
qed

lemma insert_found:
  assumes policy: "policy_ok P" and T: "table_rep P t m" and x: "x = SegmentId (HashFn P k) t" and f: "mode = kForceInsert \<longrightarrow> m k = None"
    and a: "insert_attempt P k v mode (GetSegment x t) = ((Some (i, j), res), s1)"
  shows "insert_post P keep k v m t (Returned (x, i, j) res) (if res then (put_segment (dir t ! x) s1 t)\<lparr>tsize := tsize t + 1\<rparr> else put_segment (dir t ! x) s1 t)"
proof -
  have D: "dir_ok P t" and m: "\<And>k v. (k, v) \<in># table_items P t \<longleftrightarrow> m k = Some v" using T by (auto simp: table_rep_def)
  have xl: "x < length (dir t)" using SegmentId_in [OF D] x by simp
  note A = insert_attempt_spec [OF policy entry_okD(1) [OF dir_okD(4) [OF D xl]] a]
  note F = Find_spec [OF policy D, of k, unfolded Find_def Let_def, folded x]
  show ?thesis
  proof (cases res)
    case True
    note I = A(2) [OF refl True]
    have n: "m k = None"
    proof (cases mode)
      case kInsertIfNotFound
      then show ?thesis using I F(1) m by (cases "m k") auto
    qed (use f in simp)
    note R = insert_entry [OF policy T n x conjunct1 [OF I] refl]
    have "local_depth s1 = local_depth (GetSegment x t)" using I by (auto simp: inserted_def)
    then have "starts_kept t ((put_segment (dir t ! x) s1 t)\<lparr>tsize := tsize t + 1\<rparr>)"
      by (intro starts_kept_same) (auto simp: GetSegment_put GetSegment_def)
    then show ?thesis using True R n unfolding insert_post_def by (intro conjI exI [of _ m]) simp_all
  next
    case False
    have f: "FindIt P (HashFn P k) (\<lambda>x. x = k) (GetSegment x t) = Some (i, j)" "s1 = GetSegment x t" using A(3) [OF refl False] by simp_all
    obtain w where "entry_at P t (x, i, j) = Some (k, w)" "m k = Some w" using F(2) [of "(x, i, j)"] f(1) m by auto
    then show ?thesis using False f(2) put_segment_same [OF D xl] T unfolding insert_post_def by auto
  qed
qed

lemma insert_loop_spec:
  assumes policy: "policy_ok P"
  shows "table_rep P t m \<Longrightarrow> x = SegmentId (HashFn P k) t \<Longrightarrow> (mode = kForceInsert \<longrightarrow> m k = None) \<Longrightarrow>
    insert_loop P ev k v mode n x t = Some (r, t') \<Longrightarrow> global_depth t' \<le> 32 \<Longrightarrow>
    insert_post P keep k v m t r t'"
proof (induction n arbitrary: x t m)
  case (Suc n)
  have D: "dir_ok P t" and m: "\<And>k v. (k, v) \<in># table_items P t \<longleftrightarrow> m k = Some v" using Suc.prems(1) by (auto simp: table_rep_def)
  have xl: "x < length (dir t)" using SegmentId_in [OF D] Suc.prems(2) by simp
  obtain it res s1 where a: "insert_attempt P k v mode (GetSegment x t) = ((it, res), s1)" by (metis surj_pair)
  show ?case
  proof (cases it)
    case (Some at)
    obtain i j where at: "at = (i, j)" by (cases at)
    note R = insert_found [OF policy Suc.prems(1-3) a [unfolded Some at]]
    show ?thesis using R Suc.prems(4) a Some at by (cases res) (simp_all add: insert_loop_Suc Let_def)
  next
    case None
    note A = insert_attempt_spec(1) [OF policy entry_okD(1) [OF dir_okD(4) [OF D xl]] a None]
    have t1: "put_segment (dir t ! x) s1 t = t" using A put_segment_same [OF D xl] by simp
    have new: "m k = None"
    proof (cases mode)
      case kInsertIfNotFound
      then show ?thesis using A Find_spec(1) [OF policy D, of k, unfolded Find_def Let_def, folded Suc.prems(2)] m by (cases "m k") auto
    qed (use Suc.prems(3) in simp)
    let ?rm = "make_room P ev n (HashFn P k) x t"
    note L = Suc.prems(4) [unfolded insert_loop_Suc a None Let_def prod.case option.case t1]
    note p = make_room_pruned [OF policy Suc.prems(1) xl, of n "HashFn P k"]
    obtain m1 where m1: "sheds keep m m1" "table_rep P (room_table ?rm) m1" using prunedD(5) [OF p Suc.prems(1)] by blast
    have x1: "x = SegmentId (HashFn P k) (room_table ?rm)" unfolding SegmentId_def prunedD(2) [OF p] by (fact Suc.prems(2) [unfolded SegmentId_def])
    have k1: "m1 k = None" by (rule sheds_None [OF m1(1) new])
    have i1: "ids_ok t \<longrightarrow> ids_ok (room_table ?rm)" "starts_kept t (room_table ?rm)" using pruned_ids [OF p] pruned_starts [OF p] by blast+
    show ?thesis
    proof (cases ?rm)
      case (Retry t2)
      then have l: "insert_loop P ev k v mode n x t2 = Some (r, t')" using L by simp
      note IH = Suc.IH [OF m1(2) x1 _ _ Suc.prems(5), unfolded Retry room.sel, OF _ l]
      show ?thesis using insert_post_step [OF IH m1(1) new] i1 k1 Retry by simp
    next
      case (NoRoom t2)
      then have "insert_post P keep k v m1 (room_table ?rm) r t'" using L m1 k1 by (auto simp: insert_post_def intro!: exI [of _ m1])
      then show ?thesis using insert_post_step [OF _ m1(1) new i1] by blast
    next
      case (Grow t2)
      let ?y = "grow_at P k (dir t ! x) x t2"
      obtain t4 where t4: "table_Split P (fst ?y) (snd ?y) = Some t4" "insert_loop P ev k v mode n (fst ?y) t4 = Some (r, t')"
        using L Grow by (auto split: option.splits)
      have g4: "global_depth t4 \<le> 32" using insert_loop_depth [OF t4(2)] Suc.prems(5) by simp
      have d2: "dir t2 = dir t" using prunedD(1) [OF p] Grow by simp
      note G = insert_loop_grow [OF policy m1(2) x1, unfolded Grow room.sel d2, OF t4(1) g4]
      note IH = Suc.IH [OF G(1,2) _ t4(2) Suc.prems(5)]
      have "insert_post P keep k v m1 t2 r t'" using insert_post_step [OF IH sheds_refl k1, where t = t2] G(3,4) k1 by simp
      then show ?thesis using insert_post_step [OF _ m1(1) new] i1 unfolding Grow room.sel by blast
    qed
  qed
qed simp

end

interpretation default_ev: eviction P "\<lambda>_ _. True" DefaultEvictionPolicy for P
  by unfold_locales (simp_all add: DefaultEvictionPolicy_def)

end
