(* ===== verification/Dash_Refinement.thy ===== *)
theory Dash_Refinement
  imports Dash_Insert
begin

text \<open>
  The dash table implements a finite map: whatever sequence of insertions, deletions and reservations it goes through,
  lookups return what the map holds and the size counter is the size of the map.
\<close>

subsection \<open>The new table\<close>

lemma new_fold:
  assumes "n \<le> length (dir t)" "next_addr t = 0" "heap t = (\<lambda>_. None)"
  shows "fold (\<lambda>i t. let (a, t1) = ConstructSegment P (global_depth t) i t in t1\<lparr>dir := (dir t1)[i := a]\<rparr>) [0..<n] t =
    t\<lparr>next_addr := n, dir := [0..<n] @ drop n (dir t), heap := (\<lambda>a. if a < n then Some (Segment_new P (global_depth t) a) else None),
      bucket_count := bucket_count t + n * kTotalBuckets P\<rparr>"
  using assms(1)
proof (induction n)
  case 0
  then show ?case using assms(2,3) by (cases t) simp
next
  case (Suc n)
  have d: "([0..<n] @ drop n (dir t))[n := n] = [0..<Suc n] @ drop (Suc n) (dir t)"
    using Suc.prems by (simp add: list_update_append Cons_nth_drop_Suc [symmetric])
  show ?case using Suc d by (simp add: ConstructSegment_def fun_eq_iff less_Suc_eq)
qed

lemma DashTable_new_spec:
  assumes P: "policy_ok P" and n: "n \<le> 32"
  shows "table_rep P (DashTable_new P n) Map.empty" "ids_ok (DashTable_new P n)" "global_depth (DashTable_new P n) = n"
proof -
  let ?t = "DashTable_new P n" let ?N = "2 ^ n :: nat"
  have t: "?t = \<lparr>dir = [0..<?N], heap = (\<lambda>a. if a < ?N then Some (Segment_new P n a) else None), next_addr = ?N, global_depth = n,
                 initial_depth = n, unique_segments = ?N, bucket_count = ?N * kTotalBuckets P, tsize = 0\<rparr>"
    unfolding DashTable_new_def Let_def [of "\<lparr>dir = _, heap = _, next_addr = _, global_depth = _, initial_depth = _, unique_segments = _, bucket_count = _, tsize = _\<rparr>"]
    by (subst new_fold) (simp_all cong: if_cong)
  have g: "i < ?N \<Longrightarrow> GetSegment i ?t = Segment_new P n i" for i by (simp add: t GetSegment_def)
  note N = Segment_new_ok [OF P, of n]
  have e: "entry_ok P ?t i (Segment_new P n i)" if "i < ?N" for i
    using that N by (simp add: entry_ok_def t chunk_def seg_keys_def)
  have "dir_ok P ?t" using n e by (auto simp: dir_ok_def t)
  moreover have it: "table_items P ?t = {#}" using N by (simp add: table_items_def t)
  moreover have "counts_ok P ?t" using it by (simp add: counts_ok_def t)
  ultimately show "table_rep P ?t Map.empty" by (simp add: table_rep_def)
  show gd: "global_depth ?t = n" by (simp add: t)
  have "length (dir ?t) = ?N" by (simp add: t)
  then show "ids_ok ?t" using N gd by (simp add: ids_ok_def g chunk_def)
qed

subsection \<open>The size counter\<close>

lemma items_count:
  assumes D: "dir_ok P t"
  shows "count (table_items P t) (k, v) \<le> 1"
proof -
  let ?x = "SegmentId (HashFn P k) t" let ?a = "dir t ! ?x"
  note x = SegmentId_in(1) [OF D, of "HashFn P k"]
  have a: "?a \<in> set (dir t)" using x by simp
  have z: "count (seg_items P (the (heap t b))) (k, v) = 0" if b: "b \<in> set (dir t) - {?a}" for b
  proof (rule ccontr)
    assume "count (seg_items P (the (heap t b))) (k, v) \<noteq> 0"
    then have kv: "(k, v) \<in># seg_items P (the (heap t b))" by (simp add: not_in_iff)
    obtain i where i: "i < length (dir t)" "b = dir t ! i" using b by (auto simp: in_set_conv_nth)
    then have "k \<in># seg_keys P (GetSegment i t)" using kv by (force simp: seg_keys_def GetSegment_def)
    then show False using key_segment [OF D i(1)] b i(2) by simp
  qed
  have "count (table_items P t) (k, v) = count (seg_items P (GetSegment ?x t)) (k, v)"
  proof -
    have "count (sum f B) y = (\<Sum>b \<in> B. count (f b) y)" for f :: "nat \<Rightarrow> ('a \<times> 'b) multiset" and B y
      by (induction B rule: infinite_finite_induct) simp_all
    then show ?thesis unfolding table_items_def sum.remove [OF finite_set a] using z by (simp add: GetSegment_def)
  qed
  also have "\<dots> \<le> count (seg_keys P (GetSegment ?x t)) k"
  proof -
    obtain A where "seg_items P (GetSegment ?x t) = replicate_mset (count (seg_items P (GetSegment ?x t)) (k, v)) (k, v) + A"
      by (metis count_le_replicate_mset_subset_eq le_refl subset_mset.add_diff_inverse)
    then have "seg_keys P (GetSegment ?x t) = replicate_mset (count (seg_items P (GetSegment ?x t)) (k, v)) k + image_mset fst A"
      by (metis (no_types) fst_conv image_replicate_mset image_mset_union seg_keys_def)
    then show ?thesis by (metis count_replicate_mset count_union le_add1)
  qed
  also have "\<dots> \<le> 1" by (rule entry_okD(5) [OF dir_okD(4) [OF D x]])
  finally show ?thesis .
qed

lemma size_card_dom:
  assumes "table_rep P t m"
  shows "tsize t = card (dom m)" "finite (dom m)"
proof -
  have D: "dir_ok P t" and T: "tsize t = size (table_items P t)" and m: "\<And>k v. (k, v) \<in># table_items P t \<longleftrightarrow> m k = Some v"
    using assms by (auto simp: table_rep_def counts_ok_def)
  have s: "set_mset (table_items P t) = Map.graph m" using m by (auto simp: graph_def)
  have "size (table_items P t) = card (set_mset (table_items P t))"
  proof -
    have "count (table_items P t) x = 1" if "x \<in># table_items P t" for x
      using items_count [OF D, of "fst x" "snd x"] that by (simp add: le_Suc_eq) (metis not_in_iff)
    then show ?thesis by (simp add: size_multiset_overloaded_eq)
  qed
  moreover have "card (Map.graph m) = card (dom m)" using inj_on_fst_graph [of m] card_image [of fst "Map.graph m"] fst_graph_eq_dom [of m] by simp
  ultimately show "tsize t = card (dom m)" using T s by simp
  show "finite (dom m)" using finite_set_mset [of "table_items P t"] s by (metis finite_graph_iff_finite_dom)
qed

subsection \<open>Sequences of operations\<close>

lemma floor_log2_bounds: "0 < n \<Longrightarrow> 2 ^ floor_log2 n \<le> n \<and> n < 2 ^ (floor_log2 n + 1)"
proof (induction n rule: floor_log2.induct)
  case (1 n)
  show ?case
  proof (cases "n \<le> 1")
    case True
    then show ?thesis using 1 by (simp add: floor_log2.simps [of n])
  next
    case False
    then show ?thesis using 1(1) [OF False] by (subst (1 2) floor_log2.simps) auto
  qed
qed

lemma reserve_depth:
  assumes "dir_ok P t" "length (dir t) \<le> f"
  shows "global_depth t < 1 + floor_log2 f"
proof -
  have "2 ^ global_depth t \<le> f" using assms dir_okD(1) by metis
  then have "(2 :: nat) ^ global_depth t < 2 ^ (floor_log2 f + 1)"
    using floor_log2_bounds [of f] by (metis le_less_trans less_le_trans zero_less_numeral zero_less_power)
  then show ?thesis by (simp only: power_strict_increasing_iff one_less_numeral_iff semiring_norm add.commute)
qed

lemma Reserve_spec:
  assumes "table_rep P t m" "global_depth (Reserve P n t) \<le> 32"
  shows "table_rep P (Reserve P n t) m" "ids_ok t \<Longrightarrow> ids_ok (Reserve P n t)"
proof -
  have D: "dir_ok P t" using assms(1) by (simp add: table_rep_def)
  let ?f = "(n - 1) div (kTotalBuckets P * kSlotNum P)"
  have "table_rep P (Reserve P n t) m \<and> (ids_ok t \<longrightarrow> ids_ok (Reserve P n t))"
  proof (cases "n \<le> bucket_count t * kSlotNum P \<or> ?f < length (dir t)")
    case True
    then show ?thesis using assms(1) by (auto simp: Reserve_def Let_def)
  next
    case False
    then have R: "Reserve P n t = IncreaseDepth (1 + floor_log2 ?f) t" by (auto simp: Reserve_def Let_def)
    have g: "global_depth t < 1 + floor_log2 ?f" using False by (intro reserve_depth [OF D]) simp
    then show ?thesis using IncreaseDepth_spec [OF D g] assms unfolding R by (auto simp: table_rep_def IncreaseDepth_depth)
  qed
  then show "table_rep P (Reserve P n t) m" "ids_ok t \<Longrightarrow> ids_ok (Reserve P n t)" by simp_all
qed

lemma Reserve_starts:
  assumes "dir_ok P t" "global_depth (Reserve P n t) \<le> 32"
  shows "starts_kept t (Reserve P n t)"
proof (cases "Reserve P n t = t")
  case False
  let ?f = "(n - 1) div (kTotalBuckets P * kSlotNum P)"
  have R: "Reserve P n t = IncreaseDepth (1 + floor_log2 ?f) t" "length (dir t) \<le> ?f" using False by (auto simp: Reserve_def Let_def split: if_splits)
  have "global_depth t < 1 + floor_log2 ?f" by (rule reserve_depth [OF assms(1) R(2)])
  then show ?thesis using IncreaseDepth_starts [OF assms(1)] assms(2) unfolding R(1) by (simp add: IncreaseDepth_depth)
qed simp

datatype ('k, 'v) dash_op = OpInsert 'k 'v | OpErase 'k | OpReserve nat

datatype dash_res = RInsert insert_exit | RErase nat | RDone

text \<open>A run of operations; it has no result when an insertion has none or when the directory outgrows 32-bit segment ids.\<close>

fun dash_step ::
  "('k, 'v) dash_policy \<Rightarrow> ('k, 'v) eviction_policy \<Rightarrow> nat \<Rightarrow> ('k, 'v) dash_op \<Rightarrow> ('k, 'v) dash_table \<Rightarrow> (dash_res \<times> ('k, 'v) dash_table) option" where
  "dash_step P ev fuel (OpInsert k v) t = map_option (apfst RInsert) (InsertInternal P ev k v kInsertIfNotFound fuel t)"
| "dash_step P ev fuel (OpErase k) t = Some (apfst RErase (Erase_key P k t))"
| "dash_step P ev fuel (OpReserve n) t = Some (RDone, Reserve P n t)"

primrec dash_run ::
  "('k, 'v) dash_policy \<Rightarrow> ('k, 'v) eviction_policy \<Rightarrow> nat \<Rightarrow> ('k, 'v) dash_op list \<Rightarrow> ('k, 'v) dash_table \<Rightarrow> (dash_res list \<times> ('k, 'v) dash_table) option" where
  "dash_run P ev fuel [] t = Some ([], t)"
| "dash_run P ev fuel (x # ops) t =
     (case dash_step P ev fuel x t of
        None \<Rightarrow> None
      | Some (r, t') \<Rightarrow> if global_depth t' \<le> 32 then map_option (apfst (Cons r)) (dash_run P ev fuel ops t') else None)"

text \<open>
  The map behind the table. An insertion that has to make room may lose other entries, never those that \<open>keep\<close> selects.
\<close>

fun map_next :: "('k \<Rightarrow> 'v \<Rightarrow> bool) \<Rightarrow> ('k, 'v) dash_op \<Rightarrow> dash_res \<Rightarrow> ('k \<Rightarrow> 'v option) \<Rightarrow> ('k \<Rightarrow> 'v option) \<Rightarrow> bool" where
  "map_next keep (OpInsert k v) (RInsert (Returned it True)) m m' \<longleftrightarrow>
     m k = None \<and> (\<exists>m0. sheds keep m m0 \<and> m' = m0(k \<mapsto> v))"
| "map_next keep (OpInsert k v) (RInsert (Returned it False)) m m' \<longleftrightarrow> m k \<noteq> None \<and> m' = m"
| "map_next keep (OpInsert k v) (RInsert BadAlloc) m m' \<longleftrightarrow> m k = None \<and> sheds keep m m'"
| "map_next keep (OpErase k) (RErase n) m m' \<longleftrightarrow> n = (if m k = None then 0 else 1) \<and> m' = m(k := None)"
| "map_next keep (OpReserve n) RDone m m' \<longleftrightarrow> m' = m"
| "map_next keep _ _ m m' \<longleftrightarrow> False"

fun map_run :: "('k \<Rightarrow> 'v \<Rightarrow> bool) \<Rightarrow> ('k, 'v) dash_op list \<Rightarrow> dash_res list \<Rightarrow> ('k \<Rightarrow> 'v option) \<Rightarrow> ('k \<Rightarrow> 'v option) \<Rightarrow> bool" where
  "map_run keep [] [] m m' \<longleftrightarrow> m' = m"
| "map_run keep (x # ops) (r # rs) m m' \<longleftrightarrow> (\<exists>u. map_next keep x r m u \<and> map_run keep ops rs u m')"
| "map_run keep _ _ m m' \<longleftrightarrow> False"

lemma Erase_key_starts:
  assumes "policy_ok P" "dir_ok P t"
  shows "starts_kept t (snd (Erase_key P k t))"
proof -
  let ?x = "SegmentId (HashFn P k) t"
  note E = entry_okD(1) [OF dir_okD(4) [OF assms(2) SegmentId_in(1) [OF assms(2)]], of "HashFn P k"]
  have "local_depth (segment_Delete P at h (GetSegment ?x t)) = local_depth (GetSegment ?x t)" for at h
    by (simp add: segment_Delete_def RemoveStashReference_def Let_def split_beta)
  then show ?thesis by (intro starts_kept_same) (auto simp: Erase_key_def Let_def GetSegment_put GetSegment_def split: option.splits)
qed

context eviction
begin

lemma dash_step_rep:
  assumes P: "policy_ok P" and T: "table_rep P t m" "dash_step P ev fuel x t = Some (r, t')" "global_depth t' \<le> 32"
  shows "\<exists>m'. map_next keep x r m m' \<and> table_rep P t' m' \<and> (ids_ok t \<longrightarrow> ids_ok t') \<and> starts_kept t t'"
proof (cases x)
  case (OpInsert k v)
  then obtain e where r: "r = RInsert e" and i: "insert_loop P ev k v kInsertIfNotFound fuel (SegmentId (HashFn P k) t) t = Some (e, t')"
    using T(2) by (auto simp: InsertInternal_def)
  note I = insert_loop_spec [OF P T(1) refl _ i T(3)]
  show ?thesis
  proof (cases e)
    case (Returned it new)
    then show ?thesis using I OpInsert r by (cases new) (auto simp: insert_post_def)
  next
    case BadAlloc
    then show ?thesis using I OpInsert r by (auto simp: insert_post_def)
  qed
next
  case (OpErase k)
  have D: "dir_ok P t" using T(1) by (simp add: table_rep_def)
  show ?thesis using Erase_key_spec [OF P T(1), of k] Erase_key_starts [OF P D, of k] T(2) OpErase by (auto split: prod.splits)
next
  case (OpReserve n)
  have D: "dir_ok P t" using T(1) by (simp add: table_rep_def)
  show ?thesis using Reserve_spec [OF T(1), of n] Reserve_starts [OF D, of n] T(2,3) OpReserve by auto
qed

lemma dash_run_rep:
  assumes P: "policy_ok P"
  shows "table_rep P t m \<Longrightarrow> dash_run P ev fuel ops t = Some (rs, t') \<Longrightarrow>
    \<exists>m'. map_run keep ops rs m m' \<and> table_rep P t' m' \<and> (ids_ok t \<longrightarrow> ids_ok t')"
proof (induction ops arbitrary: t m rs)
  case (Cons x ops)
  then obtain r u qs where u: "dash_step P ev fuel x t = Some (r, u)" "global_depth u \<le> 32" "dash_run P ev fuel ops u = Some (qs, t')" "rs = r # qs"
    by (auto split: option.splits if_splits)
  obtain m1 where m1: "map_next keep x r m m1" "table_rep P u m1" "ids_ok t \<longrightarrow> ids_ok u"
    using dash_step_rep [OF P Cons.prems(1) u(1,2)] by blast
  show ?case using Cons.IH [OF m1(2) u(3)] m1(1,3) u(4) by auto
qed simp

end

lemma Find_map:
  assumes "policy_ok P" "table_rep P t m"
  shows "map_option (entry_at P t) (Find P k t) = map_option (\<lambda>v. Some (k, v)) (m k)"
proof -
  have D: "dir_ok P t" and m: "\<And>k v. (k, v) \<in># table_items P t \<longleftrightarrow> m k = Some v" using assms(2) by (auto simp: table_rep_def)
  note F = Find_spec [OF assms(1) D, of k]
  show ?thesis
  proof (cases "Find P k t")
    case None
    then show ?thesis using F(1) m by (cases "m k") auto
  next
    case (Some it)
    then show ?thesis using F(2) [OF Some] m by auto
  qed
qed


definition example_policy :: "(u64, nat) dash_policy" where
  "example_policy = \<lparr>kSlotNum = 1, kBucketNum = 3, kUseVersion = True, HashFn = id, key_init = 0, value_init = 0\<rparr>"

definition example_ops :: "(u64, nat) dash_op list" where
  "example_ops = [OpInsert 1 10, OpInsert 2 20, OpErase 1, OpInsert 2 30]"




end
