(* ===== verification/Dash_Scan.thy ===== *)
theory Dash_Scan
  imports Dash_Refinement
begin

text \<open>
  \<^verbatim>\<open>DashTable::Traverse\<close>, the cursor scan behind SCAN, the expiry and the tombstone steps. A key has a position, its home bucket
  followed by the upper 32 bits of its hash, and a cursor is such a position too: one call visits exactly the entries between
  the cursor it gets and the cursor it returns. Positions do not change when the table grows, so a scan interleaved with
  insertions, deletions and growth visits every key that stays. They do not survive a merge of segments.
\<close>

subsection \<open>Cursors as positions\<close>

definition key_pos :: "('k, 'v) dash_policy \<Rightarrow> 'k \<Rightarrow> nat" where
  "key_pos P k = key_home P k * 2 ^ 32 + pfx (HashFn P k) 32"

definition seg32 :: "dash_cursor \<Rightarrow> nat" where
  "seg32 c = unat c div 2 ^ 8"

definition cursor_pos :: "dash_cursor \<Rightarrow> nat" where
  "cursor_pos c = bucket_id c * 2 ^ 32 + seg32 c"

lemma bucket_id_mod: "bucket_id c = unat c mod 2 ^ 8"
proof -
  have "c AND 0xFF = take_bit 8 c" by (simp add: take_bit_eq_mask mask_eq_exp_minus_1)
  then show ?thesis unfolding bucket_id_def by (simp only: unsigned_take_bit_eq) (simp add: take_bit_eq_mod)
qed

lemma unat_Cursor:
  assumes "g \<le> 32" "sid < 2 ^ g" "bid < 2 ^ 8"
  shows "unat (Cursor g sid bid) = sid * 2 ^ (40 - g) + bid"
proof -
  have e: "(2 :: nat) ^ 40 = 2 ^ g * 2 ^ (40 - g)" using assms(1) by (simp flip: power_add)
  have n64: "unat (of_nat n :: u64) = n" if "n < 2 ^ 40" for n
    using that unfolding unsigned_of_nat by (simp add: take_bit_nat_eq_self)
  have s: "sid * 2 ^ (40 - g) < 2 ^ 40" unfolding e using assms(2) by simp
  have u: "unat (push_bit (40 - g) (of_nat sid) :: u64) = sid * 2 ^ (40 - g)"
  proof -
    have "push_bit (40 - g) (of_nat sid) = (of_nat (sid * 2 ^ (40 - g)) :: u64)" by (simp add: push_bit_eq_mult)
    then show ?thesis using n64 [OF s] by (simp only:)
  qed
  have b: "unat (of_nat bid :: u64) = bid" using assms(3) by (intro n64) simp
  have d: "push_bit (40 - g) (of_nat sid :: u64) AND of_nat bid = 0"
  proof (rule bit_word_eqI)
    fix n assume "n < LENGTH(64)"
    have "bit bid n \<Longrightarrow> n < 8" using assms(3) by (metis bit_take_bit_iff take_bit_nat_eq_self_iff)
    then show "bit (push_bit (40 - g) (of_nat sid :: u64) AND of_nat bid) n = bit (0 :: u64) n"
      using assms(1) by (auto simp: bit_and_iff bit_push_bit_iff bit_of_nat_iff)
  qed
  have "Cursor g sid bid = push_bit (40 - g) (of_nat sid) + of_nat bid"
    unfolding Cursor_def using d by (rule disjunctive_add_eq_or [symmetric])
  moreover have "sid * 2 ^ (40 - g) + bid < 2 ^ 64" using s assms(3) by simp
  ultimately show ?thesis using u b unat_plus_no_wrap [of "push_bit (40 - g) (of_nat sid)" "of_nat bid"] by simp
qed

lemma Cursor_simps:
  assumes "g \<le> 32" "sid < 2 ^ g" "bid < 2 ^ 8"
  shows "bucket_id (Cursor g sid bid) = bid" "seg32 (Cursor g sid bid) = sid * 2 ^ (32 - g)"
    "cursor_pos (Cursor g sid bid) = bid * 2 ^ 32 + sid * 2 ^ (32 - g)"
proof -
  have "40 - g = (32 - g) + 8" using assms(1) by simp
  then have e: "(2 :: nat) ^ (40 - g) = 2 ^ (32 - g) * 2 ^ 8" by (simp only: power_add)
  note u = unat_Cursor [OF assms, unfolded e mult.assoc [symmetric]]
  show b: "bucket_id (Cursor g sid bid) = bid" unfolding bucket_id_mod u using assms(3) by simp
  show s: "seg32 (Cursor g sid bid) = sid * 2 ^ (32 - g)" unfolding seg32_def u using assms(3) by simp
  show "cursor_pos (Cursor g sid bid) = bid * 2 ^ 32 + sid * 2 ^ (32 - g)" by (simp add: cursor_pos_def b s)
qed

lemma cursor_segment_seg32:
  assumes "g \<le> 32" "seg32 c < 2 ^ 32"
  shows "cursor_segment g c = seg32 c div 2 ^ (32 - g)"
proof -
  have "40 - g = 8 + (32 - g)" using assms(1) by simp
  then have e: "(2 :: nat) ^ (40 - g) = 2 ^ 8 * 2 ^ (32 - g)" by (simp only: power_add)
  have "unat (drop_bit (40 - g) c) = unat c div 2 ^ (40 - g)" unfolding unat_drop_bit_eq by (simp add: drop_bit_eq_div)
  then have d: "unat (drop_bit (40 - g) c) = seg32 c div 2 ^ (32 - g)" unfolding e seg32_def by (simp add: div_mult2_eq)
  have "seg32 c div 2 ^ (32 - g) < 2 ^ 32" using assms(2) div_le_dividend le_less_trans by blast
  moreover have "unat (ucast (drop_bit (40 - g) c) :: u32) = unat (drop_bit (40 - g) c) mod 2 ^ 32"
    by (simp add: unsigned_ucast_eq take_bit_eq_mod)
  ultimately show ?thesis using d by (simp add: cursor_segment_def)
qed

text \<open>A cursor that a scan may hold: it stands at the first directory entry of a segment.\<close>

definition aligned :: "('k, 'v) dash_table \<Rightarrow> dash_cursor \<Rightarrow> bool" where
  "aligned t c \<longleftrightarrow> (\<exists>sid < length (dir t). seg32 c = sid * 2 ^ (32 - global_depth t) \<and> sid mod chunk t (GetSegment sid t) = 0)"

lemma alignedD:
  assumes D: "dir_ok P t" and A: "aligned t c"
  shows "cursor_segment (global_depth t) c < length (dir t)" "seg32 c = cursor_segment (global_depth t) c * 2 ^ (32 - global_depth t)"
    "cursor_segment (global_depth t) c mod chunk t (GetSegment (cursor_segment (global_depth t) c) t) = 0" "seg32 c < 2 ^ 32"
proof -
  obtain sid where s: "sid < length (dir t)" "seg32 c = sid * 2 ^ (32 - global_depth t)" "sid mod chunk t (GetSegment sid t) = 0"
    using A by (auto simp: aligned_def)
  have g: "global_depth t \<le> 32" using dir_okD(2) [OF D] .
  have "32 = global_depth t + (32 - global_depth t)" using g by simp
  then have e: "(2 :: nat) ^ 32 = 2 ^ global_depth t * 2 ^ (32 - global_depth t)" by (metis power_add)
  show l: "seg32 c < 2 ^ 32" unfolding e s(2) using s(1) dir_okD(1) [OF D] by simp
  have "cursor_segment (global_depth t) c = sid" using cursor_segment_seg32 [OF g l] s(2) by simp
  then show "cursor_segment (global_depth t) c < length (dir t)" "seg32 c = cursor_segment (global_depth t) c * 2 ^ (32 - global_depth t)"
    "cursor_segment (global_depth t) c mod chunk t (GetSegment (cursor_segment (global_depth t) c) t) = 0" using s by simp_all
qed

lemma aligned_0: "dir_ok P t \<Longrightarrow> aligned t 0"
  unfolding aligned_def by (intro exI [of _ 0]) (simp add: seg32_def dir_okD(1))

subsection \<open>One call\<close>

lemma NextSeg_aligned:
  assumes D: "dir_ok P t" and s: "sid < length (dir t)" "sid mod chunk t (GetSegment sid t) = 0" "NextSeg sid t < length (dir t)"
  shows "NextSeg sid t mod chunk t (GetSegment (NextSeg sid t) t) = 0"
proof (rule ccontr)
  let ?c = "chunk t (GetSegment sid t)" and ?n = "NextSeg sid t"
  let ?d = "chunk t (GetSegment ?n t)"
  assume a: "?n mod ?d \<noteq> 0"
  have n: "?n = sid + ?c" by (simp add: NextSeg_def chunk_def)
  have c: "0 < ?c" by (simp add: chunk_def)
  have "(?n - 1) div ?d = ?n div ?d" using a n c by (metis Suc_diff_1 add_gr_0 diff_Suc_1 div_Suc)
  then have 1: "dir t ! (?n - 1) = dir t ! ?n" using entry_okD(3) [OF dir_okD(4) [OF D s(3)], of "?n - 1"] s(3) by simp
  have q: "sid div ?c * ?c = sid" using s(2) by (metis add.right_neutral div_mult_mod_eq)
  have "(?n - 1) div ?c = sid div ?c" using q c n by (intro div_nat_eqI) (simp_all add: algebra_simps)
  then have 2: "dir t ! (?n - 1) = dir t ! sid" using entry_okD(3) [OF dir_okD(4) [OF D s(1)], of "?n - 1"] s(3) by simp
  have "?n div ?c = sid div ?c" using 1 2 entry_okD(3) [OF dir_okD(4) [OF D s(1)] s(3)] by simp
  moreover have "?n div ?c = sid div ?c + 1" using c by (simp add: n div_add_self2)
  ultimately show False by simp
qed

definition visits :: "('k, 'v) dash_policy \<Rightarrow> ('k, 'v) dash_table \<Rightarrow> (nat \<times> nat \<times> nat) list \<Rightarrow> nat \<Rightarrow> nat \<Rightarrow> bool" where
  "visits P t out p p' \<longleftrightarrow> (\<forall>it \<in> set out. \<exists>k v. entry_at P t it = Some (k, v) \<and> p \<le> key_pos P k \<and> key_pos P k < p') \<and>
     (\<forall>k v. (k, v) \<in># table_items P t \<longrightarrow> p \<le> key_pos P k \<longrightarrow> key_pos P k < p' \<longrightarrow> (\<exists>it \<in> set out. entry_at P t it = Some (k, v)))"

lemma visits_skip: "visits P t [] p q \<Longrightarrow> visits P t out q r \<Longrightarrow> p \<le> q \<Longrightarrow> q \<le> r \<Longrightarrow> visits P t out p r"
proof -
  assume a: "visits P t [] p q" "visits P t out q r" "p \<le> q" "q \<le> r"
  have "q \<le> key_pos P k" if "(k, v) \<in># table_items P t" "p \<le> key_pos P k" for k v
    using a(1) that by (force simp: visits_def not_le)
  then show ?thesis using a(2-4) unfolding visits_def by (meson le_trans)
qed

lemma visits_append:
  assumes "visits P t out p q" "visits P t out' q r" "p \<le> q" "q \<le> r"
  shows "visits P t (out @ out') p r"
  unfolding visits_def
proof (intro conjI ballI allI impI)
  fix it assume "it \<in> set (out @ out')"
  then show "\<exists>k v. entry_at P t it = Some (k, v) \<and> p \<le> key_pos P k \<and> key_pos P k < r"
    using assms unfolding visits_def set_append Un_iff by (meson le_trans less_le_trans)
next
  fix k v assume "(k, v) \<in># table_items P t" "p \<le> key_pos P k" "key_pos P k < r"
  then show "\<exists>it \<in> set (out @ out'). entry_at P t it = Some (k, v)"
    using assms(1,2) unfolding visits_def set_append by (cases "key_pos P k < q") (meson UnI1 UnI2 not_less)+
qed

lemma pfx_range:
  assumes "g \<le> 32"
  shows "a * 2 ^ (32 - g) \<le> pfx h 32 \<longleftrightarrow> a \<le> pfx h g" "pfx h 32 < b * 2 ^ (32 - g) \<longleftrightarrow> pfx h g < b"
  using pfx_shift [of g 32 h] assms by (simp_all add: less_eq_div_iff_mult_less_eq div_less_iff_less_mult)

lemma key_pos_range:
  assumes "sid \<le> m" "m \<le> n" "n * X = 2 ^ 32"
  shows "bid * 2 ^ 32 + sid * X \<le> key_pos P k \<and> key_pos P k < bid * 2 ^ 32 + m * X \<longleftrightarrow>
    key_home P k = bid \<and> sid * X \<le> pfx (HashFn P k) 32 \<and> pfx (HashFn P k) 32 < m * X"
proof -
  have l: "pfx (HashFn P k) 32 < 2 ^ 32" by (rule pfx_less) simp
  have m: "m * X \<le> 2 ^ 32" using assms(2,3) by (metis mult_le_mono1)
  show ?thesis
  proof (cases "key_home P k = bid")
    case True
    then show ?thesis by (simp add: key_pos_def)
  next
    case False
    then consider "key_home P k < bid" | "bid < key_home P k" by linarith
    then have "key_home P k * 2 ^ 32 + pfx (HashFn P k) 32 < bid * 2 ^ 32 \<or> bid * 2 ^ 32 + 2 ^ 32 \<le> key_home P k * 2 ^ 32"
    proof cases
      case 1
      then have "Suc (key_home P k) * 2 ^ 32 \<le> bid * 2 ^ 32" by (intro mult_le_mono1) simp
      then show ?thesis using l by simp
    next
      case 2
      then have "Suc bid * 2 ^ 32 \<le> key_home P k * 2 ^ 32" by (intro mult_le_mono1) simp
      then show ?thesis by simp
    qed
    then show ?thesis using False m unfolding key_pos_def by linarith
  qed
qed

lemma visit_bucket:
  assumes P: "policy_ok P" and D: "dir_ok P t" and b: "bid < kBucketNum P" and s: "sid < length (dir t)" "sid mod chunk t (GetSegment sid t) = 0"
  shows "visits P t (map (\<lambda>(i, j). (sid, i, j)) (TraverseLogicalBucket P bid (GetSegment sid t)))
      (bid * 2 ^ 32 + sid * 2 ^ (32 - global_depth t)) (bid * 2 ^ 32 + NextSeg sid t * 2 ^ (32 - global_depth t))" "NextSeg sid t \<le> length (dir t)"
proof -
  let ?s = "GetSegment sid t" and ?g = "global_depth t" let ?c = "chunk t ?s" and ?X = "2 ^ (32 - global_depth t) :: nat"
  note E = entry_okD [OF dir_okD(4) [OF D s(1)]]
  have g: "?g \<le> 32" "?g \<le> 64" using dir_okD(2) [OF D] by simp_all
  define cc where "cc = ?c"
  have n: "NextSeg sid t = sid + cc" by (simp add: NextSeg_def chunk_def cc_def)
  have c: "0 < cc" by (simp add: chunk_def cc_def)
  obtain q where q: "sid = q * cc" using s(2) by (metis add.right_neutral div_mult_mod_eq cc_def)
  have "2 ^ ?g = 2 ^ local_depth ?s * cc" using E(2) by (simp add: chunk_def cc_def flip: power_add)
  then have L: "length (dir t) = 2 ^ local_depth ?s * cc" using dir_okD(1) [OF D] by simp
  have "q * cc < 2 ^ local_depth ?s * cc" using s(1) unfolding L q [symmetric] .
  then have "Suc q * cc \<le> 2 ^ local_depth ?s * cc" by (intro mult_le_mono1) simp
  then show le: "NextSeg sid t \<le> length (dir t)" unfolding n L using q by simp
  have "32 = ?g + (32 - ?g)" using g by simp
  then have X: "length (dir t) * ?X = 2 ^ 32" unfolding dir_okD(1) [OF D] by (metis power_add)
  have home: "bid * 2 ^ 32 + sid * ?X \<le> key_pos P k \<and> key_pos P k < bid * 2 ^ 32 + NextSeg sid t * ?X \<longleftrightarrow>
      key_home P k = bid \<and> dir t ! SegmentId (HashFn P k) t = dir t ! sid" for k
  proof -
    have "dir t ! SegmentId (HashFn P k) t = dir t ! sid \<longleftrightarrow> sid \<le> pfx (HashFn P k) ?g \<and> pfx (HashFn P k) ?g < NextSeg sid t"
    proof -
      have "sid div cc = q" using q c by simp
      then have "dir t ! SegmentId (HashFn P k) t = dir t ! sid \<longleftrightarrow> pfx (HashFn P k) ?g div cc = q"
        using E(3) [OF SegmentId_in(1) [OF D, of "HashFn P k"]] unfolding SegmentId_pfx [OF g(2)] cc_def by simp
      then show ?thesis unfolding div_range [OF c] n q [symmetric] .
    qed
    moreover have "sid \<le> NextSeg sid t" by (simp add: n)
    ultimately show ?thesis using key_pos_range [OF _ le X, of sid bid P k] pfx_range [OF g(1)] by simp
  qed
  have set: "set (TraverseLogicalBucket P bid ?s) = home_slots P bid ?s" by (rule set_TraverseLogicalBucket [OF P E(1) b])
  show "visits P t (map (\<lambda>(i, j). (sid, i, j)) (TraverseLogicalBucket P bid ?s)) (bid * 2 ^ 32 + sid * ?X) (bid * 2 ^ 32 + NextSeg sid t * ?X)"
    unfolding visits_def
  proof (intro conjI ballI allI impI)
    fix it assume "it \<in> set (map (\<lambda>(i, j). (sid, i, j)) (TraverseLogicalBucket P bid ?s))"
    then obtain i j ce where it: "it = (sid, i, j)" "i < kTotalBuckets P" "j < kSlotNum P" "cells P (GetBucket i ?s) ! j = Some ce" "key_home P (cell_key ce) = bid"
      unfolding set_map set by (auto simp: home_slots_def)
    have "cell_item ce \<in># seg_items P ?s" by (rule entry_in_items [OF it(2-4)])
    then have "cell_key ce \<in># seg_keys P ?s" by (cases ce) (force simp: seg_keys_def)
    then have "dir t ! SegmentId (HashFn P (cell_key ce)) t = dir t ! sid" using key_segment [OF D s(1)] by simp
    then show "\<exists>k v. entry_at P t it = Some (k, v) \<and> bid * 2 ^ 32 + sid * ?X \<le> key_pos P k \<and> key_pos P k < bid * 2 ^ 32 + NextSeg sid t * ?X"
      using home [of "cell_key ce"] it s(1) by (cases ce) (simp add: entry_at_def)
  next
    fix k v assume kv: "(k, v) \<in># table_items P t" "bid * 2 ^ 32 + sid * ?X \<le> key_pos P k" "key_pos P k < bid * 2 ^ 32 + NextSeg sid t * ?X"
    then have h: "key_home P k = bid" "dir t ! SegmentId (HashFn P k) t = dir t ! sid" using home by blast+
    then have "(k, v) \<in># seg_items P ?s" using kv(1) in_table_items [OF D, of k v] by (simp add: GetSegment_def)
    then obtain ce where ce: "ce \<in># all_cells P ?s" "cell_item ce = (k, v)" by (auto simp: seg_items_def)
    then obtain i j where ij: "i < kTotalBuckets P" "j < kSlotNum P" "cells P (GetBucket i ?s) ! j = Some ce"
      unfolding in_all_cells by (auto simp: in_set_conv_nth)
    have "cell_key ce = k" using ce(2) by (cases ce) simp
    then have "(i, j) \<in> home_slots P bid ?s" using ij h(1) unfolding home_slots_def by blast
    then show "\<exists>it \<in> set (map (\<lambda>(i, j). (sid, i, j)) (TraverseLogicalBucket P bid ?s)). entry_at P t it = Some (k, v)"
      unfolding set_map set using ij ce(2) s(1) by (intro bexI [of _ "(sid, i, j)"]) (force simp: entry_at_def)+
  qed
qed

definition stop_pos :: "('k, 'v) dash_policy \<Rightarrow> dash_cursor \<Rightarrow> nat" where
  "stop_pos P c = (if c = cursor_end then kBucketNum P * 2 ^ 32 else cursor_pos c)"

text \<open>A cursor between two calls.\<close>

definition cursor_ok :: "('k, 'v) dash_policy \<Rightarrow> ('k, 'v) dash_table \<Rightarrow> dash_cursor \<Rightarrow> bool" where
  "cursor_ok P t c \<longleftrightarrow> aligned t c \<and> bucket_id c < kBucketNum P"

lemma Cursor_nonzero: "g \<le> 32 \<Longrightarrow> sid < 2 ^ g \<Longrightarrow> bid < 2 ^ 8 \<Longrightarrow> 0 < sid \<or> 0 < bid \<Longrightarrow> Cursor g sid bid \<noteq> 0"
  using unat_Cursor [of g sid bid] by auto

lemma traverse_loop_spec:
  assumes P: "policy_ok P" "kTotalBuckets P < 255" and D: "dir_ok P t"
  shows "bid < kBucketNum P \<Longrightarrow> sid < length (dir t) \<Longrightarrow> sid mod chunk t (GetSegment sid t) = 0 \<Longrightarrow> traverse_loop P t bid sid = (out, c) \<Longrightarrow>
    visits P t out (bid * 2 ^ 32 + sid * 2 ^ (32 - global_depth t)) (stop_pos P c) \<and>
    bid * 2 ^ 32 + sid * 2 ^ (32 - global_depth t) < stop_pos P c \<and> (c \<noteq> cursor_end \<longrightarrow> cursor_ok P t c \<and> out \<noteq> [])"
  using P(1) D P(2)
proof (induction P t bid sid arbitrary: out c rule: traverse_loop.induct)
  case (1 P t bid sid)
  let ?g = "global_depth t" and ?X = "2 ^ (32 - global_depth t) :: nat" and ?n = "NextSeg sid t" and ?l = "length (dir t)"
  define its where "its = TraverseLogicalBucket P bid (GetSegment sid t)"
  define out1 where "out1 = map (\<lambda>(index, slot). (sid, index, slot)) its"
  define sid2 where "sid2 = (if ?n \<ge> ?l then 0 else ?n)"
  define bid2 where "bid2 = (if ?n \<ge> ?l then bid + 1 else bid)"
  let ?p = "bid * 2 ^ 32 + sid * ?X" and ?q = "bid2 * 2 ^ 32 + sid2 * ?X"
  note V = visit_bucket [OF 1(6,7) 1(2,3,4), folded its_def, folded out1_def]
  have g: "?g \<le> 32" using dir_okD(2) [OF 1(7)] .
  have "32 = ?g + (32 - ?g)" using g by simp
  then have X: "?l * ?X = 2 ^ 32" unfolding dir_okD(1) [OF 1(7)] by (metis power_add)
  have q: "bid * 2 ^ 32 + ?n * ?X = ?q"
  proof (cases "?n \<ge> ?l")
    case True
    then have "?n = ?l" using V(2) by simp
    then show ?thesis using X by (simp add: sid2_def bid2_def)
  qed (simp add: sid2_def bid2_def)
  have pq: "?p < ?q" unfolding q [symmetric] using NextSeg_gt [of sid t] by simp
  have s2: "sid2 < ?l" "sid2 mod chunk t (GetSegment sid2 t) = 0"
    using NextSeg_aligned [OF 1(7) 1(3,4)] dir_okD(1) [OF 1(7)] by (auto simp: sid2_def not_le)
  have e: "traverse_loop P t bid sid = (if bid2 \<ge> kBucketNum P then (out1, cursor_end) else if its \<noteq> [] then (out1, Cursor ?g sid2 bid2) else traverse_loop P t bid2 sid2)"
    by (subst traverse_loop.simps) (simp add: Let_def its_def out1_def sid2_def bid2_def)
  have b8: "b < 2 ^ 8" if "b < kBucketNum P" for b using that 1(8) by (simp add: kTotalBuckets_def)
  have v: "visits P t out1 ?p ?q" using V(1) unfolding q .
  consider "bid2 \<ge> kBucketNum P" | "bid2 < kBucketNum P" "its \<noteq> []" | "bid2 < kBucketNum P" "its = []" by linarith
  then show ?case
  proof cases
    case 1
    then have "bid2 = kBucketNum P" "sid2 = 0" using \<open>bid < kBucketNum P\<close> by (auto simp: bid2_def sid2_def split: if_splits)
    then have "?q = stop_pos P c" "c = cursor_end" "out = out1" using e \<open>traverse_loop P t bid sid = (out, c)\<close> by (simp_all add: stop_pos_def)
    then show ?thesis using v pq by simp
  next
    case 2
    then have c: "c = Cursor ?g sid2 bid2" "out = out1" using e \<open>traverse_loop P t bid sid = (out, c)\<close> by simp_all
    have l: "sid2 < 2 ^ ?g" using s2(1) dir_okD(1) [OF \<open>dir_ok P t\<close>] by simp
    note C = Cursor_simps [OF g l b8 [OF 2(1)], folded c(1)]
    have "0 < sid2 \<or> 0 < bid2" using pq by (metis add_0 gr0I mult_0 not_less_zero)
    then have "c \<noteq> cursor_end" using Cursor_nonzero [OF g l b8 [OF 2(1)]] by (simp add: c(1) cursor_end_def)
    then have "stop_pos P c = ?q" using C(3) by (simp add: stop_pos_def)
    moreover have "cursor_ok P t c" unfolding cursor_ok_def aligned_def C(1,2) by (intro conjI exI [of _ sid2] s2 2(1) refl)
    moreover have "out \<noteq> []" using 2(2) by (simp add: c(2) out1_def)
    ultimately show ?thesis using v pq c(2) by simp
  next
    case 3
    then have t: "traverse_loop P t bid2 sid2 = (out, c)" using e \<open>traverse_loop P t bid sid = (out, c)\<close> by simp
    have IH: "visits P t out ?q (stop_pos P c) \<and> ?q < stop_pos P c \<and> (c \<noteq> cursor_end \<longrightarrow> cursor_ok P t c \<and> out \<noteq> [])"
      by (rule "1.IH" [OF its_def out1_def refl sid2_def bid2_def]) (use 3 s2 t "1.prems" in \<open>simp_all only: not_le not_not\<close>)
    moreover have "visits P t [] ?p ?q" using v 3(2) by (simp add: out1_def)
    ultimately show ?thesis using visits_skip pq less_imp_le less_trans by blast
  qed
qed

lemma Traverse_spec:
  assumes P: "policy_ok P" "kTotalBuckets P < 255" and D: "dir_ok P t" and c: "cursor_ok P t c" and r: "Traverse P c t = (out, c')"
  shows "visits P t out (cursor_pos c) (stop_pos P c')" "cursor_pos c < stop_pos P c'" "c' \<noteq> cursor_end \<Longrightarrow> cursor_ok P t c' \<and> out \<noteq> []"
proof -
  let ?sid = "cursor_segment (global_depth t) c"
  have A: "aligned t c" and b: "bucket_id c < kBucketNum P" using c by (simp_all add: cursor_ok_def)
  note s = alignedD [OF D A]
  have l: "traverse_loop P t (bucket_id c) ?sid = (out, c')" using r b s(1) by (simp add: Traverse_def Let_def)
  have p: "cursor_pos c = bucket_id c * 2 ^ 32 + ?sid * 2 ^ (32 - global_depth t)" unfolding cursor_pos_def using s(2) by simp
  show "visits P t out (cursor_pos c) (stop_pos P c')" "cursor_pos c < stop_pos P c'" "c' \<noteq> cursor_end \<Longrightarrow> cursor_ok P t c' \<and> out \<noteq> []"
    using traverse_loop_spec [OF P D b s(1,3) l] unfolding p by blast+
qed

subsection \<open>Scans interleaved with other operations\<close>

lemma aligned_kept:
  assumes "aligned t c" "starts_kept t t'" "global_depth t' \<le> 32"
  shows "aligned t' c"
proof -
  obtain sid where s: "sid < length (dir t)" "seg32 c = sid * 2 ^ (32 - global_depth t)" "sid mod chunk t (GetSegment sid t) = 0"
    using assms(1) by (auto simp: aligned_def)
  let ?y = "sid * 2 ^ (global_depth t' - global_depth t)"
  have "32 - global_depth t = (global_depth t' - global_depth t) + (32 - global_depth t')" using starts_keptD(1) [OF assms(2)] assms(3) by simp
  then have "seg32 c = ?y * 2 ^ (32 - global_depth t')" unfolding s(2) by (simp only: power_add mult.assoc)
  then show ?thesis unfolding aligned_def using starts_keptD(2,3) [OF assms(2) s(1,3)] by (intro exI [of _ ?y]) simp
qed

text \<open>
  A scan: the table, the cursor, whether the end was reached, the keys that have been in the table since the scan began, and the
  keys that were visited. Between two calls of \<^verbatim>\<open>Traverse\<close> any operations on the table may run.
\<close>

definition table_keys :: "('k, 'v) dash_policy \<Rightarrow> ('k, 'v) dash_table \<Rightarrow> 'k set" where
  "table_keys P t = fst ` set_mset (table_items P t)"

definition keys_at :: "('k, 'v) dash_policy \<Rightarrow> ('k, 'v) dash_table \<Rightarrow> (nat \<times> nat \<times> nat) list \<Rightarrow> 'k set" where
  "keys_at P t out = {k. \<exists>it \<in> set out. \<exists>v. entry_at P t it = Some (k, v)}"

inductive scan ::
  "('k, 'v) dash_policy \<Rightarrow> ('k, 'v) eviction_policy \<Rightarrow> nat \<Rightarrow> ('k, 'v) dash_table \<Rightarrow> dash_cursor \<Rightarrow> bool \<Rightarrow> 'k set \<Rightarrow> 'k set \<Rightarrow> bool"
  for P ev fuel where
  scan_start: "table_rep P t m \<Longrightarrow> scan P ev fuel t 0 False (table_keys P t) {}"
| scan_call: "scan P ev fuel t c False S V \<Longrightarrow> Traverse P c t = (out, c') \<Longrightarrow>
    scan P ev fuel t c' (c' = cursor_end) S (V \<union> keys_at P t out)"
| scan_other: "scan P ev fuel t c False S V \<Longrightarrow> dash_step P ev fuel x t = Some (r, t') \<Longrightarrow> global_depth t' \<le> 32 \<Longrightarrow>
    scan P ev fuel t' c False (S \<inter> table_keys P t') V"

lemma table_keys_rep: "table_rep P t m \<Longrightarrow> table_keys P t = dom m"
  by (force simp: table_keys_def table_rep_def)

lemma entry_at_items:
  assumes D: "dir_ok P t" and e: "entry_at P t it = Some (k, v)"
  shows "(k, v) \<in># table_items P t"
proof -
  obtain sid i j ce where it: "it = (sid, i, j)" "sid < length (dir t)" "i < kTotalBuckets P" "j < kSlotNum P"
    "cells P (GetBucket i (GetSegment sid t)) ! j = Some ce" "cell_item ce = (k, v)"
    using e by (cases it) (auto simp: entry_at_def simp del: cell_item.simps split: if_splits)
  have "(k, v) \<in># seg_items P (GetSegment sid t)" using entry_in_items [OF it(3-5)] it(6) by simp
  moreover have "dir t ! sid \<in> set (dir t)" using it(2) by simp
  ultimately show ?thesis by (auto simp: table_items_def GetSegment_def set_mset_sum)
qed

lemma key_pos_bound: "policy_ok P \<Longrightarrow> key_pos P k < kBucketNum P * 2 ^ 32"
proof -
  assume P: "policy_ok P"
  have "key_home P k < kBucketNum P" using P by simp
  then have "Suc (key_home P k) * 2 ^ 32 \<le> kBucketNum P * 2 ^ 32" by (intro mult_le_mono1) simp
  moreover have "pfx (HashFn P k) 32 < 2 ^ 32" by (rule pfx_less) simp
  ultimately show ?thesis by (simp add: key_pos_def)
qed

lemma cursor_pos_bound:
  assumes "dir_ok P t" "cursor_ok P t c"
  shows "cursor_pos c \<le> kBucketNum P * 2 ^ 32"
proof -
  have "seg32 c < 2 ^ 32" using alignedD(4) [OF assms(1)] assms(2) by (simp add: cursor_ok_def)
  moreover have "Suc (bucket_id c) * 2 ^ 32 \<le> kBucketNum P * 2 ^ 32" using assms(2) by (intro mult_le_mono1) (simp add: cursor_ok_def)
  ultimately show ?thesis by (simp add: cursor_pos_def)
qed

lemma visits_keys: "visits P t out p p' \<Longrightarrow> k \<in> table_keys P t \<Longrightarrow> p \<le> key_pos P k \<Longrightarrow> key_pos P k < p' \<Longrightarrow> k \<in> keys_at P t out"
  unfolding visits_def table_keys_def keys_at_def by fastforce

lemma scan_inv:
  assumes E: "eviction P keep ev" and P: "policy_ok P" "kTotalBuckets P < 255"
  shows "scan P ev fuel t c fin S V \<Longrightarrow> (\<exists>m. table_rep P t m) \<and> S \<subseteq> table_keys P t \<and>
    (fin \<longrightarrow> S \<subseteq> V) \<and> (\<not> fin \<longrightarrow> cursor_ok P t c \<and> (\<forall>k \<in> S. key_pos P k < cursor_pos c \<longrightarrow> k \<in> V))"
proof (induction rule: scan.induct)
  case (scan_start t m)
  then have "dir_ok P t" by (simp add: table_rep_def)
  moreover have "bucket_id 0 = 0" "cursor_pos 0 = 0" by (simp_all add: bucket_id_mod cursor_pos_def seg32_def)
  moreover have "0 < kBucketNum P" using P(1) by (simp add: policy_ok_def)
  ultimately show ?case using scan_start aligned_0 by (auto simp: cursor_ok_def)
next
  case (scan_call t c S V out c')
  then obtain m where m: "table_rep P t m" by blast
  then have D: "dir_ok P t" by (simp add: table_rep_def)
  have c: "cursor_ok P t c" and S: "S \<subseteq> table_keys P t" and V: "\<forall>k \<in> S. key_pos P k < cursor_pos c \<longrightarrow> k \<in> V" using scan_call by auto
  note T = Traverse_spec [OF P D c scan_call(2)]
  have "k \<in> V \<union> keys_at P t out" if "k \<in> S" "key_pos P k < stop_pos P c'" for k
    using visits_keys [OF T(1), of k] that S V by (cases "key_pos P k < cursor_pos c") auto
  then have "(c' = cursor_end \<longrightarrow> S \<subseteq> V \<union> keys_at P t out) \<and> (c' \<noteq> cursor_end \<longrightarrow> (\<forall>k \<in> S. key_pos P k < cursor_pos c' \<longrightarrow> k \<in> V \<union> keys_at P t out))"
    using key_pos_bound [OF P(1)] unfolding stop_pos_def by (cases "c' = cursor_end") auto
  then show ?case using T(3) m S by blast
next
  case (scan_other t c S V x r t')
  then obtain m where m: "table_rep P t m" by blast
  obtain m' where m': "table_rep P t' m'" "starts_kept t t'" using eviction.dash_step_rep [OF E P(1) m scan_other(2,3)] by blast
  then show ?case using scan_other aligned_kept [OF _ m'(2) scan_other(3)] by (auto simp: cursor_ok_def)
qed

text \<open>C5: A scan that reaches its end has visited every key that was in the table when the scan began and stayed there, whatever
  insertions, deletions, evictions and growth of the table ran between the calls.\<close>

theorem traverse_covers:
  assumes "eviction P keep ev" "policy_ok P" "kTotalBuckets P < 255" "scan P ev fuel t c True S V"
  shows "S \<subseteq> V"
  using scan_inv [OF assms] by simp

definition scan_ops :: "(u64, nat) dash_op list" where
  "scan_ops = [OpInsert 512 7]"

definition scan_table :: "(u64, nat) dash_table" where
  "scan_table = snd (the (dash_run example_policy DefaultEvictionPolicy 1 scan_ops (DashTable_new example_policy 0)))"

definition scan_table2 :: "(u64, nat) dash_table" where
  "scan_table2 = snd (the (dash_step example_policy DefaultEvictionPolicy 1 (OpInsert 5 8) scan_table))"

lemma example_policy_ok: "policy_ok example_policy" "kTotalBuckets example_policy < 255"
  by code_simp+

lemma scan_table_rep: "table_rep example_policy scan_table [512 \<mapsto> 7]"
proof -
  let ?P = example_policy and ?ev = "DefaultEvictionPolicy :: (u64, nat) eviction_policy"
  have "map_option fst (dash_run ?P ?ev 1 scan_ops (DashTable_new ?P 0)) = Some [RInsert (Returned (0, 2, 0) True)]" by code_simp
  then have r: "dash_run ?P ?ev 1 scan_ops (DashTable_new ?P 0) = Some ([RInsert (Returned (0, 2, 0) True)], scan_table)" by (auto simp: scan_table_def)
  obtain m where m: "map_run (\<lambda>_ _. True) scan_ops [RInsert (Returned (0, 2, 0) True)] Map.empty m" "table_rep ?P scan_table m"
    using default_ev.dash_run_rep [OF example_policy_ok(1) DashTable_new_spec(1) [OF example_policy_ok(1) le0] r] by auto
  then have "m = [512 \<mapsto> 7]" by (simp add: scan_ops_def DefaultEvictionPolicy_def)
  then show ?thesis using m(2) by simp
qed

lemma scan_table2_step:
  "dash_step example_policy DefaultEvictionPolicy 1 (OpInsert 5 8) scan_table = Some (RInsert (Returned (0, 0, 0) True), scan_table2)"
  "global_depth scan_table2 \<le> 32" "tsize scan_table2 < 3"
proof -
  have "map_option fst (dash_step example_policy DefaultEvictionPolicy 1 (OpInsert 5 8) scan_table) = Some (RInsert (Returned (0, 0, 0) True))"
    by code_simp
  then show "dash_step example_policy DefaultEvictionPolicy 1 (OpInsert 5 8) scan_table = Some (RInsert (Returned (0, 0, 0) True), scan_table2)"
    by (auto simp: scan_table2_def)
  show "global_depth scan_table2 \<le> 32" "tsize scan_table2 < 3" by code_simp+
qed

lemma scan_table2_rep: "table_rep example_policy scan_table2 [512 \<mapsto> 7, 5 \<mapsto> 8]"
  using default_ev.dash_step_rep [OF example_policy_ok(1) scan_table_rep scan_table2_step(1,2)] by (auto simp: DefaultEvictionPolicy_def)

theorem traverse_covers_witness:
  "scan example_policy DefaultEvictionPolicy 1 scan_table2 cursor_end True {512} {5, 512} \<and> {512 :: u64} \<subseteq> {5, 512}"
proof -
  let ?P = example_policy and ?ev = "DefaultEvictionPolicy :: (u64, nat) eviction_policy"
  have 1: "scan ?P ?ev 1 scan_table 0 False {512} {}" using scan_start [OF scan_table_rep] table_keys_rep [OF scan_table_rep] by simp
  have 2: "scan ?P ?ev 1 scan_table2 0 False {512} {}"
    using scan_other [OF 1 scan_table2_step(1,2)] table_keys_rep [OF scan_table2_rep] by simp
  have t: "Traverse ?P 0 scan_table2 = ([(0, 0, 0)], 1)" "Traverse ?P 1 scan_table2 = ([(0, 2, 0)], 0)" by code_simp+
  have at: "entry_at ?P scan_table2 (0, 0, 0) = Some (5, 8)" "entry_at ?P scan_table2 (0, 2, 0) = Some (512, 7)" by code_simp+
  have 3: "scan ?P ?ev 1 scan_table2 1 False {512} {5}" using scan_call [OF 2 t(1)] at by (simp add: keys_at_def cursor_end_def)
  have 4: "scan ?P ?ev 1 scan_table2 cursor_end True {512} {5, 512}" using scan_call [OF 3 t(2)] at by (simp add: keys_at_def cursor_end_def insert_commute)
  then show ?thesis using traverse_covers [OF default_ev.eviction_axioms example_policy_ok 4] by simp
qed

text \<open>The loop of the callers: \<^verbatim>\<open>Traverse\<close> until the cursor is zero.\<close>

fun traverse_all :: "('k, 'v) dash_policy \<Rightarrow> nat \<Rightarrow> dash_cursor \<Rightarrow> ('k, 'v) dash_table \<Rightarrow> (nat \<times> nat \<times> nat) list option" where
  "traverse_all P 0 cursor t = None"
| "traverse_all P (Suc n) cursor t =
     (let (out, cursor1) = Traverse P cursor t
      in if cursor1 = cursor_end then Some out else map_option ((@) out) (traverse_all P n cursor1 t))"

lemma traverse_all_spec:
  assumes P: "policy_ok P" "kTotalBuckets P < 255" and T: "table_rep P t m"
  shows "cursor_ok P t c \<Longrightarrow> card {k \<in> dom m. cursor_pos c \<le> key_pos P k} < n \<Longrightarrow>
    \<exists>out. traverse_all P n c t = Some out \<and> visits P t out (cursor_pos c) (kBucketNum P * 2 ^ 32)"
proof (induction n arbitrary: c)
  case (Suc n)
  have D: "dir_ok P t" using T by (simp add: table_rep_def)
  obtain out c' where r: "Traverse P c t = (out, c')" by fastforce
  note S = Traverse_spec [OF P D Suc.prems(1) r]
  show ?case
  proof (cases "c' = cursor_end")
    case True
    then show ?thesis using S(1) r by (auto simp: stop_pos_def)
  next
    case False
    have c': "cursor_ok P t c'" "out \<noteq> []" and s: "stop_pos P c' = cursor_pos c'" using S(3) False by (auto simp: stop_pos_def)
    obtain k v where k: "(k, v) \<in># table_items P t" "cursor_pos c \<le> key_pos P k" "key_pos P k < cursor_pos c'"
      using S(1) c'(2) s entry_at_items [OF D] unfolding visits_def by (metis last_in_set)
    have "finite (dom m)" "k \<in> dom m" using size_card_dom(2) [OF T] k(1) T by (auto simp: table_rep_def)
    moreover have "{k \<in> dom m. cursor_pos c' \<le> key_pos P k} \<subseteq> {k \<in> dom m. cursor_pos c \<le> key_pos P k} - {k}" using k S(2) s by auto
    ultimately have "card {k \<in> dom m. cursor_pos c' \<le> key_pos P k} < card {k \<in> dom m. cursor_pos c \<le> key_pos P k}"
      using k(2) by (intro psubset_card_mono) auto
    then obtain out' where o: "traverse_all P n c' t = Some out'" "visits P t out' (cursor_pos c') (kBucketNum P * 2 ^ 32)"
      using Suc.IH [OF c'(1)] Suc.prems(2) by auto
    have "visits P t (out @ out') (cursor_pos c) (kBucketNum P * 2 ^ 32)"
      using visits_append [OF S(1) [unfolded s] o(2)] S(2) s cursor_pos_bound [OF D c'(1)] by simp
    then show ?thesis using o(1) r False by simp
  qed
qed simp

text \<open>C17: The traversal loop of a table that does not change ends after at most one call more than the table has entries, and what
  it visits are exactly the entries of the table.\<close>

theorem traverse_all_ends:
  assumes "policy_ok P" "kTotalBuckets P < 255" "table_rep P t m" "tsize t < n"
  shows "\<exists>out. traverse_all P n 0 t = Some out \<and> (\<forall>k v. m k = Some v \<longleftrightarrow> (\<exists>it \<in> set out. entry_at P t it = Some (k, v)))"
proof -
  have D: "dir_ok P t" and m: "\<And>k v. (k, v) \<in># table_items P t \<longleftrightarrow> m k = Some v" using assms(3) by (auto simp: table_rep_def)
  have z: "cursor_pos 0 = 0" "cursor_ok P t 0" using assms(1) aligned_0 [OF D] by (simp_all add: bucket_id_mod cursor_pos_def seg32_def cursor_ok_def policy_ok_def)
  have "card {k \<in> dom m. cursor_pos 0 \<le> key_pos P k} < n" using size_card_dom(1) [OF assms(3)] assms(4) by (simp add: z(1) dom_def)
  then obtain out where o: "traverse_all P n 0 t = Some out" "visits P t out 0 (kBucketNum P * 2 ^ 32)"
    using traverse_all_spec [OF assms(1-3) z(2)] by (auto simp: z(1))
  have "m k = Some v \<longleftrightarrow> (\<exists>it \<in> set out. entry_at P t it = Some (k, v))" for k v
    using o(2) key_pos_bound [OF assms(1), of k] entry_at_items [OF D] m unfolding visits_def by blast
  then show ?thesis using o(1) by blast
qed

theorem traverse_all_ends_witness:
  "\<exists>out. traverse_all example_policy 3 0 scan_table2 = Some out \<and> (\<exists>it \<in> set out. entry_at example_policy scan_table2 it = Some (512, 7))"
proof -
  have "([512 \<mapsto> 7, 5 \<mapsto> 8] :: u64 \<Rightarrow> nat option) 512 = Some 7" by simp
  then show ?thesis using traverse_all_ends [OF example_policy_ok scan_table2_rep scan_table2_step(3)] by blast
qed

end
