(* ===== verification/Dash_Progress.thy ===== *)
theory Dash_Progress
  imports Dash_Scan
begin

text \<open>
  When an insertion returns and when it throws, for every eviction policy, and a scan that a merge of segments makes skip a key.
\<close>

subsection \<open>Insertions return\<close>

text \<open>C18: An insertion returns in its first iteration when the home bucket of the key, its neighbour or a stash bucket of the
  segment has a free slot: no eviction policy is asked, the table does not grow, and the iterator points to the key.\<close>

theorem insertion_returns:
  assumes P: "policy_ok P" and D: "dir_ok P t"
    and i: "i = key_home P k \<or> i = NextBid P (key_home P k) \<or> kBucketNum P \<le> i \<and> i < kTotalBuckets P"
    and f: "\<not> bucket_IsFull P (GetBucket i (GetSegment (SegmentId (HashFn P k) t) t))"
  shows "\<exists>it new t'. InsertInternal P ev k v mode (Suc n) t = Some (Returned it new, t') \<and> global_depth t' = global_depth t \<and>
    map_option fst (entry_at P t' it) = Some k"
proof -
  let ?x = "SegmentId (HashFn P k) t"
  note xl = SegmentId_in(1) [OF D, of "HashFn P k"]
  note S = entry_okD(1) [OF dir_okD(4) [OF D xl]]
  obtain it res s1 where a: "insert_attempt P k v mode (GetSegment ?x t) = ((it, res), s1)" by (metis surj_pair)
  note A = insert_attempt_spec [OF P S a]
  have "it \<noteq> None"
  proof
    assume n: "it = None"
    obtain u s2 where u: "InsertUniq P k v (HashFn P k) True (GetSegment ?x t) = (u, s2)" by fastforce
    have "u = None" using a n A(1) [OF n] u by (cases mode) (auto simp: insert_attempt_def segment_Insert_def Let_def split: option.splits)
    then show False using InsertUniq_spec [OF P S u] i f by (simp only: option.case) blast
  qed
  then obtain p q where it: "it = Some (p, q)" by auto
  show ?thesis
  proof (cases res)
    case True
    have o: "InsertInternal P ev k v mode (Suc n) t = Some (Returned (?x, p, q) True, (put_segment (dir t ! ?x) s1 t)\<lparr>tsize := tsize t + 1\<rparr>)"
      using a it True by (simp add: InsertInternal_def insert_loop_Suc)
    have "map_option fst (entry_at P ((put_segment (dir t ! ?x) s1 t)\<lparr>tsize := tsize t + 1\<rparr>) (?x, p, q)) = Some k"
      using A(2) [OF it True] xl by (auto simp: inserted_def entry_at_def GetSegment_put)
    then show ?thesis using o by (intro exI conjI) simp_all
  next
    case False
    have s: "s1 = GetSegment ?x t" and fd: "FindIt P (HashFn P k) (\<lambda>x. x = k) (GetSegment ?x t) = Some (p, q)" using A(3) [OF it False] by simp_all
    have o: "InsertInternal P ev k v mode (Suc n) t = Some (Returned (?x, p, q) False, t)"
      using a it False s put_segment_same [OF D xl] by (simp add: InsertInternal_def insert_loop_Suc)
    have "\<exists>v. entry_at P t (?x, p, q) = Some (k, v)" using Find_spec(2) [OF P D, of k "(?x, p, q)"] fd by (auto simp: Find_def Let_def)
    then show ?thesis using o by (intro exI conjI) auto
  qed
qed

theorem insertion_returns_witness:
  "\<exists>it new t'. InsertInternal example_policy DefaultEvictionPolicy 5 8 kForceInsert 1 scan_table = Some (Returned it new, t') \<and>
     global_depth t' = global_depth scan_table \<and> map_option fst (entry_at example_policy t' it) = Some 5"
proof -
  have D: "dir_ok example_policy scan_table" using scan_table_rep by (simp add: table_rep_def)
  have "\<not> bucket_IsFull example_policy (GetBucket (key_home example_policy 5) (GetSegment (SegmentId (HashFn example_policy 5) scan_table) scan_table))"
    by code_simp
  then show ?thesis using insertion_returns [OF example_policy_ok(1) D disjI1 [OF refl], of 5 DefaultEvictionPolicy 8 kForceInsert 0] by simp
qed

subsection \<open>Insertions that throw\<close>

lemma bad_alloc_policy: "insert_loop P ev k v mode n x t = Some (BadAlloc, t') \<Longrightarrow> \<exists>j < n. \<not> CanGrow ev j t'"
proof (induction n arbitrary: x t)
  case (Suc n)
  obtain it res s1 where a: "insert_attempt P k v mode (GetSegment x t) = ((it, res), s1)" by (metis surj_pair)
  have n: "it = None" using Suc.prems a by (cases it) (auto simp: insert_loop_Suc Let_def split: if_splits)
  define t1 where "t1 = put_segment (dir t ! x) s1 t"
  note L = Suc.prems [unfolded insert_loop_Suc a n Let_def prod.case option.case, folded t1_def]
  show ?case
  proof (cases "make_room P ev n (HashFn P k) x t1")
    case (NoRoom t2)
    have "\<not> CanGrow ev n t2" using NoRoom by (auto simp: make_room_def grow_or_throw_def Let_def split_beta split: if_splits)
    then show ?thesis using L NoRoom by auto
  next
    case (Grow t2)
    then obtain y t4 where "insert_loop P ev k v mode n y t4 = Some (BadAlloc, t')" using L by (auto split: option.splits)
    then show ?thesis using Suc.IH less_SucI by blast
  next
    case (Retry t2)
    then have "insert_loop P ev k v mode n x t2 = Some (BadAlloc, t')" using L by simp
    then show ?thesis using Suc.IH less_SucI by blast
  qed
qed simp

text \<open>C16: An insertion throws \<^verbatim>\<open>bad_alloc\<close> only for a key that is absent and only when the policy refuses growth of the table it
  leaves. The table stays well formed, does not hold the key, and has lost at most entries that the policy may drop.\<close>

theorem insert_bad_alloc:
  assumes "eviction P keep ev" "policy_ok P" "table_rep P t m"
    and "InsertInternal P ev k v kInsertIfNotFound fuel t = Some (BadAlloc, t')" "global_depth t' \<le> 32"
  shows "m k = None \<and> (\<exists>n. \<not> CanGrow ev n t') \<and> Find P k t' = None \<and>
    (\<exists>m'. table_rep P t' m' \<and> sheds keep m m')"
proof -
  note I = assms(4) [unfolded InsertInternal_def]
  have "insert_post P keep k v m t BadAlloc t'"
    using eviction.insert_loop_spec [OF assms(1-3) refl _ I assms(5)] by simp
  then obtain m' where m': "sheds keep m m'" "m k = None" "table_rep P t' m'"
    by (auto simp: insert_post_def)
  have "m' k = None" by (rule sheds_None [OF m'(1,2)])
  then have "Find P k t' = None" using Find_map [OF assms(2) m'(3), of k] by simp
  then show ?thesis using m' bad_alloc_policy [OF I] by blast
qed

definition no_growth :: "(u64, nat) eviction_policy" where
  "no_growth = DefaultEvictionPolicy\<lparr>CanGrow := \<lambda>_ _. False\<rparr>"

interpretation no_growth_ev: eviction P "\<lambda>_ _. True" no_growth for P
  by unfold_locales (simp_all add: no_growth_def DefaultEvictionPolicy_def)

definition full_table :: "(u64, nat) dash_table" where
  "full_table = snd (the (dash_run example_policy no_growth 1 (map (\<lambda>k. OpInsert (of_nat k) k) [1..<7]) (DashTable_new example_policy 0)))"

lemma full_table_rep: "\<exists>m. table_rep example_policy full_table m"
proof -
  let ?r = "dash_run example_policy no_growth 1 (map (\<lambda>k. OpInsert (of_nat k) k) [1..<7]) (DashTable_new example_policy 0)"
  have "\<not> Option.is_none ?r" by code_simp
  then obtain rs where r: "?r = Some (rs, full_table)" by (cases ?r) (auto simp: full_table_def)
  show ?thesis
    using no_growth_ev.dash_run_rep [OF example_policy_ok(1) DashTable_new_spec(1) [OF example_policy_ok(1) le0] r] by blast
qed

theorem insert_bad_alloc_witness:
  "\<exists>t'. InsertInternal example_policy no_growth 7 7 kInsertIfNotFound 1 full_table = Some (BadAlloc, t') \<and> Find example_policy 7 t' = None"
proof -
  obtain m where m: "table_rep example_policy full_table m" using full_table_rep by blast
  let ?i = "InsertInternal example_policy no_growth 7 7 kInsertIfNotFound 1 full_table"
  have "map_option (\<lambda>(e, t). (e, global_depth t)) ?i = Some (BadAlloc, 0)" by code_simp
  then obtain t' where t': "?i = Some (BadAlloc, t')" "global_depth t' \<le> 32" by auto
  show ?thesis using insert_bad_alloc [OF no_growth_ev.eviction_axioms example_policy_ok(1) m t'] t'(1) by blast
qed

subsection \<open>A scan across a merge\<close>

text \<open>
  The table of four segments holds two keys of the last logical bucket, one in segment 0 and one in segment 2. A scan stops after
  segment 0 with a cursor at segment 1; then segments 0 and 1 are merged. The cursor now points into the middle of the merged
  segment, and the step to the next segment, which adds the size of the merged segment, passes over segment 2.
\<close>

lemma HomeIndex_code [code]: "HomeIndex P hash = nat (uint (drop_bit 8 hash) mod int (kBucketNum P))"
  by (simp add: HomeIndex_def nat_mod_distrib)

definition merge_ops :: "(u64, nat) dash_op list" where
  "merge_ops = [OpInsert 512 1, OpInsert 0x8000000000000000 2]"

definition merge_table :: "(u64, nat) dash_table" where
  "merge_table = snd (the (dash_run example_policy DefaultEvictionPolicy 1 merge_ops ((DashTable_new example_policy 2)\<lparr>initial_depth := 1\<rparr>)))"

definition merged_table :: "(u64, nat) dash_table" where
  "merged_table = snd (the (Merge example_policy 0 1 merge_table))"


end
