(* ===== verification/Dash_Evict.thy ===== *)
theory Dash_Evict
  imports Dash_Progress
begin

text \<open>
  \<^verbatim>\<open>PrimeEvictionPolicy\<close> of \<^verbatim>\<open>src/server/db_slice.cc\<close>, the policy of the table of keys: expired keys are collected from the buckets
  around the home of the new key, one entry of a stash bucket is evicted, and growth is refused when memory is short. What it
  reads of the database (expiry, stickiness, transaction locks, memory statistics) are the fields of a record. The policy meets
  the contract of the insertion loop.
\<close>

subsection \<open>The policy\<close>

record ('k, 'v) prime_env =
  WillBlockOnJournalWrite :: "nat \<Rightarrow> bool"
  HasExpire :: "'k \<Rightarrow> bool"
  Expires :: "'k \<Rightarrow> 'v \<Rightarrow> bool"
  IsSticky :: "'k \<Rightarrow> bool"
  IsLocked :: "'k \<Rightarrow> bool"
  may_evict :: bool
  apply_memory_limit :: bool
  mem_available :: "nat \<Rightarrow> int"
  soft_limit :: int
  obj_memory_usage :: "nat \<Rightarrow> nat"
  growth_margin :: "nat \<Rightarrow> nat"
  kSegBytes :: nat

definition prime_CanGrow :: "('k, 'v) dash_policy \<Rightarrow> ('k, 'v) prime_env \<Rightarrow> nat \<Rightarrow> ('k, 'v) dash_table \<Rightarrow> bool" where
  "prime_CanGrow P E n t =
     (if \<not> apply_memory_limit E \<or> mem_available E n > soft_limit E then True
      else let table_free_items = (bucket_count t * kSlotNum P - tsize t) + kTotalBuckets P * kSlotNum P;
               avg_obj_size = obj_memory_usage E n div tsize t;
               obj_bytes_estimation = growth_margin E (avg_obj_size * table_free_items)
           in mem_available E n > int (kSegBytes E + obj_bytes_estimation))"

text \<open>One slot of a bucket: \<open>Expires\<close> tells whether \<^verbatim>\<open>ExpireIfNeeded\<close> deletes the entry.\<close>

definition gc_slot ::
  "('k, 'v) dash_policy \<Rightarrow> ('k, 'v) prime_env \<Rightarrow> nat \<Rightarrow> nat \<Rightarrow> nat \<Rightarrow> nat \<times> ('k, 'v) dash_table \<Rightarrow> nat \<times> ('k, 'v) dash_table" where
  "gc_slot P E sid bid slot = (\<lambda>(res, t).
     let b = GetBucket bid (GetSegment sid t)
     in if bit (bucket_GetBusy P b) slot \<and> HasExpire E (bkey b ! slot) \<and> Expires E (bkey b ! slot) (bvalue b ! slot)
        then (res + 1, Erase_it P (sid, bid, slot) t) else (res, t))"

definition prime_GarbageCollect ::
  "('k, 'v) dash_policy \<Rightarrow> ('k, 'v) prime_env \<Rightarrow> nat \<Rightarrow> hot_buckets \<Rightarrow> ('k, 'v) dash_table \<Rightarrow> nat \<times> ('k, 'v) dash_table" where
  "prime_GarbageCollect P E n eb t =
     (if WillBlockOnJournalWrite E n then (0, t)
      else fold (\<lambda>bid. fold (gc_slot P E (hot_segment eb) bid) [0..<kSlotNum P]) (regular_buckets eb) (0, t))"

text \<open>Eviction takes the last slot of a stash bucket that the hash of the new key selects.\<close>

definition prime_Evict ::
  "('k, 'v) dash_policy \<Rightarrow> ('k, 'v) prime_env \<Rightarrow> nat \<Rightarrow> hot_buckets \<Rightarrow> ('k, 'v) dash_table \<Rightarrow> nat \<times> ('k, 'v) dash_table" where
  "prime_Evict P E n eb t =
     (if \<not> may_evict E \<or> WillBlockOnJournalWrite E n then (0, t)
      else let sid = hot_segment eb; bid = stash_buckets eb ! unat (hot_hash eb mod 4); last_slot = kSlotNum P - 1;
               b = GetBucket bid (GetSegment sid t)
           in if bit (bucket_GetBusy P b) last_slot then
                (if IsSticky E (bkey b ! last_slot) \<or> IsLocked E (bkey b ! last_slot) then (0, t)
                 else (1, snd (table_ShiftRight P sid bid (Erase_it P (sid, bid, last_slot) t))))
              else (1, snd (table_ShiftRight P sid bid t)))"

definition PrimeEvictionPolicy :: "('k, 'v) dash_policy \<Rightarrow> ('k, 'v) prime_env \<Rightarrow> ('k, 'v) eviction_policy" where
  "PrimeEvictionPolicy P E =
     \<lparr>can_gc = True, can_evict = True, CanGrow = prime_CanGrow P E, GarbageCollect = prime_GarbageCollect P E, Evict = prime_Evict P E\<rparr>"

subsection \<open>Deleting through an iterator\<close>

lemma busy_cell: "slot < kSlotNum P \<Longrightarrow> bit (bucket_GetBusy P b) slot \<Longrightarrow>
    cells P b ! slot = Some (bkey b ! slot, bvalue b ! slot, finger_arr b ! slot, bit (bucket_GetProbe P True b) slot)"
  by (simp add: cells_def)

lemma segment_Delete_layout:
  "local_depth (segment_Delete P at h s) = local_depth s" "segment_id (segment_Delete P at h s) = segment_id s"
  by (simp_all add: segment_Delete_def RemoveStashReference_def Let_def split_beta)

text \<open>The entries the policy never drops.\<close>

definition spared :: "('k, 'v) prime_env \<Rightarrow> 'k \<Rightarrow> 'v \<Rightarrow> bool" where
  "spared E k v \<longleftrightarrow> \<not> (HasExpire E k \<and> Expires E k v) \<and> (\<not> may_evict E \<or> IsSticky E k \<or> IsLocked E k)"

lemma Erase_it_pruned:
  assumes P: "policy_ok P" and x: "x < length (dir t)" and i: "i < kTotalBuckets P" "j < kSlotNum P"
    and b: "bit (bucket_GetBusy P (GetBucket i (GetSegment x t))) j"
    and n: "\<not> keep (bkey (GetBucket i (GetSegment x t)) ! j) (bvalue (GetBucket i (GetSegment x t)) ! j)"
  shows "pruned P keep t (Erase_it P (x, i, j) t)"
proof -
  let ?s = "GetSegment x t" let ?b = "GetBucket i ?s" let ?k = "bkey ?b ! j" and ?t = "Erase_it P (x, i, j) t"
  note c = busy_cell [OF i(2) b]
  have t: "?t = (put_segment (dir t ! x) (segment_Delete P (i, j) (HashFn P ?k) ?s) t)\<lparr>tsize := tsize t - 1\<rparr>"
    by (simp add: Erase_it_def Let_def)
  have "sheds keep q (q(?k := None)) \<and> table_rep P ?t (q(?k := None))" if "table_rep P t q" for q
    using delete_entry(1,2) [OF P that x i c _ t] n by (auto simp: sheds_def map_le_def)
  moreover have "local_depth (GetSegment y ?t) = local_depth (GetSegment y t)" "segment_id (GetSegment y ?t) = segment_id (GetSegment y t)" for y
    by (simp_all add: t GetSegment_put segment_Delete_layout) (simp_all add: GetSegment_def)
  moreover have "dir ?t = dir t" "global_depth ?t = global_depth t" by (simp_all add: t)
  ultimately show ?thesis unfolding pruned_def by blast
qed

lemma Erase_it_stash_cell:
  assumes P: "policy_ok P" and D: "dir_ok P t" and x: "x < length (dir t)" and i: "kBucketNum P \<le> i" "i < kTotalBuckets P" "j < kSlotNum P"
    and b: "bit (bucket_GetBusy P (GetBucket i (GetSegment x t))) j"
  shows "\<not> bit (bucket_GetBusy P (GetBucket i (GetSegment x (Erase_it P (x, i, j) t)))) j"
proof -
  let ?s = "GetSegment x t" let ?b = "GetBucket i ?s" let ?r = "RemoveStashReference P (i - kBucketNum P) (HashFn P (bkey ?b ! j)) ?s"
  have sh: "shape_ok P ?s" using entry_okD(1) [OF dir_okD(4) [OF D x]] by (simp add: seg_ok_def)
  note L = shape_okD(1) [OF sh]
  have r: "GetBucket i ?r = ?b" by (rule RemoveStashReference_other [OF P L i(1)])
  have l: "length (seg_bucket ?r) = kTotalBuckets P" using L by (simp add: RemoveStashReference_def Let_def split_beta)
  have "GetBucket i (GetSegment x (Erase_it P (x, i, j) t)) = bucket_Delete P j ?b"
    using i x l r by (simp add: Erase_it_def Let_def GetSegment_put segment_Delete_def GetBucket_put)
  moreover have "cells P (bucket_Delete P j ?b) = (cells P ?b)[j := None]"
    using cells_Delete(2) [OF shape_okD(2) [OF sh i(2)] i(3)] busy_cell [OF i(3) b] by simp
  ultimately show ?thesis using busy_cell [OF i(3), of "bucket_Delete P j ?b"] i(3) by auto
qed

subsection \<open>Shifting a bucket whose last slot is free\<close>

lemma somes_append: "somes (xs @ ys) = somes xs + somes ys"
  by (induction xs) (auto split: option.splits)

lemma ShiftRight_same_content:
  assumes P: "policy_ok P" and S: "seg_ok P s" and i: "kBucketNum P \<le> i" "i < kTotalBuckets P"
    and b: "\<not> bit (bucket_GetBusy P (GetBucket i s)) (kSlotNum P - 1)"
  shows "\<not> fst (segment_ShiftRight P i h s)" "same_content P s (snd (segment_ShiftRight P i h s))"
proof -
  let ?b = "GetBucket i s" let ?c = "cells P ?b" let ?n = "snd (bucket_ShiftRight P ?b)"
  have sh: "shape_ok P s" "acct P s (stashed P s)" using S by (simp_all add: seg_ok_def)
  note D = shape_okD [OF sh(1)]
  have k: "0 < kSlotNum P" using P by (simp add: policy_ok_def)
  have ne: "?c \<noteq> []" using k by (metis length_cells less_numeral_extra(3) list.size(3))
  have "last ?c = None" using b k ne by (simp add: last_conv_nth cells_def)
  then have ap: "?c = butlast ?c @ [None]" using append_butlast_last_id [OF ne] by simp
  have rep: "bucket_rep P ?b ?c" using D(2) [OF i(2)] by (simp add: bucket_rep_iff)
  note R = bucket_ShiftRight_rep [OF rep k]
  have n: "bucket_ok P ?n" "cells P ?n = None # butlast ?c" using R(2) by (simp_all add: bucket_rep_iff)
  have eq: "segment_ShiftRight P i h s = (fst (bucket_ShiftRight P ?b), put_bucket i ?n s)"
    using b by (simp add: segment_ShiftRight_def Let_def split_beta)
  show "\<not> fst (segment_ShiftRight P i h s)" using R(1) \<open>last ?c = None\<close> eq by simp
  have so: "somes (cells P ?n) = somes ?c" by (subst ap) (simp add: n(2) somes_append)
  have "set (cells P ?n) = set ?c" by (subst ap) (simp add: n(2))
  then have "shape_ok P (put_bucket i ?n s)" using D(5) [OF i(2)] i(1) n(1) by (intro shape_put [OF sh(1) i(2)]) auto
  moreover have "stashed P (put_bucket i ?n s) = stashed P s"
  proof
    fix y
    have "i = kBucketNum P + (i - kBucketNum P)" "i - kBucketNum P < 4" using i by (auto simp: kTotalBuckets_def kStashBucketNum_def)
    then show "stashed P (put_bucket i ?n s) y = stashed P s y"
      using stashed_put_stash [of "i - kBucketNum P" s P ?n y] D(1) so by simp
  qed
  moreover have "same_stash ?b ?n" by (simp add: same_stash_def bucket_ShiftRight_def split_beta)
  then have "acct P (put_bucket i ?n s) (stashed P s)" using D(1) i(2) by (intro acct_put_same [OF sh(2)]) auto
  moreover have "all_cells P (put_bucket i ?n s) = all_cells P s" using all_cells_put [OF i(2) D(1), of ?n] so by simp
  ultimately show "same_content P s (snd (segment_ShiftRight P i h s))" by (simp add: eq same_content_def seg_ok_def seg_items_def)
qed

lemma table_ShiftRight_pruned:
  assumes P: "policy_ok P" and T: "table_rep P t m" and x: "x < length (dir t)" and i: "kBucketNum P \<le> i" "i < kTotalBuckets P"
    and b: "\<not> bit (bucket_GetBusy P (GetBucket i (GetSegment x t))) (kSlotNum P - 1)"
  shows "pruned P keep t (snd (table_ShiftRight P x i t))"
proof -
  have S: "seg_ok P (GetSegment x t)" using T entry_okD(1) [OF dir_okD(4) [OF _ x]] by (simp add: table_rep_def)
  note C = ShiftRight_same_content [OF P S i b, of 0]
  have "snd (table_ShiftRight P x i t) = put_segment (dir t ! x) (snd (segment_ShiftRight P i 0 (GetSegment x t))) t"
    using b C(1) by (simp add: table_ShiftRight_def Let_def split_beta)
  then show ?thesis using pruned_same_content [OF T x C(2)] by simp
qed

subsection \<open>The contract\<close>

lemma pruned_fold:
  assumes f: "\<And>y r t m. y \<in> set ys \<Longrightarrow> table_rep P t m \<Longrightarrow> sid < length (dir t) \<Longrightarrow> pruned P keep t (snd (f y (r, t)))"
  shows "table_rep P t m \<Longrightarrow> sid < length (dir t) \<Longrightarrow> pruned P keep t (snd (fold f ys (r, t)))"
  using f
proof (induction ys arbitrary: r t m)
  case (Cons y ys)
  obtain r1 t1 where y: "f y (r, t) = (r1, t1)" by fastforce
  have p: "pruned P keep t t1" using Cons.prems(3) [of y t m r] Cons.prems(1,2) y by simp
  obtain m1 where "table_rep P t1 m1" using prunedD(5) [OF p Cons.prems(1)] by blast
  then have "pruned P keep t1 (snd (fold f ys (r1, t1)))" using Cons.IH [of t1 m1 r1] Cons.prems(2,3) prunedD(1) [OF p] by simp
  then show ?case using pruned_trans [OF p] y by simp
qed simp

lemma gc_slot_pruned:
  assumes "policy_ok P" "bid < kTotalBuckets P" "slot < kSlotNum P" "sid < length (dir t)"
  shows "pruned P (spared E) t (snd (gc_slot P E sid bid slot (r, t)))"
  using Erase_it_pruned [OF assms(1,4,2,3), of "spared E"] by (simp add: gc_slot_def Let_def spared_def)

lemma gc_pruned:
  assumes P: "policy_ok P" and T: "table_rep P t m" "sid < length (dir t)"
  shows "pruned P (spared E) t (snd (prime_GarbageCollect P E n (hotspot P h sid) t))"
proof -
  have b: "bid < kTotalBuckets P" if "bid \<in> set (FillProbeArray P h)" for bid
    using that P by (auto simp: FillProbeArray_def Let_def)
  have "pruned P (spared E) t (snd (fold (\<lambda>bid. fold (gc_slot P E sid bid) [0..<kSlotNum P]) (FillProbeArray P h) (0, t)))"
    using gc_slot_pruned [OF P b] by (intro pruned_fold [OF _ T] pruned_fold) auto
  then show ?thesis by (simp add: prime_GarbageCollect_def hotspot_def)
qed

lemma evict_pruned:
  assumes P: "policy_ok P" and T: "table_rep P t m" and x: "sid < length (dir t)"
  shows "pruned P (spared E) t (snd (prime_Evict P E n (hotspot P h sid) t))"
proof -
  let ?bid = "kBucketNum P + unat (h mod 4)" and ?l = "kSlotNum P - 1"
  have "h mod 4 < 4" by (rule word_mod_less_divisor) simp
  then have h: "unat (h mod 4) < 4" by (simp add: word_less_nat_alt)
  have i: "kBucketNum P \<le> ?bid" "?bid < kTotalBuckets P" "?l < kSlotNum P" using h P by (simp_all add: policy_ok_def)
  have bid: "stash_buckets (hotspot P h sid) ! unat (hot_hash (hotspot P h sid) mod 4) = ?bid" using h by (simp add: hotspot_def kStashBucketNum_def)
  have D: "dir_ok P t" using T by (simp add: table_rep_def)
  have "pruned P (spared E) t (snd (table_ShiftRight P sid ?bid (Erase_it P (sid, ?bid, ?l) t)))"
    if b: "bit (bucket_GetBusy P (GetBucket ?bid (GetSegment sid t))) ?l" and
      n: "\<not> spared E (bkey (GetBucket ?bid (GetSegment sid t)) ! ?l) (bvalue (GetBucket ?bid (GetSegment sid t)) ! ?l)"
  proof -
    note p = Erase_it_pruned [OF P x i(2,3) b, of "spared E", OF n]
    obtain m1 where T1: "table_rep P (Erase_it P (sid, ?bid, ?l) t) m1" using prunedD(5) [OF p T] by blast
    have "sid < length (dir (Erase_it P (sid, ?bid, ?l) t))" using x prunedD(1) [OF p] by simp
    from table_ShiftRight_pruned [OF P T1 this i(1,2) Erase_it_stash_cell [OF P D x i b]] show ?thesis by (rule pruned_trans [OF p])
  qed
  then show ?thesis using table_ShiftRight_pruned [OF P T x i(1,2)] unfolding prime_Evict_def Let_def bid by (simp add: hotspot_def spared_def)
qed

lemma fold_depth: "(\<And>y r t. global_depth (snd (f y (r, t))) = global_depth t) \<Longrightarrow> global_depth (snd (fold f ys (r, t))) = global_depth t"
proof (induction ys arbitrary: r t)
  case (Cons y ys)
  then show ?case by (cases "f y (r, t)") (metis fold_simps(2) snd_conv)
qed simp

lemma evict_step_depth:
  "global_depth (Erase_it P it t) = global_depth t" "global_depth (snd (table_ShiftRight P x i t)) = global_depth t"
  by (simp_all add: Erase_it_def table_ShiftRight_def Let_def split_beta)

lemma gc_slot_depth: "global_depth (snd (gc_slot P E sid bid slot (r, t))) = global_depth t"
  by (simp add: gc_slot_def Let_def evict_step_depth)

interpretation prime_ev: eviction P "spared E" "PrimeEvictionPolicy P E" for P E
proof unfold_locales
  fix n hot t
  show "global_depth (snd (GarbageCollect (PrimeEvictionPolicy P E) n hot t)) = global_depth t"
    by (simp add: PrimeEvictionPolicy_def prime_GarbageCollect_def fold_depth gc_slot_depth)
  show "global_depth (snd (Evict (PrimeEvictionPolicy P E) n hot t)) = global_depth t"
    by (simp add: PrimeEvictionPolicy_def prime_Evict_def Let_def evict_step_depth)
qed (simp_all add: PrimeEvictionPolicy_def gc_pruned evict_pruned)


definition example_env :: "(u64, nat) prime_env" where
  "example_env = \<lparr>WillBlockOnJournalWrite = (\<lambda>_. False), HasExpire = (\<lambda>_. False), Expires = (\<lambda>_ _. False), IsSticky = (\<lambda>k. k = 5), IsLocked = (\<lambda>_. False),
     may_evict = True, apply_memory_limit = True, mem_available = (\<lambda>_. 0), soft_limit = 0, obj_memory_usage = (\<lambda>_. 600), growth_margin = id, kSegBytes = 100\<rparr>"


end
