(* ===== verification/Spec2Isabelle.thy ===== *)
theory Spec2Isabelle
  imports Peer_Manager Lww_Refinement Tx_Queue Dash_Evict
begin

text \<open>
  A verification development for drakeydb, a fork of the in-memory store Dragonfly with KeyDB-style multi-master replication
  (``active replica''). The sources are below \<^verbatim>\<open>src/src\<close>; paths in the theories are relative to it.

  \<^bold>\<open>The program.\<close> Keys are divided over shards, each owned by one thread. A command becomes a transaction; on every shard it
  touches, the transaction waits in the queue of the shard (\<^verbatim>\<open>core/tx_queue.h\<close>) and runs as a hop
  (\<^verbatim>\<open>server/transaction.cc\<close>), which calls the handler of the command (\<^verbatim>\<open>server/string_family.cc\<close>,
  \<^verbatim>\<open>server/generic_family.cc\<close>). Handlers reach the data through the slice of the shard (\<^verbatim>\<open>server/db_slice.cc\<close>): a table of keys, a
  table of MVCC stamps and counters (\<^verbatim>\<open>server/table.h\<close>), all of them dash tables (\<^verbatim>\<open>core/dash.h\<close>). Writes arm keys in the
  thread-local stamper (\<^verbatim>\<open>server/mvcc.cc\<close>); when the write is journalled (\<^verbatim>\<open>server/journal\<close>) a stamp is minted and committed to the
  armed keys. Journal entries travel to peers, which apply them under a last-write-wins guard
  (\<^verbatim>\<open>server/multimaster_lww.cc\<close>) that compares stamps; the links to peers are managed by \<^verbatim>\<open>server/peer_replication.cc\<close>.

  \<^bold>\<open>The theories.\<close>

  \<^item> \<^verbatim>\<open>Dfly_Prelude\<close>: machine integers, keys, lemma collections and generic facts on words, lists and association lists.
  \<^item> \<^verbatim>\<open>Lww_Register\<close>: the locale \<open>version_order\<close> (what merging relies on of the order of versions) and the last-write-wins
    register over it, with convergence. \<^verbatim>\<open>Mvcc_Stamp\<close> (\<^verbatim>\<open>MvccClock\<close>, \<^verbatim>\<open>MvccStamp\<close>, \<^verbatim>\<open>MergeAccepts\<close>, expiry tombstones, floors of applied
    writes) interprets it on the order of stamps.
  \<^item> \<^verbatim>\<open>Mvcc_Stamper\<close>: \<^verbatim>\<open>MvccStamper\<close> with its byte arena; arming followed by \<^verbatim>\<open>Commit\<close> refines an abstract list of pending arms.
  \<^item> \<^verbatim>\<open>Kv_Table\<close>, \<^verbatim>\<open>Db_Table\<close>: the contract \<open>kv_store\<close> of the tables and \<^verbatim>\<open>DbTable\<close> with the side table and its accounting.
  \<^item> \<^verbatim>\<open>Journal_Codec\<close>, \<^verbatim>\<open>Journal_Slice\<close>, \<^verbatim>\<open>Journal_Record\<close>: the wire format with its round trip, the circular backlog with its
    invariant, and \<^verbatim>\<open>RecordEntry\<close> with minting and commit.
  \<^item> \<^verbatim>\<open>Db_Slice\<close>, \<^verbatim>\<open>Slice_Access\<close>: post-update, deletion, expiry and the tombstone collector of \<^verbatim>\<open>DbSlice\<close>; lookup with lazy expiry,
    find-or-insert, expiry times.
  \<^item> \<^verbatim>\<open>Multimaster_Lww\<close>, \<^verbatim>\<open>Set_Command\<close>, \<^verbatim>\<open>Key_Commands\<close>, \<^verbatim>\<open>Transaction_Run\<close>: the streaming guard, SET and MSET, DEL, the EXPIRE family,
    PERSIST, STICK and EXPIRETIME, and one hop of a transaction.
  \<^item> \<^verbatim>\<open>Shard_Invariant\<close>, \<^verbatim>\<open>Access_Invariant\<close>, \<^verbatim>\<open>Mint_Frame\<close>, \<^verbatim>\<open>Command_Invariant\<close>: the invariant that ties keys, stamps and pending arms
    together, carried through every operation and every handler.
  \<^item> \<^verbatim>\<open>Hop_Safety\<close>, \<^verbatim>\<open>Lww_Refinement\<close>: the theorems over whole commands. No sequence of hops fails a check of the source; replicated
    SETs refine the register, so shards that received the same writes agree; guarded DEL and local SET have the stated effect.
  \<^item> \<^verbatim>\<open>Tx_Queue\<close>: the transaction queue refines a list sorted by score.
  \<^item> \<^verbatim>\<open>Multi_Master\<close>, \<^verbatim>\<open>Peer_Replication\<close>, \<^verbatim>\<open>Peer_Manager\<close>: boot flags and origin indices, identity claims, tiebreak, the synchronisation
    gate and the manager of links, with the interleavings of concurrent calls as step relations.
  \<^item> \<^verbatim>\<open>Slot_Bitmap\<close>, \<^verbatim>\<open>Dash_Bucket\<close>, \<^verbatim>\<open>Dash_Segment\<close>: slot bitmaps, buckets and segments of \<^verbatim>\<open>core/dash_internal.h\<close>; bitmaps and buckets
    implement lists of optional entries. \<^verbatim>\<open>Dash_Invariant\<close>, \<^verbatim>\<open>Dash_Moves\<close>, \<^verbatim>\<open>Dash_Split\<close>, \<^verbatim>\<open>Dash_Views\<close>: the invariant of a segment and
    the effect of each operation on the multiset of its entries; the buckets announced before an insertion.
  \<^item> \<^verbatim>\<open>Dash_Table\<close>: directory, lookup, insertion, growth, merge, clear, relocation and cursors of \<^verbatim>\<open>core/dash.h\<close>.
    \<^verbatim>\<open>Dash_Directory\<close>, \<^verbatim>\<open>Dash_Growth\<close>: the invariant of the directory and its preservation by growth. \<^verbatim>\<open>Dash_Insert\<close>: the insertion
    loop over the locale \<open>eviction\<close>, the contract of an eviction policy. \<^verbatim>\<open>Dash_Refinement\<close>: the table is a finite map.
    \<^verbatim>\<open>Dash_Scan\<close>: cursor scans interleaved with other operations, and their end. \<^verbatim>\<open>Dash_Progress\<close>: when an insertion returns and when
    it throws, and a merge that makes a scan miss a key. \<^verbatim>\<open>Dash_Evict\<close>: \<^verbatim>\<open>PrimeEvictionPolicy\<close> meets the contract and spares
    sticky and locked keys.

  \<^bold>\<open>Conventions.\<close> Structures of the source are records, its methods functions that return the changed state. Integers are words
  of their width where wrap-around matters, natural numbers where the invariants bound them. A failed \<^verbatim>\<open>CHECK\<close>, \<^verbatim>\<open>assert\<close> or
  \<^verbatim>\<open>LOG(FATAL)\<close> is \<^term>\<open>None\<close>; an exception and an error reply are values. Strings are lists of bytes or characters. Calls into
  parts outside the model (blocking controller, tiered storage, search index, connections, the network side of a link) are
  recorded as effects in call order. What the hash functions, clocks, memory statistics and settings return are arguments.

  \<^bold>\<open>Bounds and fuel.\<close> Only the insertion loop of the dash table has fuel: the number of splits is not bounded when hashes agree on
  many bits, and a policy may keep asking for retries. Its theorems hold for every amount of fuel with which it returns;
  \<open>insertion_returns\<close> gives a case in which one iteration is enough. The loop around \<^verbatim>\<open>Traverse\<close> has fuel as well, and
  \<open>traverse_all_ends\<close> shows that one more than the number of entries is enough. All other loops are total functions. The directory is
  assumed to stay within the 32 bits of a segment id in a cursor, and a segment to have fewer than 255 buckets (it has 60).

  \<^bold>\<open>Not modelled.\<close> Values other than strings are opaque, so the families of hashes, lists, sets, sorted sets, streams, JSON, geo and
  probabilistic structures are left out, as are their encodings (\<^verbatim>\<open>core/compact_object\<close>, \<^verbatim>\<open>core/dense_set\<close>, \<^verbatim>\<open>core/oah_set\<close> and others).
  RDB saving and loading and snapshots, full synchronisation and the network side of replication, cluster mode, search, tiered
  storage, Lua, ACL, and the protocol and connection layer are I/O or depend on libraries and the fiber scheduler. Of the
  transaction framework only the hop and the queue are covered: the locking and scheduling of multi-shard transactions
  (\<^verbatim>\<open>ScheduleInShard\<close>, \<^verbatim>\<open>PollExecution\<close>) is concurrent code over several threads. Of the dash table, \<^verbatim>\<open>Merge\<close>, \<^verbatim>\<open>Clear\<close>, \<^verbatim>\<open>BumpUp\<close> and
  \<^verbatim>\<open>TryRelocateSegment\<close> have definitions but are not operations of the refinement theorem; iterators, prefetching and pinning are
  left out. Logging and metrics are nowhere modelled.
\<close>

end
